(* ===== verification/Prelude.thy ===== *)
theory Prelude
  imports Main "HOL-Library.Multiset" "HOL-Library.Word"
begin

text \<open>
  Shared vocabulary of the development: the types that stand for Go's machine types, in-place
  exchange of two elements of a slice, the relation ``only the elements of a range were permuted'',
  and sortedness of a range of a slice with respect to a comparison given as a function.
\<close>

named_theorems range_simps \<open>rewrite rules for slices changed inside a range\<close>
named_theorems range_intros \<open>introduction rules for facts about ranges of slices\<close>

type_synonym byte = "8 word"
type_synonym uint16 = "16 word"
type_synonym uint32 = "32 word"
type_synonym uint64 = "64 word"
type_synonym rune = "32 word"

section \<open>Exchanging two elements of a slice\<close>

text \<open>Go's parallel assignment \<open>p[i], p[j] = p[j], p[i]\<close>.\<close>

definition swap_nth :: "nat \<Rightarrow> nat \<Rightarrow> 'a list \<Rightarrow> 'a list" where
  "swap_nth i j xs = xs[i := xs ! j, j := xs ! i]"

lemma length_swap_nth [simp]: "length (swap_nth i j xs) = length xs"
  by (simp add: swap_nth_def)

lemma mset_swap_nth [simp]:
  "i < length xs \<Longrightarrow> j < length xs \<Longrightarrow> mset (swap_nth i j xs) = mset xs"
  by (simp add: swap_nth_def mset_swap)

lemma nth_swap_nth:
  "i < length xs \<Longrightarrow> j < length xs \<Longrightarrow>
   swap_nth i j xs ! k = (if k = i then xs ! j else if k = j then xs ! i else xs ! k)"
  by (auto simp: swap_nth_def nth_list_update)

lemma swap_nth_same [simp]: "swap_nth i i xs = xs"
  by (simp add: swap_nth_def)

section \<open>Permuting inside a range\<close>

text \<open>
  \<open>perm_in a b xs ys\<close>: the slice \<open>ys\<close> is \<open>xs\<close> with the elements of \<open>[a, b)\<close> rearranged and
  every other element in its place.
\<close>

definition perm_in :: "nat \<Rightarrow> nat \<Rightarrow> 'a list \<Rightarrow> 'a list \<Rightarrow> bool" where
  "perm_in a b xs ys \<longleftrightarrow>
     length ys = length xs \<and> mset ys = mset xs \<and> (\<forall>k. k < a \<or> b \<le> k \<longrightarrow> ys ! k = xs ! k)"

lemma perm_in_refl [simp, range_intros]: "perm_in a b xs xs"
  by (simp add: perm_in_def)

lemma perm_in_trans [trans]: "perm_in a b xs ys \<Longrightarrow> perm_in a b ys zs \<Longrightarrow> perm_in a b xs zs"
  by (auto simp: perm_in_def)

lemma perm_in_mono: "perm_in a b xs ys \<Longrightarrow> a' \<le> a \<Longrightarrow> b \<le> b' \<Longrightarrow> perm_in a' b' xs ys"
  by (auto simp: perm_in_def)

lemma perm_in_within:
  "perm_in a b xs ys \<Longrightarrow> perm_in a' b' ys zs \<Longrightarrow> a \<le> a' \<Longrightarrow> b' \<le> b \<Longrightarrow> perm_in a b xs zs"
  by (auto simp: perm_in_def)

lemma perm_in_swap_nth [range_intros]:
  "a \<le> i \<Longrightarrow> i < b \<Longrightarrow> a \<le> j \<Longrightarrow> j < b \<Longrightarrow> b \<le> length xs \<Longrightarrow> perm_in a b xs (swap_nth i j xs)"
  by (auto simp: perm_in_def nth_swap_nth)

lemma perm_in_length [range_simps]: "perm_in a b xs ys \<Longrightarrow> length ys = length xs"
  by (simp add: perm_in_def)

lemma perm_in_outside: "perm_in a b xs ys \<Longrightarrow> k < a \<or> b \<le> k \<Longrightarrow> ys ! k = xs ! k"
  by (auto simp: perm_in_def)

lemma perm_in_mset: "perm_in a b xs ys \<Longrightarrow> mset ys = mset xs"
  by (simp add: perm_in_def)

lemma mset_split3:
  assumes "a \<le> b" "b \<le> length xs"
  shows "mset xs = mset (take a xs) + mset (take (b - a) (drop a xs)) + mset (drop b xs)"
proof -
  have "xs = take a xs @ take (b - a) (drop a xs) @ drop b xs"
    using assms by (metis append_take_drop_id drop_drop le_add_diff_inverse2)
  then show ?thesis by (metis mset_append add.assoc)
qed

lemma perm_in_slice_mset:
  assumes p: "perm_in a b xs ys" and ab: "a \<le> b" "b \<le> length xs"
  shows "mset (take (b - a) (drop a ys)) = mset (take (b - a) (drop a xs))"
proof -
  have l: "length ys = length xs" using p by (simp add: perm_in_def)
  have "take a ys = take a xs"
    using p ab by (intro nth_equalityI) (auto simp: perm_in_def)
  moreover have "drop b ys = drop b xs"
    using p ab by (intro nth_equalityI) (auto simp: perm_in_def)
  ultimately show ?thesis
    using mset_split3 [of a b xs] mset_split3 [of a b ys] ab l p
    by (simp add: perm_in_def)
qed

lemma set_slice:
  assumes "a \<le> b" "b \<le> length xs"
  shows "set (take (b - a) (drop a xs)) = {xs ! k | k. a \<le> k \<and> k < b}"
proof -
  have "set (take (b - a) (drop a xs)) = (\<lambda>k. drop a xs ! k) ` {..<b - a}"
    using assms by (subst nth_image [symmetric]) (auto simp: lessThan_atLeast0)
  also have "\<dots> = (\<lambda>k. xs ! (a + k)) ` {..<b - a}"
    using assms by (intro image_cong) auto
  also have "\<dots> = {xs ! k | k. a \<le> k \<and> k < b}"
  proof -
    have "k \<in> (+) a ` {..<b - a}" if "a \<le> k" "k < b" for k
      using that by (intro image_eqI [of _ _ "k - a"]) auto
    then have "(+) a ` {..<b - a} = {a..<b}" using assms by auto
    then have "(\<lambda>k. xs ! (a + k)) ` {..<b - a} = (!) xs ` {a..<b}"
      by (metis (no_types, lifting) image_cong image_image)
    then show ?thesis by auto
  qed
  finally show ?thesis .
qed

lemma perm_in_elem:
  assumes p: "perm_in a b xs ys" and b: "b \<le> length xs" and k: "a \<le> k" "k < b"
  shows "\<exists>k'. a \<le> k' \<and> k' < b \<and> ys ! k = xs ! k'"
proof -
  have ab: "a \<le> b" using k by simp
  have "set (take (b - a) (drop a ys)) = set (take (b - a) (drop a xs))"
    using perm_in_slice_mset [OF p ab b] by (metis set_mset_mset)
  then have "{ys ! k | k. a \<le> k \<and> k < b} = {xs ! k | k. a \<le> k \<and> k < b}"
    using ab b p by (simp add: set_slice perm_in_length)
  then show ?thesis using k by blast
qed

text \<open>A property of all elements of a range survives a permutation inside that range.\<close>

lemma perm_in_all:
  assumes "perm_in a b xs ys" "b \<le> length xs" "\<And>k. a \<le> k \<Longrightarrow> k < b \<Longrightarrow> P (xs ! k)"
    and "a \<le> k" "k < b"
  shows "P (ys ! k)"
  using perm_in_elem [OF assms(1,2) assms(4,5)] assms(3) by metis

text \<open>The same for a property of a larger range, part of which was permuted.\<close>

lemma perm_in_all_wide:
  assumes "perm_in a b xs ys" "b \<le> length xs" "lo \<le> a" "b \<le> hi"
    and "\<And>k. lo \<le> k \<Longrightarrow> k < hi \<Longrightarrow> P (xs ! k)" "lo \<le> k" "k < hi"
  shows "P (ys ! k)"
proof (cases "a \<le> k \<and> k < b")
  case True
  then obtain k' where "a \<le> k'" "k' < b" "ys ! k = xs ! k'"
    using perm_in_elem [OF assms(1,2)] by blast
  then show ?thesis using assms(3,4) assms(5) [of k'] by simp
next
  case False
  then have "ys ! k = xs ! k" by (intro perm_in_outside [OF assms(1)]) auto
  then show ?thesis using assms(5) [of k] assms(6,7) by simp
qed

section \<open>Sorted ranges\<close>

text \<open>
  \<open>sorted_in lt a b xs\<close>: no element of \<open>[a, b)\<close> is less, in the order \<open>lt\<close>, than one before it.
\<close>

definition sorted_in :: "('a \<Rightarrow> 'a \<Rightarrow> bool) \<Rightarrow> nat \<Rightarrow> nat \<Rightarrow> 'a list \<Rightarrow> bool" where
  "sorted_in lt a b xs \<longleftrightarrow> (\<forall>i j. a \<le> i \<and> i < j \<and> j < b \<longrightarrow> \<not> lt (xs ! j) (xs ! i))"

lemma sorted_inD: "sorted_in lt a b xs \<Longrightarrow> a \<le> i \<Longrightarrow> i < j \<Longrightarrow> j < b \<Longrightarrow> \<not> lt (xs ! j) (xs ! i)"
  by (auto simp: sorted_in_def)

lemma sorted_in_triv [simp]: "b \<le> Suc a \<Longrightarrow> sorted_in lt a b xs"
  by (auto simp: sorted_in_def)

lemma sorted_in_mono: "sorted_in lt a b xs \<Longrightarrow> a \<le> a' \<Longrightarrow> b' \<le> b \<Longrightarrow> sorted_in lt a' b' xs"
  by (auto simp: sorted_in_def)

lemma sorted_in_outside:
  assumes "sorted_in lt lo hi xs" "perm_in a b xs ys" "hi \<le> a \<or> b \<le> lo"
  shows "sorted_in lt lo hi ys"
proof -
  have "ys ! k = xs ! k" if "lo \<le> k" "k < hi" for k
    using that assms(3) by (intro perm_in_outside [OF assms(2)]) auto
  then show ?thesis using assms(1) by (auto simp: sorted_in_def)
qed

lemma sorted_in_join:
  assumes "sorted_in lt a m xs" "sorted_in lt m b xs"
    and "\<And>i j. a \<le> i \<Longrightarrow> i < m \<Longrightarrow> m \<le> j \<Longrightarrow> j < b \<Longrightarrow> \<not> lt (xs ! j) (xs ! i)"
  shows "sorted_in lt a b xs"
  using assms unfolding sorted_in_def by (metis not_le)

lemma sorted_in_whole:
  "sorted_in lt 0 (length xs) xs \<longleftrightarrow> sorted_wrt (\<lambda>x y. \<not> lt y x) xs"
  by (auto simp: sorted_in_def sorted_wrt_iff_nth_less)

text \<open>The place of an element in a list, the length for none.\<close>

definition place :: "'a \<Rightarrow> 'a list \<Rightarrow> nat" where "place c t = length (takeWhile (\<lambda>d. d \<noteq> c) t)"

end
