(* ===== verification/SortDefs.thy ===== *)
theory SortDefs
  imports Prelude
begin

text \<open>
  The operations of package sort (\<open>src/src/pkg/sort/sort.go\<close>). A Go value of type
  \<open>sort.Interface\<close> is a collection with three methods; here it is a state \<open>'d\<close> (the collection)
  together with a record of the methods, and a method that changes the collection returns the
  changed one. Every index the package passes to the methods is non-negative, so indices are
  \<open>nat\<close>; where Go divides a negative number (\<open>(hi-1)/2\<close> with \<open>hi = 0\<close>) truncation towards zero
  gives 0, as \<open>nat\<close> subtraction does.
\<close>

record 'd Interface =
  Len :: "'d \<Rightarrow> nat"
  Less :: "'d \<Rightarrow> nat \<Rightarrow> nat \<Rightarrow> bool"
  Swap :: "'d \<Rightarrow> nat \<Rightarrow> nat \<Rightarrow> 'd"

definition go_min :: "nat \<Rightarrow> nat \<Rightarrow> nat" where
  "go_min a b = (if a < b then a else b)"

section \<open>Insertion sort\<close>

text \<open>The inner loop \<open>for j := i; j > a && data.Less(j, j-1); j--\<close>.\<close>

fun insertionSort_inner :: "'d Interface \<Rightarrow> 'd \<Rightarrow> nat \<Rightarrow> nat \<Rightarrow> 'd" where
  "insertionSort_inner I data a j =
     (if j > a \<and> Less I data j (j - 1)
      then insertionSort_inner I (Swap I data j (j - 1)) a (j - 1)
      else data)"

function insertionSort_outer :: "'d Interface \<Rightarrow> 'd \<Rightarrow> nat \<Rightarrow> nat \<Rightarrow> nat \<Rightarrow> 'd" where
  "insertionSort_outer I data a b i =
     (if i < b then insertionSort_outer I (insertionSort_inner I data a i) a b (i + 1)
      else data)"
  by pat_completeness auto
termination
  by (relation "measure (\<lambda>(I, data, a, b, i). b - i)") auto

definition insertionSort :: "'d Interface \<Rightarrow> 'd \<Rightarrow> nat \<Rightarrow> nat \<Rightarrow> 'd" where
  "insertionSort I data a b = insertionSort_outer I data a b (a + 1)"

section \<open>Heapsort\<close>

function siftDown :: "'d Interface \<Rightarrow> 'd \<Rightarrow> nat \<Rightarrow> nat \<Rightarrow> nat \<Rightarrow> 'd" where
  "siftDown I data root hi first =
     (let child = 2 * root + 1 in
      if child \<ge> hi then data
      else
        let child' = (if child + 1 < hi \<and> Less I data (first + child) (first + child + 1)
                      then child + 1 else child) in
        if \<not> Less I data (first + root) (first + child') then data
        else siftDown I (Swap I data (first + root) (first + child')) child' hi first)"
  by pat_completeness auto
termination
  by (relation "measure (\<lambda>(I, data, root, hi, first). hi - root)") (auto split: if_splits)

text \<open>\<open>for i := (hi-1)/2; i >= 0; i--\<close>: the argument is \<open>i + 1\<close>.\<close>

fun heapSort_build :: "'d Interface \<Rightarrow> 'd \<Rightarrow> nat \<Rightarrow> nat \<Rightarrow> nat \<Rightarrow> 'd" where
  "heapSort_build I data 0 hi first = data"
| "heapSort_build I data (Suc i) hi first =
     heapSort_build I (siftDown I data i hi first) i hi first"

text \<open>\<open>for i := hi - 1; i >= 0; i--\<close>: the argument is \<open>i + 1\<close>.\<close>

fun heapSort_pop :: "'d Interface \<Rightarrow> 'd \<Rightarrow> nat \<Rightarrow> nat \<Rightarrow> 'd" where
  "heapSort_pop I data 0 first = data"
| "heapSort_pop I data (Suc i) first =
     heapSort_pop I (siftDown I (Swap I data first (first + i)) 0 i first) i first"

definition heapSort :: "'d Interface \<Rightarrow> 'd \<Rightarrow> nat \<Rightarrow> nat \<Rightarrow> 'd" where
  "heapSort I data a b =
     (let first = a; hi = b - a;
          data1 = heapSort_build I data ((hi - 1) div 2 + 1) hi first
      in heapSort_pop I data1 hi first)"

section \<open>Quicksort\<close>

definition swap_if :: "'d Interface \<Rightarrow> 'd \<Rightarrow> nat \<Rightarrow> nat \<Rightarrow> 'd" where
  "swap_if I data i j = (if Less I data i j then Swap I data i j else data)"

definition medianOfThree :: "'d Interface \<Rightarrow> 'd \<Rightarrow> nat \<Rightarrow> nat \<Rightarrow> nat \<Rightarrow> 'd" where
  "medianOfThree I data a b c =
     (let m0 = b; m1 = a; m2 = c;
          data1 = swap_if I data m1 m0;
          data2 = swap_if I data1 m2 m1
      in swap_if I data2 m1 m0)"

function swapRange_loop :: "'d Interface \<Rightarrow> 'd \<Rightarrow> nat \<Rightarrow> nat \<Rightarrow> nat \<Rightarrow> nat \<Rightarrow> 'd" where
  "swapRange_loop I data a b n i =
     (if i < n then swapRange_loop I (Swap I data (a + i) (b + i)) a b n (i + 1) else data)"
  by pat_completeness auto
termination
  by (relation "measure (\<lambda>(I, data, a, b, n, i). n - i)") auto

definition swapRange :: "'d Interface \<Rightarrow> 'd \<Rightarrow> nat \<Rightarrow> nat \<Rightarrow> nat \<Rightarrow> 'd" where
  "swapRange I data a b n = swapRange_loop I data a b n 0"

text \<open>The two inner loops of \<open>doPivot\<close>, from the left (lines 136-146) and from the right (147-157).\<close>

function doPivot_left :: "'d Interface \<Rightarrow> 'd \<Rightarrow> nat \<Rightarrow> nat \<Rightarrow> nat \<Rightarrow> nat \<Rightarrow> 'd \<times> nat \<times> nat" where
  "doPivot_left I data pivot a b c =
     (if b < c then
        if Less I data b pivot then doPivot_left I data pivot a (b + 1) c
        else if \<not> Less I data pivot b
        then doPivot_left I (Swap I data a b) pivot (a + 1) (b + 1) c
        else (data, a, b)
      else (data, a, b))"
  by pat_completeness auto
termination
  by (relation "measure (\<lambda>(I, data, pivot, a, b, c). c - b)") auto

function doPivot_right :: "'d Interface \<Rightarrow> 'd \<Rightarrow> nat \<Rightarrow> nat \<Rightarrow> nat \<Rightarrow> nat \<Rightarrow> 'd \<times> nat \<times> nat" where
  "doPivot_right I data pivot b c d =
     (if b < c then
        if Less I data pivot (c - 1) then doPivot_right I data pivot b (c - 1) d
        else if \<not> Less I data (c - 1) pivot
        then doPivot_right I (Swap I data (c - 1) (d - 1)) pivot b (c - 1) (d - 1)
        else (data, c, d)
      else (data, c, d))"
  by pat_completeness auto
termination
  by (relation "measure (\<lambda>(I, data, pivot, b, c, d). c - b)") auto

declare insertionSort_inner.simps [simp del] insertionSort_outer.simps [simp del]
  siftDown.simps [simp del] swapRange_loop.simps [simp del]
  doPivot_left.simps [simp del] doPivot_right.simps [simp del]

lemma doPivot_left_bounds:
  "doPivot_left I data pivot a b c = (data', a', b') \<Longrightarrow> b \<le> b'"
proof (induction I data pivot a b c rule: doPivot_left.induct)
  case (1 I data pivot a b c)
  show ?case
    using "1.prems" "1.IH" by (subst (asm) doPivot_left.simps) (fastforce split: if_splits)
qed

lemma doPivot_right_bounds:
  "doPivot_right I data pivot b c d = (data', c', d') \<Longrightarrow> c' \<le> c"
proof (induction I data pivot b c d rule: doPivot_right.induct)
  case (1 I data pivot b c d)
  show ?case
    using "1.prems" "1.IH" by (subst (asm) doPivot_right.simps) (fastforce split: if_splits)
qed

text \<open>The outer \<open>for\<close> loop (lines 135-165); its results are \<open>data, a, b, c, d\<close>.\<close>

function doPivot_loop ::
  "'d Interface \<Rightarrow> 'd \<Rightarrow> nat \<Rightarrow> nat \<Rightarrow> nat \<Rightarrow> nat \<Rightarrow> nat \<Rightarrow> 'd \<times> nat \<times> nat \<times> nat \<times> nat" where
  "doPivot_loop I data pivot a b c d =
     (case doPivot_left I data pivot a b c of (data1, a1, b1) \<Rightarrow>
      case doPivot_right I data1 pivot b1 c d of (data2, c1, d1) \<Rightarrow>
        if b1 \<ge> c1 then (data2, a1, b1, c1, d1)
        else doPivot_loop I (Swap I data2 b1 (c1 - 1)) pivot a1 (b1 + 1) (c1 - 1) d1)"
  by pat_completeness auto
termination
  by (relation "measure (\<lambda>(I, data, pivot, a, b, c, d). c - b)")
    (auto dest!: sym [of "(_, _, _)"] doPivot_left_bounds doPivot_right_bounds)

declare doPivot_loop.simps [simp del]

definition doPivot :: "'d Interface \<Rightarrow> 'd \<Rightarrow> nat \<Rightarrow> nat \<Rightarrow> 'd \<times> nat \<times> nat" where
  "doPivot I data lo hi =
     (let m = lo + (hi - lo) div 2;
          data1 = (if hi - lo > 40 then
                     let s = (hi - lo) div 8;
                         e1 = medianOfThree I data lo (lo + s) (lo + 2 * s);
                         e2 = medianOfThree I e1 m (m - s) (m + s)
                     in medianOfThree I e2 (hi - 1) (hi - 1 - s) (hi - 1 - 2 * s)
                   else data);
          data2 = medianOfThree I data1 lo m (hi - 1);
          pivot = lo
      in case doPivot_loop I data2 pivot (lo + 1) (lo + 1) hi hi of (data3, a, b, c, d) \<Rightarrow>
        let n = go_min (b - a) (a - lo);
            data4 = swapRange I data3 lo (b - n) n;
            n' = go_min (hi - d) (d - c);
            data5 = swapRange I data4 c (hi - n') n'
        in (data5, lo + b - a, hi - (d - c)))"

function quickSort :: "'d Interface \<Rightarrow> 'd \<Rightarrow> nat \<Rightarrow> nat \<Rightarrow> nat \<Rightarrow> 'd" where
  "quickSort I data a b maxDepth =
     (if b - a > 7 then
        if maxDepth = 0 then heapSort I data a b
        else case doPivot I data a b of (data1, mlo, mhi) \<Rightarrow>
          if mlo - a < b - mhi
          then quickSort I (quickSort I data1 a mlo (maxDepth - 1)) mhi b (maxDepth - 1)
          else quickSort I (quickSort I data1 mhi b (maxDepth - 1)) a mlo (maxDepth - 1)
      else if b - a > 1 then insertionSort I data a b
      else data)"
  by pat_completeness auto
termination
  by (relation "measure (\<lambda>(I, data, a, b, maxDepth). maxDepth)") auto

declare quickSort.simps [simp del]

text \<open>\<open>for i := n; i > 0; i >>= 1 { maxDepth++ }\<close>\<close>

fun Sort_depth :: "nat \<Rightarrow> nat \<Rightarrow> nat" where
  "Sort_depth i maxDepth = (if i > 0 then Sort_depth (i div 2) (maxDepth + 1) else maxDepth)"

declare Sort_depth.simps [simp del]

definition Sort :: "'d Interface \<Rightarrow> 'd \<Rightarrow> 'd" where
  "Sort I data = (let n = Len I data; maxDepth = Sort_depth n 0 * 2 in quickSort I data 0 n maxDepth)"

section \<open>Reverse and IsSorted\<close>

text \<open>The struct \<open>reverse\<close> embeds an Interface and overrides \<open>Less\<close>.\<close>

definition Reverse :: "'d Interface \<Rightarrow> 'd Interface" where
  "Reverse I = I\<lparr>Less := \<lambda>data i j. Less I data j i\<rparr>"

fun IsSorted_loop :: "'d Interface \<Rightarrow> 'd \<Rightarrow> nat \<Rightarrow> bool" where
  "IsSorted_loop I data i =
     (if i > 0 then if Less I data i (i - 1) then False else IsSorted_loop I data (i - 1)
      else True)"

declare IsSorted_loop.simps [simp del]

definition IsSorted :: "'d Interface \<Rightarrow> 'd \<Rightarrow> bool" where
  "IsSorted I data = (let n = Len I data in IsSorted_loop I data (n - 1))"

section \<open>Stable sorting\<close>

function rotate_loop :: "'d Interface \<Rightarrow> 'd \<Rightarrow> nat \<Rightarrow> nat \<Rightarrow> nat \<Rightarrow> 'd \<times> nat" where
  "rotate_loop I data p i j =
     (if i \<noteq> j \<and> i > 0 \<and> j > 0 then
        if i > j then rotate_loop I (swapRange I data (p - i) p j) p (i - j) j
        else rotate_loop I (swapRange I data (p - i) (p + j - i) i) p i (j - i)
      else (data, i))"
  by pat_completeness auto
termination
  by (relation "measure (\<lambda>(I, data, p, i, j). i + j)") auto

declare rotate_loop.simps [simp del]

definition rotate_data :: "'d Interface \<Rightarrow> 'd \<Rightarrow> nat \<Rightarrow> nat \<Rightarrow> nat \<Rightarrow> 'd" where
  "rotate_data I data a m b =
     (let i = m - a in
      if i = 0 then data
      else let j = b - m in
      if j = 0 then data
      else if i = j then swapRange I data a m i
      else let p = a + i in
        case rotate_loop I data p i j of (data1, i1) \<Rightarrow> swapRange I data1 (p - i1) p i1)"

text \<open>The binary search \<open>for start < r\<close> of \<open>symMerge\<close> (lines 388-395 and 399-406).\<close>

function symMerge_search :: "'d Interface \<Rightarrow> 'd \<Rightarrow> nat \<Rightarrow> nat \<Rightarrow> nat \<Rightarrow> nat" where
  "symMerge_search I data p start r =
     (if start < r then
        let c = start + (r - start) div 2 in
        if \<not> Less I data (p - c) c then symMerge_search I data p (c + 1) r
        else symMerge_search I data p start c
      else start)"
  by pat_completeness auto
termination
  by (relation "measure (\<lambda>(I, data, p, start, r). r - start)") auto

declare symMerge_search.simps [simp del]

definition symMerge_start :: "'d Interface \<Rightarrow> 'd \<Rightarrow> nat \<Rightarrow> nat \<Rightarrow> nat \<Rightarrow> nat" where
  "symMerge_start I data a m b =
     (let mid = a + (b - a) div 2; n = mid + m in
      if m > mid then symMerge_search I data (n - 1) (n - b) mid
      else symMerge_search I data (n - 1) a m)"

function symMerge :: "'d Interface \<Rightarrow> 'd \<Rightarrow> nat \<Rightarrow> nat \<Rightarrow> nat \<Rightarrow> 'd" where
  "symMerge I data a m b =
     (if a \<ge> m \<or> m \<ge> b then data
      else
        let mid = a + (b - a) div 2;
            n = mid + m;
            start = symMerge_start I data a m b;
            end = n - start;
            data1 = rotate_data I data start m end;
            data2 = symMerge I data1 a start mid
        in symMerge I data2 mid end b)"
  by pat_completeness auto
termination
  by (relation "measure (\<lambda>(I, data, a, m, b). b - a)") auto

declare symMerge.simps [simp del]

text \<open>The two inner loops of \<open>stable\<close>; both are called with \<open>blockSize > 0\<close>.\<close>

function stable_blocks :: "'d Interface \<Rightarrow> 'd \<Rightarrow> nat \<Rightarrow> nat \<Rightarrow> nat \<Rightarrow> nat \<Rightarrow> 'd \<times> nat" where
  "stable_blocks I data n blockSize a b =
     (if b \<le> n \<and> blockSize > 0
      then stable_blocks I (insertionSort I data a b) n blockSize b (b + blockSize)
      else (data, a))"
  by pat_completeness auto
termination
  by (relation "measure (\<lambda>(I, data, n, blockSize, a, b). n + 1 - b)") auto

function stable_merges :: "'d Interface \<Rightarrow> 'd \<Rightarrow> nat \<Rightarrow> nat \<Rightarrow> nat \<Rightarrow> nat \<Rightarrow> 'd \<times> nat" where
  "stable_merges I data n blockSize a b =
     (if b \<le> n \<and> blockSize > 0
      then stable_merges I (symMerge I data a (a + blockSize) b) n blockSize b (b + 2 * blockSize)
      else (data, a))"
  by pat_completeness auto
termination
  by (relation "measure (\<lambda>(I, data, n, blockSize, a, b). n + 1 - b)") auto

declare stable_blocks.simps [simp del] stable_merges.simps [simp del]

function stable_loop :: "'d Interface \<Rightarrow> 'd \<Rightarrow> nat \<Rightarrow> nat \<Rightarrow> 'd" where
  "stable_loop I data n blockSize =
     (if blockSize < n \<and> blockSize > 0 then
        case stable_merges I data n blockSize 0 (2 * blockSize) of (data1, a) \<Rightarrow>
          stable_loop I (symMerge I data1 a (a + blockSize) n) n (blockSize * 2)
      else data)"
  by pat_completeness auto
termination
  by (relation "measure (\<lambda>(I, data, n, blockSize). n - blockSize)") auto

declare stable_loop.simps [simp del]

definition stable :: "'d Interface \<Rightarrow> 'd \<Rightarrow> nat \<Rightarrow> 'd" where
  "stable I data n =
     (let blockSize = 20 in
      case stable_blocks I data n blockSize 0 blockSize of (data1, a) \<Rightarrow>
        stable_loop I (insertionSort I data1 a n) n blockSize)"

definition Stable :: "'d Interface \<Rightarrow> 'd \<Rightarrow> 'd" where
  "Stable I data = stable I data (Len I data)"

section \<open>The slice types\<close>

text \<open>
  \<open>IntSlice\<close>, \<open>StringSlice\<close> and \<open>Float64Slice\<close> share \<open>Len\<close> and \<open>Swap\<close> and differ in \<open>Less\<close>.
  Go's \<open>int\<close> is 64 bits wide and compared as a signed number; strings compare byte by byte.
\<close>

definition slice_interface :: "('a \<Rightarrow> 'a \<Rightarrow> bool) \<Rightarrow> 'a list Interface" where
  "slice_interface lt =
     \<lparr>Len = length, Less = (\<lambda>p i j. lt (p ! i) (p ! j)), Swap = (\<lambda>p i j. swap_nth i j p)\<rparr>"

definition IntSlice :: "64 word list Interface" where
  "IntSlice = slice_interface (\<lambda>x y. sint x < sint y)"

fun string_less :: "byte list \<Rightarrow> byte list \<Rightarrow> bool" where
  "string_less xs [] = False"
| "string_less [] (y # ys) = True"
| "string_less (x # xs) (y # ys) = (x < y \<or> x = y \<and> string_less xs ys)"

definition StringSlice :: "byte list list Interface" where
  "StringSlice = slice_interface string_less"

definition Ints :: "64 word list \<Rightarrow> 64 word list" where
  "Ints a = Sort IntSlice a"

definition Strings :: "byte list list \<Rightarrow> byte list list" where
  "Strings a = Sort StringSlice a"

definition IntsAreSorted :: "64 word list \<Rightarrow> bool" where
  "IntsAreSorted a = IsSorted IntSlice a"

definition StringsAreSorted :: "byte list list \<Rightarrow> bool" where
  "StringsAreSorted a = IsSorted StringSlice a"

end
