(* ===== verification/SortContract.thy ===== *)
theory SortContract
  imports SortDefs
begin

text \<open>
  The contract between package sort and the collections it sorts, as locales. \<open>sort_data\<close>: the
  methods act on a list of elements, as \<open>Len\<close>, a comparison of elements and an exchange of two
  elements. The laws speak of indices in range only, so a proof from them shows that no call
  outside the collection contributes to the result. \<open>sort_order\<close> adds that the comparison is a
  strict weak order. The slice types of the package are interpreted here, and so is \<open>Reverse\<close>.
  The theory proves the insertion sort and \<open>IsSorted\<close>.
\<close>

locale sort_data =
  fixes I :: "'d Interface"
    and elems :: "'d \<Rightarrow> 'a list"
    and lt :: "'a \<Rightarrow> 'a \<Rightarrow> bool"
  assumes Len_law: "Len I d = length (elems d)"
    and Less_law: "i < length (elems d) \<Longrightarrow> j < length (elems d) \<Longrightarrow>
      Less I d i j = lt (elems d ! i) (elems d ! j)"
    and Swap_law: "i < length (elems d) \<Longrightarrow> j < length (elems d) \<Longrightarrow>
      elems (Swap I d i j) = swap_nth i j (elems d)"
begin

lemma swap_if_perm:
  assumes "lo \<le> i" "i < hi" "lo \<le> j" "j < hi" "hi \<le> length (elems d)"
  shows "perm_in lo hi (elems d) (elems (swap_if I d i j))"
  using assms by (auto simp: swap_if_def Swap_law intro: perm_in_swap_nth)

lemma insertionSort_inner_perm:
  "j < b \<Longrightarrow> b \<le> length (elems d) \<Longrightarrow>
   perm_in a b (elems d) (elems (insertionSort_inner I d a j))"
proof (induction j arbitrary: d)
  case 0
  then show ?case by (simp add: insertionSort_inner.simps)
next
  case (Suc j)
  show ?case
  proof (cases "Suc j > a \<and> Less I d (Suc j) j")
    case True
    have s: "elems (Swap I d (Suc j) j) = swap_nth (Suc j) j (elems d)"
      using Suc.prems by (simp add: Swap_law)
    have "perm_in a b (elems d) (elems (Swap I d (Suc j) j))"
      unfolding s using True Suc.prems by (intro perm_in_swap_nth) auto
    also have "perm_in a b \<dots> (elems (insertionSort_inner I (Swap I d (Suc j) j) a j))"
      using Suc.prems s by (intro Suc.IH) auto
    finally show ?thesis using True by (subst insertionSort_inner.simps) simp
  next
    case False
    then show ?thesis by (subst insertionSort_inner.simps) auto
  qed
qed

lemma insertionSort_outer_perm:
  "b \<le> length (elems d) \<Longrightarrow> perm_in a b (elems d) (elems (insertionSort_outer I d a b i))"
proof (induction "b - i" arbitrary: d i)
  case 0
  then show ?case by (subst insertionSort_outer.simps) simp
next
  case (Suc k)
  have *: "perm_in a b (elems d) (elems (insertionSort_inner I d a i))"
    using Suc.hyps(2) Suc.prems by (intro insertionSort_inner_perm) auto
  also have "perm_in a b \<dots> (elems (insertionSort_outer I (insertionSort_inner I d a i) a b (i + 1)))"
    using Suc.hyps(2) Suc.prems perm_in_length [OF *] by (intro Suc.hyps(1)) auto
  finally show ?case using Suc.hyps(2) by (subst insertionSort_outer.simps) simp
qed

lemma insertionSort_perm:
  "b \<le> length (elems d) \<Longrightarrow> perm_in a b (elems d) (elems (insertionSort I d a b))"
  by (simp add: insertionSort_def insertionSort_outer_perm)

end

section \<open>Strict weak orders\<close>

locale weak_order =
  fixes lt :: "'a \<Rightarrow> 'a \<Rightarrow> bool"
  assumes lt_irrefl: "\<not> lt x x"
    and lt_trans: "lt x y \<Longrightarrow> lt y z \<Longrightarrow> lt x z"
    and ge_trans: "\<not> lt x y \<Longrightarrow> \<not> lt y z \<Longrightarrow> \<not> lt x z"
begin

lemma lt_asym: "lt x y \<Longrightarrow> \<not> lt y x"
  using lt_irrefl lt_trans by blast

lemma lt_le_trans: "lt x y \<Longrightarrow> \<not> lt z y \<Longrightarrow> lt x z"
  using ge_trans by blast

lemma le_lt_trans: "\<not> lt y x \<Longrightarrow> lt y z \<Longrightarrow> lt x z"
  using ge_trans by blast

text \<open>Neighbours in order make the whole range sorted.\<close>

lemma sorted_in_adjacent:
  assumes "\<And>k. a \<le> k \<Longrightarrow> Suc k < b \<Longrightarrow> \<not> lt (xs ! Suc k) (xs ! k)"
  shows "sorted_in lt a b xs"
proof -
  have "\<not> lt (xs ! (i + n)) (xs ! i)" if "a \<le> i" "i + n < b" for i n
    using that
  proof (induction n)
    case 0
    then show ?case by (simp add: lt_irrefl)
  next
    case (Suc n)
    then have "\<not> lt (xs ! (i + n)) (xs ! i)" "\<not> lt (xs ! Suc (i + n)) (xs ! (i + n))"
      using assms [of "i + n"] by auto
    then show ?case using ge_trans by (metis add_Suc_right)
  qed
  then have "\<not> lt (xs ! j) (xs ! i)" if "a \<le> i" "i < j" "j < b" for i j
    using that by (metis less_imp_add_positive)
  then show ?thesis by (auto simp: sorted_in_def)
qed

text \<open>Every order gives its reverse, the order \<open>Reverse\<close> sorts by.\<close>

lemma weak_order_converse: "weak_order (\<lambda>x y. lt y x)"
  by unfold_locales (use lt_irrefl lt_trans ge_trans in blast)+

end

locale sort_order = sort_data I elems lt + weak_order lt
  for I :: "'d Interface" and elems :: "'d \<Rightarrow> 'a list" and lt :: "'a \<Rightarrow> 'a \<Rightarrow> bool"
begin

text \<open>
  Invariant of the inner loop of the insertion sort: the range \<open>[a, i]\<close> is sorted but for pairs
  whose later member is the element at \<open>j\<close>.
\<close>

definition sorted_but :: "nat \<Rightarrow> nat \<Rightarrow> nat \<Rightarrow> 'a list \<Rightarrow> bool" where
  "sorted_but a i j xs \<longleftrightarrow> (\<forall>k l. a \<le> k \<and> k < l \<and> l \<le> i \<and> l \<noteq> j \<longrightarrow> \<not> lt (xs ! l) (xs ! k))"

lemma sorted_but_swap:
  assumes "sorted_but a i (Suc j) xs" "lt (xs ! Suc j) (xs ! j)" "a \<le> j" "Suc j \<le> i" "i < length xs"
  shows "sorted_but a i j (swap_nth (Suc j) j xs)"
  unfolding sorted_but_def
proof (intro allI impI)
  fix k l
  assume kl: "a \<le> k \<and> k < l \<and> l \<le> i \<and> l \<noteq> j"
  have nth: "swap_nth (Suc j) j xs ! m = (if m = Suc j then xs ! j else if m = j then xs ! Suc j else xs ! m)" for m
    using assms by (intro nth_swap_nth) auto
  have inv: "\<not> lt (xs ! l) (xs ! k)" if "a \<le> k" "k < l" "l \<le> i" "l \<noteq> Suc j" for k l
    using assms(1) that by (auto simp: sorted_but_def)
  show "\<not> lt (swap_nth (Suc j) j xs ! l) (swap_nth (Suc j) j xs ! k)"
  proof (cases "l = Suc j")
    case True
    have "k = j \<or> k < j" using kl True by auto
    then show ?thesis
      using True kl inv [of k j] lt_asym [OF assms(2)] assms(4) by (auto simp: nth)
  next
    case False
    then have "swap_nth (Suc j) j xs ! l = xs ! l" using kl by (simp add: nth)
    moreover have "k = j \<or> k = Suc j \<or> swap_nth (Suc j) j xs ! k = xs ! k" by (simp add: nth)
    moreover have "\<not> lt (xs ! l) (xs ! k)" "k = j \<Longrightarrow> \<not> lt (xs ! l) (xs ! Suc j)"
      "k = Suc j \<Longrightarrow> \<not> lt (xs ! l) (xs ! j)"
      using kl False assms(3) inv [of k l] inv [of "Suc j" l] inv [of j l] by auto
    ultimately show ?thesis by (auto simp: nth)
  qed
qed

lemma insertionSort_inner_sorted:
  "sorted_but a i j (elems d) \<Longrightarrow> a \<le> j \<Longrightarrow> j \<le> i \<Longrightarrow> i < length (elems d) \<Longrightarrow>
   sorted_in lt a (Suc i) (elems (insertionSort_inner I d a j))"
proof (induction j arbitrary: d)
  case 0
  then show ?case
    by (subst insertionSort_inner.simps) (auto simp: sorted_but_def sorted_in_def)
next
  case (Suc j)
  have ls: "Less I d (Suc j) j = lt (elems d ! Suc j) (elems d ! j)"
    using Suc.prems by (intro Less_law) auto
  show ?case
  proof (cases "Suc j > a \<and> Less I d (Suc j) j")
    case True
    have s: "elems (Swap I d (Suc j) j) = swap_nth (Suc j) j (elems d)"
      using Suc.prems by (simp add: Swap_law)
    have "sorted_in lt a (Suc i) (elems (insertionSort_inner I (Swap I d (Suc j) j) a j))"
      using True Suc.prems ls s by (intro Suc.IH) (auto intro: sorted_but_swap)
    then show ?thesis using True by (subst insertionSort_inner.simps) simp
  next
    case False
    have "\<not> lt (elems d ! l) (elems d ! k)" if "a \<le> k" "k < l" "l < Suc i" for k l
    proof (cases "l = Suc j")
      case l: True
      have "\<not> lt (elems d ! Suc j) (elems d ! j)" using False that l ls by auto
      moreover have "k < j \<Longrightarrow> \<not> lt (elems d ! j) (elems d ! k)"
        using Suc.prems that by (auto simp: sorted_but_def)
      ultimately show ?thesis using l that ge_trans less_antisym by blast
    next
      case l: False
      then show ?thesis using Suc.prems that by (auto simp: sorted_but_def)
    qed
    then show ?thesis using False
      by (subst insertionSort_inner.simps) (auto simp: sorted_in_def)
  qed
qed

lemma insertionSort_outer_sorted:
  "b \<le> length (elems d) \<Longrightarrow> sorted_in lt a i (elems d) \<Longrightarrow> a \<le> i \<Longrightarrow> i \<le> b \<Longrightarrow>
   sorted_in lt a b (elems (insertionSort_outer I d a b i))"
proof (induction "b - i" arbitrary: d i)
  case 0
  then show ?case by (subst insertionSort_outer.simps) simp
next
  case (Suc k)
  let ?d = "insertionSort_inner I d a i"
  have p: "perm_in a b (elems d) (elems ?d)"
    using Suc.hyps(2) Suc.prems by (intro insertionSort_inner_perm) auto
  have "sorted_in lt a (Suc i) (elems ?d)"
    using Suc.hyps(2) Suc.prems
    by (intro insertionSort_inner_sorted) (auto simp: sorted_but_def sorted_in_def)
  then have "sorted_in lt a b (elems (insertionSort_outer I ?d a b (i + 1)))"
    using Suc.hyps(2) Suc.prems perm_in_length [OF p] by (intro Suc.hyps(1)) auto
  then show ?case using Suc.hyps(2) by (subst insertionSort_outer.simps) simp
qed

lemma insertionSort_sorted:
  assumes "b \<le> length (elems d)"
  shows "sorted_in lt a b (elems (insertionSort I d a b))"
proof (cases "a < b")
  case True
  then show ?thesis using assms
    by (auto simp: insertionSort_def intro!: insertionSort_outer_sorted)
qed simp

lemma IsSorted_loop_iff:
  "i < length (elems d) \<Longrightarrow>
   IsSorted_loop I d i \<longleftrightarrow> (\<forall>k<i. \<not> lt (elems d ! Suc k) (elems d ! k))"
proof (induction i)
  case 0
  then show ?case by (subst IsSorted_loop.simps) simp
next
  case (Suc i)
  have "Less I d (Suc i) i = lt (elems d ! Suc i) (elems d ! i)"
    using Suc.prems by (intro Less_law) auto
  then show ?case using Suc by (subst IsSorted_loop.simps) (auto simp: less_Suc_eq)
qed

lemma IsSorted_sorted: "IsSorted I d \<longleftrightarrow> sorted_wrt (\<lambda>x y. \<not> lt y x) (elems d)"
proof (cases "elems d = []")
  case True
  then show ?thesis by (simp add: IsSorted_def Len_law IsSorted_loop.simps)
next
  case False
  then have "IsSorted I d \<longleftrightarrow> (\<forall>k. Suc k < length (elems d) \<longrightarrow> \<not> lt (elems d ! Suc k) (elems d ! k))"
    using IsSorted_loop_iff [of "length (elems d) - 1" d]
    by (auto simp: IsSorted_def Len_law less_diff_conv)
  also have "\<dots> \<longleftrightarrow> sorted_in lt 0 (length (elems d)) (elems d)"
    using sorted_in_adjacent [of 0 "length (elems d)" "elems d"] by (auto simp: sorted_in_def)
  finally show ?thesis by (simp add: sorted_in_whole)
qed

end

end
