(* ===== verification/HeapSort.thy ===== *)
theory HeapSort
  imports SortContract
begin

text \<open>
  Correctness of the heapsort of package sort: \<open>siftDown\<close> re-establishes the max-heap property of
  the range, \<open>heapSort_build\<close> makes a heap of the whole range and \<open>heapSort_pop\<close> keeps a sorted
  suffix that no element of the heap exceeds.
\<close>

text \<open>The parent of node \<open>c\<close> of a heap laid out from index 0.\<close>

abbreviation (input) parent :: "nat \<Rightarrow> nat" where
  "parent c \<equiv> (c - 1) div 2"

definition heap_in :: "('a \<Rightarrow> 'a \<Rightarrow> bool) \<Rightarrow> nat \<Rightarrow> nat \<Rightarrow> nat \<Rightarrow> 'a list \<Rightarrow> bool" where
  "heap_in lt first lo hi xs \<longleftrightarrow>
     (\<forall>c. 0 < c \<and> c < hi \<and> lo \<le> parent c \<longrightarrow> \<not> lt (xs ! (first + parent c)) (xs ! (first + c)))"

text \<open>A heap but for the node \<open>root\<close>, whose children are still below its parent.\<close>

definition heap_but :: "('a \<Rightarrow> 'a \<Rightarrow> bool) \<Rightarrow> nat \<Rightarrow> nat \<Rightarrow> nat \<Rightarrow> nat \<Rightarrow> 'a list \<Rightarrow> bool" where
  "heap_but lt first lo hi root xs \<longleftrightarrow>
     (\<forall>c. 0 < c \<and> c < hi \<and> lo \<le> parent c \<and> parent c \<noteq> root \<longrightarrow>
        \<not> lt (xs ! (first + parent c)) (xs ! (first + c))) \<and>
     (\<forall>c. 0 < c \<and> c < hi \<and> parent c = root \<and> 0 < root \<and> lo \<le> parent root \<longrightarrow>
        \<not> lt (xs ! (first + parent root)) (xs ! (first + c)))"

lemma child_of: "0 < c \<Longrightarrow> parent c = r \<longleftrightarrow> c = 2 * r + 1 \<or> c = 2 * r + (2::nat)"
  by auto

text \<open>The larger of the two children, as \<open>siftDown\<close> chooses it.\<close>

definition larger_child :: "'d Interface \<Rightarrow> 'd \<Rightarrow> nat \<Rightarrow> nat \<Rightarrow> nat \<Rightarrow> nat" where
  "larger_child I d root hi first =
     (if 2 * root + 2 < hi \<and> Less I d (first + (2 * root + 1)) (first + (2 * root + 1) + 1)
      then 2 * root + 2 else 2 * root + 1)"

lemma siftDown_unfold:
  "siftDown I d root hi first =
     (if 2 * root + 1 \<ge> hi then d
      else if \<not> Less I d (first + root) (first + larger_child I d root hi first) then d
      else siftDown I (Swap I d (first + root) (first + larger_child I d root hi first))
             (larger_child I d root hi first) hi first)"
  by (subst siftDown.simps) (simp add: Let_def larger_child_def)

lemma larger_child_bounds:
  "2 * root + 1 < hi \<Longrightarrow> root < larger_child I d root hi first"
  "2 * root + 1 < hi \<Longrightarrow> larger_child I d root hi first < hi"
  "2 * root + 1 < hi \<Longrightarrow> parent (larger_child I d root hi first) = root"
  by (auto simp: larger_child_def)

context sort_data begin

lemma siftDown_perm:
  "first + hi \<le> length (elems d) \<Longrightarrow>
   perm_in first (first + hi) (elems d) (elems (siftDown I d root hi first))"
proof (induction "hi - root" arbitrary: d root rule: less_induct)
  case less
  let ?c = "larger_child I d root hi first"
  let ?d = "Swap I d (first + root) (first + ?c)"
  show ?case
  proof (cases "2 * root + 1 < hi")
    case True
    note b = larger_child_bounds [where I = I and d = d and first = first, OF True]
    have s: "elems ?d = swap_nth (first + root) (first + ?c) (elems d)"
      using less.prems b True by (intro Swap_law) auto
    have p: "perm_in first (first + hi) (elems d) (elems ?d)"
      unfolding s using less.prems b True by (intro perm_in_swap_nth) auto
    also have "perm_in first (first + hi) \<dots> (elems (siftDown I ?d ?c hi first))"
      using less.prems b True perm_in_length [OF p] by (intro less.hyps) auto
    finally show ?thesis using True by (subst siftDown_unfold) auto
  next
    case False
    then show ?thesis by (subst siftDown_unfold) auto
  qed
qed

lemma heapSort_build_perm:
  "first + hi \<le> length (elems d) \<Longrightarrow>
   perm_in first (first + hi) (elems d) (elems (heapSort_build I d k hi first))"
proof (induction k arbitrary: d)
  case (Suc k)
  have p: "perm_in first (first + hi) (elems d) (elems (siftDown I d k hi first))"
    using Suc.prems by (rule siftDown_perm)
  then show ?case using Suc perm_in_length [OF p] by (auto intro: perm_in_trans)
qed simp

lemma heapSort_pop_step_perm:
  assumes "Suc i \<le> hi" "first + hi \<le> length (elems d)"
  shows "perm_in first (first + hi) (elems d)
    (elems (siftDown I (Swap I d first (first + i)) 0 i first))"
proof -
  have s: "elems (Swap I d first (first + i)) = swap_nth first (first + i) (elems d)"
    using assms by (intro Swap_law) auto
  have p: "perm_in first (first + hi) (elems d) (elems (Swap I d first (first + i)))"
    unfolding s using assms by (intro perm_in_swap_nth) auto
  also have "perm_in first (first + hi) \<dots> (elems (siftDown I (Swap I d first (first + i)) 0 i first))"
    using assms perm_in_length [OF p] by (intro perm_in_mono [OF siftDown_perm]) auto
  finally show ?thesis .
qed

lemma heapSort_pop_perm:
  "i \<le> hi \<Longrightarrow> first + hi \<le> length (elems d) \<Longrightarrow>
   perm_in first (first + hi) (elems d) (elems (heapSort_pop I d i first))"
proof (induction i arbitrary: d)
  case (Suc i)
  note p = heapSort_pop_step_perm [OF Suc.prems]
  have "perm_in first (first + hi) (elems (siftDown I (Swap I d first (first + i)) 0 i first))
     (elems (heapSort_pop I d (Suc i) first))"
    using Suc perm_in_length [OF p] by simp
  with p show ?case by (rule perm_in_trans)
qed simp

lemma heapSort_perm:
  assumes "a \<le> b" "b \<le> length (elems d)"
  shows "perm_in a b (elems d) (elems (heapSort I d a b))"
proof -
  let ?d = "heapSort_build I d ((b - a - 1) div 2 + 1) (b - a) a"
  have "perm_in a (a + (b - a)) (elems d) (elems ?d)"
    using assms by (intro heapSort_build_perm) auto
  moreover from this have "perm_in a (a + (b - a)) (elems ?d) (elems (heapSort_pop I ?d (b - a) a))"
    using assms by (intro heapSort_pop_perm) (auto simp: perm_in_length)
  ultimately show ?thesis
    using assms by (auto simp: heapSort_def Let_def intro: perm_in_trans)
qed

end

context weak_order begin

text \<open>
  Exchanging a node with its largest child, when that child is larger, moves the gap in the heap
  one level down. The node's own relation to its parent plays no part.
\<close>

lemma heap_but_swap:
  assumes ok: "\<And>c. 0 < c \<Longrightarrow> c < hi \<Longrightarrow> lo \<le> parent c \<Longrightarrow> parent c \<noteq> root \<Longrightarrow> c \<noteq> root \<Longrightarrow>
      \<not> lt (xs ! (first + parent c)) (xs ! (first + c))"
    and up: "\<And>c. 0 < c \<Longrightarrow> c < hi \<Longrightarrow> parent c = root \<Longrightarrow> 0 < root \<Longrightarrow> lo \<le> parent root \<Longrightarrow>
      \<not> lt (xs ! (first + parent root)) (xs ! (first + c))"
    and len: "first + hi \<le> length xs" and ch: "root < ch" "ch < hi" "parent ch = root"
    and mx: "\<And>c. 0 < c \<Longrightarrow> c < hi \<Longrightarrow> parent c = root \<Longrightarrow> \<not> lt (xs ! (first + ch)) (xs ! (first + c))"
    and less: "lt (xs ! (first + root)) (xs ! (first + ch))"
  shows "heap_but lt first lo hi ch (swap_nth (first + root) (first + ch) xs)"
proof -
  let ?ys = "swap_nth (first + root) (first + ch) xs"
  have nth: "?ys ! (first + k) = (if k = root then xs ! (first + ch)
      else if k = ch then xs ! (first + root) else xs ! (first + k))" for k
    using len ch by (subst nth_swap_nth) auto
  have 1: "\<not> lt (?ys ! (first + parent c)) (?ys ! (first + c))"
    if c: "0 < c" "c < hi" "lo \<le> parent c" "parent c \<noteq> ch" for c
  proof (cases "parent c = root")
    case True
    then have "c \<noteq> root" using c(1) by auto
    then show ?thesis
      using True c mx [of c] lt_asym [OF less] by (auto simp: nth)
  next
    case False
    have "c = root \<Longrightarrow> \<not> lt (xs ! (first + parent root)) (xs ! (first + ch))"
      using c up [of ch] ch by auto
    moreover have "c \<noteq> ch" using False ch(3) by auto
    ultimately show ?thesis using False c ok [of c] by (auto simp: nth)
  qed
  have 2: "\<not> lt (?ys ! (first + parent ch)) (?ys ! (first + c))"
    if c: "0 < c" "c < hi" "parent c = ch" "lo \<le> parent ch" for c
  proof -
    have "c \<noteq> root" "c \<noteq> ch" using c ch by auto
    moreover have "\<not> lt (xs ! (first + ch)) (xs ! (first + c))"
      using ok [of c] c ch \<open>c \<noteq> root\<close> by auto
    ultimately show ?thesis using ch by (simp add: nth)
  qed
  show ?thesis using 1 2 by (auto simp: heap_but_def)
qed

lemma heap_root_max:
  assumes "heap_in lt first 0 n xs" "k < n"
  shows "\<not> lt (xs ! first) (xs ! (first + k))"
  using assms(2)
proof (induction k rule: less_induct)
  case (less k)
  show ?case
  proof (cases "k = 0")
    case False
    then have "\<not> lt (xs ! (first + parent k)) (xs ! (first + k))"
      using assms(1) less.prems by (auto simp: heap_in_def)
    moreover have "\<not> lt (xs ! first) (xs ! (first + parent k))"
      using False less by (intro less.IH) auto
    ultimately show ?thesis using ge_trans by blast
  qed (simp add: lt_irrefl)
qed

end

context sort_order begin

lemma larger_child_max:
  assumes "2 * root + 1 < hi" "first + hi \<le> length (elems d)" "0 < c" "c < hi" "parent c = root"
  shows "\<not> lt (elems d ! (first + larger_child I d root hi first)) (elems d ! (first + c))"
proof -
  have c: "c = 2 * root + 1 \<or> c = 2 * root + 2" using assms(3,5) child_of by blast
  have "2 * root + 2 < hi \<Longrightarrow> Less I d (first + (2 * root + 1)) (first + (2 * root + 1) + 1) =
      lt (elems d ! (first + (2 * root + 1))) (elems d ! (first + (2 * root + 2)))"
    using assms by (subst Less_law) auto
  then have l: "larger_child I d root hi first =
      (if 2 * root + 2 < hi \<and> lt (elems d ! (first + (2 * root + 1))) (elems d ! (first + (2 * root + 2)))
       then 2 * root + 2 else 2 * root + 1)"
    by (auto simp: larger_child_def)
  show ?thesis
  proof (cases "2 * root + 2 < hi \<and> lt (elems d ! (first + (2 * root + 1))) (elems d ! (first + (2 * root + 2)))")
    case True
    then show ?thesis using c l lt_irrefl lt_asym by metis
  next
    case False
    then show ?thesis using c l lt_irrefl assms(4) by metis
  qed
qed

lemma siftDown_heap:
  "first + hi \<le> length (elems d) \<Longrightarrow> heap_but lt first lo hi root (elems d) \<Longrightarrow>
   heap_in lt first lo hi (elems (siftDown I d root hi first))"
proof (induction "hi - root" arbitrary: d root rule: less_induct)
  case less
  define ch where "ch = larger_child I d root hi first"
  have ok: "\<not> lt (elems d ! (first + parent c)) (elems d ! (first + c))"
    if "0 < c" "c < hi" "lo \<le> parent c" "parent c \<noteq> root" for c
    using less.prems(2) that by (auto simp: heap_but_def)
  consider "hi \<le> 2 * root + 1" | "2 * root + 1 < hi" "\<not> lt (elems d ! (first + root)) (elems d ! (first + ch))"
    | "2 * root + 1 < hi" "lt (elems d ! (first + root)) (elems d ! (first + ch))"
    by linarith
  then show ?case
  proof cases
    case 1
    then have "parent c \<noteq> root" if "c < hi" "0 < c" for c using that by auto
    then show ?thesis using 1 ok by (subst siftDown_unfold) (auto simp: heap_in_def)
  next
    case 2
    have b: "root < ch" "ch < hi" using larger_child_bounds 2(1) by (auto simp: ch_def)
    then have "\<not> Less I d (first + root) (first + ch)" using 2(2) less.prems(1) by (simp add: Less_law)
    then have e: "siftDown I d root hi first = d" by (subst siftDown_unfold) (simp add: ch_def)
    have "\<not> lt (elems d ! (first + root)) (elems d ! (first + c))"
      if "0 < c" "c < hi" "parent c = root" for c
      using larger_child_max [OF 2(1) less.prems(1) that] 2(2) ge_trans by (auto simp: ch_def)
    then show ?thesis using ok unfolding e heap_in_def by metis
  next
    case 3
    have b: "root < ch" "ch < hi" using larger_child_bounds 3(1) by (auto simp: ch_def)
    then have l: "Less I d (first + root) (first + ch)" using 3(2) less.prems(1) by (simp add: Less_law)
    let ?d = "Swap I d (first + root) (first + ch)"
    have s: "elems ?d = swap_nth (first + root) (first + ch) (elems d)"
      using less.prems(1) b by (intro Swap_law) auto
    have "heap_but lt first lo hi ch (elems ?d)"
      unfolding s using ok less.prems b 3 larger_child_bounds(3) [OF 3(1), of I d first]
        larger_child_max [OF 3(1) less.prems(1)]
      by (intro heap_but_swap) (auto simp: heap_but_def ch_def)
    then have "heap_in lt first lo hi (elems (siftDown I ?d ch hi first))"
      using b s less.prems by (intro less.hyps) auto
    then show ?thesis using 3 l by (subst siftDown_unfold) (auto simp: ch_def)
  qed
qed

lemma heapSort_build_heap:
  "first + hi \<le> length (elems d) \<Longrightarrow> heap_in lt first k hi (elems d) \<Longrightarrow>
   heap_in lt first 0 hi (elems (heapSort_build I d k hi first))"
proof (induction k arbitrary: d)
  case (Suc k)
  have "heap_but lt first k hi k (elems d)"
    using Suc.prems(2) by (auto simp: heap_in_def heap_but_def)
  then have "heap_in lt first k hi (elems (siftDown I d k hi first))"
    using Suc.prems(1) by (intro siftDown_heap)
  then show ?case
    using Suc.IH Suc.prems(1) siftDown_perm [OF Suc.prems(1), of k] by (simp add: perm_in_length)
qed simp

text \<open>The loop that moves the maximum behind the shrinking heap.\<close>

definition pop_inv :: "nat \<Rightarrow> nat \<Rightarrow> nat \<Rightarrow> 'a list \<Rightarrow> bool" where
  "pop_inv first hi i xs \<longleftrightarrow>
     heap_in lt first 0 i xs \<and> sorted_in lt (first + i) (first + hi) xs \<and>
     (\<forall>k j. k < i \<and> i \<le> j \<and> j < hi \<longrightarrow> \<not> lt (xs ! (first + j)) (xs ! (first + k)))"

lemma pop_inv_step:
  assumes inv: "pop_inv first hi (Suc i) (elems d)" and le: "Suc i \<le> hi" "first + hi \<le> length (elems d)"
  shows "pop_inv first hi i (elems (siftDown I (Swap I d first (first + i)) 0 i first))"
proof -
  let ?d = "Swap I d first (first + i)" and ?xs = "elems d"
  let ?ys = "elems ?d" and ?zs = "elems (siftDown I ?d 0 i first)"
  have s: "?ys = swap_nth first (first + i) ?xs" using le by (intro Swap_law) auto
  have len: "first + i \<le> length ?ys" using le s by simp
  have nth: "?ys ! (first + k) = (if k = 0 then ?xs ! (first + i) else if k = i then ?xs ! first else ?xs ! (first + k))" for k
    unfolding s using le by (subst nth_swap_nth) auto
  have "heap_but lt first 0 i 0 ?ys"
    using inv by (auto simp: heap_but_def pop_inv_def heap_in_def nth)
  then have h: "heap_in lt first 0 i ?zs" using len by (intro siftDown_heap)
  have p: "perm_in first (first + i) ?ys ?zs" using len by (rule siftDown_perm)
  have top: "?zs ! (first + j) = (if j = i then ?xs ! first else ?xs ! (first + j))" if "i \<le> j" for j
    using perm_in_outside [OF p, of "first + j"] that nth [of j] by auto
  have mx: "\<not> lt (?xs ! (first + j)) (?xs ! first)" if "i < j" "j < hi" for j
    using inv that unfolding pop_inv_def by (metis Suc_leI add_0_right zero_less_Suc)
  have sorted: "sorted_in lt (first + Suc i) (first + hi) ?xs" using inv by (simp add: pop_inv_def)
  have s': "\<not> lt (?zs ! (first + j)) (?zs ! (first + k))" if "i \<le> k" "k < j" "j < hi" for j k
    using that mx [of j] sorted_inD [OF sorted, of "first + k" "first + j"] top by auto
  have "sorted_in lt (first + i) (first + hi) ?zs"
    unfolding sorted_in_def
  proof (intro allI impI)
    fix k j assume kj: "first + i \<le> k \<and> k < j \<and> j < first + hi"
    then obtain k' j' where "k = first + k'" "j = first + j'"
      by (metis add_leD1 le_Suc_ex less_imp_le_nat order_trans)
    then show "\<not> lt (?zs ! j) (?zs ! k)" using s' [of k' j'] kj by auto
  qed
  moreover have "\<not> lt (?zs ! (first + j)) (?zs ! (first + k))" if "k < i" "i \<le> j" "j < hi" for k j
  proof -
    have all: "\<not> lt (?zs ! (first + j)) (?ys ! m)" if "first \<le> m" "m < first + i" for m
    proof -
      from that(1) obtain q where q1: "m = first + q" using le_Suc_ex by blast
      then have q: "m = first + q" "q < i" using that(2) by auto
      define e where "e = (if q = 0 then i else q)"
      have e: "?ys ! m = ?xs ! (first + e)" "e < Suc i" using q by (auto simp: nth e_def)
      have "\<not> lt (?xs ! first) (?xs ! (first + e))"
        using inv e(2) by (intro heap_root_max [of first "Suc i"]) (auto simp: pop_inv_def)
      moreover have "j \<noteq> i \<Longrightarrow> \<not> lt (?xs ! (first + j)) (?xs ! (first + e))"
        using inv e(2) \<open>i \<le> j\<close> \<open>j < hi\<close> by (auto simp: pop_inv_def)
      ultimately show ?thesis using top [OF \<open>i \<le> j\<close>] e(1) by auto
    qed
    show ?thesis using that len by (intro perm_in_all [OF p, where P = "\<lambda>x. \<not> lt _ x"] all) auto
  qed
  ultimately show ?thesis using h by (auto simp: pop_inv_def)
qed

lemma heapSort_pop_sorted:
  "i \<le> hi \<Longrightarrow> first + hi \<le> length (elems d) \<Longrightarrow> pop_inv first hi i (elems d) \<Longrightarrow>
   sorted_in lt first (first + hi) (elems (heapSort_pop I d i first))"
proof (induction i arbitrary: d)
  case 0
  then show ?case by (simp add: pop_inv_def)
next
  case (Suc i)
  note p = heapSort_pop_step_perm [OF Suc.prems(1,2)]
  show ?case
    using Suc.prems pop_inv_step [OF Suc.prems(3,1,2)] perm_in_length [OF p]
    by (auto intro!: Suc.IH)
qed

lemma heapSort_sorted:
  assumes "a \<le> b" "b \<le> length (elems d)"
  shows "sorted_in lt a b (elems (heapSort I d a b))"
proof -
  let ?hi = "b - a"
  let ?d = "heapSort_build I d ((?hi - 1) div 2 + 1) ?hi a"
  have "heap_in lt a ((?hi - 1) div 2 + 1) ?hi (elems d)"
    by (auto simp: heap_in_def div_le_mono le_diff_conv)
  then have "heap_in lt a 0 ?hi (elems ?d)"
    using assms by (intro heapSort_build_heap) auto
  then have "pop_inv a ?hi ?hi (elems ?d)" by (auto simp: pop_inv_def)
  moreover have "length (elems ?d) = length (elems d)"
    using assms by (intro perm_in_length [of a "a + ?hi"] heapSort_build_perm) auto
  ultimately have "sorted_in lt a (a + ?hi) (elems (heapSort_pop I ?d ?hi a))"
    using assms by (intro heapSort_pop_sorted) auto
  then show ?thesis using assms by (simp add: heapSort_def Let_def)
qed

end

end
