(* ===== verification/QuickSort.thy ===== *)
theory QuickSort
  imports HeapSort
begin

text \<open>
  Correctness of \<open>doPivot\<close>, \<open>quickSort\<close> and \<open>Sort\<close>. The five-way invariant written as a comment in
  \<open>doPivot\<close> (elements equal to, less than, not yet compared with, greater than and again equal to
  the pivot) is \<open>part_inv\<close>; block exchange turns it into the three-way partition the recursion
  relies on.
\<close>

text \<open>All elements of \<open>[lo, hi)\<close> satisfy \<open>P\<close>.\<close>

definition all_in :: "nat \<Rightarrow> nat \<Rightarrow> ('a \<Rightarrow> bool) \<Rightarrow> 'a list \<Rightarrow> bool" where
  "all_in lo hi P xs \<longleftrightarrow> (\<forall>k. lo \<le> k \<and> k < hi \<longrightarrow> P (xs ! k))"

lemma all_in_empty [simp]: "hi \<le> lo \<Longrightarrow> all_in lo hi P xs"
  by (auto simp: all_in_def)

lemma all_inD: "all_in lo hi P xs \<Longrightarrow> lo \<le> k \<Longrightarrow> k < hi \<Longrightarrow> P (xs ! k)"
  by (auto simp: all_in_def)

lemma all_in_outside:
  "all_in lo hi P xs \<Longrightarrow> perm_in a b xs ys \<Longrightarrow> hi \<le> a \<or> b \<le> lo \<Longrightarrow> all_in lo hi P ys"
  unfolding all_in_def perm_in_def by auto

lemma all_in_perm:
  "all_in lo hi P xs \<Longrightarrow> perm_in a b xs ys \<Longrightarrow> lo \<le> a \<Longrightarrow> b \<le> hi \<Longrightarrow> b \<le> length xs \<Longrightarrow> all_in lo hi P ys"
  unfolding all_in_def using perm_in_all_wide [of a b xs ys lo hi P] by auto

text \<open>The indices of the ``ninther'' lie in the range.\<close>

lemma ninther_bounds:
  fixes lo hi :: nat
  assumes "lo < hi"
  shows "lo \<le> lo + (hi - lo) div 2" "lo + (hi - lo) div 2 + (hi - lo) div 8 < hi"
    "(hi - lo) div 8 \<le> lo + (hi - lo) div 2 - lo" "lo + 2 * ((hi - lo) div 8) < hi"
proof -
  obtain n where n: "hi = lo + n" "0 < n" using assms less_imp_add_positive by blast
  have "n div 2 + n div 8 < n" "2 * (n div 8) < n" "n div 8 \<le> n div 2"
  proof -
    have g: "h + e < n \<and> 2 * e < n" if "8 * e \<le> n" "2 * h \<le> n" for h e :: nat
      using that n(2) by linarith
    show "n div 2 + n div 8 < n" "2 * (n div 8) < n" using g [of "n div 8" "n div 2"] by simp_all
    show "n div 8 \<le> n div 2" by (rule div_le_mono2) simp_all
  qed
  then show "lo \<le> lo + (hi - lo) div 2" "lo + (hi - lo) div 2 + (hi - lo) div 8 < hi"
    "(hi - lo) div 8 \<le> lo + (hi - lo) div 2 - lo" "lo + 2 * ((hi - lo) div 8) < hi"
    using n by simp_all
qed

context sort_data begin

section \<open>Block exchange\<close>

lemma swapRange_loop_nth:
  "a + n \<le> b \<Longrightarrow> b + n \<le> length (elems d) \<Longrightarrow> i \<le> n \<Longrightarrow>
   length (elems (swapRange_loop I d a b n i)) = length (elems d) \<and>
   (\<forall>k. elems (swapRange_loop I d a b n i) ! k =
     (if a + i \<le> k \<and> k < a + n then elems d ! (b + (k - a))
      else if b + i \<le> k \<and> k < b + n then elems d ! (a + (k - b)) else elems d ! k))"
proof (induction "n - i" arbitrary: d i)
  case 0
  then have "swapRange_loop I d a b n i = d" by (subst swapRange_loop.simps) simp
  then show ?case using 0 by auto
next
  case (Suc m)
  let ?d = "Swap I d (a + i) (b + i)"
  have s: "elems ?d = swap_nth (a + i) (b + i) (elems d)"
    using Suc.hyps(2) Suc.prems by (intro Swap_law) auto
  have nth: "elems ?d ! k = (if k = a + i then elems d ! (b + i)
      else if k = b + i then elems d ! (a + i) else elems d ! k)" for k
    unfolding s using Suc.hyps(2) Suc.prems by (intro nth_swap_nth) auto
  have u: "swapRange_loop I d a b n i = swapRange_loop I ?d a b n (i + 1)"
    using Suc.hyps(2) by (subst swapRange_loop.simps) auto
  have IH: "length (elems (swapRange_loop I ?d a b n (i + 1))) = length (elems ?d) \<and>
     (\<forall>k. elems (swapRange_loop I ?d a b n (i + 1)) ! k =
       (if a + (i + 1) \<le> k \<and> k < a + n then elems ?d ! (b + (k - a))
        else if b + (i + 1) \<le> k \<and> k < b + n then elems ?d ! (a + (k - b)) else elems ?d ! k))"
    using Suc.hyps(2) Suc.prems s by (intro Suc.hyps(1)) auto
  have "elems (swapRange_loop I d a b n i) ! k =
     (if a + i \<le> k \<and> k < a + n then elems d ! (b + (k - a))
      else if b + i \<le> k \<and> k < b + n then elems d ! (a + (k - b)) else elems d ! k)" for k
  proof -
    consider "a + i = k" | "a + i < k" "k < a + n" | "b + i = k" | "b + i < k" "k < b + n"
      | "\<not> (a + i \<le> k \<and> k < a + n)" "\<not> (b + i \<le> k \<and> k < b + n)"
      by linarith
    then show ?thesis
      unfolding u using IH Suc.hyps(2) Suc.prems by cases (auto simp: nth)
  qed
  then show ?case using IH u s by simp
qed

lemma swapRange_nth:
  assumes "a + n \<le> b" "b + n \<le> length (elems d)"
  shows "length (elems (swapRange I d a b n)) = length (elems d)"
    and "elems (swapRange I d a b n) ! k =
     (if a \<le> k \<and> k < a + n then elems d ! (b + (k - a))
      else if b \<le> k \<and> k < b + n then elems d ! (a + (k - b)) else elems d ! k)"
  using swapRange_loop_nth [OF assms, of 0] by (simp_all add: swapRange_def)

lemma swapRange_loop_perm:
  "lo \<le> a \<Longrightarrow> a + n \<le> b \<Longrightarrow> b + n \<le> hi \<Longrightarrow> hi \<le> length (elems d) \<Longrightarrow>
   perm_in lo hi (elems d) (elems (swapRange_loop I d a b n i))"
proof (induction "n - i" arbitrary: d i)
  case 0
  then show ?case by (subst swapRange_loop.simps) auto
next
  case (Suc m)
  let ?d = "Swap I d (a + i) (b + i)"
  have s: "elems ?d = swap_nth (a + i) (b + i) (elems d)"
    using Suc.hyps(2) Suc.prems by (intro Swap_law) auto
  have p: "perm_in lo hi (elems d) (elems ?d)"
    unfolding s using Suc.hyps(2) Suc.prems by (intro perm_in_swap_nth) auto
  also have "perm_in lo hi \<dots> (elems (swapRange_loop I ?d a b n (i + 1)))"
    using Suc.hyps(2) Suc.prems s by (intro Suc.hyps(1)) auto
  finally show ?case using Suc.hyps(2) by (subst swapRange_loop.simps) simp
qed

lemma swapRange_perm:
  "lo \<le> a \<Longrightarrow> a + n \<le> b \<Longrightarrow> b + n \<le> hi \<Longrightarrow> hi \<le> length (elems d) \<Longrightarrow>
   perm_in lo hi (elems d) (elems (swapRange I d a b n))"
  by (simp add: swapRange_def swapRange_loop_perm)

text \<open>
  Exchanging the shorter of two neighbouring blocks with the far end of the other one swaps the
  properties of the blocks.
\<close>

lemma swapRange_blocks:
  assumes P: "all_in lo a P (elems d)" and Q: "all_in a b Q (elems d)"
    and le: "lo \<le> a" "a \<le> b" "b \<le> length (elems d)" and n: "n = go_min (b - a) (a - lo)"
  shows "all_in lo (lo + b - a) Q (elems (swapRange I d lo (b - n) n))"
    and "all_in (lo + b - a) b P (elems (swapRange I d lo (b - n) n))"
proof -
  have r: "lo + n \<le> b - n" "b - n + n \<le> length (elems d)" "b - n + n = b" "n \<le> b - a" "n \<le> a - lo"
    using n le by (auto simp: go_min_def split: if_splits)
  have nn: "n = b - a \<or> n = a - lo" using n by (auto simp: go_min_def)
  note nth = swapRange_nth(2) [OF r(1,2)]
  show "all_in lo (lo + b - a) Q (elems (swapRange I d lo (b - n) n))"
    unfolding all_in_def
  proof (intro allI impI)
    fix k assume k: "lo \<le> k \<and> k < lo + b - a"
    show "Q (elems (swapRange I d lo (b - n) n) ! k)"
    proof (cases "k < lo + n")
      case True
      then show ?thesis using k r le by (auto simp: nth intro!: all_inD [OF Q])
    next
      case False
      then have "\<not> (b - n \<le> k \<and> k < b - n + n)" "a \<le> k" using k r le nn by auto
      then show ?thesis using False k r le by (auto simp: nth intro!: all_inD [OF Q])
    qed
  qed
  show "all_in (lo + b - a) b P (elems (swapRange I d lo (b - n) n))"
    unfolding all_in_def
  proof (intro allI impI)
    fix k assume k: "lo + b - a \<le> k \<and> k < b"
    show "P (elems (swapRange I d lo (b - n) n) ! k)"
    proof (cases "b - n \<le> k")
      case True
      then have "\<not> k < lo + n" "k < b - n + n" "lo + (k - (b - n)) < a" using k r le nn by auto
      then show ?thesis using True by (auto simp: nth intro!: all_inD [OF P])
    next
      case False
      then have "\<not> k < lo + n" "k < a" "lo \<le> k" using k r le nn by auto
      then show ?thesis using False by (auto simp: nth intro!: all_inD [OF P])
    qed
  qed
qed

lemma medianOfThree_perm:
  assumes "lo \<le> a" "a < hi" "lo \<le> b" "b < hi" "lo \<le> c" "c < hi" "hi \<le> length (elems d)"
  shows "perm_in lo hi (elems d) (elems (medianOfThree I d a b c))"
proof -
  have 1: "perm_in lo hi (elems d) (elems (swap_if I d a b))"
    using assms by (intro swap_if_perm) auto
  have 2: "perm_in lo hi (elems (swap_if I d a b)) (elems (swap_if I (swap_if I d a b) c a))"
    using assms perm_in_length [OF 1] by (intro swap_if_perm) auto
  have 3: "perm_in lo hi (elems (swap_if I (swap_if I d a b) c a))
      (elems (swap_if I (swap_if I (swap_if I d a b) c a) a b))"
    using assms perm_in_length [OF 1] perm_in_length [OF 2] by (intro swap_if_perm) auto
  show ?thesis
    using 1 2 3 by (auto simp: medianOfThree_def Let_def intro: perm_in_trans)
qed

end

section \<open>The partition\<close>

context sort_order begin

definition same_rank :: "'a \<Rightarrow> 'a \<Rightarrow> bool" where
  "same_rank x y \<longleftrightarrow> \<not> lt x y \<and> \<not> lt y x"

definition part_inv :: "nat \<Rightarrow> nat \<Rightarrow> nat \<Rightarrow> nat \<Rightarrow> nat \<Rightarrow> nat \<Rightarrow> 'a \<Rightarrow> 'a list \<Rightarrow> bool" where
  "part_inv lo hi a b c d p xs \<longleftrightarrow>
     lo < a \<and> a \<le> b \<and> b \<le> c \<and> c \<le> d \<and> d \<le> hi \<and> hi \<le> length xs \<and> xs ! lo = p \<and>
     all_in lo a (same_rank p) xs \<and> all_in a b (\<lambda>x. lt x p) xs \<and>
     all_in c d (\<lambda>x. lt p x) xs \<and> all_in d hi (same_rank p) xs"

lemma part_inv_left_less:
  assumes "part_inv lo hi a b c d p xs" "b < c" "lt (xs ! b) p"
  shows "part_inv lo hi a (b + 1) c d p xs"
  using assms by (auto simp: part_inv_def all_in_def less_Suc_eq)

lemma part_inv_left_equal:
  assumes "part_inv lo hi a b c d p xs" "b < c" "\<not> lt (xs ! b) p" "\<not> lt p (xs ! b)"
  shows "part_inv lo hi (a + 1) (b + 1) c d p (swap_nth a b xs)"
proof -
  have nth: "swap_nth a b xs ! k = (if k = a then xs ! b else if k = b then xs ! a else xs ! k)" for k
    using assms(1,2) by (intro nth_swap_nth) (auto simp: part_inv_def)
  have o: "lo < a" "a \<le> b" "c \<le> d" using assms(1) by (auto simp: part_inv_def)
  have "all_in lo (a + 1) (same_rank p) (swap_nth a b xs)"
    using assms o by (auto simp: part_inv_def all_in_def nth less_Suc_eq same_rank_def)
  moreover have "all_in (a + 1) (b + 1) (\<lambda>x. lt x p) (swap_nth a b xs)"
    using assms o by (auto simp: part_inv_def all_in_def nth less_Suc_eq)
  moreover have "all_in c d (\<lambda>x. lt p x) (swap_nth a b xs)" "all_in d hi (same_rank p) (swap_nth a b xs)"
    using assms o by (auto simp: part_inv_def all_in_def nth)
  moreover have "swap_nth a b xs ! lo = p" using assms o by (auto simp: nth part_inv_def)
  ultimately show ?thesis using assms by (auto simp: part_inv_def)
qed

lemma part_inv_right_greater:
  assumes "part_inv lo hi a b (Suc c) d p xs" "b \<le> c" "lt p (xs ! c)"
  shows "part_inv lo hi a b c d p xs"
proof -
  have "k = c \<or> Suc c \<le> k" if "c \<le> k" for k using that by auto
  then show ?thesis using assms by (auto simp: part_inv_def all_in_def)
qed

lemma part_inv_right_equal:
  assumes inv: "part_inv lo hi a b (Suc c) (Suc d) p xs"
    and "b \<le> c" "\<not> lt p (xs ! c)" "\<not> lt (xs ! c) p"
  shows "part_inv lo hi a b c d p (swap_nth c d xs)"
proof -
  let ?ys = "swap_nth c d xs"
  have o: "lo < a" "a \<le> b" "c \<le> d" "d < hi" using inv by (auto simp: part_inv_def)
  have nth: "?ys ! k = (if k = c then xs ! d else if k = d then xs ! c else xs ! k)" for k
    using inv by (intro nth_swap_nth) (auto simp: part_inv_def)
  have "all_in d hi (same_rank p) ?ys"
    unfolding all_in_def
  proof (intro allI impI)
    fix k assume k: "d \<le> k \<and> k < hi"
    then have "k = d \<or> Suc d \<le> k" by auto
    then show "same_rank p (?ys ! k)"
      using k o assms by (auto simp: part_inv_def all_in_def nth same_rank_def)
  qed
  moreover have "all_in c d (\<lambda>x. lt p x) ?ys"
    unfolding all_in_def
  proof (intro allI impI)
    fix k assume k: "c \<le> k \<and> k < d"
    then have "k = c \<or> Suc c \<le> k" by auto
    then show "lt p (?ys ! k)" using k inv by (auto simp: part_inv_def all_in_def nth)
  qed
  moreover have "all_in lo a (same_rank p) ?ys" "all_in a b (\<lambda>x. lt x p) ?ys" "?ys ! lo = p"
    using inv assms(2) o by (auto simp: part_inv_def all_in_def nth)
  ultimately show ?thesis using inv assms(2) by (simp add: part_inv_def)
qed

lemma part_inv_swap:
  assumes inv: "part_inv lo hi a b (Suc c) d p xs" and "b \<le> c" "lt p (xs ! b)" "lt (xs ! c) p"
  shows "part_inv lo hi a (b + 1) c d p (swap_nth b c xs)" "b < c"
proof -
  let ?ys = "swap_nth b c xs"
  have o: "lo < a" "a \<le> b" "c < d" "d \<le> hi" using inv by (auto simp: part_inv_def)
  have nth: "?ys ! k = (if k = b then xs ! c else if k = c then xs ! b else xs ! k)" for k
    using inv assms(2) by (intro nth_swap_nth) (auto simp: part_inv_def)
  have "b \<noteq> c" using assms(3,4) lt_asym by auto
  then show bc: "b < c" using assms(2) by auto
  have "all_in c d (\<lambda>x. lt p x) ?ys"
    unfolding all_in_def
  proof (intro allI impI)
    fix k assume k: "c \<le> k \<and> k < d"
    then have "k = c \<or> Suc c \<le> k" by auto
    then show "lt p (?ys ! k)" using k assms bc by (auto simp: part_inv_def all_in_def nth)
  qed
  moreover have "all_in a (b + 1) (\<lambda>x. lt x p) ?ys"
    using assms bc by (auto simp: part_inv_def all_in_def nth less_Suc_eq)
  moreover have "all_in lo a (same_rank p) ?ys" "all_in d hi (same_rank p) ?ys" "?ys ! lo = p"
    using inv o bc by (auto simp: part_inv_def all_in_def nth)
  ultimately show "part_inv lo hi a (b + 1) c d p ?ys" using inv bc by (simp add: part_inv_def)
qed

lemma doPivot_left_inv:
  "part_inv lo hi a b c d p (elems x) \<Longrightarrow> doPivot_left I x lo a b c = (x', a', b') \<Longrightarrow>
   part_inv lo hi a' b' c d p (elems x') \<and> perm_in lo hi (elems x) (elems x') \<and> b \<le> b' \<and>
   (b' < c \<longrightarrow> lt p (elems x' ! b'))"
proof (induction "c - b" arbitrary: x a b)
  case 0
  then have "doPivot_left I x lo a b c = (x, a, b)" by (subst doPivot_left.simps) simp
  then show ?case using 0 by auto
next
  case (Suc n)
  have o: "b < c" "lo < length (elems x)" "b < length (elems x)" "elems x ! lo = p"
    "lo < a" "a \<le> b" "b < hi" "hi \<le> length (elems x)"
    using Suc.hyps(2) Suc.prems(1) by (auto simp: part_inv_def)
  have n: "n = c - (b + 1)" using Suc.hyps(2) by simp
  have l: "Less I x b lo = lt (elems x ! b) p" "Less I x lo b = lt p (elems x ! b)"
    using o by (simp_all add: Less_law)
  consider "lt (elems x ! b) p" | "\<not> lt (elems x ! b) p" "\<not> lt p (elems x ! b)"
    | "\<not> lt (elems x ! b) p" "lt p (elems x ! b)" by blast
  then show ?case
  proof cases
    case 1
    then have "doPivot_left I x lo a (b + 1) c = (x', a', b')"
      using Suc.prems(2) o l by (subst (asm) doPivot_left.simps) simp
    from Suc.hyps(1) [OF n part_inv_left_less [OF Suc.prems(1) o(1) 1] this] show ?thesis
      by auto
  next
    case 2
    let ?x = "Swap I x a b"
    have s: "elems ?x = swap_nth a b (elems x)" using o by (intro Swap_law) auto
    have e: "doPivot_left I ?x lo (a + 1) (b + 1) c = (x', a', b')"
      using Suc.prems(2) o l 2 by (subst (asm) doPivot_left.simps) simp
    have i: "part_inv lo hi (a + 1) (b + 1) c d p (elems ?x)"
      unfolding s using Suc.prems(1) o(1) 2 by (rule part_inv_left_equal)
    have "perm_in lo hi (elems x) (elems ?x)"
      unfolding s using o by (intro perm_in_swap_nth) auto
    then show ?thesis using Suc.hyps(1) [OF n i e] by (auto intro: perm_in_trans)
  next
    case 3
    then have "(x', a', b') = (x, a, b)"
      using Suc.prems(2) o l by (subst (asm) doPivot_left.simps) simp
    then show ?thesis using Suc.prems(1) 3 by auto
  qed
qed

lemma doPivot_right_inv:
  "part_inv lo hi a b c d p (elems x) \<Longrightarrow> (b < c \<longrightarrow> lt p (elems x ! b)) \<Longrightarrow>
   doPivot_right I x lo b c d = (x', c', d') \<Longrightarrow>
   part_inv lo hi a b c' d' p (elems x') \<and> perm_in lo hi (elems x) (elems x') \<and>
   (b < c' \<longrightarrow> lt p (elems x' ! b) \<and> lt (elems x' ! (c' - 1)) p)"
proof (induction "c - b" arbitrary: x c d)
  case 0
  then have "doPivot_right I x lo b c d = (x, c, d)" by (subst doPivot_right.simps) simp
  then show ?case using 0 by auto
next
  case (Suc n)
  obtain k where c: "c = Suc k" "b \<le> k" using Suc.hyps(2) by (cases c) auto
  obtain j where d: "d = Suc j" "k \<le> j" using Suc.prems(1) c by (cases d) (auto simp: part_inv_def)
  have o: "lo < length (elems x)" "k < length (elems x)" "j < length (elems x)" "elems x ! lo = p"
    "lo < a" "a \<le> b" "j < hi" "hi \<le> length (elems x)"
    using Suc.prems(1) c d by (auto simp: part_inv_def)
  have l: "Less I x lo k = lt p (elems x ! k)" "Less I x k lo = lt (elems x ! k) p"
    using o by (simp_all add: Less_law)
  have inv: "part_inv lo hi a b (Suc k) (Suc j) p (elems x)" using Suc.prems(1) c d by simp
  consider "lt p (elems x ! k)" | "\<not> lt p (elems x ! k)" "\<not> lt (elems x ! k) p"
    | "\<not> lt p (elems x ! k)" "lt (elems x ! k) p" by blast
  then show ?case
  proof cases
    case 1
    then have e: "doPivot_right I x lo b k d = (x', c', d')"
      using Suc.prems(3) c l by (subst (asm) doPivot_right.simps) simp
    have "part_inv lo hi a b k d p (elems x)"
      using inv d(1) c(2) 1 by (auto intro: part_inv_right_greater)
    from Suc.hyps(1) [OF _ this _ e] show ?thesis using Suc.hyps(2) Suc.prems(2) c by auto
  next
    case 2
    let ?x = "Swap I x k j"
    have bk: "b < k" using Suc.prems(2) c 2 by (metis le_neq_implies_less less_Suc_eq_le)
    have s: "elems ?x = swap_nth k j (elems x)" using o by (intro Swap_law) auto
    have e: "doPivot_right I ?x lo b k j = (x', c', d')"
      using Suc.prems(3) c d l 2 by (subst (asm) doPivot_right.simps) simp
    have i: "part_inv lo hi a b k j p (elems ?x)"
      unfolding s using inv c(2) 2 by (intro part_inv_right_equal) auto
    have g: "b < k \<longrightarrow> lt p (elems ?x ! b)"
      unfolding s using bk d(2) o c Suc.prems(2) by (subst nth_swap_nth) auto
    have "perm_in lo hi (elems x) (elems ?x)"
      unfolding s using o c d by (intro perm_in_swap_nth) auto
    then show ?thesis using Suc.hyps(1) [OF _ i g e] Suc.hyps(2) c by (auto intro: perm_in_trans)
  next
    case 3
    then have "(x', c', d') = (x, c, d)"
      using Suc.prems(3) c l by (subst (asm) doPivot_right.simps) simp
    then show ?thesis using Suc.prems(1,2) 3 c by auto
  qed
qed

lemma doPivot_loop_inv:
  "part_inv lo hi a b c d p (elems x) \<Longrightarrow> doPivot_loop I x lo a b c d = (x', a', b', c', d') \<Longrightarrow>
   part_inv lo hi a' b' c' d' p (elems x') \<and> perm_in lo hi (elems x) (elems x') \<and> b' = c'"
proof (induction "c - b" arbitrary: x a b c d rule: less_induct)
  case less
  obtain x1 a1 b1 where L: "doPivot_left I x lo a b c = (x1, a1, b1)" by (cases "doPivot_left I x lo a b c")
  obtain x2 c1 d1 where R: "doPivot_right I x1 lo b1 c d = (x2, c1, d1)"
    by (cases "doPivot_right I x1 lo b1 c d")
  note l = doPivot_left_inv [OF less.prems(1) L]
  from l have "part_inv lo hi a1 b1 c d p (elems x1)" "b1 < c \<longrightarrow> lt p (elems x1 ! b1)" by auto
  note r = doPivot_right_inv [OF this R]
  have p: "perm_in lo hi (elems x) (elems x2)" using l r by (auto intro: perm_in_trans)
  show ?case
  proof (cases "c1 \<le> b1")
    case True
    then have "(x', a', b', c', d') = (x2, a1, b1, c1, d1)"
      using less.prems(2) L R by (subst (asm) doPivot_loop.simps) simp
    then show ?thesis using p r True by (auto simp: part_inv_def)
  next
    case False
    then obtain k where c1: "c1 = Suc k" "b1 \<le> k" by (cases c1) auto
    let ?x = "Swap I x2 b1 k"
    have e: "doPivot_loop I ?x lo a1 (b1 + 1) k d1 = (x', a', b', c', d')"
      using less.prems(2) L R False c1 by (subst (asm) doPivot_loop.simps) simp
    have o: "lo \<le> b1" "k < hi" "hi \<le> length (elems x2)" using r c1 by (auto simp: part_inv_def)
    have s: "elems ?x = swap_nth b1 k (elems x2)" using o c1 by (intro Swap_law) auto
    have i: "part_inv lo hi a1 (b1 + 1) k d1 p (elems ?x)" "b1 < k"
      using part_inv_swap [of lo hi a1 b1 k d1 p "elems x2"] r c1 False unfolding s by auto
    have "perm_in lo hi (elems x2) (elems ?x)"
      unfolding s using o c1 by (intro perm_in_swap_nth) auto
    moreover have "k - (b1 + 1) < c - b"
      using l c1 i(2) doPivot_right_bounds [OF R] by auto
    ultimately show ?thesis
      using less.hyps [OF _ i(1) e] p by (auto intro: perm_in_trans)
  qed
qed

text \<open>What \<open>doPivot\<close> promises \<open>quickSort\<close>.\<close>

definition partitioned :: "nat \<Rightarrow> nat \<Rightarrow> nat \<Rightarrow> nat \<Rightarrow> 'a list \<Rightarrow> bool" where
  "partitioned lo hi mlo mhi xs \<longleftrightarrow> lo \<le> mlo \<and> mlo \<le> mhi \<and> mhi \<le> hi \<and>
     (\<exists>p. all_in lo mlo (\<lambda>x. lt x p) xs \<and> all_in mlo mhi (same_rank p) xs \<and> all_in mhi hi (\<lambda>x. lt p x) xs)"

lemma ninther_perm:
  assumes "lo < hi" "hi \<le> length (elems x)" "lo \<le> m" "m + s < hi" "s \<le> m - lo" "lo + 2 * s < hi"
  shows "perm_in lo hi (elems x)
    (elems (medianOfThree I (medianOfThree I (medianOfThree I x lo (lo + s) (lo + 2 * s)) m (m - s) (m + s))
      (hi - 1) (hi - 1 - s) (hi - 1 - 2 * s)))"
proof -
  let ?e1 = "medianOfThree I x lo (lo + s) (lo + 2 * s)"
  let ?e2 = "medianOfThree I ?e1 m (m - s) (m + s)"
  have 1: "perm_in lo hi (elems x) (elems ?e1)"
    using assms by (intro medianOfThree_perm) auto
  have 2: "perm_in lo hi (elems ?e1) (elems ?e2)"
    using assms perm_in_length [OF 1] by (intro medianOfThree_perm) auto
  have "perm_in lo hi (elems ?e2) (elems (medianOfThree I ?e2 (hi - 1) (hi - 1 - s) (hi - 1 - 2 * s)))"
    using assms perm_in_length [OF 1] perm_in_length [OF 2] by (intro medianOfThree_perm) auto
  then show ?thesis using 1 2 by (blast intro: perm_in_trans)
qed

lemma doPivot_choose_perm:
  assumes "lo < hi" "hi \<le> length (elems x)"
  shows "perm_in lo hi (elems x)
    (elems (if hi - lo > 40 then
        let s = (hi - lo) div 8;
            e1 = medianOfThree I x lo (lo + s) (lo + 2 * s);
            e2 = medianOfThree I e1 (lo + (hi - lo) div 2) (lo + (hi - lo) div 2 - s) (lo + (hi - lo) div 2 + s)
        in medianOfThree I e2 (hi - 1) (hi - 1 - s) (hi - 1 - 2 * s)
      else x))"
proof (cases "hi - lo > 40")
  case True
  note b = ninther_bounds [OF assms(1)]
  show ?thesis using True ninther_perm [OF assms b] by (simp add: Let_def)
qed simp

lemma partition_exchange:
  assumes inv: "part_inv lo hi a b b d p (elems x)"
    and n: "n = go_min (b - a) (a - lo)" and n': "n' = go_min (hi - d) (d - b)"
    and y: "y = swapRange I x lo (b - n) n" and z: "z = swapRange I y b (hi - n') n'"
  shows "partitioned lo hi (lo + b - a) (hi - (d - b)) (elems z) \<and> perm_in lo hi (elems x) (elems z)"
proof -
  have o: "lo < a" "a \<le> b" "b \<le> d" "d \<le> hi" "hi \<le> length (elems x)" using inv by (auto simp: part_inv_def)
  have le: "lo + n \<le> b - n" "b - n + n = b" "b + n' \<le> hi - n'" "hi - n' + n' = hi"
    using n n' o by (auto simp: go_min_def split: if_splits)
  have p1: "perm_in lo b (elems x) (elems y)" unfolding y using o le by (intro swapRange_perm) auto
  have len: "length (elems y) = length (elems x)" using p1 by (rule perm_in_length)
  have p2: "perm_in b hi (elems y) (elems z)" unfolding z using o le len by (intro swapRange_perm) auto
  have B1: "all_in lo (lo + b - a) (\<lambda>x. lt x p) (elems y)" "all_in (lo + b - a) b (same_rank p) (elems y)"
    unfolding y using inv o n by (auto simp: part_inv_def intro!: swapRange_blocks)
  have G: "all_in b d (\<lambda>x. lt p x) (elems y)" "all_in d hi (same_rank p) (elems y)"
    using inv p1 o by (auto simp: part_inv_def intro: all_in_outside)
  have B2: "all_in b (b + hi - d) (same_rank p) (elems z)" "all_in (b + hi - d) hi (\<lambda>x. lt p x) (elems z)"
    unfolding z using G o n' len by (auto intro!: swapRange_blocks)
  have B1': "all_in lo (lo + b - a) (\<lambda>x. lt x p) (elems z)" "all_in (lo + b - a) b (same_rank p) (elems z)"
    using B1 p2 o by (auto intro: all_in_outside)
  have m: "hi - (d - b) = b + hi - d" using o by auto
  have "all_in (lo + b - a) (b + hi - d) (same_rank p) (elems z)"
    using B1'(2) B2(1) by (auto simp: all_in_def) (metis not_le)
  then have "partitioned lo hi (lo + b - a) (hi - (d - b)) (elems z)"
    unfolding partitioned_def m using B1'(1) B2(2) o by auto
  moreover have "perm_in lo hi (elems x) (elems z)"
    using perm_in_mono [OF p1, of lo hi] perm_in_mono [OF p2, of lo hi] o by (auto intro: perm_in_trans)
  ultimately show ?thesis by simp
qed

lemma doPivot_partitioned:
  assumes lh: "lo + 1 < hi" "hi \<le> length (elems x)" and e: "doPivot I x lo hi = (x', mlo, mhi)"
  shows "partitioned lo hi mlo mhi (elems x') \<and> perm_in lo hi (elems x) (elems x')"
proof -
  let ?m = "lo + (hi - lo) div 2"
  define y where "y = (if hi - lo > 40 then
        let s = (hi - lo) div 8;
            e1 = medianOfThree I x lo (lo + s) (lo + 2 * s);
            e2 = medianOfThree I e1 ?m (?m - s) (?m + s)
        in medianOfThree I e2 (hi - 1) (hi - 1 - s) (hi - 1 - 2 * s)
      else x)"
  define z where "z = medianOfThree I y lo ?m (hi - 1)"
  obtain w a b c d where w: "doPivot_loop I z lo (lo + 1) (lo + 1) hi hi = (w, a, b, c, d)"
    by (cases "doPivot_loop I z lo (lo + 1) (lo + 1) hi hi")
  define n n' where "n = go_min (b - a) (a - lo)" and "n' = go_min (hi - d) (d - c)"
  have r: "x' = swapRange I (swapRange I w lo (b - n) n) c (hi - n') n'" "mlo = lo + b - a" "mhi = hi - (d - c)"
    using e w unfolding doPivot_def y_def z_def n_def n'_def by (simp_all add: Let_def)
  have p1: "perm_in lo hi (elems x) (elems y)"
    unfolding y_def using lh by (intro doPivot_choose_perm) auto
  have p2: "perm_in lo hi (elems y) (elems z)"
    unfolding z_def using lh perm_in_length [OF p1] by (intro medianOfThree_perm) auto
  have "part_inv lo hi (lo + 1) (lo + 1) hi hi (elems z ! lo) (elems z)"
    using lh perm_in_length [OF p1] perm_in_length [OF p2]
    by (auto simp: part_inv_def all_in_def same_rank_def less_Suc_eq lt_irrefl)
  from doPivot_loop_inv [OF this w]
  have "part_inv lo hi a b b d (elems z ! lo) (elems w)" "perm_in lo hi (elems z) (elems w)" "c = b"
    by auto
  then show ?thesis
    using partition_exchange [OF _ n_def, of hi d "elems z ! lo" w n' _ x'] p1 p2 r
    by (auto simp: n'_def intro: perm_in_trans)
qed

text \<open>Sorting the outer parts of a partition sorts the range.\<close>

lemma partitioned_sorted:
  assumes part: "partitioned a b mlo mhi xs" and b: "b \<le> length xs"
    and p: "perm_in a mlo xs ys" "perm_in mhi b ys zs"
    and s: "sorted_in lt a mlo ys" "sorted_in lt mhi b zs"
  shows "sorted_in lt a b zs"
proof -
  obtain q where q: "all_in a mlo (\<lambda>x. lt x q) xs" "all_in mlo mhi (same_rank q) xs" "all_in mhi b (\<lambda>x. lt q x) xs"
    and o: "a \<le> mlo" "mlo \<le> mhi" "mhi \<le> b" using part by (auto simp: partitioned_def)
  have len: "length ys = length xs" using p(1) by (rule perm_in_length)
  have y: "all_in a mlo (\<lambda>x. lt x q) ys" "all_in mlo mhi (same_rank q) ys" "all_in mhi b (\<lambda>x. lt q x) ys"
    using q p(1) o b by (auto intro: all_in_outside all_in_perm)
  have z: "all_in a mlo (\<lambda>x. lt x q) zs" "all_in mlo mhi (same_rank q) zs" "all_in mhi b (\<lambda>x. lt q x) zs"
    using y p(2) o b len by (auto intro: all_in_outside all_in_perm)
  have sl: "sorted_in lt a mlo zs" using s(1) p(2) o by (auto intro: sorted_in_outside)
  have sm: "sorted_in lt mlo mhi zs"
    unfolding sorted_in_def
  proof (intro allI impI)
    fix i j assume "mlo \<le> i \<and> i < j \<and> j < mhi"
    then have "\<not> lt (zs ! j) q" "\<not> lt q (zs ! i)" using z(2) by (auto simp: all_in_def same_rank_def)
    then show "\<not> lt (zs ! j) (zs ! i)" by (rule ge_trans)
  qed
  have "sorted_in lt a mhi zs"
    using sl sm
  proof (rule sorted_in_join)
    fix i j assume "a \<le> i" "i < mlo" "mlo \<le> j" "j < mhi"
    then have "lt (zs ! i) q" "\<not> lt (zs ! j) q" using z by (auto simp: all_in_def same_rank_def)
    then show "\<not> lt (zs ! j) (zs ! i)" using lt_trans by blast
  qed
  then show ?thesis using s(2)
  proof (rule sorted_in_join)
    fix i j assume ij: "a \<le> i" "i < mhi" "mhi \<le> j" "j < b"
    have "\<not> lt q (zs ! i)"
      using ij z lt_asym by (cases "i < mlo") (auto simp: all_in_def same_rank_def)
    moreover have "lt q (zs ! j)" using ij z by (auto simp: all_in_def)
    ultimately show "\<not> lt (zs ! j) (zs ! i)" using lt_trans by blast
  qed
qed

lemma partitioned_sorted':
  assumes part: "partitioned a b mlo mhi xs" and b: "b \<le> length xs"
    and p: "perm_in mhi b xs ys" "perm_in a mlo ys zs"
    and s: "sorted_in lt mhi b ys" "sorted_in lt a mlo zs"
  shows "sorted_in lt a b zs"
proof -
  have o: "a \<le> mlo" "mlo \<le> mhi" "mhi \<le> b" using part by (auto simp: partitioned_def)
  have "partitioned a b mlo mhi ys"
    using part p(1) o b unfolding partitioned_def by (meson all_in_outside all_in_perm order_refl)
  moreover have "sorted_in lt mhi b zs" using s(1) p(2) o by (auto intro: sorted_in_outside)
  moreover have "b \<le> length ys" using b p(1) by (simp add: perm_in_length)
  ultimately show ?thesis
    using partitioned_sorted [of a b mlo mhi ys zs zs] p(2) s(2) by simp
qed

theorem quickSort_correct:
  "a \<le> b \<Longrightarrow> b \<le> length (elems x) \<Longrightarrow>
   perm_in a b (elems x) (elems (quickSort I x a b m)) \<and>
   sorted_in lt a b (elems (quickSort I x a b m))"
proof (induction m arbitrary: x a b)
  case 0
  then show ?case
    by (subst (1 2) quickSort.simps)
      (auto simp: heapSort_perm heapSort_sorted insertionSort_perm insertionSort_sorted)
next
  case (Suc m)
  show ?case
  proof (cases "b - a > 7")
    case True
    obtain y mlo mhi where y: "doPivot I x a b = (y, mlo, mhi)" by (cases "doPivot I x a b")
    have part: "partitioned a b mlo mhi (elems y)" and py: "perm_in a b (elems x) (elems y)"
      using doPivot_partitioned [OF _ Suc.prems(2) y] True by auto
    have o: "a \<le> mlo" "mlo \<le> mhi" "mhi \<le> b" using part by (auto simp: partitioned_def)
    have len: "b \<le> length (elems y)" using Suc.prems(2) perm_in_length [OF py] by simp
    show ?thesis
    proof (cases "mlo - a < b - mhi")
      case c: True
      let ?u = "quickSort I y a mlo m"
      have u: "perm_in a mlo (elems y) (elems ?u) \<and> sorted_in lt a mlo (elems ?u)"
        using o len by (intro Suc.IH) auto
      have v: "perm_in mhi b (elems ?u) (elems (quickSort I ?u mhi b m)) \<and>
          sorted_in lt mhi b (elems (quickSort I ?u mhi b m))"
        using o len perm_in_length [of a mlo "elems y" "elems ?u"] u by (intro Suc.IH) auto
      have "quickSort I x a b (Suc m) = quickSort I ?u mhi b m"
        using True y c by (subst quickSort.simps) simp
      then show ?thesis
        using partitioned_sorted [OF part len] u v o
        by (auto intro: perm_in_within [OF perm_in_within [OF py]])
    next
      case c: False
      let ?u = "quickSort I y mhi b m"
      have u: "perm_in mhi b (elems y) (elems ?u) \<and> sorted_in lt mhi b (elems ?u)"
        using o len by (intro Suc.IH) auto
      have v: "perm_in a mlo (elems ?u) (elems (quickSort I ?u a mlo m)) \<and>
          sorted_in lt a mlo (elems (quickSort I ?u a mlo m))"
        using o len perm_in_length [of mhi b "elems y" "elems ?u"] u by (intro Suc.IH) auto
      have "quickSort I x a b (Suc m) = quickSort I ?u a mlo m"
        using True y c by (subst quickSort.simps) simp
      then show ?thesis
        using partitioned_sorted' [OF part len] u v o
        by (auto intro: perm_in_within [OF perm_in_within [OF py]])
    qed
  next
    case False
    then show ?thesis using Suc.prems
      by (subst (1 2) quickSort.simps) (auto simp: insertionSort_perm insertionSort_sorted)
  qed
qed

theorem Sort_sorts:
  "sorted_wrt (\<lambda>x y. \<not> lt y x) (elems (Sort I x)) \<and> mset (elems (Sort I x)) = mset (elems x)"
proof -
  have "perm_in 0 (length (elems x)) (elems x) (elems (Sort I x))"
    "sorted_in lt 0 (length (elems x)) (elems (Sort I x))"
    using quickSort_correct [of 0 "length (elems x)" x] by (auto simp: Sort_def Let_def Len_law)
  then show ?thesis
    using sorted_in_whole [of lt "elems (Sort I x)"] by (auto simp: perm_in_length perm_in_mset)
qed

end

end
