(* ===== verification/StableSort.thy ===== *)
theory StableSort
  imports QuickSort
begin

text \<open>
  Correctness of \<open>Stable\<close>: \<open>rotate\<close> exchanges two neighbouring blocks, \<open>symMerge\<close> merges two
  sorted runs in place, and the block-wise merge sort built from them sorts and keeps the order
  of equivalent elements. Keeping that order is stated through filters: for every \<open>x\<close>, the
  elements equivalent to \<open>x\<close> form the same list before and after.
\<close>

section \<open>Rotation\<close>

context sort_data begin

lemma swapRange_list:
  assumes e: "elems d = X @ u @ w @ v @ Y" and l: "length u = n" "length v = n"
    and a: "a = length X" and b: "b = length X + n + length w"
  shows "elems (swapRange I d a b n) = X @ v @ w @ u @ Y"
proof -
  have r: "a + n \<le> b" "b + n \<le> length (elems d)" using e l a b by auto
  note nth = swapRange_nth(2) [OF r]
  show ?thesis
  proof (rule nth_equalityI)
    show "length (elems (swapRange I d a b n)) = length (X @ v @ w @ u @ Y)"
      using swapRange_nth(1) [OF r] e l by simp
    fix k assume "k < length (elems (swapRange I d a b n))"
    then have k: "k < length X + n + length w + n + length Y"
      using swapRange_nth(1) [OF r] e l by simp
    consider "k < a" | "a \<le> k" "k < a + n" | "a + n \<le> k" "k < b" | "b \<le> k" "k < b + n" | "b + n \<le> k"
      by linarith
    then show "elems (swapRange I d a b n) ! k = (X @ v @ w @ u @ Y) ! k"
    proof cases
      case 1
      then show ?thesis using nth [of k] e a l b by (simp add: nth_append)
    next
      case 2
      then obtain q where q: "k = length X + q" "q < n" using a le_Suc_ex by (metis nat_add_left_cancel_less)
      then show ?thesis using nth [of k] e a l b by (simp add: nth_append)
    next
      case 3
      then obtain q where q: "k = length X + n + q" "q < length w"
        using a b le_Suc_ex by (metis nat_add_left_cancel_less)
      then show ?thesis using nth [of k] e a l b by (simp add: nth_append)
    next
      case 4
      then obtain q where q: "k = length X + n + length w + q" "q < n"
        using a b le_Suc_ex by (metis nat_add_left_cancel_less)
      then show ?thesis using nth [of k] e a l b by (simp add: nth_append)
    next
      case 5
      then obtain q where q: "k = length X + n + length w + n + q" using a b le_Suc_ex by blast
      then show ?thesis using nth [of k] e a l b by (simp add: nth_append)
    qed
  qed
qed

lemma rotate_loop_list:
  "elems d = X @ u @ v @ Y \<Longrightarrow> length u = i \<Longrightarrow> length v = j \<Longrightarrow> 0 < i \<Longrightarrow> 0 < j \<Longrightarrow>
   p = length X + i \<Longrightarrow> rotate_loop I d p i j = (d1, i1) \<Longrightarrow>
   elems (swapRange I d1 (p - i1) p i1) = X @ v @ u @ Y"
proof (induction "i + j" arbitrary: d X u v Y i j rule: less_induct)
  case less
  note e = less.prems(1) and lu = less.prems(2) and lv = less.prems(3)
  show ?case
  proof (cases i j rule: linorder_cases)
    case equal
    then have "(d1, i1) = (d, i)" using less.prems(7) by (subst (asm) rotate_loop.simps) simp
    then show ?thesis using swapRange_list [of d X u "[]" v Y i "length X" "length X + i"] less.prems equal by simp
  next
    case greater
    define u1 u2 where "u1 = take j u" and "u2 = drop j u"
    have u: "u = u1 @ u2" "length u1 = j" "length u2 = i - j" using greater lu by (auto simp: u1_def u2_def)
    let ?d = "swapRange I d (p - i) p j"
    have s: "elems ?d = X @ v @ u2 @ u1 @ Y"
      using swapRange_list [of d X u1 u2 v Y j "p - i" p] e u lv greater less.prems(6) by simp
    have r: "rotate_loop I ?d p (i - j) j = (d1, i1)"
      using less.prems(7) greater less.prems(5) by (subst (asm) rotate_loop.simps) simp
    have "elems (swapRange I d1 (p - i1) p i1) = (X @ v) @ u1 @ u2 @ Y"
      using s u greater less.prems(4-6) lv r by (intro less.hyps [of "i - j" j ?d "X @ v" u2 u1 Y]) auto
    then show ?thesis using u by simp
  next
    case less': less
    define v1 v2 where "v1 = take (j - i) v" and "v2 = drop (j - i) v"
    have v: "v = v1 @ v2" "length v1 = j - i" "length v2 = i" using less' lv by (auto simp: v1_def v2_def)
    let ?d = "swapRange I d (p - i) (p + j - i) i"
    have s: "elems ?d = X @ v2 @ v1 @ u @ Y"
      using swapRange_list [of d X u v1 v2 Y i "p - i" "p + j - i"] e v lu less' less.prems(6) by simp
    have r: "rotate_loop I ?d p i (j - i) = (d1, i1)"
      using less.prems(7) less' less.prems(4) by (subst (asm) rotate_loop.simps) simp
    have "elems (swapRange I d1 (p - i1) p i1) = X @ v1 @ v2 @ (u @ Y)"
      using s v less' less.prems(4-6) lu r by (intro less.hyps [of i "j - i" ?d X v2 v1 "u @ Y"]) auto
    then show ?thesis using v by simp
  qed
qed

lemma rotate_list:
  assumes e: "elems d = X @ u @ v @ Y" and a: "a = length X" and m: "m = a + length u" and b: "b = m + length v"
  shows "elems (rotate_data I d a m b) = X @ v @ u @ Y"
proof (cases "u = [] \<or> v = []")
  case True
  then show ?thesis using assms by (auto simp: rotate_data_def Let_def)
next
  case False
  then have pos: "0 < length u" "0 < length v" by auto
  show ?thesis
  proof (cases "length u = length v")
    case True
    have "elems (swapRange I d a m (length u)) = X @ v @ [] @ u @ Y"
      using e True a m by (intro swapRange_list) auto
    moreover have "m - a = length u" "b - m = length u" using m b True by auto
    ultimately show ?thesis using pos by (simp add: rotate_data_def Let_def)
  next
    case False
    obtain d1 i1 where r: "rotate_loop I d (a + length u) (length u) (length v) = (d1, i1)"
      by (cases "rotate_loop I d (a + length u) (length u) (length v)")
    have "elems (swapRange I d1 (a + length u - i1) (a + length u) i1) = X @ v @ u @ Y"
      using rotate_loop_list [OF e refl refl pos _ r] a by simp
    then show ?thesis using False pos r m b by (simp add: rotate_data_def Let_def)
  qed
qed

lemma slices4:
  assumes "a \<le> m" "m \<le> b" "b \<le> length xs"
  shows "xs = take a xs @ take (m - a) (drop a xs) @ take (b - m) (drop m xs) @ drop b xs"
  using assms by (metis append_take_drop_id drop_drop le_add_diff_inverse2)

lemma rotate_slices:
  assumes "a \<le> m" "m \<le> b" "b \<le> length (elems d)"
  shows "elems (rotate_data I d a m b) = take a (elems d) @ take (b - m) (drop m (elems d)) @
    take (m - a) (drop a (elems d)) @ drop b (elems d)"
  using assms by (intro rotate_list slices4) auto

text \<open>The element at each position after a rotation.\<close>

lemma rotate_nth:
  assumes "a \<le> m" "m \<le> b" "b \<le> length (elems d)"
  shows "elems (rotate_data I d a m b) ! k =
    (if k < a then elems d ! k else if k < a + (b - m) then elems d ! (k + m - a)
     else if k < b then elems d ! (k - (b - m)) else elems d ! k)"
    and "length (elems (rotate_data I d a m b)) = length (elems d)"
    and "mset (elems (rotate_data I d a m b)) = mset (elems d)"
proof -
  let ?xs = "elems d"
  have l: "length (take a ?xs) = a" "length (take (b - m) (drop m ?xs)) = b - m"
    "length (take (m - a) (drop a ?xs)) = m - a" using assms by auto
  consider "k < a" | "a \<le> k" "k < a + (b - m)" | "a + (b - m) \<le> k" "k < b" | "b \<le> k" by linarith
  then show "elems (rotate_data I d a m b) ! k =
    (if k < a then elems d ! k else if k < a + (b - m) then elems d ! (k + m - a)
     else if k < b then elems d ! (k - (b - m)) else elems d ! k)"
  proof cases
    case 1
    then show ?thesis unfolding rotate_slices [OF assms] using l by (simp add: nth_append)
  next
    case 2
    then obtain q where q: "k = a + q" "q < b - m" using le_Suc_ex by (metis nat_add_left_cancel_less)
    have "elems (rotate_data I d a m b) ! k = elems d ! (m + q)"
      unfolding rotate_slices [OF assms] using l assms q by (simp add: nth_append)
    moreover have "\<not> k < a" "k + m - a = m + q" using q by auto
    ultimately show ?thesis using 2(2) by (simp only: if_True if_False)
  next
    case 3
    then obtain q where q: "k = a + (b - m) + q" using le_Suc_ex by blast
    then have "q < m - a" using 3 assms by simp
    then have "elems (rotate_data I d a m b) ! k = elems d ! (a + q)"
    proof -
      obtain j where j: "b = m + j" using assms(2) le_Suc_ex by blast
      then show ?thesis
        unfolding rotate_slices [OF assms] using l assms(3) q \<open>q < m - a\<close> by (simp add: nth_append)
    qed
    moreover have "\<not> k < a" "\<not> k < a + (b - m)" "k - (b - m) = a + q" using q by auto
    ultimately show ?thesis using 3(2) by (simp only: if_True if_False)
  next
    case 4
    then obtain q where q: "k = b + q" using le_Suc_ex by blast
    obtain i j where ij: "m = a + i" "b = m + j" using assms(1,2) le_Suc_ex by blast
    have "elems (rotate_data I d a m b) ! k = elems d ! k"
      unfolding rotate_slices [OF assms] using l assms(3) q ij by (simp add: nth_append)
    then show ?thesis using q ij by simp
  qed
  have e: "elems d = take a ?xs @ take (m - a) (drop a ?xs) @ take (b - m) (drop m ?xs) @ drop b ?xs"
    using assms by (rule slices4)
  show "mset (elems (rotate_data I d a m b)) = mset (elems d)"
    unfolding rotate_slices [OF assms] by (subst (5) e) simp
  then show "length (elems (rotate_data I d a m b)) = length (elems d)" by (metis size_mset)
qed

end

section \<open>Keeping the order of equivalent elements\<close>

context sort_order begin

definition same_order :: "'a list \<Rightarrow> 'a list \<Rightarrow> bool" where
  "same_order xs ys \<longleftrightarrow> (\<forall>x. filter (same_rank x) ys = filter (same_rank x) xs)"

lemma same_order_refl [simp]: "same_order xs xs"
  by (simp add: same_order_def)

lemma same_order_trans [trans]: "same_order xs ys \<Longrightarrow> same_order ys zs \<Longrightarrow> same_order xs zs"
  by (simp add: same_order_def)

text \<open>Exchanging neighbouring blocks is harmless when one is entirely below the other.\<close>

lemma same_order_blocks:
  assumes "\<And>y z. y \<in> set u \<Longrightarrow> z \<in> set v \<Longrightarrow> lt z y"
  shows "same_order (X @ u @ v @ Y) (X @ v @ u @ Y)"
proof -
  have "filter (same_rank x) u = [] \<or> filter (same_rank x) v = []" for x
  proof (rule ccontr)
    assume "\<not> ?thesis"
    then obtain y z where "y \<in> set u" "same_rank x y" "z \<in> set v" "same_rank x z"
      by (auto simp: filter_empty_conv)
    then have "lt z y" "\<not> lt x y" "\<not> lt z x" using assms by (auto simp: same_rank_def)
    then show False using lt_le_trans [of z y x] by blast
  qed
  then have "filter (same_rank x) v @ filter (same_rank x) u = filter (same_rank x) u @ filter (same_rank x) v" for x
    by (metis append_Nil append_Nil2)
  then show ?thesis by (simp add: same_order_def)
qed

lemma same_order_swap:
  assumes "Suc j < length xs" "lt (xs ! Suc j) (xs ! j)"
  shows "same_order xs (swap_nth (Suc j) j xs)"
proof -
  have e: "xs = take j xs @ [xs ! j] @ [xs ! Suc j] @ drop (Suc (Suc j)) xs"
    using assms(1) by (simp add: Cons_nth_drop_Suc)
  have "swap_nth (Suc j) j xs = take j xs @ [xs ! Suc j] @ [xs ! j] @ drop (Suc (Suc j)) xs"
  proof (rule nth_equalityI)
    fix k assume "k < length (swap_nth (Suc j) j xs)"
    then have k: "k < length xs" by simp
    consider "k < j" | "k = j" | "k = Suc j" | "Suc j < k" by linarith
    then show "swap_nth (Suc j) j xs ! k = (take j xs @ [xs ! Suc j] @ [xs ! j] @ drop (Suc (Suc j)) xs) ! k"
    proof cases
      case 4
      then obtain q where "k = Suc (Suc j) + q" using le_Suc_ex [of "Suc (Suc j)" k] by auto
      then show ?thesis using k assms(1) by (simp add: nth_swap_nth nth_append)
    qed (use k assms(1) in \<open>simp_all add: nth_swap_nth nth_append\<close>)
  qed (use assms(1) in simp)
  moreover have "same_order (take j xs @ [xs ! j] @ [xs ! Suc j] @ drop (Suc (Suc j)) xs)
     (take j xs @ [xs ! Suc j] @ [xs ! j] @ drop (Suc (Suc j)) xs)"
    using assms(2) by (intro same_order_blocks) auto
  ultimately show ?thesis using e by metis
qed

lemma insertionSort_inner_stable:
  "j < length (elems d) \<Longrightarrow> same_order (elems d) (elems (insertionSort_inner I d a j))"
proof (induction j arbitrary: d)
  case 0
  then show ?case by (subst insertionSort_inner.simps) simp
next
  case (Suc j)
  have l: "Less I d (Suc j) j = lt (elems d ! Suc j) (elems d ! j)"
    using Suc.prems by (intro Less_law) auto
  show ?case
  proof (cases "Suc j > a \<and> Less I d (Suc j) j")
    case True
    have s: "elems (Swap I d (Suc j) j) = swap_nth (Suc j) j (elems d)"
      using Suc.prems by (simp add: Swap_law)
    have "same_order (elems d) (elems (Swap I d (Suc j) j))"
      unfolding s using True l Suc.prems by (intro same_order_swap) auto
    also have "same_order \<dots> (elems (insertionSort_inner I (Swap I d (Suc j) j) a j))"
      using Suc.prems s by (intro Suc.IH) simp
    finally show ?thesis using True by (subst insertionSort_inner.simps) simp
  next
    case False
    then show ?thesis by (subst insertionSort_inner.simps) auto
  qed
qed

lemma insertionSort_outer_stable:
  "b \<le> length (elems d) \<Longrightarrow> same_order (elems d) (elems (insertionSort_outer I d a b i))"
proof (induction "b - i" arbitrary: d i)
  case 0
  then show ?case by (subst insertionSort_outer.simps) simp
next
  case (Suc k)
  have "perm_in a b (elems d) (elems (insertionSort_inner I d a i))"
    using Suc.hyps(2) Suc.prems by (intro insertionSort_inner_perm) auto
  then have "b \<le> length (elems (insertionSort_inner I d a i))" using Suc.prems by (simp add: perm_in_length)
  then have "same_order (elems (insertionSort_inner I d a i))
      (elems (insertionSort_outer I (insertionSort_inner I d a i) a b (i + 1)))"
    using Suc.hyps by simp
  moreover have "same_order (elems d) (elems (insertionSort_inner I d a i))"
    using Suc.hyps(2) Suc.prems by (intro insertionSort_inner_stable) auto
  ultimately show ?case
    using Suc.hyps(2) by (subst insertionSort_outer.simps) (auto intro: same_order_trans)
qed

lemma insertionSort_stable:
  "b \<le> length (elems d) \<Longrightarrow> same_order (elems d) (elems (insertionSort I d a b))"
  by (simp add: insertionSort_def insertionSort_outer_stable)

section \<open>Merging\<close>

lemma symMerge_search_spec:
  "start \<le> r \<Longrightarrow> s = symMerge_search I d p start r \<Longrightarrow>
   start \<le> s \<and> s \<le> r \<and> (s = start \<or> \<not> Less I d (p - (s - 1)) (s - 1)) \<and> (s = r \<or> Less I d (p - s) s)"
proof (induction "r - start" arbitrary: start r rule: less_induct)
  case less
  define c where "c = start + (r - start) div 2"
  show ?case
  proof (cases "start < r")
    case True
    then have c: "start \<le> c" "c < r" by (auto simp: c_def)
    show ?thesis
    proof (cases "Less I d (p - c) c")
      case l: True
      then have "s = symMerge_search I d p start c"
        using True less.prems(2) by (subst (asm) symMerge_search.simps) (simp add: Let_def c_def)
      moreover have "c - start < r - start" using c by linarith
      ultimately have "start \<le> s \<and> s \<le> c \<and> (s = start \<or> \<not> Less I d (p - (s - 1)) (s - 1)) \<and>
          (s = c \<or> Less I d (p - s) s)"
        using c(1) by (intro less.hyps)
      then show ?thesis using c l by (metis less_imp_le order_trans)
    next
      case l: False
      then have "s = symMerge_search I d p (c + 1) r"
        using True less.prems(2) by (subst (asm) symMerge_search.simps) (simp add: Let_def c_def)
      moreover have "r - (c + 1) < r - start" using c by linarith
      moreover have "c + 1 \<le> r" using c by simp
      ultimately have "c + 1 \<le> s \<and> s \<le> r \<and> (s = c + 1 \<or> \<not> Less I d (p - (s - 1)) (s - 1)) \<and>
          (s = r \<or> Less I d (p - s) s)"
        by (intro less.hyps)
      then show ?thesis using c l by (metis add_diff_cancel_right' le_add1 order_trans)
    qed
  next
    case False
    then have "s = start" using less.prems(2) by (subst (asm) symMerge_search.simps) simp
    then show ?thesis using less.prems(1) False by simp
  qed
qed

text \<open>Where \<open>symMerge\<close> cuts the two runs, and how the elements around the cuts compare.\<close>

lemma symMerge_start_spec:
  assumes "a < m" "m < b" "b \<le> length (elems d)" and mid: "mid = a + (b - a) div 2"
    and s: "s = symMerge_start I d a m b" and e: "e = mid + m - s"
  shows "a \<le> s" "s \<le> m" "m \<le> e" "e \<le> b" "s + (e - m) = mid"
    and "a < s \<Longrightarrow> e < b \<Longrightarrow> \<not> lt (elems d ! e) (elems d ! (s - 1))"
    and "s < m \<Longrightarrow> m < e \<Longrightarrow> lt (elems d ! (e - 1)) (elems d ! s)"
proof -
  define n where "n = mid + m"
  have mb: "2 * mid \<le> a + b" "a + b \<le> 2 * mid + 1" "a \<le> mid" using mid assms(1,2) by auto
  have key: "a \<le> s \<and> s \<le> m \<and> s \<le> mid \<and> e \<le> b \<and>
     (a < s \<and> e < b \<longrightarrow> \<not> Less I d e (s - 1)) \<and> (s < m \<and> m < e \<longrightarrow> Less I d (e - 1) s)"
  proof (cases "m > mid")
    case True
    have "s = symMerge_search I d (n - 1) (n - b) mid"
      using True by (simp add: s symMerge_start_def Let_def n_def mid)
    moreover have "n - b \<le> mid" using assms(2) by (simp add: n_def)
    ultimately have sp: "n - b \<le> s \<and> s \<le> mid \<and> (s = n - b \<or> \<not> Less I d (n - 1 - (s - 1)) (s - 1)) \<and>
        (s = mid \<or> Less I d (n - 1 - s) s)"
      by (intro symMerge_search_spec)
    have nb: "a \<le> n - b" "b \<le> n" using True mb by (auto simp: n_def)
    have "a < s \<Longrightarrow> n - 1 - (s - 1) = e" "n - 1 - s = e - 1" using e by (auto simp: n_def)
    moreover have "s = n - b \<longleftrightarrow> e = b" "s = mid \<longleftrightarrow> e = m" using sp e nb True by (auto simp: n_def)
    ultimately show ?thesis using sp nb True e by (auto simp: n_def)
  next
    case False
    have "s = symMerge_search I d (n - 1) a m"
      using False by (simp add: s symMerge_start_def Let_def n_def mid)
    then have sp: "a \<le> s \<and> s \<le> m \<and> (s = a \<or> \<not> Less I d (n - 1 - (s - 1)) (s - 1)) \<and>
        (s = m \<or> Less I d (n - 1 - s) s)"
      using assms(1) by (intro symMerge_search_spec) simp_all
    have "a < s \<Longrightarrow> n - 1 - (s - 1) = e" "n - 1 - s = e - 1" using e by (auto simp: n_def)
    moreover have "e \<le> b" using e sp mb False by (auto simp: n_def)
    ultimately show ?thesis using sp False by auto
  qed
  then show "a \<le> s" "s \<le> m" "m \<le> e" "e \<le> b" "s + (e - m) = mid" using e by auto
  show "\<not> lt (elems d ! e) (elems d ! (s - 1))" if "a < s" "e < b"
    using key that assms(2,3) by (subst Less_law [symmetric]) auto
  show "lt (elems d ! (e - 1)) (elems d ! s)" if "s < m" "m < e"
    using key that assms(2,3) by (subst Less_law [symmetric]) auto
qed

text \<open>The state between the rotation and the two recursive calls.\<close>

lemma symMerge_rotated:
  assumes o: "a \<le> s" "s \<le> m" "m \<le> e" "e \<le> b" "b \<le> length (elems d)" "s + (e - m) = mid"
    and so: "sorted_in lt a m (elems d)" "sorted_in lt m b (elems d)"
    and cut1: "a < s \<Longrightarrow> e < b \<Longrightarrow> \<not> lt (elems d ! e) (elems d ! (s - 1))"
    and cut2: "s < m \<Longrightarrow> m < e \<Longrightarrow> lt (elems d ! (e - 1)) (elems d ! s)"
    and r: "r = elems (rotate_data I d s m e)"
  shows "sorted_in lt a s r" "sorted_in lt s mid r" "sorted_in lt mid e r" "sorted_in lt e b r"
    and "\<And>i j. a \<le> i \<Longrightarrow> i < mid \<Longrightarrow> mid \<le> j \<Longrightarrow> j < b \<Longrightarrow> \<not> lt (r ! j) (r ! i)"
    and "perm_in a b (elems d) r" "same_order (elems d) r"
proof -
  let ?xs = "elems d"
  have eb: "e \<le> length ?xs" using o by simp
  have midr: "s \<le> mid" "mid \<le> e" "mid + m = s + e" using o by auto
  note nth = rotate_nth(1) [OF o(2,3) eb, folded r, unfolded o(6)]
  have n1: "r ! k = ?xs ! k" if "k < s \<or> e \<le> k" for k using that nth midr by auto
  have n2: "r ! k = ?xs ! (k + m - s)" if "s \<le> k" "k < mid" for k using that nth by auto
  have n3: "r ! k = ?xs ! (k - (e - m))" if "mid \<le> k" "k < e" for k using that nth midr by auto
  have s1: "\<not> lt (?xs ! j) (?xs ! i)" if "a \<le> i" "i \<le> j" "j < m" for i j
    using sorted_inD [OF so(1)] that lt_irrefl by (metis le_neq_implies_less)
  have s2: "\<not> lt (?xs ! j) (?xs ! i)" if "m \<le> i" "i \<le> j" "j < b" for i j
    using sorted_inD [OF so(2)] that lt_irrefl by (metis le_neq_implies_less)
  have below: "lt (?xs ! i) (?xs ! j)" if "m \<le> i" "i < e" "s \<le> j" "j < m" for i j
  proof -
    have "lt (?xs ! (e - 1)) (?xs ! s)" using cut2 that by simp
    moreover have "\<not> lt (?xs ! (e - 1)) (?xs ! i)" using that o by (intro s2) auto
    moreover have "\<not> lt (?xs ! j) (?xs ! s)" using that o by (intro s1) auto
    ultimately show ?thesis using le_lt_trans lt_le_trans by blast
  qed
  have apart: "\<not> lt (?xs ! j) (?xs ! i)" if "a \<le> i" "i < s" "e \<le> j" "j < b" for i j
  proof -
    have "\<not> lt (?xs ! e) (?xs ! (s - 1))" using cut1 that by simp
    moreover have "\<not> lt (?xs ! (s - 1)) (?xs ! i)" using that o by (intro s1) auto
    moreover have "\<not> lt (?xs ! j) (?xs ! e)" using that o by (intro s2) auto
    ultimately show ?thesis using ge_trans by blast
  qed
  show "sorted_in lt a s r" unfolding sorted_in_def using s1 o n1 by auto
  show "sorted_in lt e b r" unfolding sorted_in_def using s2 o n1 by auto
  show "sorted_in lt s mid r"
    unfolding sorted_in_def
  proof (intro allI impI)
    fix i j assume ij: "s \<le> i \<and> i < j \<and> j < mid"
    have "\<not> lt (?xs ! (j + m - s)) (?xs ! (i + m - s))"
      using ij o midr by (intro s2) auto
    then show "\<not> lt (r ! j) (r ! i)" using ij n2 by simp
  qed
  show "sorted_in lt mid e r"
    unfolding sorted_in_def
  proof (intro allI impI)
    fix i j assume ij: "mid \<le> i \<and> i < j \<and> j < e"
    have "\<not> lt (?xs ! (j - (e - m))) (?xs ! (i - (e - m)))"
      using ij o midr by (intro s1) auto
    then show "\<not> lt (r ! j) (r ! i)" using ij n3 by simp
  qed
  show "\<not> lt (r ! j) (r ! i)" if ij: "a \<le> i" "i < mid" "mid \<le> j" "j < b" for i j
  proof (cases "i < s"; cases "j < e")
    assume c: "i < s" "j < e"
    have "\<not> lt (?xs ! (j - (e - m))) (?xs ! i)" using c ij o midr by (intro s1) auto
    then show ?thesis using c ij n1 n3 by simp
  next
    assume c: "i < s" "\<not> j < e"
    then show ?thesis using ij apart n1 by simp
  next
    assume c: "\<not> i < s" "j < e"
    have "lt (?xs ! (i + m - s)) (?xs ! (j - (e - m)))" using c ij o midr by (intro below) auto
    then show ?thesis using c ij n2 n3 lt_asym by simp
  next
    assume c: "\<not> i < s" "\<not> j < e"
    have "\<not> lt (?xs ! j) (?xs ! (i + m - s))" using c ij o midr by (intro s2) auto
    then show ?thesis using c ij n1 n2 by simp
  qed
  show "perm_in a b ?xs r"
    using rotate_nth(2,3) [OF o(2,3) eb] n1 o(1,4) r by (auto simp: perm_in_def)
  show "same_order ?xs r"
  proof -
    let ?u = "take (m - s) (drop s ?xs)" and ?v = "take (e - m) (drop m ?xs)"
    have "lt z y" if "y \<in> set ?u" "z \<in> set ?v" for y z
      using that below set_slice [OF o(2), of ?xs] set_slice [OF o(3), of ?xs] eb o(3) by auto
    then have "same_order (take s ?xs @ ?u @ ?v @ drop e ?xs) (take s ?xs @ ?v @ ?u @ drop e ?xs)"
      by (rule same_order_blocks)
    then show ?thesis
      unfolding r rotate_slices [OF o(2,3) eb] using slices4 [OF o(2,3) eb] by simp
  qed
qed

theorem symMerge_correct:
  "b \<le> length (elems d) \<Longrightarrow> sorted_in lt a (min m b) (elems d) \<Longrightarrow> sorted_in lt m b (elems d) \<Longrightarrow>
   sorted_in lt a b (elems (symMerge I d a m b)) \<and> perm_in a b (elems d) (elems (symMerge I d a m b)) \<and>
   same_order (elems d) (elems (symMerge I d a m b))"
proof (induction "b - a" arbitrary: d a m b rule: less_induct)
  case less
  show ?case
  proof (cases "a < m \<and> m < b")
    case False
    then have "symMerge I d a m b = d" by (subst symMerge.simps) auto
    moreover have "sorted_in lt a b (elems d)"
    proof (cases "m \<le> a")
      case True
      then show ?thesis using less.prems(3) by (rule_tac sorted_in_mono) auto
    next
      case m: False
      then have "min m b = b" using False by auto
      then show ?thesis using less.prems(2) by simp
    qed
    ultimately show ?thesis by simp
  next
    case True
    define mid where "mid = a + (b - a) div 2"
    define s where "s = symMerge_start I d a m b"
    define e where "e = mid + m - s"
    let ?d1 = "rotate_data I d s m e"
    let ?d2 = "symMerge I ?d1 a s mid"
    let ?d3 = "symMerge I ?d2 mid e b"
    have eq: "symMerge I d a m b = ?d3"
      using True by (subst symMerge.simps) (simp add: Let_def mid_def s_def e_def not_le)
    have o: "a \<le> s" "s \<le> m" "m \<le> e" "e \<le> b" "s + (e - m) = mid"
      and cut: "a < s \<Longrightarrow> e < b \<Longrightarrow> \<not> lt (elems d ! e) (elems d ! (s - 1))"
      "s < m \<Longrightarrow> m < e \<Longrightarrow> lt (elems d ! (e - 1)) (elems d ! s)"
      using symMerge_start_spec [OF _ _ less.prems(1) mid_def s_def e_def] True by auto
    have am: "sorted_in lt a m (elems d)" using less.prems(2) True by (simp add: min_def)
    note R = symMerge_rotated [OF o(1-4) less.prems(1) o(5) am less.prems(3) cut refl]
    have midb: "a < mid" "mid < b" "s \<le> mid" "mid \<le> e" using True o by (auto simp: mid_def)
    have len1: "length (elems ?d1) = length (elems d)" using R(6) by (rule perm_in_length)
    have D2: "sorted_in lt a mid (elems ?d2) \<and> perm_in a mid (elems ?d1) (elems ?d2) \<and>
        same_order (elems ?d1) (elems ?d2)"
      using midb less.prems(1) len1 R(1,2) by (intro less.hyps) (auto simp: min_def)
    have len2: "length (elems ?d2) = length (elems d)" using D2 len1 by (auto simp: perm_in_length)
    have s2: "sorted_in lt mid e (elems ?d2)" "sorted_in lt e b (elems ?d2)"
      using R(3,4) D2 midb by (auto intro: sorted_in_outside)
    have D3: "sorted_in lt mid b (elems ?d3) \<and> perm_in mid b (elems ?d2) (elems ?d3) \<and>
        same_order (elems ?d2) (elems ?d3)"
      using midb less.prems(1) len2 s2 o by (intro less.hyps) (auto simp: min_def)
    have "sorted_in lt a b (elems ?d3)"
    proof (rule sorted_in_join)
      show "sorted_in lt a mid (elems ?d3)" using D2 D3 by (auto intro: sorted_in_outside)
      show "sorted_in lt mid b (elems ?d3)" using D3 by simp
      fix i j assume ij: "a \<le> i" "i < mid" "mid \<le> j" "j < b"
      have i3: "elems ?d3 ! i = elems ?d2 ! i" using D3 ij by (auto intro: perm_in_outside)
      obtain i' where i': "a \<le> i'" "i' < mid" "elems ?d2 ! i = elems ?d1 ! i'"
        using perm_in_elem [of a mid "elems ?d1" "elems ?d2" i] D2 ij midb less.prems(1) len1 by auto
      obtain j' where j': "mid \<le> j'" "j' < b" "elems ?d3 ! j = elems ?d2 ! j'"
        using perm_in_elem [of mid b "elems ?d2" "elems ?d3" j] D3 ij less.prems(1) len2 by auto
      have "elems ?d2 ! j' = elems ?d1 ! j'" using D2 j' by (auto intro: perm_in_outside)
      then show "\<not> lt (elems ?d3 ! j) (elems ?d3 ! i)" using i3 i' j' R(5) [of i' j'] by simp
    qed
    moreover have "perm_in a b (elems d) (elems ?d3)"
      using D2 D3 midb by (auto intro: perm_in_within [OF perm_in_within [OF R(6)]])
    moreover have "same_order (elems d) (elems ?d3)"
      using R(7) D2 D3 by (blast intro: same_order_trans)
    ultimately show ?thesis unfolding eq by simp
  qed
qed

section \<open>The block-wise merge sort\<close>

text \<open>All blocks of length \<open>bs\<close> that start below \<open>c\<close> are sorted; the last one may be cut off by \<open>n\<close>.\<close>

definition blocks :: "nat \<Rightarrow> nat \<Rightarrow> nat \<Rightarrow> 'a list \<Rightarrow> bool" where
  "blocks bs c n xs \<longleftrightarrow> (\<forall>k. k * bs < c \<longrightarrow> sorted_in lt (k * bs) (min (k * bs + bs) n) xs)"

lemma blocks_extend:
  assumes "blocks bs (k * bs) n xs" "perm_in (k * bs) e xs ys" "sorted_in lt (k * bs) (min (k * bs + bs) n) ys"
  shows "blocks bs (Suc k * bs) n ys"
  unfolding blocks_def
proof (intro allI impI)
  fix j assume j: "j * bs < Suc k * bs"
  show "sorted_in lt (j * bs) (min (j * bs + bs) n) ys"
  proof (cases "j = k")
    case True
    then show ?thesis using assms(3) by simp
  next
    case False
    then have "j < k" using j by (metis less_antisym mult_less_cancel2)
    then have le: "Suc j * bs \<le> k * bs" by (intro mult_le_mono1) simp
    have "0 < bs" using j by (cases bs) auto
    then have "j * bs < k * bs" using \<open>j < k\<close> by simp
    then have "sorted_in lt (j * bs) (min (j * bs + bs) n) xs" using assms(1) by (auto simp: blocks_def)
    then show ?thesis using assms(2) le by (auto intro: sorted_in_outside)
  qed
qed

lemma stable_blocks_correct:
  "blocks bs (k * bs) n (elems d) \<Longrightarrow> n \<le> length (elems d) \<Longrightarrow> k * bs \<le> n \<Longrightarrow> 0 < bs \<Longrightarrow>
   stable_blocks I d n bs (k * bs) (k * bs + bs) = (d', a') \<Longrightarrow>
   (\<exists>k'. a' = k' * bs \<and> a' \<le> n \<and> n < a' + bs \<and> blocks bs a' n (elems d')) \<and>
   perm_in 0 n (elems d) (elems d') \<and> same_order (elems d) (elems d')"
proof (induction "n - k * bs" arbitrary: d k rule: less_induct)
  case less
  let ?a = "k * bs"
  show ?case
  proof (cases "?a + bs \<le> n")
    case True
    let ?d = "insertionSort I d ?a (?a + bs)"
    have e: "stable_blocks I ?d n bs (Suc k * bs) (Suc k * bs + bs) = (d', a')"
      using less.prems(4,5) True by (subst (asm) stable_blocks.simps) (simp add: ac_simps)
    have p: "perm_in ?a (?a + bs) (elems d) (elems ?d)" using True less.prems(2) by (intro insertionSort_perm) simp
    have b: "blocks bs (Suc k * bs) n (elems ?d)"
      using True less.prems(2) by (intro blocks_extend [OF less.prems(1) p]) (simp add: insertionSort_sorted min_def)
    have st: "same_order (elems d) (elems ?d)" using True less.prems(2) by (intro insertionSort_stable) simp
    have "n - Suc k * bs < n - ?a" using True less.prems(4) by simp
    from less.hyps [OF this b _ _ less.prems(4) e]
    have "(\<exists>k'. a' = k' * bs \<and> a' \<le> n \<and> n < a' + bs \<and> blocks bs a' n (elems d')) \<and>
      perm_in 0 n (elems ?d) (elems d') \<and> same_order (elems ?d) (elems d')"
      using True less.prems(2) perm_in_length [OF p] by (simp add: add.commute)
    moreover have "perm_in 0 n (elems d) (elems ?d)" using p True by (auto intro: perm_in_mono)
    ultimately show ?thesis using st by (blast intro: perm_in_trans same_order_trans)
  next
    case False
    then have "(d', a') = (d, ?a)" using less.prems(5) by (subst (asm) stable_blocks.simps) simp
    then show ?thesis using False less.prems by auto
  qed
qed

text \<open>A pass of merges: blocks of length \<open>2 * bs\<close> below \<open>a\<close>, of length \<open>bs\<close> from \<open>a\<close> on.\<close>

definition merge_inv :: "nat \<Rightarrow> nat \<Rightarrow> nat \<Rightarrow> 'a list \<Rightarrow> bool" where
  "merge_inv bs k n xs \<longleftrightarrow> blocks (2 * bs) (k * (2 * bs)) n xs \<and>
     (\<forall>j. k * (2 * bs) \<le> j * bs \<and> j * bs < n \<longrightarrow> sorted_in lt (j * bs) (min (j * bs + bs) n) xs)"

lemma merge_inv_runs:
  assumes "merge_inv bs k n xs" "k * (2 * bs) \<le> n"
  shows "sorted_in lt (k * (2 * bs)) (min (k * (2 * bs) + bs) n) xs"
    and "sorted_in lt (k * (2 * bs) + bs) (min (k * (2 * bs) + 2 * bs) n) xs"
proof -
  have j: "sorted_in lt (j * bs) (min (j * bs + bs) n) xs" if "k * (2 * bs) \<le> j * bs" for j
    using assms(1) that by (cases "j * bs < n") (auto simp: merge_inv_def)
  show "sorted_in lt (k * (2 * bs)) (min (k * (2 * bs) + bs) n) xs"
    using j [of "2 * k"] by (simp add: ac_simps)
  show "sorted_in lt (k * (2 * bs) + bs) (min (k * (2 * bs) + 2 * bs) n) xs"
    using j [of "2 * k + 1"] by (simp add: algebra_simps)
qed

lemma symMerge_pass_step:
  assumes inv: "merge_inv bs k n (elems d)" and a: "a = k * (2 * bs)" and n: "a \<le> n" "n \<le> length (elems d)"
    and b: "b = min (a + 2 * bs) n" and d': "d' = symMerge I d a (a + bs) b" and bs: "0 < bs"
  shows "merge_inv bs (Suc k) n (elems d')" "perm_in a b (elems d) (elems d')" "same_order (elems d) (elems d')"
proof -
  note runs = merge_inv_runs [OF inv, folded a, OF n(1)]
  have "b \<le> length (elems d)" using b n by simp
  moreover have "min (a + bs) b = min (a + bs) n" using b by auto
  ultimately have c: "sorted_in lt a b (elems d') \<and> perm_in a b (elems d) (elems d') \<and> same_order (elems d) (elems d')"
    unfolding d' using runs b by (intro symMerge_correct) auto
  then show p: "perm_in a b (elems d) (elems d')" and "same_order (elems d) (elems d')" by auto
  have bl: "blocks (2 * bs) (Suc k * (2 * bs)) n (elems d')"
    using inv p c b a by (intro blocks_extend [of "2 * bs" k n "elems d" b]) (auto simp: merge_inv_def)
  moreover have "sorted_in lt (j * bs) (min (j * bs + bs) n) (elems d')"
    if "Suc k * (2 * bs) \<le> j * bs" "j * bs < n" for j
  proof -
    have "k * (2 * bs) + 2 * bs \<le> j * bs" using that by simp
    then have "a \<le> j * bs" "b \<le> j * bs" unfolding a b by linarith+
    moreover from this have "sorted_in lt (j * bs) (min (j * bs + bs) n) (elems d)"
      using inv that a by (auto simp: merge_inv_def)
    ultimately show ?thesis using p by (auto intro: sorted_in_outside)
  qed
  ultimately show "merge_inv bs (Suc k) n (elems d')" by (auto simp: merge_inv_def)
qed

lemma stable_merges_correct:
  "merge_inv bs k n (elems d) \<Longrightarrow> n \<le> length (elems d) \<Longrightarrow> k * (2 * bs) \<le> n \<Longrightarrow> 0 < bs \<Longrightarrow>
   stable_merges I d n bs (k * (2 * bs)) (k * (2 * bs) + 2 * bs) = (d', a') \<Longrightarrow>
   (\<exists>k'. a' = k' * (2 * bs) \<and> a' \<le> n \<and> n < a' + 2 * bs \<and> merge_inv bs k' n (elems d')) \<and>
   perm_in 0 n (elems d) (elems d') \<and> same_order (elems d) (elems d')"
proof (induction "n - k * (2 * bs)" arbitrary: d k rule: less_induct)
  case less
  let ?a = "k * (2 * bs)"
  show ?case
  proof (cases "?a + 2 * bs \<le> n")
    case True
    let ?d = "symMerge I d ?a (?a + bs) (?a + 2 * bs)"
    have e: "stable_merges I ?d n bs (Suc k * (2 * bs)) (Suc k * (2 * bs) + 2 * bs) = (d', a')"
      using less.prems(4,5) True by (subst (asm) stable_merges.simps) (simp add: ac_simps)
    have mn: "?a + 2 * bs = min (?a + 2 * bs) n" using True by simp
    note st = symMerge_pass_step [OF less.prems(1) refl less.prems(3,2) mn refl less.prems(4)]
    have le: "Suc k * (2 * bs) \<le> n" using True by (simp add: add.commute)
    have len: "length (elems ?d) = length (elems d)" using st(2) by (rule perm_in_length)
    have "n - Suc k * (2 * bs) < n - ?a" using True less.prems(4) by simp
    from less.hyps [OF this st(1) _ le less.prems(4) e] less.prems(2) len
    have "(\<exists>k'. a' = k' * (2 * bs) \<and> a' \<le> n \<and> n < a' + 2 * bs \<and> merge_inv bs k' n (elems d')) \<and>
      perm_in 0 n (elems ?d) (elems d') \<and> same_order (elems ?d) (elems d')"
      by simp
    moreover have "perm_in 0 n (elems d) (elems ?d)" using st(2) True by (auto intro: perm_in_mono)
    ultimately show ?thesis using st(3) by (blast intro: perm_in_trans same_order_trans)
  next
    case False
    then have "(d', a') = (d, ?a)" using less.prems(5) by (subst (asm) stable_merges.simps) simp
    then show ?thesis using False less.prems by auto
  qed
qed

lemma merge_pass_correct:
  assumes bl: "blocks bs n n (elems d)" and n: "n \<le> length (elems d)" and bs: "0 < bs"
    and e: "stable_merges I d n bs 0 (2 * bs) = (d1, a)" and d': "d' = symMerge I d1 a (a + bs) n"
  shows "blocks (2 * bs) n n (elems d')" "perm_in 0 n (elems d) (elems d')" "same_order (elems d) (elems d')"
proof -
  have "merge_inv bs 0 n (elems d)" using bl by (auto simp: merge_inv_def blocks_def)
  from stable_merges_correct [OF this n _ bs, of d1 a] e
  obtain k where k: "a = k * (2 * bs)" "a \<le> n" "n < a + 2 * bs" "merge_inv bs k n (elems d1)"
    and p: "perm_in 0 n (elems d) (elems d1)" and s: "same_order (elems d) (elems d1)"
    by auto
  have mn: "n = min (a + 2 * bs) n" using k by simp
  note st = symMerge_pass_step [OF k(4,1,2) _ mn d' bs]
  have n1: "n \<le> length (elems d1)" using n p by (simp add: perm_in_length)
  have le: "n \<le> Suc k * (2 * bs)" using k by simp
  show "blocks (2 * bs) n n (elems d')"
    using st(1) [OF n1] le by (auto simp: merge_inv_def blocks_def)
  show "perm_in 0 n (elems d) (elems d')" using st(2) [OF n1] k(2) p by (auto intro: perm_in_within)
  show "same_order (elems d) (elems d')" using st(3) [OF n1] s by (blast intro: same_order_trans)
qed

lemma stable_loop_correct:
  "blocks bs n n (elems d) \<Longrightarrow> n \<le> length (elems d) \<Longrightarrow> 0 < bs \<Longrightarrow>
   sorted_in lt 0 n (elems (stable_loop I d n bs)) \<and> perm_in 0 n (elems d) (elems (stable_loop I d n bs)) \<and>
   same_order (elems d) (elems (stable_loop I d n bs))"
proof (induction "n - bs" arbitrary: d bs rule: less_induct)
  case less
  show ?case
  proof (cases "bs < n")
    case True
    obtain d1 a where e: "stable_merges I d n bs 0 (2 * bs) = (d1, a)" by (cases "stable_merges I d n bs 0 (2 * bs)")
    let ?d = "symMerge I d1 a (a + bs) n"
    note st = merge_pass_correct [OF less.prems e refl]
    have eq: "stable_loop I d n bs = stable_loop I ?d n (bs * 2)"
      using True less.prems(3) e by (subst stable_loop.simps) simp
    have "sorted_in lt 0 n (elems (stable_loop I ?d n (bs * 2))) \<and>
        perm_in 0 n (elems ?d) (elems (stable_loop I ?d n (bs * 2))) \<and>
        same_order (elems ?d) (elems (stable_loop I ?d n (bs * 2)))"
      using True less.prems(2,3) st(1) perm_in_length [OF st(2)]
      by (intro less.hyps) (auto simp: mult.commute)
    then show ?thesis unfolding eq using st(2,3) by (blast intro: perm_in_trans same_order_trans)
  next
    case False
    then have "stable_loop I d n bs = d" by (subst stable_loop.simps) simp
    moreover have "sorted_in lt 0 n (elems d)"
    proof (cases "n = 0")
      case n: False
      then have "sorted_in lt (0 * bs) (min (0 * bs + bs) n) (elems d)"
        using less.prems(1) unfolding blocks_def by (metis gr0I mult_zero_left)
      then show ?thesis using False by (simp add: min_def split: if_splits)
    qed simp
    ultimately show ?thesis by simp
  qed
qed

theorem stable_correct:
  assumes n: "n \<le> length (elems d)"
  shows "sorted_in lt 0 n (elems (stable I d n)) \<and> perm_in 0 n (elems d) (elems (stable I d n)) \<and>
    same_order (elems d) (elems (stable I d n))"
proof -
  obtain d1 a where e: "stable_blocks I d n 20 0 20 = (d1, a)" by (cases "stable_blocks I d n 20 0 20")
  have "blocks 20 (0 * 20) n (elems d)" by (simp add: blocks_def)
  from stable_blocks_correct [OF this n, of d1 a] e
  obtain k where k: "a = k * 20" "a \<le> n" "n < a + 20" "blocks 20 a n (elems d1)"
    and p: "perm_in 0 n (elems d) (elems d1)" and s: "same_order (elems d) (elems d1)"
    by auto
  let ?d = "insertionSort I d1 a n"
  have n1: "n \<le> length (elems d1)" using n p by (simp add: perm_in_length)
  have p2: "perm_in a n (elems d1) (elems ?d)" using n1 by (rule insertionSort_perm)
  have "blocks 20 (Suc k * 20) n (elems ?d)"
    using k p2 n1 by (intro blocks_extend [of 20 k n "elems d1" n]) (auto simp: insertionSort_sorted min_def)
  then have bl: "blocks 20 n n (elems ?d)" using k by (auto simp: blocks_def)
  have p3: "perm_in 0 n (elems d) (elems ?d)" using p p2 by (auto intro: perm_in_within)
  have s3: "same_order (elems d) (elems ?d)"
    using s insertionSort_stable [OF n1] by (blast intro: same_order_trans)
  have "n \<le> length (elems ?d)" using n p3 by (simp add: perm_in_length)
  from stable_loop_correct [OF bl this] have
    "sorted_in lt 0 n (elems (stable_loop I ?d n 20)) \<and> perm_in 0 n (elems ?d) (elems (stable_loop I ?d n 20)) \<and>
     same_order (elems ?d) (elems (stable_loop I ?d n 20))" by simp
  moreover have "stable I d n = stable_loop I ?d n 20" using e by (simp add: stable_def)
  ultimately show ?thesis using p3 s3 by (auto intro: perm_in_trans same_order_trans)
qed

theorem Stable_sorts:
  "sorted_wrt (\<lambda>x y. \<not> lt y x) (elems (Stable I d)) \<and> mset (elems (Stable I d)) = mset (elems d) \<and>
   (\<forall>x. filter (\<lambda>y. \<not> lt x y \<and> \<not> lt y x) (elems (Stable I d)) =
        filter (\<lambda>y. \<not> lt x y \<and> \<not> lt y x) (elems d))"
proof -
  have c: "sorted_in lt 0 (length (elems d)) (elems (Stable I d))"
    "perm_in 0 (length (elems d)) (elems d) (elems (Stable I d))" "same_order (elems d) (elems (Stable I d))"
    using stable_correct [OF order_refl, of d] by (auto simp: Stable_def Len_law)
  have "same_rank x = (\<lambda>y. \<not> lt x y \<and> \<not> lt y x)" for x by (auto simp: same_rank_def)
  then show ?thesis
    using c sorted_in_whole [of lt "elems (Stable I d)"]
    by (auto simp: perm_in_length perm_in_mset same_order_def)
qed

end

end
