(* ===== verification/SortFunc.thy ===== *)
theory SortFunc
  imports StableSort
begin

text \<open>
  The func variant of package sort: \<open>zfuncversion_compatible.go\<close> is generated from \<open>sort.go\<close> with
  a struct \<open>lessSwap\<close> of two closures in place of the interface, and \<open>sort_compatible.go\<close> builds
  \<open>Slice\<close>, \<open>SliceStable\<close> and \<open>SliceIsSorted\<close> on it. Each generated function is translated on its
  own and then shown equal to the function of \<open>sort.go\<close> it was generated from, so that the
  correctness of the interface version carries over.
\<close>

record 'd lessSwap =
  LessFn :: "'d \<Rightarrow> nat \<Rightarrow> nat \<Rightarrow> bool"
  SwapFn :: "'d \<Rightarrow> nat \<Rightarrow> nat \<Rightarrow> 'd"

fun insertionSort_inner_func :: "'d lessSwap \<Rightarrow> 'd \<Rightarrow> nat \<Rightarrow> nat \<Rightarrow> 'd" where
  "insertionSort_inner_func I data a j =
     (if j > a \<and> LessFn I data j (j - 1)
      then insertionSort_inner_func I (SwapFn I data j (j - 1)) a (j - 1)
      else data)"

function insertionSort_outer_func :: "'d lessSwap \<Rightarrow> 'd \<Rightarrow> nat \<Rightarrow> nat \<Rightarrow> nat \<Rightarrow> 'd" where
  "insertionSort_outer_func I data a b i =
     (if i < b then insertionSort_outer_func I (insertionSort_inner_func I data a i) a b (i + 1)
      else data)"
  by pat_completeness auto
termination
  by (relation "measure (\<lambda>(I, data, a, b, i). b - i)") auto

definition insertionSort_func :: "'d lessSwap \<Rightarrow> 'd \<Rightarrow> nat \<Rightarrow> nat \<Rightarrow> 'd" where
  "insertionSort_func I data a b = insertionSort_outer_func I data a b (a + 1)"

function siftDown_func :: "'d lessSwap \<Rightarrow> 'd \<Rightarrow> nat \<Rightarrow> nat \<Rightarrow> nat \<Rightarrow> 'd" where
  "siftDown_func I data root hi first =
     (let child = 2 * root + 1 in
      if child \<ge> hi then data
      else
        let child' = (if child + 1 < hi \<and> LessFn I data (first + child) (first + child + 1)
                      then child + 1 else child) in
        if \<not> LessFn I data (first + root) (first + child') then data
        else siftDown_func I (SwapFn I data (first + root) (first + child')) child' hi first)"
  by pat_completeness auto
termination
  by (relation "measure (\<lambda>(I, data, root, hi, first). hi - root)") (auto split: if_splits)

fun heapSort_build_func :: "'d lessSwap \<Rightarrow> 'd \<Rightarrow> nat \<Rightarrow> nat \<Rightarrow> nat \<Rightarrow> 'd" where
  "heapSort_build_func I data 0 hi first = data"
| "heapSort_build_func I data (Suc i) hi first =
     heapSort_build_func I (siftDown_func I data i hi first) i hi first"

fun heapSort_pop_func :: "'d lessSwap \<Rightarrow> 'd \<Rightarrow> nat \<Rightarrow> nat \<Rightarrow> 'd" where
  "heapSort_pop_func I data 0 first = data"
| "heapSort_pop_func I data (Suc i) first =
     heapSort_pop_func I (siftDown_func I (SwapFn I data first (first + i)) 0 i first) i first"

definition heapSort_func :: "'d lessSwap \<Rightarrow> 'd \<Rightarrow> nat \<Rightarrow> nat \<Rightarrow> 'd" where
  "heapSort_func I data a b =
     (let first = a; hi = b - a;
          data1 = heapSort_build_func I data ((hi - 1) div 2 + 1) hi first
      in heapSort_pop_func I data1 hi first)"

definition swap_if_func :: "'d lessSwap \<Rightarrow> 'd \<Rightarrow> nat \<Rightarrow> nat \<Rightarrow> 'd" where
  "swap_if_func I data i j = (if LessFn I data i j then SwapFn I data i j else data)"

definition medianOfThree_func :: "'d lessSwap \<Rightarrow> 'd \<Rightarrow> nat \<Rightarrow> nat \<Rightarrow> nat \<Rightarrow> 'd" where
  "medianOfThree_func I data a b c =
     (let m0 = b; m1 = a; m2 = c;
          data1 = swap_if_func I data m1 m0;
          data2 = swap_if_func I data1 m2 m1
      in swap_if_func I data2 m1 m0)"

function swapRange_loop_func :: "'d lessSwap \<Rightarrow> 'd \<Rightarrow> nat \<Rightarrow> nat \<Rightarrow> nat \<Rightarrow> nat \<Rightarrow> 'd" where
  "swapRange_loop_func I data a b n i =
     (if i < n then swapRange_loop_func I (SwapFn I data (a + i) (b + i)) a b n (i + 1) else data)"
  by pat_completeness auto
termination
  by (relation "measure (\<lambda>(I, data, a, b, n, i). n - i)") auto

definition swapRange_func :: "'d lessSwap \<Rightarrow> 'd \<Rightarrow> nat \<Rightarrow> nat \<Rightarrow> nat \<Rightarrow> 'd" where
  "swapRange_func I data a b n = swapRange_loop_func I data a b n 0"

function doPivot_left_func :: "'d lessSwap \<Rightarrow> 'd \<Rightarrow> nat \<Rightarrow> nat \<Rightarrow> nat \<Rightarrow> nat \<Rightarrow> 'd \<times> nat \<times> nat" where
  "doPivot_left_func I data pivot a b c =
     (if b < c then
        if LessFn I data b pivot then doPivot_left_func I data pivot a (b + 1) c
        else if \<not> LessFn I data pivot b
        then doPivot_left_func I (SwapFn I data a b) pivot (a + 1) (b + 1) c
        else (data, a, b)
      else (data, a, b))"
  by pat_completeness auto
termination
  by (relation "measure (\<lambda>(I, data, pivot, a, b, c). c - b)") auto

function doPivot_right_func :: "'d lessSwap \<Rightarrow> 'd \<Rightarrow> nat \<Rightarrow> nat \<Rightarrow> nat \<Rightarrow> nat \<Rightarrow> 'd \<times> nat \<times> nat" where
  "doPivot_right_func I data pivot b c d =
     (if b < c then
        if LessFn I data pivot (c - 1) then doPivot_right_func I data pivot b (c - 1) d
        else if \<not> LessFn I data (c - 1) pivot
        then doPivot_right_func I (SwapFn I data (c - 1) (d - 1)) pivot b (c - 1) (d - 1)
        else (data, c, d)
      else (data, c, d))"
  by pat_completeness auto
termination
  by (relation "measure (\<lambda>(I, data, pivot, b, c, d). c - b)") auto

declare insertionSort_inner_func.simps [simp del] insertionSort_outer_func.simps [simp del]
  siftDown_func.simps [simp del] swapRange_loop_func.simps [simp del]
  doPivot_left_func.simps [simp del] doPivot_right_func.simps [simp del]

lemma doPivot_left_func_bounds:
  "doPivot_left_func I data pivot a b c = (data', a', b') \<Longrightarrow> b \<le> b'"
proof (induction I data pivot a b c rule: doPivot_left_func.induct)
  case (1 I data pivot a b c)
  show ?case
    using "1.prems" "1.IH" by (subst (asm) doPivot_left_func.simps) (fastforce split: if_splits)
qed

lemma doPivot_right_func_bounds:
  "doPivot_right_func I data pivot b c d = (data', c', d') \<Longrightarrow> c' \<le> c"
proof (induction I data pivot b c d rule: doPivot_right_func.induct)
  case (1 I data pivot b c d)
  show ?case
    using "1.prems" "1.IH" by (subst (asm) doPivot_right_func.simps) (fastforce split: if_splits)
qed

function doPivot_loop_func ::
  "'d lessSwap \<Rightarrow> 'd \<Rightarrow> nat \<Rightarrow> nat \<Rightarrow> nat \<Rightarrow> nat \<Rightarrow> nat \<Rightarrow> 'd \<times> nat \<times> nat \<times> nat \<times> nat" where
  "doPivot_loop_func I data pivot a b c d =
     (case doPivot_left_func I data pivot a b c of (data1, a1, b1) \<Rightarrow>
      case doPivot_right_func I data1 pivot b1 c d of (data2, c1, d1) \<Rightarrow>
        if b1 \<ge> c1 then (data2, a1, b1, c1, d1)
        else doPivot_loop_func I (SwapFn I data2 b1 (c1 - 1)) pivot a1 (b1 + 1) (c1 - 1) d1)"
  by pat_completeness auto
termination
  by (relation "measure (\<lambda>(I, data, pivot, a, b, c, d). c - b)")
    (auto dest!: sym [of "(_, _, _)"] doPivot_left_func_bounds doPivot_right_func_bounds)

declare doPivot_loop_func.simps [simp del]

definition doPivot_func :: "'d lessSwap \<Rightarrow> 'd \<Rightarrow> nat \<Rightarrow> nat \<Rightarrow> 'd \<times> nat \<times> nat" where
  "doPivot_func I data lo hi =
     (let m = lo + (hi - lo) div 2;
          data1 = (if hi - lo > 40 then
                     let s = (hi - lo) div 8;
                         e1 = medianOfThree_func I data lo (lo + s) (lo + 2 * s);
                         e2 = medianOfThree_func I e1 m (m - s) (m + s)
                     in medianOfThree_func I e2 (hi - 1) (hi - 1 - s) (hi - 1 - 2 * s)
                   else data);
          data2 = medianOfThree_func I data1 lo m (hi - 1);
          pivot = lo
      in case doPivot_loop_func I data2 pivot (lo + 1) (lo + 1) hi hi of (data3, a, b, c, d) \<Rightarrow>
        let n = go_min (b - a) (a - lo);
            data4 = swapRange_func I data3 lo (b - n) n;
            n' = go_min (hi - d) (d - c);
            data5 = swapRange_func I data4 c (hi - n') n'
        in (data5, lo + b - a, hi - (d - c)))"

function quickSort_func :: "'d lessSwap \<Rightarrow> 'd \<Rightarrow> nat \<Rightarrow> nat \<Rightarrow> nat \<Rightarrow> 'd" where
  "quickSort_func I data a b maxDepth =
     (if b - a > 7 then
        if maxDepth = 0 then heapSort_func I data a b
        else case doPivot_func I data a b of (data1, mlo, mhi) \<Rightarrow>
          if mlo - a < b - mhi
          then quickSort_func I (quickSort_func I data1 a mlo (maxDepth - 1)) mhi b (maxDepth - 1)
          else quickSort_func I (quickSort_func I data1 mhi b (maxDepth - 1)) a mlo (maxDepth - 1)
      else if b - a > 1 then insertionSort_func I data a b
      else data)"
  by pat_completeness auto
termination
  by (relation "measure (\<lambda>(I, data, a, b, maxDepth). maxDepth)") auto

declare quickSort_func.simps [simp del]

function rotate_loop_func :: "'d lessSwap \<Rightarrow> 'd \<Rightarrow> nat \<Rightarrow> nat \<Rightarrow> nat \<Rightarrow> 'd \<times> nat" where
  "rotate_loop_func I data p i j =
     (if i \<noteq> j \<and> i > 0 \<and> j > 0 then
        if i > j then rotate_loop_func I (swapRange_func I data (p - i) p j) p (i - j) j
        else rotate_loop_func I (swapRange_func I data (p - i) (p + j - i) i) p i (j - i)
      else (data, i))"
  by pat_completeness auto
termination
  by (relation "measure (\<lambda>(I, data, p, i, j). i + j)") auto

declare rotate_loop_func.simps [simp del]

definition rotate_data_func :: "'d lessSwap \<Rightarrow> 'd \<Rightarrow> nat \<Rightarrow> nat \<Rightarrow> nat \<Rightarrow> 'd" where
  "rotate_data_func I data a m b =
     (let i = m - a in
      if i = 0 then data
      else let j = b - m in
      if j = 0 then data
      else if i = j then swapRange_func I data a m i
      else let p = a + i in
        case rotate_loop_func I data p i j of (data1, i1) \<Rightarrow> swapRange_func I data1 (p - i1) p i1)"

function symMerge_search_func :: "'d lessSwap \<Rightarrow> 'd \<Rightarrow> nat \<Rightarrow> nat \<Rightarrow> nat \<Rightarrow> nat" where
  "symMerge_search_func I data p start r =
     (if start < r then
        let c = start + (r - start) div 2 in
        if \<not> LessFn I data (p - c) c then symMerge_search_func I data p (c + 1) r
        else symMerge_search_func I data p start c
      else start)"
  by pat_completeness auto
termination
  by (relation "measure (\<lambda>(I, data, p, start, r). r - start)") auto

declare symMerge_search_func.simps [simp del]

definition symMerge_start_func :: "'d lessSwap \<Rightarrow> 'd \<Rightarrow> nat \<Rightarrow> nat \<Rightarrow> nat \<Rightarrow> nat" where
  "symMerge_start_func I data a m b =
     (let mid = a + (b - a) div 2; n = mid + m in
      if m > mid then symMerge_search_func I data (n - 1) (n - b) mid
      else symMerge_search_func I data (n - 1) a m)"

function symMerge_func :: "'d lessSwap \<Rightarrow> 'd \<Rightarrow> nat \<Rightarrow> nat \<Rightarrow> nat \<Rightarrow> 'd" where
  "symMerge_func I data a m b =
     (if a \<ge> m \<or> m \<ge> b then data
      else
        let mid = a + (b - a) div 2;
            n = mid + m;
            start = symMerge_start_func I data a m b;
            end = n - start;
            data1 = rotate_data_func I data start m end;
            data2 = symMerge_func I data1 a start mid
        in symMerge_func I data2 mid end b)"
  by pat_completeness auto
termination
  by (relation "measure (\<lambda>(I, data, a, m, b). b - a)") auto

declare symMerge_func.simps [simp del]

function stable_blocks_func :: "'d lessSwap \<Rightarrow> 'd \<Rightarrow> nat \<Rightarrow> nat \<Rightarrow> nat \<Rightarrow> nat \<Rightarrow> 'd \<times> nat" where
  "stable_blocks_func I data n blockSize a b =
     (if b \<le> n \<and> blockSize > 0
      then stable_blocks_func I (insertionSort_func I data a b) n blockSize b (b + blockSize)
      else (data, a))"
  by pat_completeness auto
termination
  by (relation "measure (\<lambda>(I, data, n, blockSize, a, b). n + 1 - b)") auto

function stable_merges_func :: "'d lessSwap \<Rightarrow> 'd \<Rightarrow> nat \<Rightarrow> nat \<Rightarrow> nat \<Rightarrow> nat \<Rightarrow> 'd \<times> nat" where
  "stable_merges_func I data n blockSize a b =
     (if b \<le> n \<and> blockSize > 0
      then stable_merges_func I (symMerge_func I data a (a + blockSize) b) n blockSize b (b + 2 * blockSize)
      else (data, a))"
  by pat_completeness auto
termination
  by (relation "measure (\<lambda>(I, data, n, blockSize, a, b). n + 1 - b)") auto

declare stable_blocks_func.simps [simp del] stable_merges_func.simps [simp del]

function stable_loop_func :: "'d lessSwap \<Rightarrow> 'd \<Rightarrow> nat \<Rightarrow> nat \<Rightarrow> 'd" where
  "stable_loop_func I data n blockSize =
     (if blockSize < n \<and> blockSize > 0 then
        case stable_merges_func I data n blockSize 0 (2 * blockSize) of (data1, a) \<Rightarrow>
          stable_loop_func I (symMerge_func I data1 a (a + blockSize) n) n (blockSize * 2)
      else data)"
  by pat_completeness auto
termination
  by (relation "measure (\<lambda>(I, data, n, blockSize). n - blockSize)") auto

declare stable_loop_func.simps [simp del]

definition stable_func :: "'d lessSwap \<Rightarrow> 'd \<Rightarrow> nat \<Rightarrow> 'd" where
  "stable_func I data n =
     (let blockSize = 20 in
      case stable_blocks_func I data n blockSize 0 blockSize of (data1, a) \<Rightarrow>
        stable_loop_func I (insertionSort_func I data1 a n) n blockSize)"

section \<open>The generated functions agree with the originals\<close>

text \<open>The closures of an Interface value.\<close>

definition closures :: "'d Interface \<Rightarrow> 'd lessSwap" where
  "closures I = \<lparr>LessFn = Less I, SwapFn = Swap I\<rparr>"

named_theorems func_eq \<open>equality of a generated function with its original\<close>

lemma closures_simps [func_eq, simp]: "LessFn (closures I) = Less I" "SwapFn (closures I) = Swap I"
  by (simp_all add: closures_def)

lemma insertionSort_inner_func_eq [func_eq]: "insertionSort_inner_func (closures I) data a j = insertionSort_inner I data a j"
proof (induction I data a j rule: insertionSort_inner.induct)
  case (1 I data a j)
  show ?case
    by (subst insertionSort_inner_func.simps, subst insertionSort_inner.simps)
      (auto simp: func_eq Let_def "1.IH" [simplified] split: prod.splits)
qed

lemma insertionSort_outer_func_eq [func_eq]: "insertionSort_outer_func (closures I) data a b i = insertionSort_outer I data a b i"
proof (induction I data a b i rule: insertionSort_outer.induct)
  case (1 I data a b i)
  show ?case
    by (subst insertionSort_outer_func.simps, subst insertionSort_outer.simps)
      (auto simp: func_eq Let_def "1.IH" [simplified] split: prod.splits)
qed

lemma insertionSort_func_eq [func_eq]: "insertionSort_func (closures I) data a b = insertionSort I data a b"
  by (simp add: insertionSort_func_def insertionSort_def func_eq Let_def split: prod.splits)

lemma siftDown_func_eq [func_eq]: "siftDown_func (closures I) data root hi first = siftDown I data root hi first"
proof (induction I data root hi first rule: siftDown.induct)
  case (1 I data root hi first)
  show ?case
    by (subst siftDown_func.simps, subst siftDown.simps)
      (auto simp: func_eq Let_def "1.IH" [simplified] split: prod.splits)
qed

lemma heapSort_build_func_eq [func_eq]: "heapSort_build_func (closures I) data k hi first = heapSort_build I data k hi first"
  by (induction k arbitrary: data) (simp_all add: func_eq)

lemma heapSort_pop_func_eq [func_eq]: "heapSort_pop_func (closures I) data k first = heapSort_pop I data k first"
  by (induction k arbitrary: data) (simp_all add: func_eq)

lemma heapSort_func_eq [func_eq]: "heapSort_func (closures I) data a b = heapSort I data a b"
  by (simp add: heapSort_func_def heapSort_def func_eq Let_def split: prod.splits)

lemma swap_if_func_eq [func_eq]: "swap_if_func (closures I) data i j = swap_if I data i j"
  by (simp add: swap_if_func_def swap_if_def func_eq Let_def split: prod.splits)

lemma medianOfThree_func_eq [func_eq]: "medianOfThree_func (closures I) data a b c = medianOfThree I data a b c"
  by (simp add: medianOfThree_func_def medianOfThree_def func_eq Let_def split: prod.splits)

lemma swapRange_loop_func_eq [func_eq]: "swapRange_loop_func (closures I) data a b n i = swapRange_loop I data a b n i"
proof (induction I data a b n i rule: swapRange_loop.induct)
  case (1 I data a b n i)
  show ?case
    by (subst swapRange_loop_func.simps, subst swapRange_loop.simps)
      (auto simp: func_eq Let_def "1.IH" [simplified] split: prod.splits)
qed

lemma swapRange_func_eq [func_eq]: "swapRange_func (closures I) data a b n = swapRange I data a b n"
  by (simp add: swapRange_func_def swapRange_def func_eq Let_def split: prod.splits)

lemma doPivot_left_func_eq [func_eq]: "doPivot_left_func (closures I) data p a b c = doPivot_left I data p a b c"
proof (induction I data p a b c rule: doPivot_left.induct)
  case (1 I data p a b c)
  show ?case
    by (subst doPivot_left_func.simps, subst doPivot_left.simps)
      (auto simp: func_eq Let_def "1.IH" [simplified] split: prod.splits)
qed

lemma doPivot_right_func_eq [func_eq]: "doPivot_right_func (closures I) data p b c d = doPivot_right I data p b c d"
proof (induction I data p b c d rule: doPivot_right.induct)
  case (1 I data p b c d)
  show ?case
    by (subst doPivot_right_func.simps, subst doPivot_right.simps)
      (auto simp: func_eq Let_def "1.IH" [simplified] split: prod.splits)
qed

lemma doPivot_loop_func_eq [func_eq]: "doPivot_loop_func (closures I) data p a b c d = doPivot_loop I data p a b c d"
proof (induction I data p a b c d rule: doPivot_loop.induct)
  case (1 I data p a b c d)
  show ?case
    by (subst doPivot_loop_func.simps, subst doPivot_loop.simps)
      (auto simp: func_eq Let_def "1.IH" [simplified] split: prod.splits)
qed

lemma doPivot_func_eq [func_eq]: "doPivot_func (closures I) data lo hi = doPivot I data lo hi"
  by (simp add: doPivot_func_def doPivot_def func_eq Let_def split: prod.splits)

lemma quickSort_func_eq [func_eq]: "quickSort_func (closures I) data a b m = quickSort I data a b m"
proof (induction I data a b m rule: quickSort.induct)
  case (1 I data a b m)
  show ?case
    by (subst quickSort_func.simps, subst quickSort.simps)
      (auto simp: func_eq Let_def "1.IH" [simplified] split: prod.splits)
qed

lemma rotate_loop_func_eq [func_eq]: "rotate_loop_func (closures I) data p i j = rotate_loop I data p i j"
proof (induction I data p i j rule: rotate_loop.induct)
  case (1 I data p i j)
  show ?case
    by (subst rotate_loop_func.simps, subst rotate_loop.simps)
      (auto simp: func_eq Let_def "1.IH" [simplified] split: prod.splits)
qed

lemma rotate_data_func_eq [func_eq]: "rotate_data_func (closures I) data a m b = rotate_data I data a m b"
  by (simp add: rotate_data_func_def rotate_data_def func_eq Let_def split: prod.splits)

lemma symMerge_search_func_eq [func_eq]: "symMerge_search_func (closures I) data p s r = symMerge_search I data p s r"
proof (induction I data p s r rule: symMerge_search.induct)
  case (1 I data p s r)
  show ?case
    by (subst symMerge_search_func.simps, subst symMerge_search.simps)
      (auto simp: func_eq Let_def "1.IH" [simplified] split: prod.splits)
qed

lemma symMerge_start_func_eq [func_eq]: "symMerge_start_func (closures I) data a m b = symMerge_start I data a m b"
  by (simp add: symMerge_start_func_def symMerge_start_def func_eq Let_def split: prod.splits)

lemma symMerge_func_eq [func_eq]: "symMerge_func (closures I) data a m b = symMerge I data a m b"
proof (induction I data a m b rule: symMerge.induct)
  case (1 I data a m b)
  show ?case
    by (subst symMerge_func.simps, subst symMerge.simps)
      (auto simp: func_eq Let_def "1.IH" [simplified] split: prod.splits)
qed

lemma stable_blocks_func_eq [func_eq]: "stable_blocks_func (closures I) data n bs a b = stable_blocks I data n bs a b"
proof (induction I data n bs a b rule: stable_blocks.induct)
  case (1 I data n bs a b)
  show ?case
    by (subst stable_blocks_func.simps, subst stable_blocks.simps)
      (auto simp: func_eq Let_def "1.IH" [simplified] split: prod.splits)
qed

lemma stable_merges_func_eq [func_eq]: "stable_merges_func (closures I) data n bs a b = stable_merges I data n bs a b"
proof (induction I data n bs a b rule: stable_merges.induct)
  case (1 I data n bs a b)
  show ?case
    by (subst stable_merges_func.simps, subst stable_merges.simps)
      (auto simp: func_eq Let_def "1.IH" [simplified] split: prod.splits)
qed

lemma stable_loop_func_eq [func_eq]: "stable_loop_func (closures I) data n bs = stable_loop I data n bs"
proof (induction I data n bs rule: stable_loop.induct)
  case (1 I data n bs)
  show ?case
    by (subst stable_loop_func.simps, subst stable_loop.simps)
      (auto simp: func_eq Let_def "1.IH" [simplified] split: prod.splits)
qed

lemma stable_func_eq [func_eq]: "stable_func (closures I) data n = stable I data n"
  by (simp add: stable_func_def stable_def func_eq Let_def split: prod.splits)

section \<open>Slice, SliceStable and SliceIsSorted\<close>

text \<open>\<open>maxDepth\<close> of \<open>sort_compatible.go\<close>.\<close>

fun maxDepth_loop :: "nat \<Rightarrow> nat \<Rightarrow> nat" where
  "maxDepth_loop i depth = (if i > 0 then maxDepth_loop (i div 2) (depth + 1) else depth)"

declare maxDepth_loop.simps [simp del]

definition maxDepth :: "nat \<Rightarrow> nat" where
  "maxDepth n = maxDepth_loop n 0 * 2"

text \<open>
  The \<open>less\<close> closure reads the slice it was made for, so it is a function of the slice and two
  indices; \<open>reflect.Swapper\<close> returns the function that exchanges two elements of that slice.
\<close>

definition Slice :: "'a list \<Rightarrow> ('a list \<Rightarrow> nat \<Rightarrow> nat \<Rightarrow> bool) \<Rightarrow> 'a list" where
  "Slice xs lf =
     (let swap = (\<lambda>s i j. swap_nth i j s); len = length xs
      in quickSort_func \<lparr>LessFn = lf, SwapFn = swap\<rparr> xs 0 len (maxDepth len))"

definition SliceStable :: "'a list \<Rightarrow> ('a list \<Rightarrow> nat \<Rightarrow> nat \<Rightarrow> bool) \<Rightarrow> 'a list" where
  "SliceStable xs lf =
     (let swap = (\<lambda>s i j. swap_nth i j s)
      in stable_func \<lparr>LessFn = lf, SwapFn = swap\<rparr> xs (length xs))"

fun SliceIsSorted_loop :: "'a list \<Rightarrow> ('a list \<Rightarrow> nat \<Rightarrow> nat \<Rightarrow> bool) \<Rightarrow> nat \<Rightarrow> bool" where
  "SliceIsSorted_loop xs lf i =
     (if i > 0 then if lf xs i (i - 1) then False else SliceIsSorted_loop xs lf (i - 1)
      else True)"

declare SliceIsSorted_loop.simps [simp del]

definition SliceIsSorted :: "'a list \<Rightarrow> ('a list \<Rightarrow> nat \<Rightarrow> nat \<Rightarrow> bool) \<Rightarrow> bool" where
  "SliceIsSorted xs lf = (let n = length xs in SliceIsSorted_loop xs lf (n - 1))"

text \<open>The comparison of elements that a \<open>less\<close> closure is written to perform.\<close>

definition slice_less :: "('a \<Rightarrow> 'a \<Rightarrow> bool) \<Rightarrow> 'a list \<Rightarrow> nat \<Rightarrow> nat \<Rightarrow> bool" where
  "slice_less lt xs i j = lt (xs ! i) (xs ! j)"

lemma maxDepth_loop_eq: "maxDepth_loop i depth = Sort_depth i depth"
proof (induction i depth rule: maxDepth_loop.induct)
  case (1 i depth)
  then show ?case by (subst maxDepth_loop.simps, subst Sort_depth.simps) simp
qed

lemma closures_slice:
  "closures (slice_interface lt) = \<lparr>LessFn = slice_less lt, SwapFn = (\<lambda>s i j. swap_nth i j s)\<rparr>"
  by (simp add: closures_def slice_interface_def slice_less_def fun_eq_iff)

lemma Slice_Sort: "Slice xs (slice_less lt) = Sort (slice_interface lt) xs"
proof -
  have "Len (slice_interface lt) xs = length xs" by (simp add: slice_interface_def)
  then show ?thesis
    by (simp add: Slice_def Sort_def Let_def maxDepth_def maxDepth_loop_eq func_eq flip: closures_slice)
qed

lemma SliceStable_Stable: "SliceStable xs (slice_less lt) = Stable (slice_interface lt) xs"
proof -
  have "Len (slice_interface lt) xs = length xs" by (simp add: slice_interface_def)
  then show ?thesis by (simp add: SliceStable_def Stable_def Let_def func_eq flip: closures_slice)
qed

lemma SliceIsSorted_IsSorted: "SliceIsSorted xs (slice_less lt) = IsSorted (slice_interface lt) xs"
proof -
  have "SliceIsSorted_loop xs (slice_less lt) i = IsSorted_loop (slice_interface lt) xs i" for i
  proof (induction i)
    case (Suc i)
    have "Less (slice_interface lt) xs (Suc i) i = slice_less lt xs (Suc i) i"
      by (simp add: slice_interface_def slice_less_def)
    with Suc show ?case
      by (subst SliceIsSorted_loop.simps, subst IsSorted_loop.simps) simp
  qed (simp add: SliceIsSorted_loop.simps IsSorted_loop.simps)
  then show ?thesis by (simp add: SliceIsSorted_def IsSorted_def Let_def slice_interface_def)
qed

end
