(* ===== verification/Sorting.thy ===== *)
theory Sorting
  imports SortFunc
begin

text \<open>
  The results of package sort: the slice types as instances of the contract, the theorems about
  \<open>Sort\<close>, \<open>Stable\<close>, \<open>Reverse\<close>, \<open>IsSorted\<close> and the func variants, and the binary search of
  \<open>search.go\<close>.
\<close>

section \<open>Binary search\<close>

function Search_loop :: "(nat \<Rightarrow> bool) \<Rightarrow> nat \<Rightarrow> nat \<Rightarrow> nat" where
  "Search_loop f i j =
     (if i < j then
        let h = i + (j - i) div 2 in
        if \<not> f h then Search_loop f (h + 1) j else Search_loop f i h
      else i)"
  by pat_completeness auto
termination
  by (relation "measure (\<lambda>(f, i, j). j - i)") auto

declare Search_loop.simps [simp del]

definition Search :: "nat \<Rightarrow> (nat \<Rightarrow> bool) \<Rightarrow> nat" where
  "Search n f = Search_loop f 0 n"

definition SearchInts :: "64 word list \<Rightarrow> 64 word \<Rightarrow> nat" where
  "SearchInts a x = Search (length a) (\<lambda>i. sint (a ! i) \<ge> sint x)"

definition SearchStrings :: "byte list list \<Rightarrow> byte list \<Rightarrow> nat" where
  "SearchStrings a x = Search (length a) (\<lambda>i. \<not> string_less (a ! i) x)"

lemma Search_loop_spec:
  "i \<le> j \<Longrightarrow> r = Search_loop f i j \<Longrightarrow>
   i \<le> r \<and> r \<le> j \<and> (r = i \<or> \<not> f (r - 1)) \<and> (r = j \<or> f r)"
proof (induction "j - i" arbitrary: i j rule: less_induct)
  case less
  define h where "h = i + (j - i) div 2"
  show ?case
  proof (cases "i < j")
    case True
    then have h: "i \<le> h" "h < j" by (auto simp: h_def)
    show ?thesis
    proof (cases "f h")
      case f: True
      then have "r = Search_loop f i h"
        using True less.prems(2) by (subst (asm) Search_loop.simps) (simp add: Let_def h_def)
      moreover have "h - i < j - i" using h by linarith
      ultimately have "i \<le> r \<and> r \<le> h \<and> (r = i \<or> \<not> f (r - 1)) \<and> (r = h \<or> f r)"
        using h(1) by (intro less.hyps)
      then show ?thesis using h f by (metis less_imp_le order_trans)
    next
      case f: False
      then have "r = Search_loop f (h + 1) j"
        using True less.prems(2) by (subst (asm) Search_loop.simps) (simp add: Let_def h_def)
      moreover have "j - (h + 1) < j - i" "h + 1 \<le> j" using h by linarith+
      ultimately have "h + 1 \<le> r \<and> r \<le> j \<and> (r = h + 1 \<or> \<not> f (r - 1)) \<and> (r = j \<or> f r)"
        by (intro less.hyps)
      then show ?thesis using h f by (metis add_diff_cancel_right' le_add1 order_trans)
    qed
  next
    case False
    then have "r = i" using less.prems(2) by (subst (asm) Search_loop.simps) simp
    then show ?thesis using less.prems(1) False by simp
  qed
qed

lemma Search_spec:
  "Search n f \<le> n" "0 < Search n f \<Longrightarrow> \<not> f (Search n f - 1)" "Search n f < n \<Longrightarrow> f (Search n f)"
  using Search_loop_spec [of 0 n "Search n f" f] by (auto simp: Search_def)

lemma Search_monotone:
  assumes mono: "\<And>i j. i \<le> j \<Longrightarrow> j < n \<Longrightarrow> f i \<Longrightarrow> f j"
  shows "Search n f \<le> n" "\<And>i. i < n \<Longrightarrow> f i \<longleftrightarrow> Search n f \<le> i"
proof -
  let ?r = "Search n f"
  show "?r \<le> n" by (rule Search_spec)
  show "f i \<longleftrightarrow> ?r \<le> i" if i: "i < n" for i
  proof
    assume "f i"
    show "?r \<le> i"
    proof (rule ccontr)
      assume "\<not> ?r \<le> i"
      then have "i \<le> ?r - 1" "?r - 1 < n" "0 < ?r" using Search_spec(1) [of n f] by auto
      then show False using mono [OF _ _ \<open>f i\<close>] Search_spec(2) by blast
    qed
  next
    assume "?r \<le> i"
    then show "f i" using mono [of ?r i] Search_spec(3) [of n f] i by auto
  qed
qed

section \<open>The slice types satisfy the contract\<close>

lemma sort_data_slice: "sort_data (slice_interface lt) (\<lambda>p. p) lt"
  by unfold_locales (simp_all add: slice_interface_def)

lemma sort_order_slice: "weak_order lt \<Longrightarrow> sort_order (slice_interface lt) (\<lambda>p. p) lt"
  by (intro sort_order.intro sort_data_slice)

lemma sort_order_Reverse:
  assumes "sort_order I elems lt"
  shows "sort_order (Reverse I) elems (\<lambda>x y. lt y x)"
proof (intro sort_order.intro)
  have d: "sort_data I elems lt" and w: "weak_order lt" using assms by (simp_all add: sort_order_def)
  show "sort_data (Reverse I) elems (\<lambda>x y. lt y x)"
    by unfold_locales
      (simp_all add: Reverse_def sort_data.Len_law [OF d] sort_data.Less_law [OF d] sort_data.Swap_law [OF d])
  show "weak_order (\<lambda>x y. lt y x)" using w by (rule weak_order.weak_order_converse)
qed

lemma weak_order_int: "weak_order (\<lambda>x y :: 64 word. sint x < sint y)"
  by unfold_locales auto

lemma string_less_irrefl: "\<not> string_less x x"
  by (induction x) auto

lemma string_less_trans: "string_less x y \<Longrightarrow> string_less y z \<Longrightarrow> string_less x z"
proof (induction x y arbitrary: z rule: string_less.induct)
  case (2 y ys)
  then show ?case by (cases z) auto
next
  case (3 x xs y ys)
  then show ?case by (cases z) auto
qed simp

lemma string_less_total: "string_less x y \<or> x = y \<or> string_less y x"
  by (induction x y rule: string_less.induct) (auto simp: neq_Nil_conv, (metis list.exhaust string_less.simps(2))+)

lemma weak_order_string: "weak_order string_less"
  by unfold_locales
    (use string_less_irrefl string_less_trans string_less_total in \<open>blast | metis\<close>)+

interpretation int_slice: sort_order IntSlice "\<lambda>p. p" "\<lambda>x y. sint x < sint y"
  unfolding IntSlice_def by (rule sort_order_slice [OF weak_order_int])

interpretation string_slice: sort_order StringSlice "\<lambda>p. p" string_less
  unfolding StringSlice_def by (rule sort_order_slice [OF weak_order_string])

interpretation reverse_int_slice: sort_order "Reverse IntSlice" "\<lambda>p. p" "\<lambda>x y. sint y < sint x"
  by (rule sort_order_Reverse [OF int_slice.sort_order_axioms])

section \<open>Results\<close>

text \<open>
  C1. Sort leaves any collection that keeps its Interface contract (a length, a comparison that is
  a strict weak order, an exchange of elements) sorted, and a permutation of what it was, for
  every length and whatever mix of quicksort, heapsort and insertion sort the run takes.
\<close>

theorem Sort_correct:
  assumes "sort_order I elems lt"
  shows "sorted_wrt (\<lambda>x y. \<not> lt y x) (elems (Sort I d)) \<and> mset (elems (Sort I d)) = mset (elems d)"
  by (rule sort_order.Sort_sorts [OF assms])

theorem Sort_correct_witness:
  "sort_order IntSlice (\<lambda>p. p) (\<lambda>x y. sint x < sint y) \<and>
   sorted_wrt (\<lambda>x y. \<not> sint y < sint x) (Sort IntSlice [9, 3, -1, 7, 3, 12, 0, 5, 4, 1]) \<and>
   mset (Sort IntSlice [9, 3, -1, 7, 3, 12, 0, 5, 4, 1]) = mset [9, 3, -1, 7, 3, 12, 0, 5, 4, 1]"
  using int_slice.sort_order_axioms Sort_correct [OF int_slice.sort_order_axioms] by blast

text \<open>
  C2. Stable sorts, permutes, and keeps the relative order of elements neither of which is less
  than the other: for every \<open>x\<close> the sub-list of the elements equivalent to \<open>x\<close> is unchanged.
\<close>

theorem Stable_correct:
  assumes "sort_order I elems lt"
  shows "sorted_wrt (\<lambda>x y. \<not> lt y x) (elems (Stable I d)) \<and> mset (elems (Stable I d)) = mset (elems d) \<and>
    (\<forall>x. filter (\<lambda>y. \<not> lt x y \<and> \<not> lt y x) (elems (Stable I d)) =
         filter (\<lambda>y. \<not> lt x y \<and> \<not> lt y x) (elems d))"
  by (rule sort_order.Stable_sorts [OF assms])

lemma weak_order_fst: "weak_order (\<lambda>x y :: nat \<times> nat. fst x < fst y)"
  by unfold_locales auto

theorem Stable_correct_witness:
  "sort_order (slice_interface (\<lambda>x y. fst x < fst y)) (\<lambda>p. p) (\<lambda>x y :: nat \<times> nat. fst x < fst y) \<and>
   filter (\<lambda>y. \<not> fst (2 :: nat, 0 :: nat) < fst y \<and> \<not> fst y < fst (2 :: nat, 0 :: nat))
     (Stable (slice_interface (\<lambda>x y. fst x < fst y)) [(2, 1), (1, 7), (2, 3 :: nat), (0, 5)]) =
   filter (\<lambda>y. \<not> fst (2 :: nat, 0 :: nat) < fst y \<and> \<not> fst y < fst (2 :: nat, 0 :: nat))
     [(2, 1), (1, 7), (2, 3 :: nat), (0, 5)]"
  using sort_order_slice [OF weak_order_fst] Stable_correct [OF sort_order_slice [OF weak_order_fst]]
  by blast

text \<open>
  C3. The generated func variants compute what their originals do: \<open>quickSort_func\<close> and
  \<open>stable_func\<close> on the closures of an Interface value give the collection that \<open>quickSort\<close> and
  \<open>stable\<close> give on the value, for every range and depth.
\<close>

theorem func_variant_equiv:
  "quickSort_func (closures I) d a b m = quickSort I d a b m \<and>
   stable_func (closures I) d n = stable I d n"
  by (simp add: func_eq)

text \<open>
  \<open>Slice\<close> and \<open>SliceStable\<close>, called with a less function that compares the elements at the two
  indices by a strict weak order, return the slice sorted and permuted; \<open>SliceStable\<close> also keeps
  the order of equivalent elements, and \<open>SliceIsSorted\<close> holds of both results.
\<close>

theorem Slice_correct:
  assumes "weak_order lt"
  shows "sorted_wrt (\<lambda>x y. \<not> lt y x) (Slice s (slice_less lt)) \<and> mset (Slice s (slice_less lt)) = mset s \<and>
    sorted_wrt (\<lambda>x y. \<not> lt y x) (SliceStable s (slice_less lt)) \<and>
    (\<forall>x. filter (\<lambda>y. \<not> lt x y \<and> \<not> lt y x) (SliceStable s (slice_less lt)) =
         filter (\<lambda>y. \<not> lt x y \<and> \<not> lt y x) s) \<and>
    SliceIsSorted (Slice s (slice_less lt)) (slice_less lt) \<and>
    SliceIsSorted (SliceStable s (slice_less lt)) (slice_less lt)"
proof -
  note o = sort_order_slice [OF assms]
  show ?thesis
    using sort_order.Sort_sorts [OF o, of s] sort_order.Stable_sorts [OF o, of s]
    by (simp add: Slice_Sort SliceStable_Stable SliceIsSorted_IsSorted sort_order.IsSorted_sorted [OF o])
qed

text \<open>
  \<open>IsSorted\<close> decides sortedness, so it holds after \<open>Sort\<close>, and sorting \<open>Reverse\<close> of a collection
  leaves it in descending order.
\<close>

theorem IsSorted_Reverse_correct:
  assumes "sort_order I elems lt"
  shows "(IsSorted I d \<longleftrightarrow> sorted_wrt (\<lambda>x y. \<not> lt y x) (elems d)) \<and> IsSorted I (Sort I d) \<and>
    sorted_wrt (\<lambda>x y. \<not> lt x y) (elems (Sort (Reverse I) d))"
  using sort_order.IsSorted_sorted [OF assms] sort_order.Sort_sorts [OF assms, of d]
    sort_order.Sort_sorts [OF sort_order_Reverse [OF assms], of d] by simp

text \<open>
  \<open>Ints\<close> and \<open>Strings\<close> sort in increasing order: 64-bit ints by their signed value, strings
  byte by byte; the results are permutations, and \<open>IntsAreSorted\<close> and \<open>StringsAreSorted\<close> accept them.
\<close>

theorem Ints_Strings_correct:
  "sorted (map sint (Ints a)) \<and> mset (Ints a) = mset a \<and> IntsAreSorted (Ints a) \<and>
   sorted_wrt (\<lambda>x y. \<not> string_less y x) (Strings b) \<and> mset (Strings b) = mset b \<and> StringsAreSorted (Strings b)"
proof -
  have i: "sorted_wrt (\<lambda>x y. \<not> sint y < sint x) (Ints a)" "mset (Ints a) = mset a"
    using int_slice.Sort_sorts [of a] by (simp_all add: Ints_def)
  then have "sorted (map sint (Ints a))" by (simp add: sorted_wrt_map not_less)
  then show ?thesis
    using i string_slice.Sort_sorts [of b]
    by (simp add: Strings_def IntsAreSorted_def StringsAreSorted_def int_slice.IsSorted_sorted
        string_slice.IsSorted_sorted)
qed

text \<open>
  C4. \<open>Search\<close> terminates with the smallest index in \<open>[0, n)\<close> at which a monotone predicate holds,
  and with \<open>n\<close> when there is none; on a sorted slice \<open>SearchInts\<close> separates the elements below
  \<open>x\<close> from the others.
\<close>

theorem Search_correct:
  assumes "\<forall>i j. i \<le> j \<and> j < n \<and> f i \<longrightarrow> f j" and "sorted (map sint a)"
  shows "Search n f \<le> n \<and> (\<forall>i<n. f i \<longleftrightarrow> Search n f \<le> i) \<and> SearchInts a x \<le> length a \<and>
    (\<forall>i<length a. sint (a ! i) < sint x \<longleftrightarrow> i < SearchInts a x)"
proof -
  have m: "sint x \<le> sint (a ! j)" if "i \<le> j" "j < length a" "sint x \<le> sint (a ! i)" for i j
    using sorted_nth_mono [OF assms(2), of i j] that by simp
  have s: "Search n f \<le> n" "\<forall>i<n. f i \<longleftrightarrow> Search n f \<le> i"
    using Search_spec(1) Search_monotone(2) [of n f] assms(1) by blast+
  have "SearchInts a x \<le> length a" "\<forall>i<length a. sint x \<le> sint (a ! i) \<longleftrightarrow> SearchInts a x \<le> i"
    unfolding SearchInts_def
    using Search_spec(1) Search_monotone(2) [of "length a" "\<lambda>i. sint x \<le> sint (a ! i)"] m by blast+
  then show ?thesis using s by (meson not_less)
qed

theorem Search_correct_witness:
  "sorted (map sint [1, 3, 5 :: 64 word]) \<and> Search 10 (\<lambda>i. 4 \<le> i) \<le> 10 \<and>
   (4 \<le> (7::nat)) = (Search 10 (\<lambda>i. 4 \<le> i) \<le> 7) \<and> SearchInts [1, 3, 5] 4 \<le> length [1, 3, 5 :: 64 word]"
proof -
  have s: "sorted (map sint [1, 3, 5 :: 64 word])" by simp
  have m: "\<forall>i j. i \<le> j \<and> j < 10 \<and> 4 \<le> i \<longrightarrow> 4 \<le> (j::nat)" by simp
  note c = Search_correct [where n = 10 and f = "\<lambda>i. 4 \<le> i" and x = 4, OF m s]
  have "\<forall>i<10. (4 \<le> i) = (Search 10 (\<lambda>i. 4 \<le> i) \<le> i)" using c by blast
  then have "(4 \<le> (7::nat)) = (Search 10 (\<lambda>i. 4 \<le> i) \<le> 7)" by (rule allE [of _ 7]) simp
  then show ?thesis using s c by blast
qed

end
