(* ===== verification/HeapPkg.thy ===== *)
theory HeapPkg
  imports Sorting
begin

text \<open>
  Package container/heap (\<open>src/src/pkg/container/heap/heap.go\<close>): \<open>Init\<close>, \<open>Push\<close>, \<open>Pop\<close>, \<open>Remove\<close>
  and \<open>Fix\<close> on any collection with the methods of \<open>heap.Interface\<close>. The int that holds \<open>2*i+1\<close> is
  64 bits wide and may wrap to a negative number, which \<open>down\<close> tests for; the model computes it
  with the wrap-around. A call of \<open>Pop\<close> or \<open>Remove\<close> that passes an index outside the collection to
  \<open>Swap\<close> panics there: the result is \<open>None\<close>.
\<close>

record ('d, 'a) heap_Interface = "'d Interface" +
  PushM :: "'d \<Rightarrow> 'a \<Rightarrow> 'd"
  PopM :: "'d \<Rightarrow> 'a \<times> 'd"

text \<open>The value of a 64-bit int expression.\<close>

definition go_int :: "int \<Rightarrow> int" where
  "go_int x = sint (word_of_int x :: 64 word)"

function up :: "('d, 'a) heap_Interface \<Rightarrow> 'd \<Rightarrow> nat \<Rightarrow> 'd" where
  "up H h j =
     (let i = (j - 1) div 2 in
      if i = j \<or> \<not> Less H h j i then h else up H (Swap H h i j) i)"
  by pat_completeness auto
termination
  by (relation "measure (\<lambda>(H, h, j). j)") auto

lemma go_int_small: "- (2 ^ 63) \<le> x \<Longrightarrow> x < 2 ^ 63 \<Longrightarrow> go_int x = x"
  by (simp add: go_int_def sint_sbintrunc' signed_take_bit_int_eq_self)

lemma go_int_child:
  assumes "0 \<le> go_int (2 * int i + 1)" "i < 2 ^ 63"
  shows "go_int (2 * int i + 1) = 2 * int i + 1"
proof (cases "2 * int i + 1 < 2 ^ 63")
  case True
  then show ?thesis by (intro go_int_small) auto
next
  case False
  let ?x = "2 * int i + 1"
  have i: "int i < 2 ^ 63" using assms(2) by (metis of_nat_less_iff of_nat_numeral of_nat_power)
  have "go_int ?x = go_int (?x - 2 ^ 64)"
  proof -
    have "(word_of_int ?x :: 64 word) = word_of_int (?x - 2 ^ 64)"
      by (simp only: wi_hom_sub [symmetric]) (simp add: word_of_int_2p_len)
    then show ?thesis by (simp only: go_int_def)
  qed
  also have "\<dots> = ?x - 2 ^ 64" using False i by (intro go_int_small) auto
  finally show ?thesis using assms(1) i by simp
qed

text \<open>
  The last disjunct of the exit test is never true of an int; it only lets the recursion be seen
  to end.
\<close>

function down :: "('d, 'a) heap_Interface \<Rightarrow> 'd \<Rightarrow> nat \<Rightarrow> nat \<Rightarrow> 'd" where
  "down H h i n =
     (let j1 = go_int (2 * int i + 1) in
      if j1 \<ge> int n \<or> j1 < 0 \<or> i \<ge> 2 ^ 63 then h
      else
        let j1 = nat j1; j2 = j1 + 1;
            j = (if j2 < n \<and> \<not> Less H h j1 j2 then j2 else j1)
        in if \<not> Less H h j i then h else down H (Swap H h i j) j n)"
  by pat_completeness auto
termination
proof (relation "measure (\<lambda>(H, h, i, n). n - i)", goal_cases)
  case (2 H h i n x xa xb xc)
  then have "go_int (2 * int i + 1) = 2 * int i + 1" by (intro go_int_child) auto
  with 2 show ?case by (auto split: if_splits)
qed simp

declare up.simps [simp del] down.simps [simp del]

text \<open>\<open>for i := n/2 - 1; i >= 0; i--\<close>: the argument is \<open>i + 1\<close>.\<close>

fun Init_loop :: "('d, 'a) heap_Interface \<Rightarrow> 'd \<Rightarrow> nat \<Rightarrow> nat \<Rightarrow> 'd" where
  "Init_loop H h 0 n = h"
| "Init_loop H h (Suc i) n = Init_loop H (down H h i n) i n"

definition Init :: "('d, 'a) heap_Interface \<Rightarrow> 'd \<Rightarrow> 'd" where
  "Init H h = (let n = Len H h in Init_loop H h (n div 2) n)"

definition Push :: "('d, 'a) heap_Interface \<Rightarrow> 'd \<Rightarrow> 'a \<Rightarrow> 'd" where
  "Push H h x = (let h1 = PushM H h x in up H h1 (Len H h1 - 1))"

definition Pop :: "('d, 'a) heap_Interface \<Rightarrow> 'd \<Rightarrow> ('a \<times> 'd) option" where
  "Pop H h =
     (if Len H h = 0 then None
      else let n = Len H h - 1;
               h1 = Swap H h 0 n;
               h2 = down H h1 0 n
           in Some (PopM H h2))"

definition Remove :: "('d, 'a) heap_Interface \<Rightarrow> 'd \<Rightarrow> nat \<Rightarrow> ('a \<times> 'd) option" where
  "Remove H h i =
     (if i \<ge> Len H h then None
      else let n = Len H h - 1 in
        if n \<noteq> i then
          let h1 = Swap H h i n;
              h2 = down H h1 i n;
              h3 = up H h2 i
          in Some (PopM H h3)
        else Some (PopM H h))"

definition Fix :: "('d, 'a) heap_Interface \<Rightarrow> 'd \<Rightarrow> nat \<Rightarrow> 'd" where
  "Fix H h i = up H (down H h i (Len H h)) i"

section \<open>The contract of heap.Interface\<close>

text \<open>
  A heap collection is a sortable collection (its three methods keep the \<open>sort_order\<close> contract)
  whose \<open>Push\<close> appends and whose \<open>Pop\<close> takes off the last element; a Go int holds its length.
\<close>

locale heap_data = sort_order "Interface.truncate H" elems lt
  for H :: "('d, 'a) heap_Interface" and elems :: "'d \<Rightarrow> 'a list" and lt :: "'a \<Rightarrow> 'a \<Rightarrow> bool" +
  assumes Push_law: "elems (PushM H h x) = elems h @ [x]"
    and Pop_law: "elems h \<noteq> [] \<Longrightarrow> fst (PopM H h) = last (elems h) \<and> elems (snd (PopM H h)) = butlast (elems h)"
begin

lemma Len_H: "Len H h = length (elems h)"
  using Len_law [of h] by (simp add: Interface.defs)

lemma Less_H: "i < length (elems h) \<Longrightarrow> j < length (elems h) \<Longrightarrow> Less H h i j = lt (elems h ! i) (elems h ! j)"
  using Less_law [of i h j] by (simp add: Interface.defs)

lemma Swap_H: "i < length (elems h) \<Longrightarrow> j < length (elems h) \<Longrightarrow> elems (Swap H h i j) = swap_nth i j (elems h)"
  using Swap_law [of i h j] by (simp add: Interface.defs)

text \<open>A min-heap in the order \<open>lt\<close> is a max-heap in the reverse order.\<close>

definition gt :: "'a \<Rightarrow> 'a \<Rightarrow> bool" where
  "gt x y \<longleftrightarrow> lt y x"

definition min_heap :: "nat \<Rightarrow> 'a list \<Rightarrow> bool" where
  "min_heap n xs \<longleftrightarrow> heap_in gt 0 0 n xs"

lemma weak_order_gt: "weak_order gt"
proof -
  have "gt = (\<lambda>x y. lt y x)" by (simp add: gt_def fun_eq_iff)
  then show ?thesis using weak_order_converse by simp
qed

lemma min_heap_iff:
  "min_heap n xs \<longleftrightarrow> (\<forall>c. 0 < c \<and> c < n \<longrightarrow> \<not> lt (xs ! c) (xs ! parent c))"
  by (simp add: min_heap_def heap_in_def gt_def)

lemma min_heap_least: "min_heap n xs \<Longrightarrow> k < n \<Longrightarrow> \<not> lt (xs ! k) (xs ! 0)"
  using weak_order.heap_root_max [OF weak_order_gt, of 0 n xs k] by (simp add: min_heap_def gt_def)

section \<open>down\<close>

definition lesser_child :: "'d \<Rightarrow> nat \<Rightarrow> nat \<Rightarrow> nat" where
  "lesser_child h i n =
     (if 2 * i + 2 < n \<and> \<not> Less H h (2 * i + 1) (2 * i + 2) then 2 * i + 2 else 2 * i + 1)"

lemma lesser_child_bounds:
  "2 * i + 1 < n \<Longrightarrow> i < lesser_child h i n" "2 * i + 1 < n \<Longrightarrow> lesser_child h i n < n"
  "2 * i + 1 < n \<Longrightarrow> parent (lesser_child h i n) = i"
  by (auto simp: lesser_child_def)

text \<open>In ranges an int can index, the wrapped computation of the children is the plain one.\<close>

lemma down_unfold:
  assumes "n \<le> 2 ^ 63 - 1" "i < 2 ^ 63"
  shows "down H h i n =
    (if 2 * i + 1 \<ge> n then h
     else if \<not> Less H h (lesser_child h i n) i then h
     else down H (Swap H h i (lesser_child h i n)) (lesser_child h i n) n)"
proof (cases "2 * i + 1 < n")
  case True
  have "int (2 * i + 1) < 2 ^ 63"
  proof -
    have "2 * i + 1 < 2 ^ 63" using True assms(1) by simp
    then show ?thesis by (metis of_nat_less_iff of_nat_numeral of_nat_power)
  qed
  then have g: "go_int (2 * int i + 1) = 2 * int i + 1" by (intro go_int_small) auto
  have e: "nat (2 * int i + 1) = 2 * i + 1" "\<not> int n \<le> 2 * int i + 1" "\<not> 2 * int i + 1 < 0"
    using True by auto
  show ?thesis
    using True assms(2) unfolding lesser_child_def
    by (subst down.simps) (simp add: Let_def g e)
next
  case False
  have "go_int (2 * int i + 1) \<ge> int n \<or> go_int (2 * int i + 1) < 0"
    using go_int_child [OF _ assms(2)] False by (cases "0 \<le> go_int (2 * int i + 1)") auto
  then show ?thesis using False by (subst down.simps) (auto simp: Let_def)
qed

lemma lesser_child_min:
  assumes "2 * i + 1 < n" "n \<le> length (elems h)" "0 < c" "c < n" "parent c = i"
  shows "\<not> lt (elems h ! c) (elems h ! lesser_child h i n)"
proof -
  have c: "c = 2 * i + 1 \<or> c = 2 * i + 2" using assms(3,5) child_of by blast
  have l: "lesser_child h i n =
      (if 2 * i + 2 < n \<and> \<not> lt (elems h ! (2 * i + 1)) (elems h ! (2 * i + 2)) then 2 * i + 2 else 2 * i + 1)"
    using assms(1,2) by (auto simp: lesser_child_def Less_H)
  show ?thesis
  proof (cases "2 * i + 2 < n \<and> \<not> lt (elems h ! (2 * i + 1)) (elems h ! (2 * i + 2))")
    case True
    then show ?thesis using c l lt_irrefl by metis
  next
    case False
    then have "c = 2 * i + 2 \<Longrightarrow> lt (elems h ! (2 * i + 1)) (elems h ! (2 * i + 2))" using assms(4) by auto
    then show ?thesis using c l False lt_irrefl lt_asym by metis
  qed
qed

lemma down_perm:
  "n \<le> length (elems h) \<Longrightarrow> n \<le> 2 ^ 63 - 1 \<Longrightarrow> i < 2 ^ 63 \<Longrightarrow>
   perm_in i n (elems h) (elems (down H h i n))"
proof (induction "n - i" arbitrary: h i rule: less_induct)
  case less
  let ?c = "lesser_child h i n"
  let ?h = "Swap H h i ?c"
  show ?case
  proof (cases "2 * i + 1 < n")
    case True
    note b = lesser_child_bounds [OF True, of h]
    have s: "elems ?h = swap_nth i ?c (elems h)" using less.prems b by (intro Swap_H) auto
    have p: "perm_in i n (elems h) (elems ?h)"
      unfolding s using less.prems b by (intro perm_in_swap_nth) auto
    have "perm_in ?c n (elems ?h) (elems (down H ?h ?c n))"
      using less.prems b s by (intro less.hyps) auto
    then have "perm_in i n (elems h) (elems (down H ?h ?c n))"
      using b by (intro perm_in_within [OF p]) auto
    then show ?thesis using True by (subst down_unfold [OF less.prems(2,3)]) simp
  next
    case False
    then show ?thesis by (subst down_unfold [OF less.prems(2,3)]) simp
  qed
qed

lemma heap_but_step:
  assumes ok: "\<And>c. 0 < c \<Longrightarrow> c < n \<Longrightarrow> lo \<le> parent c \<Longrightarrow> parent c \<noteq> i \<Longrightarrow> c \<noteq> i \<Longrightarrow>
      \<not> lt (elems h ! c) (elems h ! parent c)"
    and up: "\<And>c. 0 < c \<Longrightarrow> c < n \<Longrightarrow> parent c = i \<Longrightarrow> 0 < i \<Longrightarrow> lo \<le> parent i \<Longrightarrow>
      \<not> lt (elems h ! c) (elems h ! parent i)"
    and len: "n \<le> length (elems h)" and r: "2 * i + 1 < n"
    and less: "lt (elems h ! lesser_child h i n) (elems h ! i)"
  shows "heap_but gt 0 lo n (lesser_child h i n) (elems (Swap H h i (lesser_child h i n)))"
proof -
  note b = lesser_child_bounds [OF r, of h]
  have s: "elems (Swap H h i (lesser_child h i n)) = swap_nth i (lesser_child h i n) (elems h)"
    using len b by (intro Swap_H) auto
  have "heap_but gt 0 lo n (lesser_child h i n) (swap_nth (0 + i) (0 + lesser_child h i n) (elems h))"
  proof (rule weak_order.heap_but_swap [OF weak_order_gt])
    show "\<not> gt (elems h ! (0 + lesser_child h i n)) (elems h ! (0 + c))"
      if "0 < c" "c < n" "parent c = i" for c
      using lesser_child_min [OF r len that] by (simp add: gt_def)
  qed (use ok up len b less in \<open>auto simp: gt_def\<close>)
  then show ?thesis unfolding s by simp
qed

lemma down_heap:
  "n \<le> length (elems h) \<Longrightarrow> n \<le> 2 ^ 63 - 1 \<Longrightarrow> i < 2 ^ 63 \<Longrightarrow> heap_but gt 0 lo n i (elems h) \<Longrightarrow>
   heap_in gt 0 lo n (elems (down H h i n))"
proof (induction "n - i" arbitrary: h i rule: less_induct)
  case less
  define ch where "ch = lesser_child h i n"
  have ok: "\<not> lt (elems h ! c) (elems h ! parent c)"
    if "0 < c" "c < n" "lo \<le> parent c" "parent c \<noteq> i" for c
    using less.prems(4) that by (auto simp: heap_but_def gt_def)
  consider "n \<le> 2 * i + 1" | "2 * i + 1 < n" "\<not> lt (elems h ! ch) (elems h ! i)"
    | "2 * i + 1 < n" "lt (elems h ! ch) (elems h ! i)"
    by linarith
  then show ?case
  proof cases
    case 1
    then have "parent c \<noteq> i" if "c < n" "0 < c" for c using that by auto
    then show ?thesis using 1 ok
      by (subst down_unfold [OF less.prems(2,3)]) (auto simp: heap_in_def gt_def)
  next
    case 2
    have b: "i < ch" "ch < n" using lesser_child_bounds 2(1) by (auto simp: ch_def)
    then have "\<not> Less H h ch i" using 2(2) less.prems(1) by (simp add: Less_H)
    then have e: "down H h i n = h" by (subst down_unfold [OF less.prems(2,3)]) (simp add: ch_def)
    have "\<not> lt (elems h ! c) (elems h ! i)" if "0 < c" "c < n" "parent c = i" for c
      using lesser_child_min [OF 2(1) less.prems(1) that] 2(2) ge_trans by (auto simp: ch_def)
    then show ?thesis using ok unfolding e heap_in_def gt_def by (metis add_0)
  next
    case 3
    have b: "i < ch" "ch < n" using lesser_child_bounds 3(1) by (auto simp: ch_def)
    then have l: "Less H h ch i" using 3(2) less.prems(1) by (simp add: Less_H)
    have s: "elems (Swap H h i ch) = swap_nth i ch (elems h)" using b less.prems(1) by (intro Swap_H) auto
    have "heap_but gt 0 lo n ch (elems (Swap H h i ch))"
      unfolding ch_def using ok less.prems(1,4) 3
      by (intro heap_but_step) (auto simp: heap_but_def gt_def ch_def)
    then have "heap_in gt 0 lo n (elems (down H (Swap H h i ch) ch n))"
      using b s less.prems by (intro less.hyps) auto
    then show ?thesis using 3 l by (subst down_unfold [OF less.prems(2,3)]) (simp add: ch_def)
  qed
qed

section \<open>up\<close>

text \<open>A heap but for the relation of \<open>j\<close> to its parent, whose children are above that parent.\<close>

definition up_but :: "nat \<Rightarrow> nat \<Rightarrow> 'a list \<Rightarrow> bool" where
  "up_but n j xs \<longleftrightarrow>
     (\<forall>c. 0 < c \<and> c < n \<and> c \<noteq> j \<longrightarrow> \<not> lt (xs ! c) (xs ! parent c)) \<and>
     (\<forall>c. 0 < c \<and> c < n \<and> parent c = j \<and> 0 < j \<longrightarrow> \<not> lt (xs ! c) (xs ! parent j))"

lemma up_but_swap:
  assumes inv: "up_but n j xs" and j: "0 < j" "j < n" and len: "n \<le> length xs"
    and less: "lt (xs ! j) (xs ! parent j)"
  shows "up_but n (parent j) (swap_nth (parent j) j xs)"
proof -
  let ?i = "parent j" and ?ys = "swap_nth (parent j) j xs"
  have i: "?i < j" using j by auto
  have nth: "?ys ! k = (if k = ?i then xs ! j else if k = j then xs ! ?i else xs ! k)" for k
    using i j len by (intro nth_swap_nth) auto
  have ok: "\<not> lt (xs ! c) (xs ! parent c)" if "0 < c" "c < n" "c \<noteq> j" for c
    using inv that by (auto simp: up_but_def)
  have gr: "\<not> lt (xs ! c) (xs ! ?i)" if "0 < c" "c < n" "parent c = j" for c
    using inv that j by (auto simp: up_but_def)
  have sib: "\<not> lt (xs ! c) (xs ! ?i)" if "0 < c" "c < n" "parent c = ?i" "c \<noteq> j" for c
    using ok [of c] that by simp
  have 1: "\<not> lt (?ys ! c) (?ys ! parent c)" if c: "0 < c" "c < n" "c \<noteq> ?i" for c
  proof (cases "c = j")
    case True
    then show ?thesis using i lt_asym [OF less] nth [of c] nth [of ?i] by auto
  next
    case False
    have pc: "parent c \<noteq> c" using c by auto
    consider "parent c = j" | "parent c = ?i" | "parent c \<noteq> j" "parent c \<noteq> ?i" by blast
    then show ?thesis
    proof cases
      case 1
      then show ?thesis using c False gr [of c] i nth [of c] nth [of j] by simp
    next
      case 2
      then have "\<not> lt (xs ! c) (xs ! ?i)" using c False by (intro sib) auto
      then have "\<not> lt (xs ! c) (xs ! j)" using less lt_trans by blast
      then show ?thesis using 2 c False nth [of c] nth [of ?i] by simp
    next
      case 3
      then show ?thesis using c False ok [of c] nth [of c] nth [of "parent c"] by simp
    qed
  qed
  have 2: "\<not> lt (?ys ! c) (?ys ! parent ?i)" if c: "0 < c" "c < n" "parent c = ?i" "0 < ?i" for c
  proof -
    have p: "parent ?i < ?i" using c(4) by auto
    have pi: "\<not> lt (xs ! ?i) (xs ! parent ?i)" using ok [of ?i] c(4) i j by auto
    show ?thesis
    proof (cases "c = j")
      case True
      then show ?thesis using pi p i nth [of j] nth [of "parent ?i"] by simp
    next
      case False
      then have "\<not> lt (xs ! c) (xs ! parent ?i)" using sib [of c] c pi ge_trans by blast
      moreover have "c \<noteq> ?i" using c by auto
      ultimately show ?thesis using False p i nth [of c] nth [of "parent ?i"] by simp
    qed
  qed
  show ?thesis unfolding up_but_def using 1 2 by blast
qed

lemma up_correct:
  "j < n \<Longrightarrow> n = length (elems h) \<or> n \<le> length (elems h) \<Longrightarrow> up_but n j (elems h) \<Longrightarrow>
   min_heap n (elems (up H h j)) \<and> perm_in 0 n (elems h) (elems (up H h j))"
proof (induction j arbitrary: h rule: less_induct)
  case (less j)
  let ?i = "parent j"
  have len: "n \<le> length (elems h)" using less.prems(2) by auto
  show ?case
  proof (cases "0 < j \<and> lt (elems h ! j) (elems h ! ?i)")
    case True
    then have i: "?i < j" by auto
    have l: "Less H h j ?i" using True less.prems(1) len by (simp add: Less_H)
    let ?h = "Swap H h ?i j"
    have s: "elems ?h = swap_nth ?i j (elems h)" using i less.prems(1) len by (intro Swap_H) auto
    have p: "perm_in 0 n (elems h) (elems ?h)"
      unfolding s using i less.prems(1) len by (intro perm_in_swap_nth) auto
    have "up_but n ?i (elems ?h)"
      unfolding s using True less.prems len by (intro up_but_swap) auto
    then have "min_heap n (elems (up H ?h ?i)) \<and> perm_in 0 n (elems ?h) (elems (up H ?h ?i))"
      using i less.prems(1) len s by (intro less.IH) auto
    moreover have "up H h j = up H ?h ?i" using l i by (subst up.simps) (simp add: Let_def)
    ultimately show ?thesis using p by (auto intro: perm_in_trans)
  next
    case False
    have "up H h j = h"
    proof (cases "j = 0")
      case j: False
      then have "?i < j" by auto
      then have "\<not> Less H h j ?i" using False j less.prems(1) len by (simp add: Less_H)
      then show ?thesis by (subst up.simps) (simp add: Let_def)
    qed (subst up.simps, simp)
    moreover have "min_heap n (elems h)"
      using less.prems(3) False by (auto simp: min_heap_iff up_but_def)
    ultimately show ?thesis by simp
  qed
qed

text \<open>
  \<open>down\<close> followed by \<open>up\<close> repairs a heap in which one element has an arbitrary new value: the
  element moves in one direction at most.
\<close>

definition heap_except :: "nat \<Rightarrow> nat \<Rightarrow> 'a list \<Rightarrow> bool" where
  "heap_except n i xs \<longleftrightarrow>
     (\<forall>c. 0 < c \<and> c < n \<and> c \<noteq> i \<and> parent c \<noteq> i \<longrightarrow> \<not> lt (xs ! c) (xs ! parent c)) \<and>
     (\<forall>c. 0 < c \<and> c < n \<and> parent c = i \<and> 0 < i \<longrightarrow> \<not> lt (xs ! c) (xs ! parent i))"

lemma heap_except_update:
  assumes "min_heap n xs" "i < n" "n \<le> length xs"
  shows "heap_except n i (xs[i := x])"
proof -
  have ok: "\<not> lt (xs ! c) (xs ! parent c)" if "0 < c" "c < n" for c
    using assms(1) that by (auto simp: min_heap_iff)
  have "\<not> lt (xs ! c) (xs ! parent i)" if "0 < c" "c < n" "parent c = i" "0 < i" for c
    using ok [of c] ok [of i] that assms(2) ge_trans by blast
  moreover have "parent i \<noteq> i" if "0 < i" using that by auto
  ultimately show ?thesis
    using ok assms(2,3) unfolding heap_except_def by (auto simp: nth_list_update)
qed

lemma heap_except_cong:
  assumes "heap_except n i xs" "\<And>k. k < n \<Longrightarrow> ys ! k = xs ! k" "i < n"
  shows "heap_except n i ys"
proof -
  have p: "ys ! parent c = xs ! parent c" if "c < n" for c
    using that by (intro assms(2)) auto
  show ?thesis
    using assms(1) unfolding heap_except_def by (metis assms(2,3) p)
qed

lemma down_up_correct:
  assumes inv: "heap_except n i (elems h)" and n: "n \<le> length (elems h)" "n \<le> 2 ^ 63 - 1" "i < n"
  shows "min_heap n (elems (up H (down H h i n) i)) \<and> perm_in 0 n (elems h) (elems (up H (down H h i n) i))"
proof -
  have i: "i < 2 ^ 63" using n by simp
  let ?h = "down H h i n"
  have p: "perm_in 0 n (elems h) (elems ?h)" using down_perm [OF n(1,2) i] by (rule perm_in_mono) auto
  have "up_but n i (elems ?h)"
  proof (cases "2 * i + 1 < n \<and> lt (elems h ! lesser_child h i n) (elems h ! i)")
    case True
    let ?c = "lesser_child h i n"
    have b: "i < ?c" "?c < n" using lesser_child_bounds True by auto
    then have l: "Less H h ?c i" using True n by (simp add: Less_H)
    have s: "elems (Swap H h i ?c) = swap_nth i ?c (elems h)" using b n(1) by (intro Swap_H) auto
    have "heap_but gt 0 0 n ?c (elems (Swap H h i ?c))"
      using inv n True by (intro heap_but_step) (auto simp: heap_except_def)
    then have "heap_in gt 0 0 n (elems (down H (Swap H h i ?c) ?c n))"
      using b n s by (intro down_heap) auto
    moreover have "?h = down H (Swap H h i ?c) ?c n"
      using True l by (subst down_unfold [OF n(2) i]) simp
    ultimately have "min_heap n (elems ?h)" by (simp add: min_heap_def)
    then have ok: "\<not> lt (elems ?h ! c) (elems ?h ! parent c)" if "0 < c" "c < n" for c
      using that by (auto simp: min_heap_iff)
    have "\<not> lt (elems ?h ! c) (elems ?h ! parent i)" if "0 < c" "c < n" "parent c = i" "0 < i" for c
      using ok [of c] ok [of i] that n(3) ge_trans by blast
    then show ?thesis using ok by (auto simp: up_but_def)
  next
    case False
    have e: "?h = h"
    proof (cases "2 * i + 1 < n")
      case r: True
      then have "\<not> Less H h (lesser_child h i n) i"
        using False lesser_child_bounds [OF r, of h] n by (simp add: Less_H)
      then show ?thesis by (subst down_unfold [OF n(2) i]) simp
    next
      case False
      then show ?thesis by (subst down_unfold [OF n(2) i]) simp
    qed
    have "\<not> lt (elems h ! c) (elems h ! i)" if "0 < c" "c < n" "parent c = i" for c
    proof -
      have r: "2 * i + 1 < n" using that by auto
      then show ?thesis
        using lesser_child_min [OF r n(1) that] False ge_trans by blast
    qed
    then show ?thesis unfolding e up_but_def using inv unfolding heap_except_def by blast
  qed
  then have "min_heap n (elems (up H ?h i)) \<and> perm_in 0 n (elems ?h) (elems (up H ?h i))"
    using n perm_in_length [OF p] by (intro up_correct) auto
  then show ?thesis using p by (auto intro: perm_in_trans)
qed

section \<open>The exported operations\<close>

lemma Init_loop_correct:
  "n \<le> length (elems h) \<Longrightarrow> n \<le> 2 ^ 63 - 1 \<Longrightarrow> i \<le> n \<Longrightarrow> heap_in gt 0 i n (elems h) \<Longrightarrow>
   heap_in gt 0 0 n (elems (Init_loop H h i n)) \<and> perm_in 0 n (elems h) (elems (Init_loop H h i n))"
proof (induction i arbitrary: h)
  case (Suc i)
  have i: "i < 2 ^ 63" using Suc.prems by simp
  have p: "perm_in 0 n (elems h) (elems (down H h i n))"
    using down_perm [OF Suc.prems(1,2) i] by (rule perm_in_mono) auto
  have "heap_but gt 0 i n i (elems h)"
    using Suc.prems(4) unfolding heap_but_def heap_in_def by auto
  then have "heap_in gt 0 i n (elems (down H h i n))" by (rule down_heap [OF Suc.prems(1,2) i])
  then have "heap_in gt 0 0 n (elems (Init_loop H (down H h i n) i n)) \<and>
      perm_in 0 n (elems (down H h i n)) (elems (Init_loop H (down H h i n) i n))"
    using Suc.prems perm_in_length [OF p] by (intro Suc.IH) auto
  then show ?case using p by (auto intro: perm_in_trans)
qed simp

lemma min_heap_Init:
  assumes "length (elems h) \<le> 2 ^ 63 - 1"
  shows "min_heap (length (elems h)) (elems (Init H h)) \<and> perm_in 0 (length (elems h)) (elems h) (elems (Init H h))"
proof -
  have "heap_in gt 0 (length (elems h) div 2) (length (elems h)) (elems h)" by (auto simp: heap_in_def)
  then show ?thesis using assms Init_loop_correct [of "length (elems h)" h "length (elems h) div 2"]
    by (simp add: Init_def Len_H Let_def min_heap_def)
qed

lemma min_heap_Push:
  assumes "min_heap (length (elems h)) (elems h)"
  shows "min_heap (Suc (length (elems h))) (elems (Push H h x)) \<and>
    perm_in 0 (Suc (length (elems h))) (elems h @ [x]) (elems (Push H h x))"
proof -
  let ?n = "length (elems h)"
  have no_child: "parent c \<noteq> ?n" if "0 < c" "c < Suc ?n" for c using that by auto
  have "up_but (Suc ?n) ?n (elems h @ [x])"
  proof -
    have "\<not> lt ((elems h @ [x]) ! c) ((elems h @ [x]) ! parent c)" if "0 < c" "c < ?n" for c
    proof -
      have "parent c < ?n" using that by auto
      then show ?thesis using assms that by (auto simp: min_heap_iff nth_append)
    qed
    then show ?thesis using no_child by (auto simp: up_but_def)
  qed
  then show ?thesis
    using up_correct [of ?n "Suc ?n" "PushM H h x"] by (simp add: Push_def Let_def Len_H Push_law)
qed

text \<open>Taking off the last element of a collection whose first \<open>n\<close> elements are a heap.\<close>

lemma PopM_split:
  assumes "length (elems h) = Suc n" "min_heap n (elems h)"
  shows "fst (PopM H h) = elems h ! n" "elems (snd (PopM H h)) = take n (elems h)"
    "min_heap n (elems (snd (PopM H h)))"
    "mset (elems h) = add_mset (fst (PopM H h)) (mset (elems (snd (PopM H h))))"
proof -
  have ne: "elems h \<noteq> []" using assms(1) by auto
  show f: "fst (PopM H h) = elems h ! n" using Pop_law [OF ne] assms(1) ne by (simp add: last_conv_nth)
  show t: "elems (snd (PopM H h)) = take n (elems h)" using Pop_law [OF ne] assms(1) by (simp add: butlast_conv_take)
  show "min_heap n (elems (snd (PopM H h)))"
    using assms(2) unfolding t min_heap_iff by (metis Suc_pred div_le_dividend le_imp_less_Suc less_imp_diff_less less_trans linorder_not_le nth_take order_le_less_trans)
  have "elems h = butlast (elems h) @ [last (elems h)]" using ne by simp
  then have "mset (elems h) = mset (butlast (elems h) @ [last (elems h)])" by (rule arg_cong)
  then show "mset (elems h) = add_mset (fst (PopM H h)) (mset (elems (snd (PopM H h))))"
    using Pop_law [OF ne] by simp
qed

lemma min_heap_Pop:
  assumes h: "min_heap (Suc n) (elems h)" and len: "length (elems h) = Suc n" "Suc n \<le> 2 ^ 63 - 1"
  obtains h' where "Pop H h = Some (elems h ! 0, h')" "min_heap n (elems h')" "length (elems h') = n"
    "mset (elems h) = add_mset (elems h ! 0) (mset (elems h'))"
proof -
  let ?h1 = "Swap H h 0 n"
  let ?h2 = "down H ?h1 0 n"
  have s: "elems ?h1 = swap_nth 0 n (elems h)" using len by (intro Swap_H) auto
  have nth: "elems ?h1 ! k = (if k = 0 then elems h ! n else if k = n then elems h ! 0 else elems h ! k)" for k
    unfolding s using len by (intro nth_swap_nth) auto
  have "heap_but gt 0 0 n 0 (elems ?h1)"
    using h len by (auto simp: heap_but_def gt_def min_heap_iff nth)
  then have hp: "min_heap n (elems ?h2)"
    unfolding min_heap_def using len s by (intro down_heap) auto
  have p: "perm_in 0 n (elems ?h1) (elems ?h2)" using len s by (intro down_perm) auto
  have l2: "length (elems ?h2) = Suc n" using perm_in_length [OF p] s len by simp
  note P = PopM_split [OF l2 hp]
  have root: "elems ?h2 ! n = elems h ! 0" using perm_in_outside [OF p, of n] nth [of n] by simp
  show thesis
  proof (rule that [of "snd (PopM H ?h2)"])
    show "Pop H h = Some (elems h ! 0, snd (PopM H ?h2))"
      using P(1) root len by (simp add: Pop_def Len_H Let_def) (metis prod.collapse)
    show "min_heap n (elems (snd (PopM H ?h2)))" by (rule P(3))
    show "length (elems (snd (PopM H ?h2))) = n" using P(2) l2 by simp
    show "mset (elems h) = add_mset (elems h ! 0) (mset (elems (snd (PopM H ?h2))))"
      using P(1,4) root perm_in_mset [OF p] s len by simp
  qed
qed

lemma min_heap_Fix:
  assumes "min_heap n xs" "elems h = xs[i := x]" "n = length xs" "i < n" "n \<le> 2 ^ 63 - 1"
  shows "min_heap n (elems (Fix H h i)) \<and> perm_in 0 n (elems h) (elems (Fix H h i))"
  using down_up_correct [of n i h] heap_except_update [of n xs i x] assms by (simp add: Fix_def Len_H)

lemma min_heap_Remove:
  assumes h: "min_heap (Suc n) (elems h)" and len: "length (elems h) = Suc n" "Suc n \<le> 2 ^ 63 - 1"
    and i: "i \<le> n"
  obtains h' where "Remove H h i = Some (elems h ! i, h')" "min_heap n (elems h')" "length (elems h') = n"
    "mset (elems h) = add_mset (elems h ! i) (mset (elems h'))"
proof (cases "i = n")
  case True
  have "min_heap n (elems h)" using h by (auto simp: min_heap_iff)
  note P = PopM_split [OF len(1) this]
  show thesis
  proof (rule that [of "snd (PopM H h)"])
    show "Remove H h i = Some (elems h ! i, snd (PopM H h))"
      using True P(1) len by (simp add: Remove_def Len_H Let_def) (metis prod.collapse)
  qed (use P True len in auto)
next
  case False
  let ?h1 = "Swap H h i n"
  let ?h3 = "up H (down H ?h1 i n) i"
  have s: "elems ?h1 = swap_nth i n (elems h)" using len i by (intro Swap_H) auto
  have "min_heap n (elems h)" using h by (auto simp: min_heap_iff)
  then have ex: "heap_except n i ((elems h)[i := elems h ! n])"
    using i False len by (intro heap_except_update) auto
  have nth: "elems ?h1 ! k = (elems h)[i := elems h ! n] ! k" if "k < n" for k
    using len i False that unfolding s by (subst nth_swap_nth) (auto simp: nth_list_update)
  have "heap_except n i (elems ?h1)"
    using ex by (rule heap_except_cong) (use nth i False in auto)
  then have c: "min_heap n (elems ?h3)" and p: "perm_in 0 n (elems ?h1) (elems ?h3)"
    using down_up_correct [of n i ?h1] s len i False by auto
  have l3: "length (elems ?h3) = Suc n" using perm_in_length [OF p] s len by simp
  note P = PopM_split [OF l3 c]
  have "elems ?h1 ! n = elems h ! i" unfolding s using len i by (subst nth_swap_nth) auto
  then have r: "elems ?h3 ! n = elems h ! i" using perm_in_outside [OF p, of n] by simp
  show thesis
  proof (rule that [of "snd (PopM H ?h3)"])
    show "Remove H h i = Some (elems h ! i, snd (PopM H ?h3))"
      using False i P(1) r len by (simp add: Remove_def Len_H Let_def) (metis prod.collapse)
    show "mset (elems h) = add_mset (elems h ! i) (mset (elems (snd (PopM H ?h3))))"
      using P(1,4) r perm_in_mset [OF p] s len i by simp
  qed (use P l3 in auto)
qed

end

end
