(* ===== verification/PriorityQueue.thy ===== *)
theory PriorityQueue
  imports HeapPkg
begin

text \<open>
  What package container/heap promises its clients: a priority queue. The locale
  \<open>priority_queue\<close> states it over a multiset of elements, without reference to how the heap is
  laid out; the heap of any \<open>heap_data\<close> collection provides it (a sublocale), and the loop of the
  package's example, which pops until the collection is empty, is proved from it alone. The
  example's \<open>IntHeap\<close> (\<open>example_intheap_test.go\<close>) is the concrete collection.
\<close>

text \<open>
  The loop \<open>for h.Len() > 0 { ... heap.Pop(h) ... }\<close>: the elements in the order they come out, and the
  collection when the loop has ended. It need not end in general: None is a loop that does not, or a panic.
\<close>

partial_function (option) pop_all :: "('d \<Rightarrow> bool) \<Rightarrow> ('d \<Rightarrow> ('a \<times> 'd) option) \<Rightarrow> 'd \<Rightarrow> ('a list \<times> 'd) option" where
  "pop_all guard pop h =
     (if guard h then Option.bind (pop h) (\<lambda>(x, h'). Option.bind (pop_all guard pop h') (\<lambda>(xs, h''). Some (x # xs, h'')))
      else Some ([], h))"

definition drain :: "('d, 'a) heap_Interface \<Rightarrow> 'd \<Rightarrow> ('a list \<times> 'd) option" where
  "drain H h = pop_all (\<lambda>h. Len H h > 0) (Pop H) h"

definition IntHeap :: "(64 word list, 64 word) heap_Interface" where
  "IntHeap =
     \<lparr>Len = length,
      Less = (\<lambda>h i j. sint (h ! i) < sint (h ! j)),
      Swap = (\<lambda>h i j. swap_nth i j h),
      PushM = (\<lambda>h x. h @ [x]),
      PopM = (\<lambda>old. let n = length old; x = old ! (n - 1) in (x, take (n - 1) old))\<rparr>"

text \<open>The heap invariant of the package comment: \<open>!h.Less(j, i)\<close> for every node j and its parent i.\<close>

definition is_heap :: "('a \<Rightarrow> 'a \<Rightarrow> bool) \<Rightarrow> 'a list \<Rightarrow> bool" where
  "is_heap lt xs \<longleftrightarrow> list_all (\<lambda>j. \<not> lt (xs ! j) (xs ! ((j - 1) div 2))) [1..<length xs]"

section \<open>The specification\<close>

locale priority_queue =
  fixes valid :: "'d \<Rightarrow> bool"
    and contents :: "'d \<Rightarrow> 'a multiset"
    and lt :: "'a \<Rightarrow> 'a \<Rightarrow> bool"
    and push :: "'d \<Rightarrow> 'a \<Rightarrow> 'd"
    and pop :: "'d \<Rightarrow> ('a \<times> 'd) option"
    and guard :: "'d \<Rightarrow> bool"
  assumes push_law: "valid h \<Longrightarrow> size (contents h) < 2 ^ 63 - 1 \<Longrightarrow>
      valid (push h x) \<and> contents (push h x) = add_mset x (contents h)"
    and pop_law: "valid h \<Longrightarrow> contents h \<noteq> {#} \<Longrightarrow>
      \<exists>x h'. pop h = Some (x, h') \<and> valid h' \<and> contents h = add_mset x (contents h') \<and>
        (\<forall>y \<in># contents h. \<not> lt y x)"
    and pop_empty: "valid h \<Longrightarrow> contents h = {#} \<Longrightarrow> pop h = None"
    and loop_iff: "valid h \<Longrightarrow> guard h \<longleftrightarrow> contents h \<noteq> {#}"
begin

lemma pop_all_sorted:
  "valid h \<Longrightarrow> \<exists>xs h'. pop_all guard pop h = Some (xs, h') \<and> valid h' \<and> contents h' = {#} \<and> \<not> guard h' \<and>
     mset xs = contents h \<and> sorted_wrt (\<lambda>x y. \<not> lt y x) xs"
proof (induction "size (contents h)" arbitrary: h rule: less_induct)
  case less
  show ?case
  proof (cases "contents h = {#}")
    case True
    then show ?thesis using less.prems loop_iff by (subst pop_all.simps) auto
  next
    case False
    then obtain x h' where p: "pop h = Some (x, h')" "valid h'" "contents h = add_mset x (contents h')"
      and least: "\<forall>y \<in># contents h. \<not> lt y x"
      using pop_law [OF less.prems] by blast
    obtain xs h'' where IH: "pop_all guard pop h' = Some (xs, h'')" "valid h''" "contents h'' = {#}" "\<not> guard h''"
      "mset xs = contents h'" "sorted_wrt (\<lambda>x y. \<not> lt y x) xs"
      using less.hyps [of h'] p(2,3) by auto
    have "\<forall>y \<in> set xs. \<not> lt y x" using least p(3) arg_cong [OF IH(5), of set_mset] by simp
    moreover have "pop_all guard pop h = Some (x # xs, h'')"
      using False less.prems loop_iff p(1) IH(1) by (subst pop_all.simps) simp
    ultimately show ?thesis using IH p(3) by simp
  qed
qed

end

context heap_data begin

lemma is_heap_iff: "is_heap lt xs \<longleftrightarrow> min_heap (length xs) xs"
  by (auto simp: is_heap_def min_heap_iff list_all_iff)

lemma Init_heap:
  assumes "length (elems h) \<le> 2 ^ 63 - 1"
  shows "is_heap lt (elems (Init H h)) \<and> mset (elems (Init H h)) = mset (elems h)"
  using min_heap_Init [OF assms] perm_in_length [of 0 "length (elems h)" "elems h" "elems (Init H h)"]
    perm_in_mset [of 0 "length (elems h)" "elems h" "elems (Init H h)"]
  by (auto simp: is_heap_iff)

lemma Push_heap:
  assumes "is_heap lt (elems h)"
  shows "is_heap lt (elems (Push H h x)) \<and> mset (elems (Push H h x)) = add_mset x (mset (elems h))"
proof -
  let ?n = "length (elems h)"
  have h: "min_heap (Suc ?n) (elems (Push H h x))" and p: "perm_in 0 (Suc ?n) (elems h @ [x]) (elems (Push H h x))"
    using min_heap_Push [of h x] assms by (auto simp: is_heap_iff)
  show ?thesis using h perm_in_length [OF p] perm_in_mset [OF p] by (simp add: is_heap_iff)
qed

lemma Pop_heap:
  assumes "is_heap lt (elems h)" "elems h \<noteq> []" "length (elems h) \<le> 2 ^ 63 - 1"
  shows "\<exists>x h'. Pop H h = Some (x, h') \<and> is_heap lt (elems h') \<and> length (elems h) = Suc (length (elems h')) \<and>
    mset (elems h) = add_mset x (mset (elems h')) \<and> (\<forall>y \<in> set (elems h). \<not> lt y x)"
proof -
  obtain n where n: "length (elems h) = Suc n" using assms(2) by (cases "elems h") auto
  have h: "min_heap (Suc n) (elems h)" using assms(1) n by (simp add: is_heap_iff)
  have len: "Suc n \<le> 2 ^ 63 - 1" using assms(3) n by linarith
  obtain h' where h': "Pop H h = Some (elems h ! 0, h')" "min_heap n (elems h')" "length (elems h') = n"
      "mset (elems h) = add_mset (elems h ! 0) (mset (elems h'))"
    using min_heap_Pop [OF h n len] .
  have "\<forall>y \<in> set (elems h). \<not> lt y (elems h ! 0)"
    using min_heap_least [OF h] n by (metis in_set_conv_nth)
  then show ?thesis using h' n by (auto simp: is_heap_iff)
qed

lemma Remove_heap:
  assumes "is_heap lt (elems h)" "i < length (elems h)" "length (elems h) \<le> 2 ^ 63 - 1"
  shows "\<exists>h'. Remove H h i = Some (elems h ! i, h') \<and> is_heap lt (elems h') \<and>
    length (elems h) = Suc (length (elems h')) \<and> mset (elems h) = add_mset (elems h ! i) (mset (elems h'))"
proof -
  obtain n where n: "length (elems h) = Suc n" using assms(2) by (cases "elems h") auto
  have h: "min_heap (Suc n) (elems h)" using assms(1) n by (simp add: is_heap_iff)
  have len: "Suc n \<le> 2 ^ 63 - 1" and i: "i \<le> n" using assms(2,3) n by linarith+
  obtain h' where "Remove H h i = Some (elems h ! i, h')" "min_heap n (elems h')" "length (elems h') = n"
      "mset (elems h) = add_mset (elems h ! i) (mset (elems h'))"
    using min_heap_Remove [OF h n len i] .
  then show ?thesis using n by (auto simp: is_heap_iff)
qed

lemma Fix_heap:
  assumes "is_heap lt xs" "elems h = xs[i := x]" "i < length xs" "length xs \<le> 2 ^ 63 - 1"
  shows "is_heap lt (elems (Fix H h i)) \<and> mset (elems (Fix H h i)) = mset (elems h)"
proof -
  have f: "min_heap (length xs) (elems (Fix H h i))" and p: "perm_in 0 (length xs) (elems h) (elems (Fix H h i))"
    using min_heap_Fix [of "length xs" xs h i x] assms by (auto simp: is_heap_iff)
  show ?thesis using f perm_in_length [OF p] perm_in_mset [OF p] assms(2) by (simp add: is_heap_iff)
qed

end

sublocale heap_data \<subseteq> queue: priority_queue
  "\<lambda>h. is_heap lt (elems h) \<and> length (elems h) \<le> 2 ^ 63 - 1" "\<lambda>h. mset (elems h)" lt "Push H" "Pop H" "\<lambda>h. Len H h > 0"
proof (unfold_locales, goal_cases)
  case (1 h x)
  have "length (elems (Push H h x)) = Suc (length (elems h))"
    using Push_heap [of h x] 1 by (metis size_add_mset size_mset)
  then show ?case using Push_heap [of h x] 1 by simp
next
  case (2 h)
  then have "elems h \<noteq> []" by auto
  then obtain x h' where p: "Pop H h = Some (x, h')" "is_heap lt (elems h')" "length (elems h) = Suc (length (elems h'))"
      "mset (elems h) = add_mset x (mset (elems h'))" "\<forall>y \<in> set (elems h). \<not> lt y x"
    using Pop_heap [of h] 2 by blast
  have "length (elems h') \<le> 2 ^ 63 - 1" using 2 p(3) by linarith
  with p show ?case by (metis set_mset_mset)
next
  case (3 h)
  then show ?case by (simp add: Pop_def Len_H)
next
  case (4 h)
  then show ?case by (simp add: Len_H)
qed

context heap_data begin

lemma drain_sorts:
  assumes "is_heap lt (elems h)" "length (elems h) \<le> 2 ^ 63 - 1"
  shows "\<exists>xs h'. drain H h = Some (xs, h') \<and> elems h' = [] \<and> Len H h' = 0 \<and> mset xs = mset (elems h) \<and>
    sorted_wrt (\<lambda>x y. \<not> lt y x) xs"
  using queue.pop_all_sorted [of h] assms by (auto simp: drain_def Len_H)

end

interpretation int_heap: heap_data IntHeap "\<lambda>h. h" "\<lambda>x y. sint x < sint y"
proof (intro heap_data.intro heap_data_axioms.intro)
  have "Interface.truncate IntHeap = IntSlice"
    by (simp add: IntHeap_def IntSlice_def slice_interface_def Interface.defs)
  then show "sort_order (Interface.truncate IntHeap) (\<lambda>h. h) (\<lambda>x y. sint x < sint y)"
    using int_slice.sort_order_axioms by simp
qed (simp_all add: IntHeap_def Let_def last_conv_nth butlast_conv_take)

section \<open>Results\<close>

text \<open>
  \<open>Init\<close> establishes the heap invariant (no node is less than its parent) from any order of the
  elements, and \<open>Push\<close> keeps it; \<open>Init\<close> permutes the elements and \<open>Push\<close> adds exactly the new one.
\<close>

theorem heap_Init_Push:
  assumes "heap_data H elems lt" "length (elems h) \<le> 2 ^ 63 - 1"
  shows "is_heap lt (elems (Init H h)) \<and> mset (elems (Init H h)) = mset (elems h) \<and>
    is_heap lt (elems (Push H (Init H h) x)) \<and>
    mset (elems (Push H (Init H h) x)) = add_mset x (mset (elems h))"
  using heap_data.Init_heap [OF assms] heap_data.Push_heap [OF assms(1), of "Init H h" x] by simp

text \<open>
  C5. On a non-empty heap \<open>Pop\<close> returns an element no other is less than and \<open>Remove\<close> the element
  at the index given; what is left is a heap of the other elements. The computation of the child
  indices never goes wrong by overflow on a collection whose length is an int.
\<close>

theorem heap_Pop_Remove:
  assumes "heap_data H elems lt" "is_heap lt (elems h)" "i < length (elems h)" "length (elems h) \<le> 2 ^ 63 - 1"
  shows "(\<exists>x h'. Pop H h = Some (x, h') \<and> is_heap lt (elems h') \<and>
      mset (elems h) = add_mset x (mset (elems h')) \<and> (\<forall>y \<in> set (elems h). \<not> lt y x)) \<and>
    (\<exists>h'. Remove H h i = Some (elems h ! i, h') \<and> is_heap lt (elems h') \<and>
      mset (elems h) = add_mset (elems h ! i) (mset (elems h')))"
proof -
  have "elems h \<noteq> []" using assms(3) by auto
  then show ?thesis
    using heap_data.Pop_heap [OF assms(1,2) _ assms(4)] heap_data.Remove_heap [OF assms] by blast
qed

theorem heap_Pop_Remove_witness:
  "heap_data IntHeap (\<lambda>h. h) (\<lambda>x y. sint x < sint y) \<and>
   is_heap (\<lambda>x y. sint x < sint y) [1, 2, 5, 4 :: 64 word] \<and> (2::nat) < length [1, 2, 5, 4 :: 64 word] \<and>
   length [1, 2, 5, 4 :: 64 word] \<le> 2 ^ 63 - 1 \<and>
   (\<exists>h'. Remove IntHeap [1, 2, 5, 4] 2 = Some (5, h') \<and> is_heap (\<lambda>x y. sint x < sint y) h')"
proof -
  have h: "is_heap (\<lambda>x y. sint x < sint y) [1, 2, 5, 4 :: 64 word]"
    by (simp add: is_heap_def upt_rec numeral_eq_Suc) 
  show ?thesis
    using int_heap.heap_data_axioms h heap_Pop_Remove [OF int_heap.heap_data_axioms, of "[1, 2, 5, 4]" 2] by auto
qed

text \<open>
  After the element at index \<open>i\<close> of a heap is replaced by any value, \<open>Fix\<close> at \<open>i\<close> makes a heap
  of the elements the collection then has.
\<close>

theorem heap_Fix:
  assumes "heap_data H elems lt" "is_heap lt xs" "elems h = xs[i := x]" "i < length xs" "length xs \<le> 2 ^ 63 - 1"
  shows "is_heap lt (elems (Fix H h i)) \<and> mset (elems (Fix H h i)) = mset (elems h)"
  by (rule heap_data.Fix_heap [OF assms])

text \<open>
  C6. The client loop of the package: after \<open>Init\<close>, popping while the length is positive ends, with the
  collection empty, and has yielded all the elements in order.
\<close>

theorem heap_drain_sorts:
  assumes "heap_data H elems lt" "length (elems h) \<le> 2 ^ 63 - 1"
  shows "\<exists>xs h'. drain H (Init H h) = Some (xs, h') \<and> elems h' = [] \<and> Len H h' = 0 \<and> mset xs = mset (elems h) \<and>
    sorted_wrt (\<lambda>x y. \<not> lt y x) xs"
proof -
  note i = heap_data.Init_heap [OF assms]
  then have "length (elems (Init H h)) = length (elems h)" by (metis size_mset)
  then show ?thesis using heap_data.drain_sorts [OF assms(1), of "Init H h"] i assms(2) by auto
qed

theorem heap_drain_sorts_witness:
  "heap_data IntHeap (\<lambda>h. h) (\<lambda>x y. sint x < sint y) \<and> length [2, 1, 5, 3 :: 64 word] \<le> 2 ^ 63 - 1 \<and>
   (\<exists>xs h'. drain IntHeap (Init IntHeap [2, 1, 5, 3]) = Some (xs, h') \<and> h' = [] \<and> mset xs = {#1, 2, 3, 5#})"
  using int_heap.heap_data_axioms heap_drain_sorts [OF int_heap.heap_data_axioms, of "[2, 1, 5, 3]"]
  by (auto simp: add_mset_commute)

end
