(* ===== verification/WordBits.thy ===== *)
theory WordBits
  imports Prelude
begin

text \<open>
  Reading bit-field code as arithmetic: masks are remainders, right shifts are quotients, and an
  OR of fields that do not overlap is a sum. These lemmas turn the packing and
  unpacking of fields of the encodings into linear arithmetic on the natural numbers.
\<close>

unbundle bit_operations_syntax

lemma unat_and_mask: "unat (w AND mask n) = unat w mod 2 ^ n" for w :: "'a::len word"
  by (simp only: take_bit_eq_mask [symmetric] unsigned_take_bit_eq) (simp only: take_bit_eq_mod)

lemma unat_drop_bit: "unat (drop_bit n w) = unat w div 2 ^ n" for w :: "'a::len word"
proof -
  have "unat (drop_bit n w) = drop_bit n (take_bit LENGTH('a) (unat w))"
    by (simp only: unsigned_drop_bit_eq)
  then show ?thesis by (simp only: take_bit_of_nat unsigned_take_bit_eq [symmetric] take_bit_word_eq_self drop_bit_eq_div order_refl)
qed

lemma and_zero_of_fields:
  assumes "take_bit k a = 0" "unat b < 2 ^ k"
  shows "a AND b = (0 :: 'a::len word)"
proof (rule bit_word_eqI)
  fix n assume "n < LENGTH('a)"
  have "take_bit k b = b" using assms(2)
    by (metis take_bit_nat_eq_self unsigned_take_bit_eq unsigned_word_eqI)
  then have "bit b n \<Longrightarrow> n < k" by (metis bit_take_bit_iff)
  moreover have "n < k \<Longrightarrow> \<not> bit a n" using assms(1) by (metis bit_0_eq bit_take_bit_iff bot_apply bot_bool_def)
  ultimately show "bit (a AND b) n = bit (0 :: 'a word) n" by (auto simp: bit_and_iff)
qed

lemma or_eq_plus_fields:
  "take_bit k a = 0 \<Longrightarrow> unat b < 2 ^ k \<Longrightarrow> a OR b = a + (b :: 'a::len word)"
  using and_zero_of_fields [of k a b] by (simp add: disjunctive_add_eq_or)

lemma take_bit_push_bit_zero: "k \<le> m \<Longrightarrow> take_bit k (push_bit m w) = (0 :: 'a::len word)"
  by (rule bit_word_eqI) (auto simp: bit_simps)

lemma unat_push_bit:
  "unat w * 2 ^ k < 2 ^ LENGTH('a) \<Longrightarrow> unat (push_bit k w :: 'a::len word) = unat w * 2 ^ k"
  by (simp only: unsigned_push_bit_eq) (simp only: push_bit_eq_mult take_bit_nat_eq_self)

text \<open>A field shifted above another one.\<close>

lemma unat_join:
  fixes a b :: "'a::len word"
  assumes "take_bit k a = 0" "unat b < 2 ^ k" "unat a + unat b < 2 ^ LENGTH('a)"
  shows "unat (a OR b) = unat a + unat b"
  using or_eq_plus_fields [OF assms(1,2)] assms(3) by (simp add: unat_word_ariths)

lemma sint_nonneg_eq: "unat w < 2 ^ (LENGTH('a) - 1) \<Longrightarrow> sint w = int (unat w)" for w :: "'a::len word"
proof -
  assume "unat w < 2 ^ (LENGTH('a) - 1)"
  then have "int (unat w) < 2 ^ (LENGTH('a) - 1)" by (metis of_nat_less_iff of_nat_numeral of_nat_power)
  then have "uint w < 2 ^ (LENGTH('a) - 1)" by simp
  then show ?thesis by (subst sint_uint) (simp add: signed_take_bit_int_eq_self order_trans [OF _ uint_ge_0])
qed

text \<open>A statement about a byte by enumeration.\<close>

lemma byte_enum: "list_all (\<lambda>k. P (word_of_int k)) [0..255] \<Longrightarrow> P c" for c :: "8 word"
proof -
  assume "list_all (\<lambda>k. P (word_of_int k)) [0..255]"
  moreover have "uint c \<in> set [0..255]" using uint_lt2p [of c] by simp
  ultimately have "P (word_of_int (uint c))" unfolding list_all_iff by blast
  then show "P c" by simp
qed

end
