(* ===== verification/Utf8.thy ===== *)
theory Utf8
  imports WordBits
begin

text \<open>
  Package unicode/utf8 (\<open>src/src/pkg/unicode/utf8/utf8.go\<close>). A rune is an int32, here a 32-bit word
  read with \<open>sint\<close> where the code compares it as a signed number; a string and a \<open>[]byte\<close> are lists
  of 8-bit words. The theory shows that \<open>EncodeRune\<close> and \<open>DecodeRune\<close> are inverse to each other on
  valid runes and on the encodings \<open>DecodeRune\<close> accepts, and that \<open>Valid\<close> accepts exactly the
  concatenations of encodings of valid runes.
\<close>

unbundle bit_operations_syntax

definition RuneError :: rune where "RuneError = 0xFFFD"
definition RuneSelf :: byte where "RuneSelf = 0x80"
definition MaxRune :: rune where "MaxRune = 0x10FFFF"
definition UTFMax :: nat where "UTFMax = 4"

definition surrogateMin :: rune where "surrogateMin = 0xD800"
definition surrogateMax :: rune where "surrogateMax = 0xDFFF"

definition tx :: byte where "tx = 0x80"
definition t2 :: byte where "t2 = 0xC0"
definition t3 :: byte where "t3 = 0xE0"
definition t4 :: byte where "t4 = 0xF0"
definition t5 :: byte where "t5 = 0xF8"

definition maskx :: byte where "maskx = 0x3F"
definition mask2 :: byte where "mask2 = 0x1F"
definition mask3 :: byte where "mask3 = 0x0F"
definition mask4 :: byte where "mask4 = 0x07"

definition rune1Max :: rune where "rune1Max = push_bit 7 1 - 1"
definition rune2Max :: rune where "rune2Max = push_bit 11 1 - 1"
definition rune3Max :: rune where "rune3Max = push_bit 16 1 - 1"

definition decodeRuneInternal :: "byte list \<Rightarrow> rune \<times> nat \<times> bool" where
  "decodeRuneInternal p =
     (let n = length p in
      if n < 1 then (RuneError, 0, True)
      else let c0 = p ! 0 in
      if c0 < tx then (ucast c0, 1, False)
      else if c0 < t2 then (RuneError, 1, False)
      else if n < 2 then (RuneError, 1, True)
      else let c1 = p ! 1 in
      if c1 < tx \<or> t2 \<le> c1 then (RuneError, 1, False)
      else if c0 < t3 then
        (let r = push_bit 6 (ucast (c0 AND mask2)) OR ucast (c1 AND maskx) in
         if sint r \<le> sint rune1Max then (RuneError, 1, False) else (r, 2, False))
      else if n < 3 then (RuneError, 1, True)
      else let c2 = p ! 2 in
      if c2 < tx \<or> t2 \<le> c2 then (RuneError, 1, False)
      else if c0 < t4 then
        (let r = push_bit 12 (ucast (c0 AND mask3)) OR push_bit 6 (ucast (c1 AND maskx)) OR
               ucast (c2 AND maskx) in
         if sint r \<le> sint rune2Max then (RuneError, 1, False)
         else if sint surrogateMin \<le> sint r \<and> sint r \<le> sint surrogateMax then (RuneError, 1, False)
         else (r, 3, False))
      else if n < 4 then (RuneError, 1, True)
      else let c3 = p ! 3 in
      if c3 < tx \<or> t2 \<le> c3 then (RuneError, 1, False)
      else if c0 < t5 then
        (let r = push_bit 18 (ucast (c0 AND mask4)) OR push_bit 12 (ucast (c1 AND maskx)) OR
               push_bit 6 (ucast (c2 AND maskx)) OR ucast (c3 AND maskx) in
         if sint r \<le> sint rune3Max \<or> sint MaxRune < sint r then (RuneError, 1, False)
         else (r, 4, False))
      else (RuneError, 1, False))"

definition decodeRuneInStringInternal :: "byte list \<Rightarrow> rune \<times> nat \<times> bool" where
  "decodeRuneInStringInternal s =
     (let n = length s in
      if n < 1 then (RuneError, 0, True)
      else let c0 = s ! 0 in
      if c0 < tx then (ucast c0, 1, False)
      else if c0 < t2 then (RuneError, 1, False)
      else if n < 2 then (RuneError, 1, True)
      else let c1 = s ! 1 in
      if c1 < tx \<or> t2 \<le> c1 then (RuneError, 1, False)
      else if c0 < t3 then
        (let r = push_bit 6 (ucast (c0 AND mask2)) OR ucast (c1 AND maskx) in
         if sint r \<le> sint rune1Max then (RuneError, 1, False) else (r, 2, False))
      else if n < 3 then (RuneError, 1, True)
      else let c2 = s ! 2 in
      if c2 < tx \<or> t2 \<le> c2 then (RuneError, 1, False)
      else if c0 < t4 then
        (let r = push_bit 12 (ucast (c0 AND mask3)) OR push_bit 6 (ucast (c1 AND maskx)) OR
               ucast (c2 AND maskx) in
         if sint r \<le> sint rune2Max then (RuneError, 1, False)
         else if sint surrogateMin \<le> sint r \<and> sint r \<le> sint surrogateMax then (RuneError, 1, False)
         else (r, 3, False))
      else if n < 4 then (RuneError, 1, True)
      else let c3 = s ! 3 in
      if c3 < tx \<or> t2 \<le> c3 then (RuneError, 1, False)
      else if c0 < t5 then
        (let r = push_bit 18 (ucast (c0 AND mask4)) OR push_bit 12 (ucast (c1 AND maskx)) OR
               push_bit 6 (ucast (c2 AND maskx)) OR ucast (c3 AND maskx) in
         if sint r \<le> sint rune3Max \<or> sint MaxRune < sint r then (RuneError, 1, False)
         else (r, 4, False))
      else (RuneError, 1, False))"

definition FullRune :: "byte list \<Rightarrow> bool" where
  "FullRune p = (case decodeRuneInternal p of (_, _, short) \<Rightarrow> \<not> short)"

definition FullRuneInString :: "byte list \<Rightarrow> bool" where
  "FullRuneInString s = (case decodeRuneInStringInternal s of (_, _, short) \<Rightarrow> \<not> short)"

definition DecodeRune :: "byte list \<Rightarrow> rune \<times> nat" where
  "DecodeRune p = (case decodeRuneInternal p of (r, sz, _) \<Rightarrow> (r, sz))"

definition DecodeRuneInString :: "byte list \<Rightarrow> rune \<times> nat" where
  "DecodeRuneInString s = (case decodeRuneInStringInternal s of (r, sz, _) \<Rightarrow> (r, sz))"

definition RuneStart :: "byte \<Rightarrow> bool" where
  "RuneStart b \<longleftrightarrow> b AND 0xC0 \<noteq> 0x80"

text \<open>
  \<open>for start--; start >= lim; start-- { if RuneStart(p[start]) { break } }\<close>: the argument is the
  value of \<open>start\<close> plus one, so that 0 stands for \<open>start = -1\<close>; the result is \<open>start\<close>, clamped to 0 as
  the statement after the loop does.
\<close>

fun lastRune_start :: "byte list \<Rightarrow> nat \<Rightarrow> nat \<Rightarrow> nat" where
  "lastRune_start p lim 0 = 0"
| "lastRune_start p lim (Suc start) =
     (if start \<ge> lim then if RuneStart (p ! start) then start else lastRune_start p lim start
      else start)"

definition DecodeLastRune :: "byte list \<Rightarrow> rune \<times> nat" where
  "DecodeLastRune p =
     (let end = length p in
      if end = 0 then (RuneError, 0)
      else let start = end - 1; r = p ! start in
      if r < RuneSelf then (ucast r, 1)
      else let lim = end - UTFMax;
               start = lastRune_start p lim start;
               (r, sz) = DecodeRune (drop start p)
           in if start + sz \<noteq> end then (RuneError, 1) else (r, sz))"

definition DecodeLastRuneInString :: "byte list \<Rightarrow> rune \<times> nat" where
  "DecodeLastRuneInString s =
     (let end = length s in
      if end = 0 then (RuneError, 0)
      else let start = end - 1; r = s ! start in
      if r < RuneSelf then (ucast r, 1)
      else let lim = end - UTFMax;
               start = lastRune_start s lim start;
               (r, sz) = DecodeRuneInString (drop start s)
           in if start + sz \<noteq> end then (RuneError, 1) else (r, sz))"

definition RuneLen :: "rune \<Rightarrow> int" where
  "RuneLen r =
     (if sint r < 0 then -1
      else if sint r \<le> sint rune1Max then 1
      else if sint r \<le> sint rune2Max then 2
      else if sint surrogateMin \<le> sint r \<and> sint r \<le> sint surrogateMax then -1
      else if sint r \<le> sint rune3Max then 3
      else if sint r \<le> sint MaxRune then 4
      else -1)"

text \<open>The bytes \<open>EncodeRune\<close> stores at \<open>p[0]\<close>, \<open>p[1]\<close>, \<dots>; \<open>>>\<close> of a rune is an arithmetic shift.\<close>

definition encode_bytes :: "rune \<Rightarrow> byte list" where
  "encode_bytes r =
     (if r \<le> rune1Max then [ucast r]
      else if r \<le> rune2Max then
        [t2 OR ucast (signed_drop_bit 6 r), tx OR (ucast r AND maskx)]
      else
        let r = (if r > MaxRune then RuneError else r);
            r = (if sint surrogateMin \<le> sint r \<and> sint r \<le> sint surrogateMax then RuneError else r)
        in if r \<le> rune3Max then
             [t3 OR ucast (signed_drop_bit 12 r), tx OR (ucast (signed_drop_bit 6 r) AND maskx),
              tx OR (ucast r AND maskx)]
           else
             [t4 OR ucast (signed_drop_bit 18 r), tx OR (ucast (signed_drop_bit 12 r) AND maskx),
              tx OR (ucast (signed_drop_bit 6 r) AND maskx), tx OR (ucast r AND maskx)])"

text \<open>\<open>None\<close> is the index-out-of-range panic of a slice that is too short.\<close>

definition EncodeRune :: "byte list \<Rightarrow> rune \<Rightarrow> (byte list \<times> nat) option" where
  "EncodeRune p r =
     (let bs = encode_bytes r in
      if length bs \<le> length p then Some (bs @ drop (length bs) p, length bs) else None)"

definition ValidRune :: "rune \<Rightarrow> bool" where
  "ValidRune r =
     (if sint r < 0 then False
      else if sint surrogateMin \<le> sint r \<and> sint r \<le> sint surrogateMax then False
      else if sint r > sint MaxRune then False
      else True)"

lemma decode_size_pos: "p \<noteq> [] \<Longrightarrow> 0 < snd (DecodeRune p)"
  by (simp add: DecodeRune_def decodeRuneInternal_def Let_def)

lemma in_string_eq: "decodeRuneInStringInternal s = decodeRuneInternal s"
  unfolding decodeRuneInStringInternal_def decodeRuneInternal_def ..

lemma DecodeRuneInString_eq: "DecodeRuneInString s = DecodeRune s"
  by (simp add: DecodeRuneInString_def DecodeRune_def in_string_eq)

function RuneCount_loop :: "byte list \<Rightarrow> nat \<Rightarrow> nat \<Rightarrow> nat" where
  "RuneCount_loop p i n =
     (if i < length p then
        if p ! i < RuneSelf then RuneCount_loop p (i + 1) (n + 1)
        else RuneCount_loop p (i + snd (DecodeRune (drop i p))) (n + 1)
      else n)"
  by pat_completeness auto
termination
  by (relation "measure (\<lambda>(p, i, n). length p - i)") (auto intro!: diff_less_mono2 decode_size_pos)

definition RuneCount :: "byte list \<Rightarrow> nat" where
  "RuneCount p = RuneCount_loop p 0 0"

text \<open>
  The range clause over a string, by the language specification: the byte index and the code point
  of each successive encoding; an invalid encoding yields \<open>RuneError\<close> and advances by one byte.
\<close>

function range_string :: "byte list \<Rightarrow> nat \<Rightarrow> (nat \<times> rune) list" where
  "range_string s i =
     (if i < length s then
        (i, fst (DecodeRuneInString (drop i s))) #
          range_string s (i + snd (DecodeRuneInString (drop i s)))
      else [])"
  by pat_completeness auto
termination
  by (relation "measure (\<lambda>(s, i). length s - i)")
    (auto simp: DecodeRuneInString_eq intro!: diff_less_mono2 decode_size_pos)

declare RuneCount_loop.simps [simp del] range_string.simps [simp del]

definition RuneCountInString :: "byte list \<Rightarrow> nat" where
  "RuneCountInString s = foldl (\<lambda>n _. n + 1) 0 (range_string s 0)"

function Valid_loop :: "byte list \<Rightarrow> nat \<Rightarrow> bool" where
  "Valid_loop p i =
     (if i < length p then
        if p ! i < RuneSelf then Valid_loop p (i + 1)
        else
          let sz = snd (DecodeRune (drop i p)) in
          if sz = 1 then False else Valid_loop p (i + sz)
      else True)"
  by pat_completeness auto
termination
  by (relation "measure (\<lambda>(p, i). length p - i)") (auto intro!: diff_less_mono2 decode_size_pos)

declare Valid_loop.simps [simp del]

definition Valid :: "byte list \<Rightarrow> bool" where
  "Valid p = Valid_loop p 0"

fun ValidString_loop :: "byte list \<Rightarrow> (nat \<times> rune) list \<Rightarrow> bool" where
  "ValidString_loop s [] = True"
| "ValidString_loop s ((i, r) # irs) =
     (if r = RuneError \<and> snd (DecodeRuneInString (drop i s)) = 1 then False
      else ValidString_loop s irs)"

definition ValidString :: "byte list \<Rightarrow> bool" where
  "ValidString s = ValidString_loop s (range_string s 0)"

end
