(* ===== verification/Utf8Codec.thy ===== *)
theory Utf8Codec
  imports Utf8
begin

text \<open>
  Encoding and decoding of runes as arithmetic. \<open>utf8_nat\<close> is the encoding table of the UTF-8
  definition on code points; \<open>decode_nat\<close> reads a sequence of byte values. The bit-level definitions
  of package utf8 refine them (\<open>encode_bytes_nat\<close>, \<open>decode_refines\<close>), and the two are inverse.
\<close>

section \<open>The specification\<close>

definition scalar :: "nat \<Rightarrow> bool" where
  "scalar v \<longleftrightarrow> v \<le> 0x10FFFF \<and> \<not> (0xD800 \<le> v \<and> v \<le> 0xDFFF)"

definition utf8_nat :: "nat \<Rightarrow> nat list" where
  "utf8_nat v =
     (if v < 0x80 then [v]
      else if v < 0x800 then [0xC0 + v div 64, 0x80 + v mod 64]
      else if v < 0x10000 then [0xE0 + v div 4096, 0x80 + v div 64 mod 64, 0x80 + v mod 64]
      else [0xF0 + v div 262144, 0x80 + v div 4096 mod 64, 0x80 + v div 64 mod 64, 0x80 + v mod 64])"

definition cont :: "nat \<Rightarrow> bool" where
  "cont b \<longleftrightarrow> 0x80 \<le> b \<and> b < 0xC0"

text \<open>The low \<open>k\<close> bits of a byte value.\<close>

definition low :: "nat \<Rightarrow> nat \<Rightarrow> nat" where
  "low k b = b mod 2 ^ k"

definition decode_nat :: "nat list \<Rightarrow> nat \<times> nat \<times> bool" where
  "decode_nat p =
     (if length p < 1 then (0xFFFD, 0, True)
      else if p ! 0 < 0x80 then (p ! 0, 1, False)
      else if p ! 0 < 0xC0 then (0xFFFD, 1, False)
      else if length p < 2 then (0xFFFD, 1, True)
      else if \<not> cont (p ! 1) then (0xFFFD, 1, False)
      else if p ! 0 < 0xE0 then
        (let v = low 5 (p ! 0) * 64 + low 6 (p ! 1) in
         if v < 0x80 then (0xFFFD, 1, False) else (v, 2, False))
      else if length p < 3 then (0xFFFD, 1, True)
      else if \<not> cont (p ! 2) then (0xFFFD, 1, False)
      else if p ! 0 < 0xF0 then
        (let v = low 4 (p ! 0) * 4096 + low 6 (p ! 1) * 64 + low 6 (p ! 2) in
         if v < 0x800 \<or> \<not> scalar v then (0xFFFD, 1, False) else (v, 3, False))
      else if length p < 4 then (0xFFFD, 1, True)
      else if \<not> cont (p ! 3) then (0xFFFD, 1, False)
      else if p ! 0 < 0xF8 then
        (let v = low 3 (p ! 0) * 262144 + low 6 (p ! 1) * 4096 + low 6 (p ! 2) * 64 + low 6 (p ! 3) in
         if v < 0x10000 \<or> \<not> scalar v then (0xFFFD, 1, False) else (v, 4, False))
      else (0xFFFD, 1, False))"

lemma low_add:
  "x < 32 \<Longrightarrow> low 5 (0xC0 + x) = x" "x < 16 \<Longrightarrow> low 4 (0xE0 + x) = x"
  "x < 8 \<Longrightarrow> low 3 (0xF0 + x) = x" "x < 64 \<Longrightarrow> low 6 (0x80 + x) = x"
  using mod_mult_self4 [of 32 6 x] mod_mult_self4 [of 16 14 x] mod_mult_self4 [of 8 30 x] mod_mult_self4 [of 64 2 x]
  by (simp_all add: low_def)

lemma low_bound: "low 5 a < 32" "low 4 a < 16" "low 3 a < 8" "low 6 a < 64"
  by (simp_all add: low_def)

lemma low_bytes:
  "0xC0 \<le> a \<Longrightarrow> a < 0xE0 \<Longrightarrow> a = 0xC0 + low 5 a" "0xE0 \<le> a \<Longrightarrow> a < 0xF0 \<Longrightarrow> a = 0xE0 + low 4 a"
  "0xF0 \<le> a \<Longrightarrow> a < 0xF8 \<Longrightarrow> a = 0xF0 + low 3 a" "cont a \<Longrightarrow> a = 0x80 + low 6 a"
proof -
  show "a = 0xC0 + low 5 a" if "0xC0 \<le> a" "a < 0xE0"
  proof -
    have "a - 0xC0 < 32" using that by simp
    then show ?thesis using low_add(1) [of "a - 0xC0"] that by simp
  qed
  show "a = 0xE0 + low 4 a" if "0xE0 \<le> a" "a < 0xF0"
  proof -
    have "a - 0xE0 < 16" using that by simp
    then show ?thesis using low_add(2) [of "a - 0xE0"] that by simp
  qed
  show "a = 0xF0 + low 3 a" if "0xF0 \<le> a" "a < 0xF8"
  proof -
    have "a - 0xF0 < 8" using that by simp
    then show ?thesis using low_add(3) [of "a - 0xF0"] that by simp
  qed
  show "a = 0x80 + low 6 a" if "cont a"
  proof -
    have "0x80 \<le> a" "a - 0x80 < 64" using that by (auto simp: cont_def)
    then show ?thesis using low_add(4) [of "a - 0x80"] by simp
  qed
qed

lemma div_digit: "y < 64 \<Longrightarrow> (x * 64 + y) div 64 = x" "y < 64 \<Longrightarrow> (x * 64 + y) mod 64 = (y::nat)"
  by simp_all

text \<open>A code point as its 6-bit digits.\<close>

lemma digits6_3: "v div 4096 * 4096 + v div 64 mod 64 * 64 + v mod 64 = (v::nat)"
proof -
  have "v div 4096 = v div 64 div 64" by (simp add: div_mult2_eq [symmetric])
  moreover have "v div 64 div 64 * 64 + v div 64 mod 64 = v div 64" "v div 64 * 64 + v mod 64 = v"
    by (rule div_mult_mod_eq)+
  ultimately show ?thesis by linarith
qed

lemma digits6_4: "v div 262144 * 262144 + v div 4096 mod 64 * 4096 + v div 64 mod 64 * 64 + v mod 64 = (v::nat)"
proof -
  have "v div 262144 = v div 4096 div 64" by (simp add: div_mult2_eq [symmetric])
  moreover have "v div 4096 div 64 * 64 + v div 4096 mod 64 = v div 4096" by (rule div_mult_mod_eq)
  ultimately show ?thesis using digits6_3 [of v] by linarith
qed

lemma decode_utf8_nat:
  assumes "scalar v"
  shows "decode_nat (utf8_nat v @ q) = (v, length (utf8_nat v), False)"
proof -
  have v: "v \<le> 0x10FFFF" using assms by (simp add: scalar_def)
  consider "v < 0x80" | "0x80 \<le> v" "v < 0x800" | "0x800 \<le> v" "v < 0x10000" | "0x10000 \<le> v" by linarith
  then show ?thesis
  proof cases
    case 1
    then show ?thesis by (simp add: utf8_nat_def decode_nat_def)
  next
    case 2
    then have "v div 64 < 32" "2 \<le> v div 64" by auto
    with 2 show ?thesis by (simp add: utf8_nat_def decode_nat_def cont_def low_add Let_def)
  next
    case 3
    note e = digits6_3 [of v]
    have "v div 4096 < 16" using 3 by auto
    with 3 e assms show ?thesis by (simp add: utf8_nat_def decode_nat_def cont_def low_add Let_def)
  next
    case 4
    note e = digits6_4 [of v]
    have "v div 262144 < 8" using v by auto
    with 4 e assms show ?thesis by (simp add: utf8_nat_def decode_nat_def cont_def low_add Let_def)
  qed
qed

text \<open>The code point of given digits has these digits.\<close>

lemma utf8_nat_2:
  assumes "x < 32" "y < 64" "v = x * 64 + y" "0x80 \<le> v"
  shows "v < 0x800" "utf8_nat v = [0xC0 + x, 0x80 + y]"
proof -
  have "v div 64 = x" "v mod 64 = y" using assms by simp_all
  moreover show "v < 0x800" using assms by simp
  ultimately show "utf8_nat v = [0xC0 + x, 0x80 + y]" using assms(4) by (simp add: utf8_nat_def)
qed

lemma utf8_nat_3:
  assumes "x < 16" "y < 64" "z < 64" "v = x * 4096 + y * 64 + z" "0x800 \<le> v"
  shows "v < 0x10000" "utf8_nat v = [0xE0 + x, 0x80 + y, 0x80 + z]"
proof -
  have v: "v = (x * 64 + y) * 64 + z" using assms(4) by simp
  have "v div 64 = x * 64 + y" "v mod 64 = z" unfolding v using assms(3) by (simp_all only: div_digit)
  moreover have "(x * 64 + y) div 64 = x" "(x * 64 + y) mod 64 = y" using assms(2) by (simp_all only: div_digit)
  moreover have "v div 4096 = v div 64 div 64" by (simp add: div_mult2_eq [symmetric])
  moreover show "v < 0x10000" using assms by simp
  ultimately show "utf8_nat v = [0xE0 + x, 0x80 + y, 0x80 + z]" using assms(5) by (simp add: utf8_nat_def)
qed

lemma utf8_nat_4:
  assumes "y < 64" "z < 64" "w < 64" "v = x * 262144 + y * 4096 + z * 64 + w" "0x10000 \<le> v"
  shows "utf8_nat v = [0xF0 + x, 0x80 + y, 0x80 + z, 0x80 + w]"
proof -
  have v: "v = ((x * 64 + y) * 64 + z) * 64 + w" using assms(4) by simp
  have "v div 64 = (x * 64 + y) * 64 + z" "v mod 64 = w" unfolding v using assms(3) by (simp_all only: div_digit)
  moreover have "((x * 64 + y) * 64 + z) div 64 = x * 64 + y" "((x * 64 + y) * 64 + z) mod 64 = z"
    using assms(2) by (simp_all only: div_digit)
  moreover have "(x * 64 + y) div 64 = x" "(x * 64 + y) mod 64 = y" using assms(1) by (simp_all only: div_digit)
  moreover have "v div 4096 = v div 64 div 64" "v div 262144 = v div 64 div 64 div 64"
    by (simp_all add: div_mult2_eq [symmetric])
  ultimately show "utf8_nat v = [0xF0 + x, 0x80 + y, 0x80 + z, 0x80 + w]"
    using assms(5) by (simp add: utf8_nat_def)
qed

lemma decode_nat_cases:
  assumes d: "decode_nat p = (v, n, s)" and ok: "\<not> (v = 0xFFFD \<and> n \<le> 1)"
  obtains
      "n = 1" "\<not> s" "1 \<le> length p" "p ! 0 < 0x80" "v = p ! 0"
    | "n = 2" "\<not> s" "2 \<le> length p" "0xC0 \<le> p ! 0" "p ! 0 < 0xE0" "cont (p ! 1)" "0x80 \<le> v"
        "v = low 5 (p ! 0) * 64 + low 6 (p ! 1)"
    | "n = 3" "\<not> s" "3 \<le> length p" "0xE0 \<le> p ! 0" "p ! 0 < 0xF0" "cont (p ! 1)" "cont (p ! 2)" "0x800 \<le> v" "scalar v"
        "v = low 4 (p ! 0) * 4096 + low 6 (p ! 1) * 64 + low 6 (p ! 2)"
    | "n = 4" "\<not> s" "4 \<le> length p" "0xF0 \<le> p ! 0" "p ! 0 < 0xF8" "cont (p ! 1)" "cont (p ! 2)" "cont (p ! 3)" "0x10000 \<le> v" "scalar v"
        "v = low 3 (p ! 0) * 262144 + low 6 (p ! 1) * 4096 + low 6 (p ! 2) * 64 + low 6 (p ! 3)"
proof -
  have l: "1 \<le> length p" using d ok by (cases p) (auto simp: decode_nat_def)
  consider "p ! 0 < 0x80" | "0xC0 \<le> p ! 0" "2 \<le> length p" "cont (p ! 1)"
  proof -
    have "p ! 0 < 0x80 \<or> \<not> p ! 0 < 0xC0 \<and> \<not> length p < 2 \<and> cont (p ! 1)"
      using d ok l by (simp add: decode_nat_def split: if_split_asm)
    then show thesis using that by (meson not_less)
  qed
  then show thesis
  proof cases
    case 1
    then have "decode_nat p = (p ! 0, 1, False)" using l by (auto simp: decode_nat_def)
    then have "n = 1" "\<not> s" "v = p ! 0" using d by auto
    then show ?thesis using that(1) l 1 by blast
  next
    case 2
    then have nz: "\<not> length p < 1" "\<not> p ! 0 < 0x80" "\<not> p ! 0 < 0xC0" "\<not> length p < 2" by auto
    consider "p ! 0 < 0xE0" | "0xE0 \<le> p ! 0" "3 \<le> length p" "cont (p ! 2)"
      using d ok 2 nz by (simp add: decode_nat_def split: if_split_asm)
    then show ?thesis
    proof cases
      case a: 1
      then show ?thesis using d ok 2 nz that(2) by (simp add: decode_nat_def Let_def split: if_split_asm)
    next
      case b: 2
      then have nz2: "\<not> p ! 0 < 0xE0" "\<not> length p < 3" by auto
      have "p ! 0 < 0xF0 \<or> \<not> p ! 0 < 0xF0 \<and> \<not> length p < 4 \<and> cont (p ! 3) \<and> p ! 0 < 0xF8"
        using d ok 2 b nz nz2 by (simp add: decode_nat_def split: if_split_asm)
      then consider "p ! 0 < 0xF0" | "0xF0 \<le> p ! 0" "4 \<le> length p" "cont (p ! 3)" "p ! 0 < 0xF8"
        by (meson not_less)
      then show ?thesis
      proof cases
        case c: 1
        let ?v = "low 4 (p ! 0) * 4096 + low 6 (p ! 1) * 64 + low 6 (p ! 2)"
        have "decode_nat p = (if ?v < 0x800 \<or> \<not> scalar ?v then (0xFFFD, 1, False) else (?v, 3, False))"
          using 2 b c nz nz2 by (simp add: decode_nat_def Let_def)
        then have "\<not> ?v < 0x800" "scalar ?v" "v = ?v" "n = 3" "\<not> s" using d ok by (auto split: if_split_asm)
        then show ?thesis using 2 b c by (intro that(3)) auto
      next
        case c: 2
        let ?v = "low 3 (p ! 0) * 262144 + low 6 (p ! 1) * 4096 + low 6 (p ! 2) * 64 + low 6 (p ! 3)"
        have "decode_nat p = (if ?v < 0x10000 \<or> \<not> scalar ?v then (0xFFFD, 1, False) else (?v, 4, False))"
          using 2 b c nz nz2 by (simp add: decode_nat_def Let_def)
        then have "\<not> ?v < 0x10000" "scalar ?v" "v = ?v" "n = 4" "\<not> s" using d ok by (auto split: if_split_asm)
        then show ?thesis using 2 b c by (intro that(4)) auto
      qed
    qed
  qed
qed

lemma utf8_decode_nat:
  assumes d: "decode_nat p = (v, n, s)" and ok: "\<not> (v = 0xFFFD \<and> n \<le> 1)"
  shows "scalar v \<and> n \<le> length p \<and> take n p = utf8_nat v \<and> \<not> s"
proof -
  have take: "take 1 p = [p ! 0]" if "1 \<le> length p" 
    using that by (cases p) auto
  have take2: "take 2 p = [p ! 0, p ! 1]" if "2 \<le> length p"
    using that take take_Suc_conv_app_nth [of 1 p] by (auto simp: numeral_2_eq_2)
  have take3: "take 3 p = [p ! 0, p ! 1, p ! 2]" if "3 \<le> length p"
    using that take2 take_Suc_conv_app_nth [of 2 p] by auto
  have take4: "take 4 p = [p ! 0, p ! 1, p ! 2, p ! 3]" if "4 \<le> length p"
    using that take3 take_Suc_conv_app_nth [of 3 p] by auto
  from d ok show ?thesis
  proof (cases rule: decode_nat_cases)
    case 1
    then show ?thesis using take by (simp add: scalar_def utf8_nat_def)
  next
    case 2
    then show ?thesis
      using take2 low_bytes(1) [OF 2(4,5)] low_bytes(4) [OF 2(6)] utf8_nat_2 [OF low_bound(1,4) 2(8,7)]
      by (simp add: scalar_def)
  next
    case 3
    then show ?thesis
      using take3 low_bytes(2) [OF 3(4,5)] low_bytes(4) [OF 3(6)] low_bytes(4) [OF 3(7)]
        utf8_nat_3 [OF low_bound(2,4,4) 3(10,8)] by simp
  next
    case 4
    then show ?thesis
      using take4 low_bytes(3) [OF 4(4,5)] low_bytes(4) [OF 4(6)] low_bytes(4) [OF 4(7)] low_bytes(4) [OF 4(8)]
        utf8_nat_4 [OF low_bound(4,4,4) 4(11,9)] by simp
  qed
qed

section \<open>The bit operations compute the arithmetic\<close>

lemmas utf8_consts = RuneError_def RuneSelf_def MaxRune_def surrogateMin_def surrogateMax_def
  tx_def t2_def t3_def t4_def t5_def rune1Max_def rune2Max_def rune3Max_def

lemma mask_consts: "maskx = mask 6" "mask2 = mask 5" "mask3 = mask 4" "mask4 = mask 3"
  by (simp_all add: maskx_def mask2_def mask3_def mask4_def mask_eq_exp_minus_1)

lemma unat_masked:
  "unat (c AND maskx) = low 6 (unat c)" "unat (c AND mask2) = low 5 (unat c)"
  "unat (c AND mask3) = low 4 (unat c)" "unat (c AND mask4) = low 3 (unat c)"
  by (simp_all add: mask_consts unat_and_mask low_def)

lemma unat_ucast_byte: "unat (ucast (c :: byte) :: rune) = unat c"
proof -
  have "unat c < 2 ^ 8" using unsigned_less [of c] by simp
  then have "unat c < 2 ^ 32" by simp
  then show ?thesis by (simp add: unsigned_ucast_eq take_bit_nat_eq_self)
qed

lemma unat_field:
  "unat (push_bit 6 (ucast (c AND mask2)) :: rune) = low 5 (unat c) * 64"
  "unat (push_bit 12 (ucast (c AND mask3)) :: rune) = low 4 (unat c) * 4096"
  "unat (push_bit 18 (ucast (c AND mask4)) :: rune) = low 3 (unat c) * 262144"
  "unat (push_bit 6 (ucast (c AND maskx)) :: rune) = low 6 (unat c) * 64"
  "unat (push_bit 12 (ucast (c AND maskx)) :: rune) = low 6 (unat c) * 4096"
  "unat (ucast (c AND maskx) :: rune) = low 6 (unat c)"
  using low_bound [of "unat c"]
  by (simp_all only: unat_ucast_byte unat_masked unat_push_bit len_of_numeral_defs) (subst unat_push_bit; simp add: unat_ucast_byte unat_masked)+

lemma decoded_2:
  "unat (push_bit 6 (ucast (c0 AND mask2)) OR ucast (c1 AND maskx) :: rune) =
   low 5 (unat c0) * 64 + low 6 (unat c1)"
  using low_bound(1) [of "unat c0"] low_bound(4) [of "unat c1"]
  by (subst unat_join [of 6]) (simp_all add: unat_field take_bit_push_bit_zero)

lemma decoded_3:
  "unat (push_bit 12 (ucast (c0 AND mask3)) OR push_bit 6 (ucast (c1 AND maskx)) OR ucast (c2 AND maskx) :: rune) =
   low 4 (unat c0) * 4096 + low 6 (unat c1) * 64 + low 6 (unat c2)"
proof -
  note low = low_bound(2) [of "unat c0"] low_bound(4) [of "unat c1"] low_bound(4) [of "unat c2"]
  have "unat (push_bit 6 (ucast (c1 AND maskx)) OR ucast (c2 AND maskx) :: rune) = low 6 (unat c1) * 64 + low 6 (unat c2)"
    using low by (subst unat_join [of 6]) (simp_all add: unat_field take_bit_push_bit_zero)
  then show ?thesis
    using low by (subst unat_join [of 12]) (simp_all add: unat_field take_bit_push_bit_zero)
qed

lemma decoded_4:
  "unat (push_bit 18 (ucast (c0 AND mask4)) OR push_bit 12 (ucast (c1 AND maskx)) OR
     push_bit 6 (ucast (c2 AND maskx)) OR ucast (c3 AND maskx) :: rune) =
   low 3 (unat c0) * 262144 + low 6 (unat c1) * 4096 + low 6 (unat c2) * 64 + low 6 (unat c3)"
proof -
  note low = low_bound(3) [of "unat c0"] low_bound(4) [of "unat c1"] low_bound(4) [of "unat c2"] low_bound(4) [of "unat c3"]
  have "unat (push_bit 6 (ucast (c2 AND maskx)) OR ucast (c3 AND maskx) :: rune) = low 6 (unat c2) * 64 + low 6 (unat c3)"
    using low by (subst unat_join [of 6]) (simp_all add: unat_field take_bit_push_bit_zero)
  then have "unat (push_bit 12 (ucast (c1 AND maskx)) OR push_bit 6 (ucast (c2 AND maskx)) OR ucast (c3 AND maskx) :: rune) =
      low 6 (unat c1) * 4096 + low 6 (unat c2) * 64 + low 6 (unat c3)"
    using low by (subst unat_join [of 12]) (simp_all add: unat_field take_bit_push_bit_zero)
  then show ?thesis
    using low by (subst unat_join [of 18]) (simp_all add: unat_field take_bit_push_bit_zero)
qed

text \<open>Signed comparison of runes below \<open>2^31\<close> is comparison of their values.\<close>

lemma sint_rune: "unat (r :: rune) < 2 ^ 31 \<Longrightarrow> sint r = int (unat r)"
  using sint_nonneg_eq [of r] by simp

lemma unat_less_consts:
  "c < tx \<longleftrightarrow> unat c < 0x80" "c < t2 \<longleftrightarrow> unat c < 0xC0" "t2 \<le> c \<longleftrightarrow> 0xC0 \<le> unat c"
  "c < t3 \<longleftrightarrow> unat c < 0xE0" "c < t4 \<longleftrightarrow> unat c < 0xF0" "c < t5 \<longleftrightarrow> unat c < 0xF8"
  by (simp_all add: word_less_nat_alt word_le_nat_alt utf8_consts)

lemma cont_byte: "c < tx \<or> t2 \<le> c \<longleftrightarrow> \<not> cont (unat c)"
  by (auto simp: unat_less_consts cont_def)

lemma sint_consts:
  "sint rune1Max = 0x7F" "sint rune2Max = 0x7FF" "sint rune3Max = 0xFFFF" "sint MaxRune = 0x10FFFF"
  "sint surrogateMin = 0xD800" "sint surrogateMax = 0xDFFF"
  by (simp_all add: utf8_consts)

lemma of_nat_unat_eq: "unat (r :: rune) = v \<Longrightarrow> r = of_nat v"
  by auto

text \<open>One lemma per length of the encoding: the tests on the assembled rune.\<close>

definition as_rune :: "nat \<times> nat \<times> bool \<Rightarrow> rune \<times> nat \<times> bool" where
  "as_rune x = (case x of (v, n, s) \<Rightarrow> (of_nat v, n, s))"

lemma as_rune_simps [simp]:
  "as_rune (v, n, s) = (of_nat v, n, s)"
  "as_rune (if c then x else y) = (if c then as_rune x else as_rune y)"
  by (simp_all add: as_rune_def)

lemma decode_branch_2:
  fixes r :: rune
  assumes "unat r = low 5 a * 64 + low 6 b"
  shows "(if sint r \<le> sint rune1Max then (RuneError, 1, False) else (r, 2, False)) =
    as_rune (let v = low 5 a * 64 + low 6 b in if v < 0x80 then (0xFFFD, 1, False) else (v, 2, False))"
proof -
  have "sint r = int (low 5 a * 64 + low 6 b)"
    using low_bound(1) [of a] low_bound(4) [of b] assms by (subst sint_rune) simp_all
  then show ?thesis using of_nat_unat_eq [OF assms] by (auto simp: sint_consts RuneError_def Let_def)
qed

lemma decode_branch_3:
  fixes r :: rune
  assumes "unat r = v" "v < 0x10000"
  shows "(if sint r \<le> sint rune2Max then (RuneError, 1, False)
     else if sint surrogateMin \<le> sint r \<and> sint r \<le> sint surrogateMax then (RuneError, 1, False)
     else (r, 3, False)) =
    as_rune (if v < 0x800 \<or> \<not> scalar v then (0xFFFD, 1, False) else (v, 3, False))"
proof -
  have "sint r = int v" using assms by (subst sint_rune) simp_all
  then show ?thesis using of_nat_unat_eq [OF assms(1)] assms(2)
    by (auto simp: sint_consts RuneError_def scalar_def)
qed

lemma decode_branch_4:
  fixes r :: rune
  assumes "unat r = v" "v < 0x200000"
  shows "(if sint r \<le> sint rune3Max \<or> sint MaxRune < sint r then (RuneError, 1, False)
     else (r, 4, False)) =
    as_rune (if v < 0x10000 \<or> \<not> scalar v then (0xFFFD, 1, False) else (v, 4, False))"
proof -
  have "sint r = int v" using assms by (subst sint_rune) simp_all
  then show ?thesis using of_nat_unat_eq [OF assms(1)] assms(2)
    by (auto simp: sint_consts RuneError_def scalar_def)
qed

lemma decode_refines: "decodeRuneInternal p = as_rune (decode_nat (map unat p))"
proof -
  note low = low_bound [of "unat (p ! 0)"] low_bound(4) [of "unat (p ! 1)"] low_bound(4) [of "unat (p ! 2)"] low_bound(4) [of "unat (p ! 3)"]
  note b2 = decode_branch_2 [OF decoded_2 [of "p ! 0" "p ! 1"], unfolded Let_def]
  have b3: "low 4 (unat (p ! 0)) * 4096 + low 6 (unat (p ! 1)) * 64 + low 6 (unat (p ! 2)) < 0x10000"
    using low by simp
  have b4: "low 3 (unat (p ! 0)) * 262144 + low 6 (unat (p ! 1)) * 4096 + low 6 (unat (p ! 2)) * 64 + low 6 (unat (p ! 3)) < 0x200000"
    using low by simp
  have len: "\<not> length p < 1 \<Longrightarrow> map unat p ! 0 = unat (p ! 0)" "\<not> length p < 2 \<Longrightarrow> map unat p ! 1 = unat (p ! 1)"
    "\<not> length p < 3 \<Longrightarrow> map unat p ! 2 = unat (p ! 2)" "\<not> length p < 4 \<Longrightarrow> map unat p ! 3 = unat (p ! 3)"
    by simp_all
  have E: "(RuneError, n, s) = as_rune (0xFFFD, n, s)" for n s by (simp add: RuneError_def)
  have A: "(ucast (p ! 0), 1, False) = as_rune (unat (p ! 0), 1, False)" by simp
  have "decodeRuneInternal p = as_rune
     (if length p < 1 then (0xFFFD, 0, True)
      else if unat (p ! 0) < 0x80 then (unat (p ! 0), 1, False)
      else if unat (p ! 0) < 0xC0 then (0xFFFD, 1, False)
      else if length p < 2 then (0xFFFD, 1, True)
      else if \<not> cont (unat (p ! 1)) then (0xFFFD, 1, False)
      else if unat (p ! 0) < 0xE0 then
        (let v = low 5 (unat (p ! 0)) * 64 + low 6 (unat (p ! 1)) in
         if v < 0x80 then (0xFFFD, 1, False) else (v, 2, False))
      else if length p < 3 then (0xFFFD, 1, True)
      else if \<not> cont (unat (p ! 2)) then (0xFFFD, 1, False)
      else if unat (p ! 0) < 0xF0 then
        (let v = low 4 (unat (p ! 0)) * 4096 + low 6 (unat (p ! 1)) * 64 + low 6 (unat (p ! 2)) in
         if v < 0x800 \<or> \<not> scalar v then (0xFFFD, 1, False) else (v, 3, False))
      else if length p < 4 then (0xFFFD, 1, True)
      else if \<not> cont (unat (p ! 3)) then (0xFFFD, 1, False)
      else if unat (p ! 0) < 0xF8 then
        (let v = low 3 (unat (p ! 0)) * 262144 + low 6 (unat (p ! 1)) * 4096 + low 6 (unat (p ! 2)) * 64 + low 6 (unat (p ! 3)) in
         if v < 0x10000 \<or> \<not> scalar v then (0xFFFD, 1, False) else (v, 4, False))
      else (0xFFFD, 1, False))"
    unfolding decodeRuneInternal_def Let_def cont_byte
    unfolding unat_less_consts b2
      decode_branch_3 [OF decoded_3 b3] decode_branch_4 [OF decoded_4 b4]
    unfolding E A as_rune_simps(2) ..
  also have "\<dots> = as_rune (decode_nat (map unat p))"
    unfolding decode_nat_def length_map by (simp only: len not_False_eq_True cong: if_cong)
  finally show ?thesis .
qed

section \<open>Encoding as arithmetic\<close>

lemma signed_drop_bit_rune:
  assumes "unat (r :: rune) < 2 ^ 31"
  shows "signed_drop_bit n r = drop_bit n r"
proof (rule bit_word_eqI)
  fix k assume k: "k < LENGTH(32)"
  have "take_bit 31 r = r" using assms
    by (metis take_bit_nat_eq_self unsigned_take_bit_eq unsigned_word_eqI)
  then have "bit r i \<Longrightarrow> i < 31" for i by (metis bit_take_bit_iff)
  then have "\<not> bit r 31" "i \<ge> 31 \<Longrightarrow> \<not> bit r i" for i by (metis less_irrefl, metis not_less)
  then show "bit (signed_drop_bit n r) k = bit (drop_bit n r) k"
    using k by (auto simp: bit_signed_drop_bit_iff bit_drop_bit_eq)
qed

lemma unat_ucast_shift: "unat (r :: rune) < 2 ^ 31 \<Longrightarrow> unat (ucast (signed_drop_bit n r) :: byte) = unat r div 2 ^ n mod 256"
  by (simp add: signed_drop_bit_rune unsigned_ucast_eq unat_drop_bit take_bit_eq_mod)

lemma unat_ucast_low: "unat (ucast (r :: rune) :: byte) = unat r mod 256"
  by (simp add: unsigned_ucast_eq take_bit_eq_mod)

lemma unat_lead:
  "unat b < 32 \<Longrightarrow> unat (t2 OR b) = 0xC0 + unat b" "unat b < 16 \<Longrightarrow> unat (t3 OR b) = 0xE0 + unat b"
  "unat b < 8 \<Longrightarrow> unat (t4 OR b) = 0xF0 + unat b" "unat b < 64 \<Longrightarrow> unat (tx OR b) = 0x80 + unat b"
  using unat_join [of 5 t2 b] unat_join [of 4 t3 b] unat_join [of 3 t4 b] unat_join [of 6 tx b]
  by (simp_all add: utf8_consts take_bit_eq_mask mask_eq_exp_minus_1)

lemma low_mod256: "low 6 (v mod 256) = v mod 64"
  using mod_mod_cancel [of 64 256 v] by (simp add: low_def)

lemma unat_cont:
  "unat (tx OR (ucast (r :: rune) AND maskx)) = 0x80 + unat r mod 64"
  "unat (r :: rune) < 2 ^ 31 \<Longrightarrow> unat (tx OR (ucast (signed_drop_bit n r) AND maskx)) = 0x80 + unat r div 2 ^ n mod 64"
proof -
  have e: "unat (tx OR (c AND maskx)) = 0x80 + low 6 (unat c)" for c
    using low_bound(4) [of "unat c"] unat_lead(4) [of "c AND maskx"] by (simp add: unat_masked)
  show "unat (tx OR (ucast r AND maskx)) = 0x80 + unat r mod 64"
    unfolding e unat_ucast_low low_mod256 ..
  show "unat (tx OR (ucast (signed_drop_bit n r) AND maskx)) = 0x80 + unat r div 2 ^ n mod 64" if "unat r < 2 ^ 31"
    unfolding e unat_ucast_shift [OF that] low_mod256 ..
qed

lemma unat_rune_consts:
  "r \<le> rune1Max \<longleftrightarrow> unat r < 0x80" "r \<le> rune2Max \<longleftrightarrow> unat r < 0x800" "r \<le> rune3Max \<longleftrightarrow> unat r < 0x10000"
  "r > MaxRune \<longleftrightarrow> unat r > 0x10FFFF" "unat RuneError = 0xFFFD"
  by (simp_all add: word_less_nat_alt word_le_nat_alt utf8_consts less_Suc_eq_le flip: less_Suc_eq_le)

lemma ValidRune_iff: "ValidRune r \<longleftrightarrow> scalar (unat r)"
proof (cases "unat r < 2 ^ 31")
  case True
  then show ?thesis by (auto simp: ValidRune_def sint_rune sint_consts scalar_def simp del: of_nat_unat)
next
  case False
  then have "2 ^ 31 \<le> uint r" unfolding uint_nat by (simp del: of_nat_unat)
  moreover have "uint r < 2 ^ 32" using uint_lt2p [of r] by simp
  ultimately have "uint r div 2 ^ 31 = 1" by (simp add: div_pos_geq)
  then have "sint r < 0" by (simp add: sint_uint signed_take_bit_negative_iff bit_iff_odd)
  then show ?thesis using False by (auto simp: ValidRune_def scalar_def)
qed

lemma encode_bytes_valid:
  assumes "scalar (unat r)"
  shows "map unat (encode_bytes r) = utf8_nat (unat r)"
proof -
  have b: "unat r < 2 ^ 31" "unat r \<le> 0x10FFFF" using assms by (auto simp: scalar_def)
  have s: "(sint surrogateMin \<le> sint r \<and> sint r \<le> sint surrogateMax) = False"
    using assms by (auto simp: sint_rune [OF b(1)] sint_consts scalar_def simp del: of_nat_unat)
  note cs = unat_cont(1) [of r] unat_cont(2) [OF b(1), of 6] unat_cont(2) [OF b(1), of 12]
  have s6: "unat r div 2 ^ 6 mod 256 = unat r div 64" if "unat r < 0x800" using that by (simp add: mod_less)
  have s12: "unat r div 2 ^ 12 mod 256 = unat r div 4096" if "unat r < 0x10000" using that by simp
  have s18: "unat r div 2 ^ 18 mod 256 = unat r div 262144" using b(2) by simp
  consider "unat r < 0x80" | "0x80 \<le> unat r" "unat r < 0x800" | "0x800 \<le> unat r" "unat r < 0x10000" | "0x10000 \<le> unat r"
    by linarith
  then show ?thesis
  proof cases
    case 1
    then show ?thesis by (simp add: encode_bytes_def unat_rune_consts unat_ucast_low utf8_nat_def)
  next
    case 2
    have "unat (t2 OR ucast (signed_drop_bit 6 r)) = 0xC0 + unat r div 64"
      using 2 by (subst unat_lead) (simp_all add: unat_ucast_shift [OF b(1)] s6)
    with 2 show ?thesis by (simp add: encode_bytes_def unat_rune_consts s Let_def cs utf8_nat_def)
  next
    case 3
    have "unat (t3 OR ucast (signed_drop_bit 12 r)) = 0xE0 + unat r div 4096"
      using 3 by (subst unat_lead) (simp_all add: unat_ucast_shift [OF b(1)] s12)
    with 3 s show ?thesis by (simp add: encode_bytes_def unat_rune_consts s Let_def cs utf8_nat_def)
  next
    case 4
    have "unat (t4 OR ucast (signed_drop_bit 18 r)) = 0xF0 + unat r div 262144"
      using b by (subst unat_lead) (simp_all add: unat_ucast_shift [OF b(1)] s18)
    with 4 s b show ?thesis by (simp add: encode_bytes_def unat_rune_consts s Let_def cs utf8_nat_def)
  qed
qed

text \<open>A rune that cannot be encoded is written as \<open>RuneError\<close>.\<close>

lemma encode_bytes_invalid:
  assumes "\<not> scalar (unat r)"
  shows "encode_bytes r = encode_bytes RuneError"
proof -
  have big: "\<not> unat r < 0x800" using assms by (auto simp: scalar_def)
  have e: "(sint surrogateMin \<le> sint RuneError \<and> sint RuneError \<le> sint surrogateMax) = False"
    by (simp add: utf8_consts)
  show ?thesis
  proof (cases "unat r > 0x10FFFF")
    case True
    then show ?thesis using big e by (simp add: encode_bytes_def unat_rune_consts Let_def)
  next
    case False
    then have "unat r < 2 ^ 31" by simp
    then have "(sint surrogateMin \<le> sint r \<and> sint r \<le> sint surrogateMax) = True"
      using False assms by (auto simp: sint_rune sint_consts scalar_def simp del: of_nat_unat)
    then show ?thesis using big False e by (simp add: encode_bytes_def unat_rune_consts Let_def)
  qed
qed

lemma encode_bytes_nat:
  "map unat (encode_bytes r) = utf8_nat (if ValidRune r then unat r else 0xFFFD)"
  using encode_bytes_valid [of r] encode_bytes_invalid [of r] encode_bytes_valid [of RuneError]
  by (simp add: ValidRune_iff unat_rune_consts scalar_def)

section \<open>Round trips\<close>

lemma DecodeRune_nat: "DecodeRune p = (case decode_nat (map unat p) of (v, n, s) \<Rightarrow> (of_nat v, n))"
  by (simp add: DecodeRune_def decode_refines as_rune_def split: prod.split)

lemma decode_encode: "DecodeRune (encode_bytes r @ q) = (if ValidRune r then r else RuneError, length (encode_bytes r))"
proof -
  let ?v = "if ValidRune r then unat r else 0xFFFD"
  have "scalar ?v" by (simp add: ValidRune_iff scalar_def)
  moreover have "length (encode_bytes r) = length (utf8_nat ?v)"
    using arg_cong [OF encode_bytes_nat [of r], of length] by simp
  ultimately show ?thesis
    using decode_utf8_nat [of ?v "map unat q"] by (simp add: DecodeRune_nat encode_bytes_nat RuneError_def)
qed

lemma map_unat_inj: "map unat xs = map unat (ys :: 'a::len word list) \<Longrightarrow> xs = ys"
  by (rule map_injective) (auto intro: injI)

text \<open>What \<open>DecodeRune\<close> accepts is exactly the encoding of the rune it returns.\<close>

lemma encode_decode:
  assumes d: "DecodeRune p = (r, n)" and ok: "\<not> (r = RuneError \<and> n \<le> 1)"
  shows "ValidRune r \<and> n \<le> length p \<and> take n p = encode_bytes r"
proof -
  obtain v s where v: "decode_nat (map unat p) = (v, n, s)" "r = of_nat v"
    using d by (auto simp: DecodeRune_nat split: prod.splits)
  have "\<not> (v = 0xFFFD \<and> n \<le> 1)" using ok v(2) by (auto simp: RuneError_def)
  then have u: "scalar v" "n \<le> length p" "take n (map unat p) = utf8_nat v"
    using utf8_decode_nat [OF v(1)] by auto
  have "unat r = v" using u(1) v(2) by (simp add: scalar_def unat_of_nat take_bit_nat_eq_self)
  moreover from this have "map unat (take n p) = map unat (encode_bytes r)"
    using u encode_bytes_valid [of r] by (simp add: take_map)
  ultimately show ?thesis using u map_unat_inj by (auto simp: ValidRune_iff)
qed

lemma RuneLen_encode: "ValidRune r \<Longrightarrow> RuneLen r = int (length (encode_bytes r))"
proof -
  assume v: "ValidRune r"
  then have s: "scalar (unat r)" by (simp add: ValidRune_iff)
  then have b: "unat r < 2 ^ 31" by (simp add: scalar_def)
  have "length (encode_bytes r) = length (utf8_nat (unat r))"
    using arg_cong [OF encode_bytes_valid [OF s], of length] by simp
  then show ?thesis using s
    by (auto simp: RuneLen_def sint_rune [OF b] sint_consts utf8_nat_def scalar_def simp del: of_nat_unat)
qed

lemma RuneLen_invalid: "\<not> ValidRune r \<Longrightarrow> RuneLen r = -1"
  by (auto simp: ValidRune_def RuneLen_def sint_consts split: if_splits)

lemma encode_bytes_length: "0 < length (encode_bytes r)" "length (encode_bytes r) \<le> UTFMax"
  using arg_cong [OF encode_bytes_nat [of r], of length] by (simp_all add: utf8_nat_def UTFMax_def split: if_splits)

end
