(* ===== verification/Utf8Text.thy ===== *)
theory Utf8Text
  imports Utf8Codec
begin

text \<open>
  Whole texts: \<open>Valid\<close>, \<open>ValidString\<close>, \<open>RuneCount\<close> and \<open>RuneCountInString\<close> against the sequence of
  runes a text encodes, \<open>FullRune\<close> against what more bytes can change, and decoding from the end.
\<close>

definition encode_all :: "rune list \<Rightarrow> byte list" where
  "encode_all rs = concat (map encode_bytes rs)"

definition valid_text :: "byte list \<Rightarrow> bool" where
  "valid_text q \<longleftrightarrow> (\<exists>rs. list_all ValidRune rs \<and> q = encode_all rs)"

lemma DecodeRune_ascii: "q \<noteq> [] \<Longrightarrow> q ! 0 < RuneSelf \<Longrightarrow> DecodeRune q = (ucast (q ! 0), 1)"
  by (simp add: DecodeRune_def decodeRuneInternal_def RuneSelf_def tx_def Let_def)

lemma ascii_not_error: "c < RuneSelf \<Longrightarrow> (ucast c :: rune) \<noteq> RuneError"
proof
  assume "c < RuneSelf" "(ucast c :: rune) = RuneError"
  then have "unat c = 0xFFFD" using unat_ucast_byte [of c] unat_rune_consts(5) by simp
  then show False using unsigned_less [of c, where 'a = nat] by simp
qed

text \<open>A width of one at a byte that is not ASCII means the bytes there are no encoding.\<close>

lemma size_one_error:
  assumes "DecodeRune q = (r, n)" "q \<noteq> []" "\<not> q ! 0 < RuneSelf"
  shows "n = 1 \<longleftrightarrow> r = RuneError \<and> n \<le> 1"
proof
  assume n: "n = 1"
  show "r = RuneError \<and> n \<le> 1"
  proof (rule ccontr)
    assume "\<not> (r = RuneError \<and> n \<le> 1)"
    then have "take 1 q = encode_bytes r" "ValidRune r" using encode_decode [OF assms(1)] n by auto
    then have e: "[q ! 0] = encode_bytes r" using assms(2) by (cases q) auto
    then have "[unat (q ! 0)] = utf8_nat (unat r)"
      using encode_bytes_nat [of r] \<open>ValidRune r\<close> unfolding e [symmetric] by simp
    then have "unat (q ! 0) < 0x80" unfolding utf8_nat_def by (simp split: if_split_asm)
    then show False using assms(3) by (simp add: RuneSelf_def word_less_nat_alt)
  qed
next
  assume "r = RuneError \<and> n \<le> 1"
  then show "n = 1" using decode_size_pos [OF assms(2)] assms(1) by simp
qed

lemma valid_text_step:
  assumes "DecodeRune q = (r, n)" "q \<noteq> []"
  shows "valid_text q \<longleftrightarrow> \<not> (r = RuneError \<and> n \<le> 1) \<and> valid_text (drop n q)"
proof
  assume "valid_text q"
  then obtain r' rs where q: "list_all ValidRune (r' # rs)" "q = encode_all (r' # rs)"
    unfolding valid_text_def using assms(2) by (metis encode_all_def concat.simps(1) list.exhaust list.simps(8))
  then have d: "r = r'" "n = length (encode_bytes r')" using decode_encode [of r' "encode_all rs"] assms(1)
    by (auto simp: encode_all_def)
  have "length (encode_bytes RuneError) = 3" by (simp add: encode_bytes_def unat_rune_consts utf8_consts Let_def)
  then have "\<not> (r = RuneError \<and> n \<le> 1)" using d by auto
  moreover have "drop n q = encode_all rs" using q d by (simp add: encode_all_def)
  ultimately show "\<not> (r = RuneError \<and> n \<le> 1) \<and> valid_text (drop n q)"
    using q(1) by (auto simp: valid_text_def)
next
  assume h: "\<not> (r = RuneError \<and> n \<le> 1) \<and> valid_text (drop n q)"
  then obtain rs where rs: "list_all ValidRune rs" "drop n q = encode_all rs" by (auto simp: valid_text_def)
  have "ValidRune r" "take n q = encode_bytes r" using encode_decode [OF assms(1)] h by auto
  then have "q = encode_all (r # rs)" using rs(2) append_take_drop_id [of n q] by (simp add: encode_all_def)
  then show "valid_text q" unfolding valid_text_def using rs(1) \<open>ValidRune r\<close> by (intro exI [of _ "r # rs"]) simp
qed

lemma valid_text_Nil [simp]: "valid_text []"
  unfolding valid_text_def by (intro exI [of _ "[]"]) (simp add: encode_all_def)

lemma Valid_loop_iff: "Valid_loop p i \<longleftrightarrow> valid_text (drop i p)"
proof (induction "length p - i" arbitrary: i rule: less_induct)
  case less
  show ?case
  proof (cases "i < length p")
    case True
    obtain r n where d: "DecodeRune (drop i p) = (r, n)" by force
    have ne: "drop i p \<noteq> []" and h: "drop i p ! 0 = p ! i" using True by auto
    have n: "0 < n" using decode_size_pos [OF ne] d by simp
    have IH: "Valid_loop p (i + n) \<longleftrightarrow> valid_text (drop n (drop i p))"
      using less [of "i + n"] True n by (simp add: add.commute)
    show ?thesis
    proof (cases "p ! i < RuneSelf")
      case a: True
      then have "n = 1" "r \<noteq> RuneError" using DecodeRune_ascii [OF ne] d h ascii_not_error by auto
      then show ?thesis
        using True a IH valid_text_step [OF d ne] by (subst Valid_loop.simps) simp
    next
      case a: False
      have "n = 1 \<longleftrightarrow> r = RuneError \<and> n \<le> 1" using size_one_error [OF d ne] a h by simp
      then show ?thesis
        using True a d IH valid_text_step [OF d ne] by (subst Valid_loop.simps) (auto simp: Let_def)
    qed
  next
    case False
    then show ?thesis by (subst Valid_loop.simps) simp
  qed
qed

lemma Valid_iff: "Valid p \<longleftrightarrow> valid_text p"
  by (simp add: Valid_def Valid_loop_iff)

lemma ValidString_loop_iff: "ValidString_loop s (range_string s i) \<longleftrightarrow> valid_text (drop i s)"
proof (induction "length s - i" arbitrary: i rule: less_induct)
  case less
  show ?case
  proof (cases "i < length s")
    case True
    obtain r n where d: "DecodeRune (drop i s) = (r, n)" by force
    have ne: "drop i s \<noteq> []" using True by auto
    have n: "0 < n" using decode_size_pos [OF ne] d by simp
    have IH: "ValidString_loop s (range_string s (i + n)) \<longleftrightarrow> valid_text (drop n (drop i s))"
      using less [of "i + n"] True n by (simp add: add.commute)
    have "n = 1 \<longleftrightarrow> n \<le> 1" using n by auto
    then show ?thesis
      using True IH valid_text_step [OF d ne]
      by (subst range_string.simps) (simp add: DecodeRuneInString_eq d)
  next
    case False
    then show ?thesis by (subst range_string.simps) simp
  qed
qed

lemma RuneCount_loop_range: "RuneCount_loop p i n = n + length (range_string p i)"
proof (induction "length p - i" arbitrary: i n rule: less_induct)
  case less
  show ?case
  proof (cases "i < length p")
    case True
    have ne: "drop i p \<noteq> []" and h: "drop i p ! 0 = p ! i" using True by auto
    let ?k = "snd (DecodeRune (drop i p))"
    have k: "0 < ?k" by (rule decode_size_pos [OF ne])
    have "RuneCount_loop p i n = RuneCount_loop p (i + ?k) (n + 1)"
      using True DecodeRune_ascii [OF ne] h by (subst RuneCount_loop.simps) simp
    also have "\<dots> = n + 1 + length (range_string p (i + ?k))" using True k by (intro less) simp
    finally show ?thesis using True by (simp add: range_string.simps [of p i] DecodeRuneInString_eq)
  next
    case False
    then show ?thesis by (subst RuneCount_loop.simps, subst range_string.simps) simp
  qed
qed

lemma RuneCountInString_length: "RuneCountInString s = length (range_string s 0)"
proof -
  have "foldl (\<lambda>n _. n + 1) k xs = k + length xs" for k :: nat and xs :: "(nat \<times> rune) list"
    by (induction xs arbitrary: k) simp_all
  then show ?thesis by (simp add: RuneCountInString_def)
qed

text \<open>The range clause over an encoded text yields the runes.\<close>

lemma range_encode_all:
  "map snd (range_string (q @ encode_all rs) (length q)) = map (\<lambda>r. if ValidRune r then r else RuneError) rs"
proof (induction rs arbitrary: q)
  case Nil
  then show ?case by (subst range_string.simps) (simp add: encode_all_def)
next
  case (Cons r rs)
  let ?s = "q @ encode_all (r # rs)"
  have s: "?s = (q @ encode_bytes r) @ encode_all rs" by (simp add: encode_all_def)
  have d: "DecodeRuneInString (drop (length q) ?s) = (if ValidRune r then r else RuneError, length (encode_bytes r))"
    using decode_encode [of r "encode_all rs"] by (simp add: DecodeRuneInString_eq encode_all_def)
  have "length q < length ?s" using encode_bytes_length [of r] by (simp add: encode_all_def)
  then show ?case using Cons.IH [of "q @ encode_bytes r"] d
    by (subst range_string.simps) (simp add: s)
qed

section \<open>FullRune\<close>

lemma four_cases: "p = [] \<or> (\<exists>a. p = [a]) \<or> (\<exists>a b. p = [a, b]) \<or> (\<exists>a b c. p = [a, b, c]) \<or>
    (\<exists>a b c d r. p = a # b # c # d # r)"
  by (metis list.exhaust)

lemma full_stable:
  assumes "FullRune p"
  shows "decodeRuneInternal (p @ q) = decodeRuneInternal p"
proof -
  from four_cases [of p] consider "p = []" | a where "p = [a]" | a b where "p = [a, b]"
    | a b c where "p = [a, b, c]" | a b c d r where "p = a # b # c # d # r" by blast
  then show ?thesis
    using assms by cases (auto simp: FullRune_def decodeRuneInternal_def Let_def split: if_split_asm)
qed

section \<open>Decoding from the end\<close>

lemma RuneStart_iff: "RuneStart b \<longleftrightarrow> \<not> cont (unat b)"
proof -
  have n8: "n < 8 \<longleftrightarrow> n = 0 \<or> n = 1 \<or> n = 2 \<or> n = 3 \<or> n = 4 \<or> n = 5 \<or> n = 6 \<or> n = (7::nat)" for n by auto
  have byte_eq: "x = y \<longleftrightarrow> (\<forall>n<8. bit x n = bit y n)" for x y :: byte by (auto intro: bit_word_eqI)
  have "b AND 0xC0 = 0x80 \<longleftrightarrow> bit b 7 \<and> \<not> bit b 6"
    by (auto simp: byte_eq bit_and_iff n8)
  also have "\<dots> \<longleftrightarrow> odd (unat b div 64 div 2) \<and> even (unat b div 64)"
    using bit_unsigned_iff [of b 7, where 'a = nat] bit_unsigned_iff [of b 6, where 'a = nat]
    by (simp add: bit_iff_odd div_mult2_eq [symmetric])
  also have "\<dots> \<longleftrightarrow> cont (unat b)"
  proof -
    have "unat b div 64 < 4" using unsigned_less [of b, where 'a = nat] by simp
    then consider "unat b div 64 = 0" | "unat b div 64 = 1" | "unat b div 64 = 2" | "unat b div 64 = 3" by linarith
    then show ?thesis by cases (auto simp: cont_def)
  qed
  finally show ?thesis by (simp add: RuneStart_def)
qed

lemma encode_bytes_cont:
  assumes "j < length (encode_bytes r)"
  shows "RuneStart (encode_bytes r ! j) \<longleftrightarrow> j = 0"
    "\<not> encode_bytes r ! j < RuneSelf \<or> length (encode_bytes r) = 1"
    "length (encode_bytes r) = 1 \<Longrightarrow> encode_bytes r ! j < RuneSelf"
proof -
  define v where "v = (if ValidRune r then unat r else 0xFFFD)"
  have v: "v \<le> 0x10FFFF" by (auto simp: v_def ValidRune_iff scalar_def)
  have e: "map unat (encode_bytes r) = utf8_nat v" by (simp add: encode_bytes_nat v_def)
  then have l: "length (encode_bytes r) = length (utf8_nat v)" by (metis length_map)
  have j: "unat (encode_bytes r ! j) = utf8_nat v ! j" using assms by (simp flip: e)
  have "(utf8_nat v ! j < 0x80 \<or> 0xC0 \<le> utf8_nat v ! j) = (j = 0) \<and> (0x80 \<le> utf8_nat v ! j \<longleftrightarrow> length (utf8_nat v) \<noteq> 1)"
    using assms v unfolding l utf8_nat_def by (auto simp: less_Suc_eq nth_Cons' split: if_split_asm)
  then show "RuneStart (encode_bytes r ! j) \<longleftrightarrow> j = 0"
    "\<not> encode_bytes r ! j < RuneSelf \<or> length (encode_bytes r) = 1"
    "length (encode_bytes r) = 1 \<Longrightarrow> encode_bytes r ! j < RuneSelf"
    by (auto simp: RuneStart_iff cont_def j l RuneSelf_def word_less_nat_alt)
qed

lemma lastRune_start_found:
  "lim \<le> m \<Longrightarrow> m < k \<Longrightarrow> RuneStart (p ! m) \<Longrightarrow> (\<And>j. m < j \<Longrightarrow> j < k \<Longrightarrow> \<not> RuneStart (p ! j)) \<Longrightarrow>
   lastRune_start p lim k = m"
proof (induction k)
  case (Suc k)
  then show ?case by (cases "m = k") auto
qed simp

lemma DecodeLastRune_encode:
  assumes "ValidRune r"
  shows "DecodeLastRune (q @ encode_bytes r) = (r, length (encode_bytes r))"
proof -
  let ?e = "encode_bytes r" and ?p = "q @ encode_bytes r"
  note L = encode_bytes_length [of r]
  have last: "?p ! (length ?p - 1) = ?e ! (length ?e - 1)" using L by (cases ?e rule: rev_cases) (simp_all add: nth_append)
  have d: "DecodeRune ?e = (r, length ?e)" using decode_encode [of r "[]"] assms by simp
  show ?thesis
  proof (cases "length ?e = 1")
    case True
    then have "?e ! 0 < RuneSelf" using encode_bytes_cont(3) [of 0 r] by simp
    moreover have "?e \<noteq> []" using L by auto
    ultimately show ?thesis using True d DecodeRune_ascii [of ?e] last by (auto simp: DecodeLastRune_def Let_def)
  next
    case False
    then have two: "2 \<le> length ?e" using L by linarith
    have "\<not> ?e ! (length ?e - 1) < RuneSelf" using encode_bytes_cont(2) [of "length ?e - 1" r] False L by auto
    moreover have "lastRune_start ?p (length ?p - UTFMax) (length ?p - 1) = length q"
      using L two encode_bytes_cont(1) [of _ r]
      by (intro lastRune_start_found) (auto simp: nth_append)
    ultimately show ?thesis using d last L by (simp add: DecodeLastRune_def Let_def)
  qed
qed

lemma DecodeLastRune_sound:
  assumes d: "DecodeLastRune p = (r, n)" and ok: "\<not> (r = RuneError \<and> n \<le> 1)"
  shows "ValidRune r \<and> n \<le> length p \<and> p = take (length p - n) p @ encode_bytes r"
proof (cases "p = []")
  case False
  let ?c = "p ! (length p - 1)"
  show ?thesis
  proof (cases "?c < RuneSelf")
    case True
    then have r: "DecodeRune [?c] = (r, n)" "n = 1" using d False DecodeRune_ascii [of "[?c]"] by (auto simp: DecodeLastRune_def Let_def)
    then have "ValidRune r" "[?c] = encode_bytes r" using encode_decode [OF r(1)] ok by auto
    then show ?thesis using r(2) False
      by (metis One_nat_def append_butlast_last_id butlast_conv_take last_conv_nth length_greater_0_conv Suc_leI)
  next
    case a: False
    define st where "st = lastRune_start p (length p - UTFMax) (length p - 1)"
    obtain r' n' where d': "DecodeRune (drop st p) = (r', n')" by force
    have "r' = r" "n' = n" "st + n = length p"
      using d a False d' ok by (auto simp: DecodeLastRune_def Let_def st_def split: if_split_asm)
    then have "ValidRune r" "drop st p = encode_bytes r" "st = length p - n" "n \<le> length p"
      using encode_decode [OF d'] ok by auto
    then show ?thesis using append_take_drop_id [of st p] by simp
  qed
qed (use d ok in \<open>simp add: DecodeLastRune_def\<close>)

section \<open>Results\<close>

text \<open>
  C7. \<open>EncodeRune\<close> followed by \<open>DecodeRune\<close> gives back every valid rune and the number of bytes
  written, which is \<open>RuneLen\<close>; a rune that is no Unicode scalar value is encoded as U+FFFD. The bytes
  of the buffer after the encoding are untouched.
\<close>

theorem utf8_encode_decode:
  assumes "EncodeRune p r = Some (p', n)"
  shows "DecodeRune p' = (if ValidRune r then r else RuneError, n) \<and>
    RuneLen r = (if ValidRune r then int n else -1) \<and> length p' = length p \<and> drop n p' = drop n p"
  using assms decode_encode [of r] RuneLen_encode [of r] RuneLen_invalid [of r]
  by (auto simp: EncodeRune_def Let_def split: if_splits)

theorem utf8_encode_decode_witness:
  "EncodeRune [0, 0, 0, 7] 0x20AC = Some ([0xE2, 0x82, 0xAC, 7], 3) \<and> DecodeRune [0xE2, 0x82, 0xAC, 7] = (0x20AC, 3)"
proof -
  have e: "EncodeRune [0, 0, 0, 7] 0x20AC = Some ([0xE2, 0x82, 0xAC, 7], 3)" by code_simp
  have "ValidRune 0x20AC" by code_simp
  then show ?thesis using e utf8_encode_decode [OF e] by simp
qed

text \<open>
  Whatever \<open>DecodeRune\<close> accepts is the shortest encoding of a Unicode scalar value: unless it
  returns the error pair (\<open>RuneError\<close> with a width of at most one), the rune is valid and the bytes
  it consumed are exactly the ones \<open>EncodeRune\<close> writes for it. Overlong forms, surrogate halves and
  values above U+10FFFF are thus rejected.
\<close>

theorem utf8_decode_encode:
  assumes "DecodeRune p = (r, n)" "\<not> (r = RuneError \<and> n \<le> 1)"
  shows "ValidRune r \<and> n \<le> length p \<and> EncodeRune (take n p) r = Some (take n p, n)"
proof -
  note e = encode_decode [OF assms]
  then have "length (encode_bytes r) = n" by (metis length_take min.absorb2)
  then show ?thesis using e by (simp add: EncodeRune_def)
qed

text \<open>
  C8. \<open>Valid\<close> and \<open>ValidString\<close> accept exactly the concatenations of encodings of valid runes.
\<close>

theorem utf8_Valid:
  "(Valid p \<longleftrightarrow> (\<exists>rs. list_all ValidRune rs \<and> p = concat (map encode_bytes rs))) \<and> ValidString p = Valid p"
  using Valid_iff [of p] ValidString_loop_iff [of p 0]
  by (simp add: valid_text_def encode_all_def ValidString_def)

text \<open>
  The byte-slice and the string versions of every function agree; both count the runes the range
  clause yields, and on the encoding of a sequence of runes that is the length of the sequence.
\<close>

theorem utf8_counts:
  "decodeRuneInStringInternal p = decodeRuneInternal p \<and> DecodeLastRuneInString p = DecodeLastRune p \<and>
   FullRuneInString p = FullRune p \<and> RuneCountInString p = RuneCount p \<and>
   RuneCount (concat (map encode_bytes rs)) = length rs"
proof -
  have c: "RuneCount q = length (range_string q 0)" for q by (simp add: RuneCount_def RuneCount_loop_range)
  have "RuneCount (concat (map encode_bytes rs)) = length rs"
    using arg_cong [OF range_encode_all [of "[]" rs], of length] by (simp add: c encode_all_def)
  moreover have "DecodeLastRuneInString p = DecodeLastRune p"
    unfolding DecodeLastRuneInString_def DecodeLastRune_def DecodeRuneInString_eq ..
  ultimately show ?thesis
    by (simp add: in_string_eq
        FullRuneInString_def FullRune_def RuneCountInString_length c)
qed

text \<open>
  \<open>DecodeLastRune\<close> finds the encoding a text ends with: after any bytes, valid or not, followed by
  the encoding of a valid rune it returns that rune and its width; and any rune it returns other than
  the error pair is the one whose encoding the text ends with.
\<close>

theorem utf8_DecodeLastRune:
  assumes "ValidRune r"
  shows "DecodeLastRune (q @ encode_bytes r) = (r, length (encode_bytes r)) \<and>
    (\<forall>p r' n. DecodeLastRune p = (r', n) \<and> \<not> (r' = RuneError \<and> n \<le> 1) \<longrightarrow>
      ValidRune r' \<and> p = take (length p - n) p @ encode_bytes r')"
  using DecodeLastRune_encode [OF assms] DecodeLastRune_sound by blast

text \<open>
  Once \<open>FullRune\<close> reports true, no bytes that follow change what is decoded. The converse fails:
  the byte 0xFF starts no encoding, every text that begins with it decodes to the error of width one,
  and still \<open>FullRune\<close> reports false of it, where the comment of \<open>FullRune\<close> says that an invalid
  encoding is considered a full rune.
\<close>

theorem utf8_FullRune:
  "(FullRune p \<longrightarrow> DecodeRune (p @ q) = DecodeRune p) \<and>
   \<not> FullRune [0xFF] \<and> DecodeRune ([0xFF] @ q) = (RuneError, 1)"
proof -
  have "DecodeRune (0xFF # q) = (RuneError, 1)"
    by (simp add: DecodeRune_def decodeRuneInternal_def utf8_consts Let_def)
  moreover have "\<not> FullRune [0xFF]" by code_simp
  ultimately show ?thesis using full_stable [of p q] by (simp add: DecodeRune_def)
qed

end
