(* ===== verification/Utf16.thy ===== *)
theory Utf16
  imports Utf8Text
begin

text \<open>
  Package unicode/utf16 (\<open>src/src/pkg/unicode/utf16/utf16.go\<close>): surrogate pairs and the encoding and
  decoding of sequences of runes. \<open>Encode\<close> and \<open>Decode\<close> write into an array allocated beforehand; a
  write outside it would panic, which is the value \<open>None\<close>. The functions of the package that share
  a name with one of package utf8 carry the prefix \<open>utf16\<close>.
\<close>

unbundle bit_operations_syntax

definition replacementChar :: rune where "replacementChar = 0xFFFD"
definition maxRune :: rune where "maxRune = 0x10FFFF"
definition surr1 :: rune where "surr1 = 0xd800"
definition surr2 :: rune where "surr2 = 0xdc00"
definition surr3 :: rune where "surr3 = 0xe000"
definition surrSelf :: rune where "surrSelf = 0x10000"

definition IsSurrogate :: "rune \<Rightarrow> bool" where
  "IsSurrogate r \<longleftrightarrow> sint surr1 \<le> sint r \<and> sint r < sint surr3"

definition utf16_DecodeRune :: "rune \<Rightarrow> rune \<Rightarrow> rune" where
  "utf16_DecodeRune r1 r2 =
     (if sint surr1 \<le> sint r1 \<and> sint r1 < sint surr2 \<and> sint surr2 \<le> sint r2 \<and> sint r2 < sint surr3
      then (push_bit 10 (r1 - surr1) OR (r2 - surr2)) + 0x10000
      else replacementChar)"

definition utf16_EncodeRune :: "rune \<Rightarrow> rune \<times> rune" where
  "utf16_EncodeRune r =
     (if sint r < sint surrSelf \<or> sint r > sint maxRune \<or> IsSurrogate r
      then (replacementChar, replacementChar)
      else let r = r - surrSelf
           in (surr1 + (signed_drop_bit 10 r AND 0x3ff), surr2 + (r AND 0x3ff)))"

text \<open>The assignment \<open>a[n] = x\<close>.\<close>

definition store :: "'a list \<Rightarrow> nat \<Rightarrow> 'a \<Rightarrow> 'a list option" where
  "store a n x = (if n < length a then Some (a[n := x]) else None)"

fun Encode_loop :: "rune list \<Rightarrow> uint16 list \<Rightarrow> nat \<Rightarrow> (uint16 list \<times> nat) option" where
  "Encode_loop [] a n = Some (a, n)"
| "Encode_loop (v # s) a n =
     (if sint v < 0 \<or> (sint surr1 \<le> sint v \<and> sint v < sint surr3) \<or> sint v > sint maxRune then
        (case store a n (ucast replacementChar) of
           None \<Rightarrow> None
         | Some a \<Rightarrow> Encode_loop s a (n + 1))
      else if sint v < sint surrSelf then
        (case store a n (ucast v) of
           None \<Rightarrow> None
         | Some a \<Rightarrow> Encode_loop s a (n + 1))
      else
        (case utf16_EncodeRune v of
           (r1, r2) \<Rightarrow>
             (case store a n (ucast r1) of
                None \<Rightarrow> None
              | Some a \<Rightarrow>
                  (case store a (n + 1) (ucast r2) of
                     None \<Rightarrow> None
                   | Some a \<Rightarrow> Encode_loop s a (n + 2)))))"

definition Encode :: "rune list \<Rightarrow> uint16 list option" where
  "Encode s =
     (let n = foldl (\<lambda>n v. if sint v \<ge> sint surrSelf then n + 1 else n) (length s) s;
          a = replicate n 0
      in case Encode_loop s a 0 of None \<Rightarrow> None | Some (a, n) \<Rightarrow> Some (take n a))"

definition u16 :: "rune \<Rightarrow> uint16" where "u16 r = ucast r"

function Decode_loop :: "uint16 list \<Rightarrow> nat \<Rightarrow> rune list \<Rightarrow> nat \<Rightarrow> (rune list \<times> nat) option" where
  "Decode_loop s i a n =
     (if i < length s then
        let r = s ! i in
        if u16 surr1 \<le> r \<and> r < u16 surr2 \<and> i + 1 < length s \<and> u16 surr2 \<le> s ! (i + 1) \<and> s ! (i + 1) < u16 surr3
        then (case store a n (utf16_DecodeRune (ucast r) (ucast (s ! (i + 1)))) of
                None \<Rightarrow> None
              | Some a \<Rightarrow> Decode_loop s (i + 2) a (n + 1))
        else if u16 surr1 \<le> r \<and> r < u16 surr3
        then (case store a n replacementChar of
                None \<Rightarrow> None
              | Some a \<Rightarrow> Decode_loop s (i + 1) a (n + 1))
        else (case store a n (ucast r) of
                None \<Rightarrow> None
              | Some a \<Rightarrow> Decode_loop s (i + 1) a (n + 1))
      else Some (a, n))"
  by pat_completeness auto
termination
  by (relation "measure (\<lambda>(s, i, a, n). length s - i)") auto

declare Decode_loop.simps [simp del]

definition Decode :: "uint16 list \<Rightarrow> rune list option" where
  "Decode s =
     (case Decode_loop s 0 (replicate (length s) 0) 0 of None \<Rightarrow> None | Some (a, n) \<Rightarrow> Some (take n a))"

section \<open>Surrogate pairs\<close>

lemma sint16_consts:
  "sint surr1 = 0xD800" "sint surr2 = 0xDC00" "sint surr3 = 0xE000" "sint surrSelf = 0x10000" "sint maxRune = 0x10FFFF"
  by (simp_all add: surr1_def surr2_def surr3_def surrSelf_def maxRune_def)

lemma rune_minus:
  "unat c \<le> unat (r :: rune) \<Longrightarrow> unat (r - c) = unat r - unat c"
  by (simp add: unat_sub word_le_nat_alt)

lemma unat_encode_pair:
  assumes "0x10000 \<le> unat r" "unat r \<le> 0x10FFFF" "utf16_EncodeRune r = (r1, r2)"
  shows "unat r1 = 0xD800 + (unat r - 0x10000) div 1024" "unat r2 = 0xDC00 + (unat r - 0x10000) mod 1024"
proof -
  have b: "unat r < 2 ^ 31" using assms by simp
  let ?v = "r - surrSelf"
  have v: "unat ?v = unat r - 0x10000" using assms by (subst rune_minus) (simp_all add: surrSelf_def)
  have m: "(0x3ff :: rune) = mask 10" by (simp add: mask_eq_exp_minus_1)
  have h: "unat (signed_drop_bit 10 ?v AND 0x3ff) = (unat r - 0x10000) div 1024"
    unfolding m unat_and_mask using v assms by (subst signed_drop_bit_rune) (simp_all add: unat_drop_bit)
  have l: "unat (?v AND 0x3ff) = (unat r - 0x10000) mod 1024" unfolding m unat_and_mask v by simp
  have r: "r1 = surr1 + (signed_drop_bit 10 ?v AND 0x3ff)" "r2 = surr2 + (?v AND 0x3ff)"
    using assms by (auto simp: utf16_EncodeRune_def IsSurrogate_def sint_rune [OF b] sint16_consts Let_def
        simp del: of_nat_unat)
  have "(unat r - 0x10000) div 1024 < 1024" using assms by simp
  then show "unat r1 = 0xD800 + (unat r - 0x10000) div 1024"
    unfolding r using h by (subst unat_plus_if_size) (simp add: surr1_def word_size)
  show "unat r2 = 0xDC00 + (unat r - 0x10000) mod 1024"
    unfolding r using l by (subst unat_plus_if_size) (simp add: surr2_def word_size)
qed

lemma decode_pair:
  assumes "unat r1 = 0xD800 + x" "unat r2 = 0xDC00 + y" "x < 1024" "y < 1024"
  shows "unat (utf16_DecodeRune r1 r2) = 0x10000 + x * 1024 + y"
proof -
  have a: "unat (r1 - surr1) = x" "unat (r2 - surr2) = y"
    using assms by (subst rune_minus; simp add: surr1_def surr2_def)+
  have p: "unat (push_bit 10 (r1 - surr1)) = x * 1024" using a assms by (subst unat_push_bit) simp_all
  have j: "unat (push_bit 10 (r1 - surr1) OR (r2 - surr2)) = x * 1024 + y"
    using a p assms by (subst unat_join [of 10]) (simp_all add: take_bit_push_bit_zero)
  have "sint r1 = int (0xD800 + x)" "sint r2 = int (0xDC00 + y)"
    using assms by (subst sint_rune; simp)+
  then have "utf16_DecodeRune r1 r2 = (push_bit 10 (r1 - surr1) OR (r2 - surr2)) + 0x10000"
    using assms(3,4) by (simp add: utf16_DecodeRune_def sint16_consts)
  then show ?thesis using j assms by (simp add: unat_plus_if_size word_size)
qed

lemma pair_round_trip:
  assumes "0x10000 \<le> unat r" "unat r \<le> 0x10FFFF" "utf16_EncodeRune r = (r1, r2)"
  shows "utf16_DecodeRune r1 r2 = r"
proof -
  let ?v = "unat r - 0x10000"
  have "?v div 1024 < 1024" using assms(1,2) by simp
  then have "unat (utf16_DecodeRune r1 r2) = 0x10000 + ?v div 1024 * 1024 + ?v mod 1024"
    using decode_pair [OF unat_encode_pair [OF assms]] by simp
  also have "\<dots> = unat r" using assms(1) by simp
  finally show ?thesis by (rule unsigned_word_eqI)
qed

section \<open>Sequences\<close>

text \<open>The code units of one rune, and the runes of a sequence of code units.\<close>

definition enc16 :: "rune \<Rightarrow> uint16 list" where
  "enc16 r =
     (if \<not> ValidRune r then [0xFFFD]
      else if unat r < 0x10000 then [ucast r]
      else case utf16_EncodeRune r of (r1, r2) \<Rightarrow> [ucast r1, ucast r2])"

definition high_half :: "uint16 \<Rightarrow> bool" where
  "high_half u \<longleftrightarrow> 0xD800 \<le> unat u \<and> unat u < 0xDC00"

definition low_half :: "uint16 \<Rightarrow> bool" where
  "low_half u \<longleftrightarrow> 0xDC00 \<le> unat u \<and> unat u < 0xE000"

fun dec16 :: "uint16 list \<Rightarrow> rune list" where
  "dec16 [] = []"
| "dec16 [u] = [if high_half u \<or> low_half u then replacementChar else ucast u]"
| "dec16 (u # w # us) =
     (if high_half u \<and> low_half w then utf16_DecodeRune (ucast u) (ucast w) # dec16 us
      else (if high_half u \<or> low_half u then replacementChar else ucast u) # dec16 (w # us))"

lemma u16_consts:
  "u16 surr1 \<le> u \<longleftrightarrow> 0xD800 \<le> unat u" "u < u16 surr2 \<longleftrightarrow> unat u < 0xDC00"
  "u16 surr2 \<le> u \<longleftrightarrow> 0xDC00 \<le> unat u" "u < u16 surr3 \<longleftrightarrow> unat u < 0xE000"
  by (simp_all add: u16_def surr1_def surr2_def surr3_def word_le_nat_alt word_less_nat_alt)

lemma store_append: "store (pre @ x # rest) (length pre) y = Some (pre @ y # rest)"
  by (simp add: store_def)

lemma invalid_test:
  "sint v < 0 \<or> (sint surr1 \<le> sint v \<and> sint v < sint surr3) \<or> sint v > sint maxRune \<longleftrightarrow> \<not> ValidRune v"
  by (auto simp: ValidRune_def sint_consts sint16_consts)

lemma valid_self_test: "ValidRune v \<Longrightarrow> sint v < sint surrSelf \<longleftrightarrow> unat v < 0x10000"
proof -
  assume "ValidRune v"
  then have "unat v < 2 ^ 31" by (simp add: ValidRune_iff scalar_def)
  then show ?thesis by (simp add: sint_rune sint16_consts del: of_nat_unat)
qed

lemma Encode_loop_append:
  "length (concat (map enc16 s)) \<le> length rest \<Longrightarrow>
   Encode_loop s (pre @ rest) (length pre) =
     Some (pre @ concat (map enc16 s) @ drop (length (concat (map enc16 s))) rest,
           length pre + length (concat (map enc16 s)))"
proof (induction s arbitrary: pre rest)
  case (Cons v s)
  show ?case
  proof (cases "ValidRune v \<and> \<not> unat v < 0x10000")
    case True
    obtain r1 r2 where p: "utf16_EncodeRune v = (r1, r2)" by force
    then have e: "enc16 v = [ucast r1, ucast r2]" using True by (simp add: enc16_def)
    obtain x y rest' where rest: "rest = x # y # rest'"
      using Cons.prems e by (cases rest; cases "tl rest") auto
    have s2: "store (pre @ ucast r1 # y # rest') (length pre + 1) z = Some (pre @ ucast r1 # z # rest')" for z
      using store_append [of "pre @ [ucast r1]" y rest' z] by simp
    show ?thesis
      using True e rest p Cons.prems Cons.IH [of rest' "pre @ [ucast r1, ucast r2]"] s2
      by (simp add: invalid_test valid_self_test store_append)
  next
    case False
    define u where "u = (if ValidRune v then ucast v else ucast replacementChar :: uint16)"
    have e: "enc16 v = [u]" using False by (auto simp: enc16_def u_def replacementChar_def)
    obtain x rest' where rest: "rest = x # rest'" using Cons.prems e by (cases rest) auto
    show ?thesis
      using False e rest Cons.prems Cons.IH [of rest' "pre @ [u]"]
      by (auto simp: invalid_test valid_self_test store_append u_def)
  qed
qed simp

lemma count_bound:
  "length (concat (map enc16 s)) + k \<le> foldl (\<lambda>n v. if sint v \<ge> sint surrSelf then n + 1 else n) (k + length s) s"
proof (induction s arbitrary: k)
  case (Cons v s)
  have "ValidRune v \<Longrightarrow> \<not> unat v < 0x10000 \<Longrightarrow> sint v \<ge> sint surrSelf"
    using valid_self_test [of v] by simp
  then have "length (enc16 v) \<le> (if sint v \<ge> sint surrSelf then 2 else 1)"
    by (auto simp: enc16_def split: prod.split)
  then show ?case using Cons.IH [of "Suc k"] Cons.IH [of "Suc (Suc k)"] by (auto split: if_splits)
qed simp

lemma Encode_eq: "Encode s = Some (concat (map enc16 s))"
proof -
  let ?n = "foldl (\<lambda>n v. if sint v \<ge> sint surrSelf then n + 1 else n) (length s) s"
  have "length (concat (map enc16 s)) \<le> length (replicate ?n (0 :: uint16))"
    using count_bound [of s 0] by simp
  from Encode_loop_append [OF this, of "[]"] show ?thesis by (simp add: Encode_def Let_def)
qed

lemma Decode_loop_append:
  "length s - i \<le> length rest \<Longrightarrow>
   \<exists>rest'. Decode_loop s i (pre @ rest) (length pre) = Some (pre @ dec16 (drop i s) @ rest', length pre + length (dec16 (drop i s)))"
proof (induction "length s - i" arbitrary: i pre rest rule: less_induct)
  case less
  show ?case
  proof (cases "i < length s")
    case True
    obtain x rest' where rest: "rest = x # rest'" using True less.prems by (cases rest) auto
    let ?r = "if high_half (s ! i) \<or> low_half (s ! i) then replacementChar else ucast (s ! i)"
    show ?thesis
    proof (cases "high_half (s ! i) \<and> i + 1 < length s \<and> low_half (s ! (i + 1))")
      case p: True
      let ?d = "utf16_DecodeRune (ucast (s ! i)) (ucast (s ! (i + 1)))"
      have "drop i s = s ! i # s ! (i + 1) # drop (i + 2) s" using p by (simp add: Cons_nth_drop_Suc numeral_2_eq_2)
      then have d: "dec16 (drop i s) = ?d # dec16 (drop (i + 2) s)" using p by simp
      have "\<exists>rest''. Decode_loop s (i + 2) ((pre @ [?d]) @ rest') (length (pre @ [?d])) =
          Some ((pre @ [?d]) @ dec16 (drop (i + 2) s) @ rest'', length (pre @ [?d]) + length (dec16 (drop (i + 2) s)))"
        using less.prems True rest by (intro less.hyps) auto
      then show ?thesis using p True rest d
        by (subst Decode_loop.simps) (auto simp: u16_consts high_half_def low_half_def Let_def store_append)
    next
      case p: False
      have "drop i s = s ! i # drop (i + 1) s" using True by (simp add: Cons_nth_drop_Suc)
      moreover have "i + 1 < length s \<Longrightarrow> drop (i + 1) s = s ! (i + 1) # drop (i + 2) s"
        by (simp add: Cons_nth_drop_Suc numeral_2_eq_2)
      ultimately have d: "dec16 (drop i s) = ?r # dec16 (drop (i + 1) s)"
        using p by (cases "i + 1 < length s") auto
      have "\<exists>rest''. Decode_loop s (i + 1) ((pre @ [?r]) @ rest') (length (pre @ [?r])) =
          Some ((pre @ [?r]) @ dec16 (drop (i + 1) s) @ rest'', length (pre @ [?r]) + length (dec16 (drop (i + 1) s)))"
        using less.prems True rest by (intro less.hyps) auto
      moreover have "Decode_loop s i (pre @ rest) (length pre) = Decode_loop s (i + 1) ((pre @ [?r]) @ rest') (length (pre @ [?r]))"
        using p True rest
        by (subst Decode_loop.simps) (auto simp: u16_consts high_half_def low_half_def Let_def store_append)
      ultimately show ?thesis using d by auto
    qed
  next
    case False
    then show ?thesis by (subst Decode_loop.simps) simp
  qed
qed

lemma Decode_eq: "Decode s = Some (dec16 s)"
  using Decode_loop_append [of s 0 "replicate (length s) 0" "[]"] by (auto simp: Decode_def)

lemma unat_ucast16: "unat r < 2 ^ 16 \<Longrightarrow> unat (ucast (r :: rune) :: uint16) = unat r"
  by (simp add: unsigned_ucast_eq take_bit_nat_eq_self)

lemma ucast_ucast16: "unat r < 2 ^ 16 \<Longrightarrow> (ucast (ucast (r :: rune) :: uint16) :: rune) = r"
  by (rule unsigned_word_eqI [where 'a = nat]) (simp add: unsigned_ucast_eq unsigned_take_bit_eq take_bit_nat_eq_self)

lemma dec16_enc16: "dec16 (enc16 r @ q) = (if ValidRune r then r else replacementChar) # dec16 q"
proof -
  have single: "dec16 (ucast x # q) = x # dec16 q" if "scalar (unat x)" "unat x < 2 ^ 16" for x :: rune
  proof -
    have "\<not> high_half (ucast x)" "\<not> low_half (ucast x)"
      using that by (auto simp: high_half_def low_half_def unat_ucast16 scalar_def)
    then show ?thesis using that by (cases q) (auto simp: ucast_ucast16)
  qed
  consider "\<not> ValidRune r" | "ValidRune r" "unat r < 0x10000" | "ValidRune r" "0x10000 \<le> unat r" by linarith
  then show ?thesis
  proof cases
    case 1
    then show ?thesis using single [of replacementChar] by (simp add: enc16_def replacementChar_def scalar_def)
  next
    case 2
    then show ?thesis using single [of r] by (simp add: enc16_def ValidRune_iff)
  next
    case 3
    obtain r1 r2 where p: "utf16_EncodeRune r = (r1, r2)" by force
    have b: "unat r \<le> 0x10FFFF" using 3 by (simp add: ValidRune_iff scalar_def)
    note u = unat_encode_pair [OF 3(2) b p]
    have k: "(unat r - 0x10000) div 1024 < 1024" using b by simp
    have s: "unat r1 < 2 ^ 16" "unat r2 < 2 ^ 16" using u k by simp_all
    have "high_half (ucast r1)" "low_half (ucast r2)"
      using u k s by (simp_all add: high_half_def low_half_def unat_ucast16)
    then show ?thesis using 3 p s pair_round_trip [OF 3(2) b p] by (simp add: enc16_def ucast_ucast16)
  qed
qed

section \<open>Results\<close>

text \<open>
  C9. \<open>Encode\<close> and \<open>Decode\<close> never write outside the arrays they allocate, and decoding the encoding
  of any sequence of runes gives the sequence back, with U+FFFD for the runes that are no Unicode
  scalar values.
\<close>

theorem utf16_round_trip:
  "\<exists>us. Encode rs = Some us \<and> Decode us = Some (map (\<lambda>r. if ValidRune r then r else replacementChar) rs)"
proof -
  have "dec16 (concat (map enc16 rs)) = map (\<lambda>r. if ValidRune r then r else replacementChar) rs"
    by (induction rs) (simp_all add: dec16_enc16)
  then show ?thesis by (simp add: Encode_eq Decode_eq)
qed

end
