(* ===== verification/ListPkg.thy ===== *)
theory ListPkg
  imports Prelude "HOL-Library.Monad_Syntax"
begin

text \<open>
  Package container/list (\<open>src/src/pkg/container/list/list.go\<close>): doubly linked lists in an explicit
  store. A list is an address, an element is the address of a cell, and the sentinel \<open>&l.root\<close> of a
  list is a cell too. A nil pointer is \<open>None\<close>; reading or writing through it panics, which is the
  result \<open>None\<close> of an operation. The cells are shared between lists, so the effect of an operation
  on the other lists of the store is part of what is proved.
\<close>

datatype addr = RootOf nat | Elem nat

type_synonym ptr = "addr option"

record 'v Element =
  nextF :: ptr
  prevF :: ptr
  listF :: "nat option"
  ValueF :: "'v option"

definition zero_Element :: "'v Element" where
  "zero_Element = \<lparr>nextF = None, prevF = None, listF = None, ValueF = None\<rparr>"

record 'v Store =
  cells :: "addr \<Rightarrow> 'v Element"
  lens :: "nat \<Rightarrow> int"
  elems_alloc :: nat
  lists_alloc :: nat

definition empty_store :: "'v Store" where
  "empty_store = \<lparr>cells = (\<lambda>_. zero_Element), lens = (\<lambda>_. 0), elems_alloc = 0, lists_alloc = 0\<rparr>"

section \<open>Reading and writing through pointers\<close>

definition cell :: "'v Store \<Rightarrow> ptr \<Rightarrow> 'v Element option" where
  "cell h p = map_option (cells h) p"

definition upd :: "'v Store \<Rightarrow> ptr \<Rightarrow> ('v Element \<Rightarrow> 'v Element) \<Rightarrow> 'v Store option" where
  "upd h p f = map_option (\<lambda>a. h\<lparr>cells := (cells h)(a := f (cells h a))\<rparr>) p"

abbreviation set_next :: "'v Store \<Rightarrow> ptr \<Rightarrow> ptr \<Rightarrow> 'v Store option" where
  "set_next h p q \<equiv> upd h p (\<lambda>c. c\<lparr>nextF := q\<rparr>)"

abbreviation set_prev :: "'v Store \<Rightarrow> ptr \<Rightarrow> ptr \<Rightarrow> 'v Store option" where
  "set_prev h p q \<equiv> upd h p (\<lambda>c. c\<lparr>prevF := q\<rparr>)"

abbreviation set_list :: "'v Store \<Rightarrow> ptr \<Rightarrow> nat option \<Rightarrow> 'v Store option" where
  "set_list h p q \<equiv> upd h p (\<lambda>c. c\<lparr>listF := q\<rparr>)"

definition add_len :: "'v Store \<Rightarrow> nat \<Rightarrow> int \<Rightarrow> 'v Store" where
  "add_len h l d = h\<lparr>lens := (lens h)(l := lens h l + d)\<rparr>"

section \<open>The package\<close>

definition Next :: "'v Store \<Rightarrow> ptr \<Rightarrow> ptr option" where
  "Next h e = do {
     c \<leftarrow> cell h e;
     Some (case listF c of None \<Rightarrow> None | Some l \<Rightarrow> if nextF c \<noteq> Some (RootOf l) then nextF c else None) }"

definition Prev :: "'v Store \<Rightarrow> ptr \<Rightarrow> ptr option" where
  "Prev h e = do {
     c \<leftarrow> cell h e;
     Some (case listF c of None \<Rightarrow> None | Some l \<Rightarrow> if prevF c \<noteq> Some (RootOf l) then prevF c else None) }"

definition list_Init :: "'v Store \<Rightarrow> nat \<Rightarrow> 'v Store" where
  "list_Init h l =
     (let r = RootOf l; c = cells h r
      in h\<lparr>cells := (cells h)(r := c\<lparr>nextF := Some r, prevF := Some r\<rparr>), lens := (lens h)(l := 0)\<rparr>)"

definition list_New :: "'v Store \<Rightarrow> nat \<times> 'v Store" where
  "list_New h = (let l = lists_alloc h in (l, list_Init (h\<lparr>lists_alloc := l + 1\<rparr>) l))"

definition list_Len :: "'v Store \<Rightarrow> nat \<Rightarrow> int" where
  "list_Len h l = lens h l"

definition Front :: "'v Store \<Rightarrow> nat \<Rightarrow> ptr" where
  "Front h l = (if lens h l = 0 then None else nextF (cells h (RootOf l)))"

definition Back :: "'v Store \<Rightarrow> nat \<Rightarrow> ptr" where
  "Back h l = (if lens h l = 0 then None else prevF (cells h (RootOf l)))"

definition lazyInit :: "'v Store \<Rightarrow> nat \<Rightarrow> 'v Store" where
  "lazyInit h l = (if nextF (cells h (RootOf l)) = None then list_Init h l else h)"

definition list_insert :: "'v Store \<Rightarrow> nat \<Rightarrow> ptr \<Rightarrow> ptr \<Rightarrow> (ptr \<times> 'v Store) option" where
  "list_insert h l e at = do {
     c \<leftarrow> cell h at;
     let n = nextF c;
     h \<leftarrow> set_next h at e;
     h \<leftarrow> set_prev h e at;
     h \<leftarrow> set_next h e n;
     h \<leftarrow> set_prev h n e;
     h \<leftarrow> set_list h e (Some l);
     Some (e, add_len h l 1) }"

text \<open>\<open>&Element{Value: v}\<close> allocates a cell whose other fields are zero.\<close>

definition insertValue :: "'v Store \<Rightarrow> nat \<Rightarrow> 'v option \<Rightarrow> ptr \<Rightarrow> (ptr \<times> 'v Store) option" where
  "insertValue h l v at =
     (let k = elems_alloc h;
          h = h\<lparr>cells := (cells h)(Elem k := zero_Element\<lparr>ValueF := v\<rparr>), elems_alloc := k + 1\<rparr>
      in list_insert h l (Some (Elem k)) at)"

definition list_remove :: "'v Store \<Rightarrow> nat \<Rightarrow> ptr \<Rightarrow> (ptr \<times> 'v Store) option" where
  "list_remove h l e = do {
     c \<leftarrow> cell h e;
     h \<leftarrow> set_next h (prevF c) (nextF c);
     c \<leftarrow> cell h e;
     h \<leftarrow> set_prev h (nextF c) (prevF c);
     h \<leftarrow> set_next h e None;
     h \<leftarrow> set_prev h e None;
     h \<leftarrow> set_list h e None;
     Some (e, add_len h l (- 1)) }"

definition list_Remove :: "'v Store \<Rightarrow> nat \<Rightarrow> ptr \<Rightarrow> ('v option \<times> 'v Store) option" where
  "list_Remove h l e = do {
     c \<leftarrow> cell h e;
     h \<leftarrow> (if listF c = Some l then map_option snd (list_remove h l e) else Some h);
     c \<leftarrow> cell h e;
     Some (ValueF c, h) }"

definition PushFront :: "'v Store \<Rightarrow> nat \<Rightarrow> 'v option \<Rightarrow> (ptr \<times> 'v Store) option" where
  "PushFront h l v = insertValue (lazyInit h l) l v (Some (RootOf l))"

definition PushBack :: "'v Store \<Rightarrow> nat \<Rightarrow> 'v option \<Rightarrow> (ptr \<times> 'v Store) option" where
  "PushBack h l v = (let h = lazyInit h l in insertValue h l v (prevF (cells h (RootOf l))))"

definition InsertBefore :: "'v Store \<Rightarrow> nat \<Rightarrow> 'v option \<Rightarrow> ptr \<Rightarrow> (ptr \<times> 'v Store) option" where
  "InsertBefore h l v mark = do {
     c \<leftarrow> cell h mark;
     if listF c \<noteq> Some l then Some (None, h) else insertValue h l v (prevF c) }"

definition InsertAfter :: "'v Store \<Rightarrow> nat \<Rightarrow> 'v option \<Rightarrow> ptr \<Rightarrow> (ptr \<times> 'v Store) option" where
  "InsertAfter h l v mark = do {
     c \<leftarrow> cell h mark;
     if listF c \<noteq> Some l then Some (None, h) else insertValue h l v mark }"

definition MoveToFront :: "'v Store \<Rightarrow> nat \<Rightarrow> ptr \<Rightarrow> 'v Store option" where
  "MoveToFront h l e = do {
     c \<leftarrow> cell h e;
     if listF c \<noteq> Some l \<or> nextF (cells h (RootOf l)) = e then Some h
     else do {
       (e, h) \<leftarrow> list_remove h l e;
       map_option snd (list_insert h l e (Some (RootOf l))) } }"

text \<open>
  The second arguments \<open>l.root.prev\<close> and, in \<open>MoveBefore\<close>, \<open>mark.prev\<close> of \<open>insert\<close> are read after the
  call \<open>l.remove(e)\<close> in the first one, as the compiler orders them (the language leaves the order of
  a field operand and a call open).
\<close>

definition MoveToBack :: "'v Store \<Rightarrow> nat \<Rightarrow> ptr \<Rightarrow> 'v Store option" where
  "MoveToBack h l e = do {
     c \<leftarrow> cell h e;
     if listF c \<noteq> Some l \<or> prevF (cells h (RootOf l)) = e then Some h
     else do {
       (e, h) \<leftarrow> list_remove h l e;
       map_option snd (list_insert h l e (prevF (cells h (RootOf l)))) } }"

definition MoveBefore :: "'v Store \<Rightarrow> nat \<Rightarrow> ptr \<Rightarrow> ptr \<Rightarrow> 'v Store option" where
  "MoveBefore h l e mark = do {
     c \<leftarrow> cell h e;
     if listF c \<noteq> Some l \<or> e = mark then Some h
     else do {
       (e, h) \<leftarrow> list_remove h l e;
       c \<leftarrow> cell h mark;
       map_option snd (list_insert h l e (prevF c)) } }"

definition MoveAfter :: "'v Store \<Rightarrow> nat \<Rightarrow> ptr \<Rightarrow> ptr \<Rightarrow> 'v Store option" where
  "MoveAfter h l e mark = do {
     c \<leftarrow> cell h e;
     if listF c \<noteq> Some l \<or> e = mark then Some h
     else do {
       (e, h) \<leftarrow> list_remove h l e;
       map_option snd (list_insert h l e mark) } }"

text \<open>\<open>for i, e := other.Len(), other.Front(); i > 0; i, e = i-1, e.Next()\<close>; the count is \<open>i\<close>.\<close>

fun PushBackList_loop :: "'v Store \<Rightarrow> nat \<Rightarrow> nat \<Rightarrow> ptr \<Rightarrow> 'v Store option" where
  "PushBackList_loop h l 0 e = Some h"
| "PushBackList_loop h l (Suc i) e = do {
     c \<leftarrow> cell h e;
     (_, h) \<leftarrow> insertValue h l (ValueF c) (prevF (cells h (RootOf l)));
     e \<leftarrow> Next h e;
     PushBackList_loop h l i e }"

definition PushBackList :: "'v Store \<Rightarrow> nat \<Rightarrow> nat \<Rightarrow> 'v Store option" where
  "PushBackList h l other =
     (let h = lazyInit h l in PushBackList_loop h l (nat (list_Len h other)) (Front h other))"

fun PushFrontList_loop :: "'v Store \<Rightarrow> nat \<Rightarrow> nat \<Rightarrow> ptr \<Rightarrow> 'v Store option" where
  "PushFrontList_loop h l 0 e = Some h"
| "PushFrontList_loop h l (Suc i) e = do {
     c \<leftarrow> cell h e;
     (_, h) \<leftarrow> insertValue h l (ValueF c) (Some (RootOf l));
     e \<leftarrow> Prev h e;
     PushFrontList_loop h l i e }"

definition PushFrontList :: "'v Store \<Rightarrow> nat \<Rightarrow> nat \<Rightarrow> 'v Store option" where
  "PushFrontList h l other =
     (let h = lazyInit h l in PushFrontList_loop h l (nat (list_Len h other)) (Back h other))"

end
