(* ===== verification/Chains.thy ===== *)
theory Chains
  imports Main
begin

text \<open>
  Doubly linked chains and cycles, over the functions that read the next and the previous pointer of a node;
  container/list and container/ring are built of them.
\<close>

fun links :: "('a \<Rightarrow> 'a option) \<Rightarrow> ('a \<Rightarrow> 'a option) \<Rightarrow> 'a list \<Rightarrow> bool" where
  "links nx pv (a # b # ps) \<longleftrightarrow> nx a = Some b \<and> pv b = Some a \<and> links nx pv (b # ps)"
| "links nx pv ps \<longleftrightarrow> True"

lemma links_append: "links nx pv (us @ a # vs) \<longleftrightarrow> links nx pv (us @ [a]) \<and> links nx pv (a # vs)"
proof (induction us)
  case (Cons u us)
  then show ?case by (cases us) auto
qed simp

lemma links_cong:
  "links nx pv ps \<Longrightarrow> (\<And>a. a \<in> set (butlast ps) \<Longrightarrow> nx' a = nx a) \<Longrightarrow> (\<And>a. a \<in> set (tl ps) \<Longrightarrow> pv' a = pv a) \<Longrightarrow>
   links nx' pv' ps"
  by (induction nx pv ps rule: links.induct) auto

lemma links_cons: "ps \<noteq> [] \<Longrightarrow> links nx pv (a # ps) \<longleftrightarrow> nx a = Some (hd ps) \<and> pv (hd ps) = Some a \<and> links nx pv ps"
  by (cases ps) auto

lemma links_snoc: "ps \<noteq> [] \<Longrightarrow> links nx pv (ps @ [a]) \<longleftrightarrow> nx (last ps) = Some a \<and> pv a = Some (last ps) \<and> links nx pv ps"
proof -
  assume "ps \<noteq> []"
  then obtain us b where "ps = us @ [b]" by (cases ps rule: rev_cases) auto
  then show ?thesis using links_append [of nx pv us b "[a]"] by auto
qed

lemma links_join:
  "ps \<noteq> [] \<Longrightarrow> qs \<noteq> [] \<Longrightarrow> links nx pv (ps @ qs) \<longleftrightarrow>
   links nx pv ps \<and> nx (last ps) = Some (hd qs) \<and> pv (hd qs) = Some (last ps) \<and> links nx pv qs"
proof -
  assume ps: "ps \<noteq> []" and "qs \<noteq> []"
  then obtain q rs where qs: "qs = q # rs" by (cases qs) auto
  show ?thesis unfolding qs using links_append [of nx pv ps q rs] links_snoc [OF ps, of nx pv q] by auto
qed

section \<open>Cycles\<close>

definition cycle :: "('a \<Rightarrow> 'a option) \<Rightarrow> ('a \<Rightarrow> 'a option) \<Rightarrow> 'a list \<Rightarrow> bool" where
  "cycle nx pv xs \<longleftrightarrow> xs \<noteq> [] \<and> distinct xs \<and> links nx pv (xs @ [hd xs])"

lemma cycle_ends:
  "cycle nx pv (r # xs) \<Longrightarrow>
   nx r = Some (hd (xs @ [r])) \<and> pv (hd (xs @ [r])) = Some r \<and> pv r = Some (last (r # xs))"
  unfolding cycle_def using links_snoc [of "r # xs" nx pv r] by (cases xs) auto

lemma cycle_cong:
  "cycle nx pv xs \<Longrightarrow> (\<And>a. a \<in> set xs \<Longrightarrow> nx' a = nx a \<and> pv' a = pv a) \<Longrightarrow> cycle nx' pv' xs"
  unfolding cycle_def by (cases xs) (auto intro!: links_cong [of nx pv] split: if_splits)

lemma cycle_rotate: "cycle nx pv (us @ vs) \<Longrightarrow> us \<noteq> [] \<Longrightarrow> vs \<noteq> [] \<Longrightarrow> cycle nx pv (vs @ us)"
  unfolding cycle_def by (auto simp: links_join links_snoc)

text \<open>The cycle through a node is unique.\<close>

lemma cycle_nth:
  assumes "cycle nx pv xs" "i < length xs"
  shows "nx (xs ! i) = Some (xs ! (Suc i mod length xs)) \<and> pv (xs ! (Suc i mod length xs)) = Some (xs ! i)"
proof -
  obtain us a vs where xs: "xs = us @ a # vs" "length us = i" using assms(2) id_take_nth_drop by (metis length_take min.absorb2 less_imp_le)
  have "cycle nx pv ((a # vs) @ us)"
    using assms(1) cycle_rotate [of nx pv us "a # vs"] xs by (cases "us = []") auto
  then have "nx a = Some (hd (vs @ us @ [a])) \<and> pv (hd (vs @ us @ [a])) = Some a"
    using cycle_ends [of nx pv a "vs @ us"] by simp
  then show ?thesis using xs by (cases vs; cases us) (auto simp: nth_append)
qed

lemma cycle_prefix:
  assumes c: "cycle nx pv (a # xs)" "cycle nx pv (a # ys)"
  shows "i < length (a # xs) \<Longrightarrow> i < length (a # ys) \<Longrightarrow> (a # xs) ! i = (a # ys) ! i"
proof (induction i)
  case (Suc i)
  then show ?case using cycle_nth [OF c(1), of i] cycle_nth [OF c(2), of i] by simp
qed simp

lemma cycle_shorter:
  assumes c: "cycle nx pv (a # xs)" "cycle nx pv (a # ys)"
  shows "length ys \<le> length xs"
proof (rule ccontr)
  assume less: "\<not> length ys \<le> length xs"
  let ?n = "length xs"
  have "nx ((a # ys) ! ?n) = Some a" using cycle_nth [OF c(1), of ?n] cycle_prefix [OF c, of ?n] less by simp
  moreover have "nx ((a # ys) ! ?n) = Some ((a # ys) ! Suc ?n)" using cycle_nth [OF c(2), of ?n] less by simp
  ultimately have "(a # ys) ! Suc ?n = (a # ys) ! 0" by simp
  then have "a \<in> set ys" using less nth_mem [of ?n ys] by simp
  then show False using c(2) unfolding cycle_def by simp
qed

lemma cycle_unique:
  assumes "cycle nx pv (a # xs)" "cycle nx pv (a # ys)"
  shows "xs = ys"
proof -
  have "length xs = length ys" using cycle_shorter [OF assms] cycle_shorter [OF assms(2,1)] by simp
  then have "a # xs = a # ys" using cycle_prefix [OF assms] by (intro nth_equalityI) auto
  then show ?thesis by simp
qed

lemma cycle_from: "cycle nx pv xs \<Longrightarrow> a \<in> set xs \<Longrightarrow> \<exists>ys. cycle nx pv (a # ys) \<and> set (a # ys) = set xs \<and> length (a # ys) = length xs"
proof -
  assume c: "cycle nx pv xs" and "a \<in> set xs"
  then obtain us vs where xs: "xs = us @ a # vs" by (meson split_list)
  then have "cycle nx pv (a # vs @ us)" using c cycle_rotate [of nx pv us "a # vs"] by (cases "us = []") auto
  then show ?thesis using xs by (intro exI [of _ "vs @ us"]) auto
qed

lemma cycle_disjoint:
  assumes "cycle nx pv xs" "cycle nx pv ys" "set xs \<inter> set ys \<noteq> {}"
  shows "set xs = set ys"
proof -
  obtain a where "a \<in> set xs" "a \<in> set ys" using assms(3) by auto
  then show ?thesis using cycle_from [OF assms(1)] cycle_from [OF assms(2)] cycle_unique by metis
qed

section \<open>Cutting and joining\<close>

lemma last_butlast: "distinct xs \<Longrightarrow> xs \<noteq> [] \<Longrightarrow> last xs \<notin> set (butlast xs)"
  by (cases xs rule: rev_cases) auto

text \<open>
  Redirecting four pointers, from \<open>r\<close> to \<open>s\<close> and from \<open>p\<close> to \<open>n\<close>: it cuts \<open>xs\<close> out of a cycle when all four
  are on it, and puts one cycle into another otherwise.
\<close>

lemma cycle_cut:
  assumes c: "cycle nx pv (r # xs @ ts)"
    and s: "s = hd (ts @ [r])" and n: "n = hd (xs @ [s])" and p: "p = last (r # xs)"
  defines "nx' \<equiv> nx(r := Some s, p := Some n)" and "pv' \<equiv> pv(s := Some r, n := Some p)"
  shows "cycle nx' pv' (r # ts)" "xs \<noteq> [] \<Longrightarrow> cycle nx' pv' xs"
proof -
  have d: "distinct (r # xs @ ts)" and l: "links nx pv ((r # xs) @ (ts @ [r]))" using c by (auto simp: cycle_def)
  have "links nx pv (r # xs)" and lt: "links nx pv (ts @ [r])" using l links_join [of "r # xs" "ts @ [r]"] by auto
  then have lx: "links nx pv xs" by (cases xs) auto
  have st: "s \<in> set (ts @ [r])" using s by (cases ts) auto
  have pn: "p \<in> set (r # xs)" "n = s \<or> n \<in> set xs" using n p last_in_set [of "r # xs"] by (auto simp: hd_append)
  have "links nx' pv' (ts @ [r])" using lt
  proof (rule links_cong)
    fix a assume "a \<in> set (butlast (ts @ [r]))"
    then show "nx' a = nx a" using d pn(1) by (auto simp: nx'_def)
  next
    fix a assume "a \<in> set (tl (ts @ [r]))"
    then have "a \<noteq> s" "a \<notin> set xs" using d s by (cases ts; auto)+
    then show "pv' a = pv a" using pn(2) by (auto simp: pv'_def)
  qed
  moreover have "nx' r = Some s \<and> pv' s = Some r"
    using d st n p by (cases xs) (auto simp: nx'_def pv'_def split: if_splits)
  ultimately show "cycle nx' pv' (r # ts)" using d s by (simp add: cycle_def links_cons)
  assume x: "xs \<noteq> []"
  then have np: "n = hd xs" "p = last xs" using n p by auto
  have "links nx' pv' xs" using lx
  proof (rule links_cong)
    fix a assume "a \<in> set (butlast xs)"
    moreover have "last xs \<notin> set (butlast xs)" using d x by (intro last_butlast) auto
    ultimately show "nx' a = nx a" using d np by (auto simp: nx'_def dest: in_set_butlastD)
  next
    fix a assume "a \<in> set (tl xs)"
    then show "pv' a = pv a" using d np st x by (cases xs) (auto simp: pv'_def)
  qed
  moreover have "nx' (last xs) = Some (hd xs) \<and> pv' (hd xs) = Some (last xs)" by (simp add: nx'_def pv'_def np)
  ultimately show "cycle nx' pv' xs" using d x by (simp add: cycle_def links_snoc)
qed

lemma cycle_merge:
  assumes c: "cycle nx pv (r # xs)" "cycle nx pv (s # ys)" "set (r # xs) \<inter> set (s # ys) = {}"
    and n: "n = hd (xs @ [r])" and p: "p = last (s # ys)"
  shows "cycle (nx(r := Some s, p := Some n)) (pv(s := Some r, n := Some p)) (r # s # ys @ xs)"
    (is "cycle ?nx ?pv _")
proof -
  have d: "distinct (r # s # ys @ xs)" using c by (auto simp: cycle_def)
  have lx: "links nx pv (xs @ [r])" using c(1) by (auto simp: cycle_def links_cons)
  have ly: "links nx pv (s # ys)" using c(2) links_snoc [of "s # ys" nx pv s] by (auto simp: cycle_def)
  have pn: "p \<in> set (s # ys)" "n \<in> set (r # xs)" using n p last_in_set [of "s # ys"] by (auto simp: hd_append)
  have "links ?nx ?pv (xs @ [r])" using lx
  proof (rule links_cong)
    fix a assume "a \<in> set (butlast (xs @ [r]))"
    then show "?nx a = nx a" using d pn(1) by auto
  next
    fix a assume "a \<in> set (tl (xs @ [r]))"
    then have "a \<noteq> n" "a \<noteq> s" using d n by (cases xs; auto)+
    then show "?pv a = pv a" by simp
  qed
  moreover have "links ?nx ?pv (s # ys)" using ly
  proof (rule links_cong)
    have "last (s # ys) \<notin> set (butlast (s # ys))" using d by (intro last_butlast) auto
    moreover fix a assume "a \<in> set (butlast (s # ys))"
    ultimately show "?nx a = nx a" using d p in_set_butlastD [of a "s # ys"] by auto
  next
    fix a assume "a \<in> set (tl (s # ys))"
    then show "?pv a = pv a" using d pn(2) by auto
  qed
  moreover have "?nx r = Some s" "?pv s = Some r" "?nx p = Some n" "?pv n = Some p" using d pn by auto
  ultimately have "links ?nx ?pv (r # (s # ys) @ (xs @ [r]))"
    using links_join [of "s # ys" "xs @ [r]" ?nx ?pv] n p by simp
  then show ?thesis using d by (simp add: cycle_def)
qed

end
