(* ===== verification/ListCorrect.thy ===== *)
theory ListCorrect
  imports ListPkg Chains
begin

text \<open>
  The lists of a store as sequences of element addresses. \<open>list_inv h S\<close> says that every list \<open>l\<close> of
  the store \<open>h\<close> is the ring of its sentinel and the elements \<open>S l\<close>, that the \<open>list\<close> field of an
  element names exactly the list it is in, and that the length fields are right. Each operation
  keeps the invariant with \<open>S\<close> changed at one list the way the operation says: the linked structure
  refines a map from lists to sequences.
\<close>

text \<open>Splicing a node into and out of a chain.\<close>

lemma links_insert:
  assumes l: "links nx pv (us @ a # b # vs)"
    and d: "distinct (us @ a # butlast (b # vs))" "distinct (tl (us @ [a]) @ b # vs)"
    and e: "e \<notin> set (us @ a # b # vs)"
  shows "links (nx(a := Some e, e := Some b)) (pv(e := Some a, b := Some e)) (us @ a # e # b # vs)"
proof -
  have 1: "links nx pv (us @ [a])" and 2: "links nx pv (b # vs)"
    using l links_append [of nx pv us a "b # vs"] by auto
  have "links (nx(a := Some e, e := Some b)) (pv(e := Some a, b := Some e)) (us @ [a])"
    using 1 by (rule links_cong) (use d e in \<open>auto dest: list.set_sel(2) [rotated]\<close>)
  moreover have "links (nx(a := Some e, e := Some b)) (pv(e := Some a, b := Some e)) (b # vs)"
    using 2 by (rule links_cong) (use d e in \<open>auto dest: in_set_butlastD split: if_splits\<close>)
  moreover have "a \<noteq> e" "b \<noteq> e" using e by auto
  ultimately show ?thesis using links_append [of _ _ us a "e # b # vs"] by simp
qed

lemma links_remove:
  assumes l: "links nx pv (us @ a # e # b # vs)"
    and d: "distinct (us @ a # butlast (b # vs))" "distinct (tl (us @ [a]) @ b # vs)"
    and e: "e \<notin> set (us @ a # b # vs)"
  shows "links (nx(a := Some b, e := None)) (pv(b := Some a, e := None)) (us @ a # b # vs)"
proof -
  have 1: "links nx pv (us @ [a])" and 2: "links nx pv (b # vs)"
    using l links_append [of nx pv us a "e # b # vs"] by auto
  have "links (nx(a := Some b, e := None)) (pv(b := Some a, e := None)) (us @ [a])"
    using 1 by (rule links_cong) (use d e in \<open>auto dest: list.set_sel(2) [rotated]\<close>)
  moreover have "links (nx(a := Some b, e := None)) (pv(b := Some a, e := None)) (b # vs)"
    using 2 by (rule links_cong) (use d e in \<open>auto dest: in_set_butlastD split: if_splits\<close>)
  moreover have "a \<noteq> e" "b \<noteq> e" using e by auto
  ultimately show ?thesis using links_append [of _ _ us a "b # vs"] by simp
qed

section \<open>The two primitive operations\<close>

abbreviation nx :: "'v Store \<Rightarrow> addr \<Rightarrow> ptr" where "nx h a \<equiv> nextF (cells h a)"
abbreviation pv :: "'v Store \<Rightarrow> addr \<Rightarrow> ptr" where "pv h a \<equiv> prevF (cells h a)"
abbreviation ls :: "'v Store \<Rightarrow> addr \<Rightarrow> nat option" where "ls h a \<equiv> listF (cells h a)"
abbreviation vl :: "'v Store \<Rightarrow> addr \<Rightarrow> 'v option" where "vl h a \<equiv> ValueF (cells h a)"

lemma list_insert_effect:
  assumes "nx h at = Some n" "e \<noteq> at" "e \<noteq> n"
  shows "\<exists>h'. list_insert h l (Some e) (Some at) = Some (Some e, h') \<and>
    nx h' = (nx h)(at := Some e, e := Some n) \<and>
    pv h' = (pv h)(e := Some at, n := Some e) \<and>
    ls h' = (ls h)(e := Some l) \<and>
    vl h' = vl h \<and>
    lens h' = (lens h)(l := lens h l + 1) \<and>
    elems_alloc h' = elems_alloc h \<and>
    lists_alloc h' = lists_alloc h"
  using assms by (simp add: list_insert_def cell_def upd_def add_len_def fun_eq_iff)

lemma list_remove_effect:
  assumes "nx h e = Some n" "pv h e = Some p" "e \<noteq> p" "e \<noteq> n"
  shows "\<exists>h'. list_remove h l (Some e) = Some (Some e, h') \<and>
    nx h' = (nx h)(p := Some n, e := None) \<and>
    pv h' = (pv h)(n := Some p, e := None) \<and>
    ls h' = (ls h)(e := None) \<and>
    vl h' = vl h \<and>
    lens h' = (lens h)(l := lens h l - 1) \<and>
    elems_alloc h' = elems_alloc h \<and>
    lists_alloc h' = lists_alloc h"
  using assms by (simp add: list_remove_def cell_def upd_def add_len_def fun_eq_iff)

section \<open>The invariant\<close>

definition nodes :: "nat \<Rightarrow> nat list \<Rightarrow> addr list" where
  "nodes l xs = RootOf l # map Elem xs @ [RootOf l]"

definition ring :: "'v Store \<Rightarrow> nat \<Rightarrow> nat list \<Rightarrow> bool" where
  "ring h l xs \<longleftrightarrow> links (nx h) (pv h) (nodes l xs)"

text \<open>A list whose sentinel has a nil \<open>next\<close> is the zero value, an empty list.\<close>

definition list_inv :: "'v Store \<Rightarrow> (nat \<Rightarrow> nat list) \<Rightarrow> bool" where
  "list_inv h S \<longleftrightarrow>
     (\<forall>l. distinct (S l) \<and> lens h l = int (length (S l)) \<and>
        (ring h l (S l) \<or> S l = [] \<and> nx h (RootOf l) = None)) \<and>
     (\<forall>k l. ls h (Elem k) = Some l \<longleftrightarrow> k \<in> set (S l)) \<and>
     (\<forall>l. \<forall>k \<in> set (S l). k < elems_alloc h)"

lemma list_invD:
  assumes "list_inv h S"
  shows "distinct (S l)" "lens h l = int (length (S l))" "ring h l (S l) \<or> S l = [] \<and> nx h (RootOf l) = None"
    "ls h (Elem k) = Some l \<longleftrightarrow> k \<in> set (S l)" "k \<in> set (S l) \<Longrightarrow> k < elems_alloc h"
    "k \<in> set (S l) \<Longrightarrow> k \<in> set (S m) \<Longrightarrow> m = l"
  using assms unfolding list_inv_def by (blast, blast, blast, blast, blast, metis option.inject)

lemma ring_frame:
  assumes "ring h m ys"
    "\<And>a. a \<in> set (nodes m ys) \<Longrightarrow> nx h' a = nx h a" "\<And>a. a \<in> set (nodes m ys) \<Longrightarrow> pv h' a = pv h a"
  shows "ring h' m ys"
  using assms(1) unfolding ring_def
  by (rule links_cong) (use assms(2,3) in \<open>auto dest: in_set_butlastD simp: nodes_def\<close>)

lemma ring_head: "ring h l xs \<Longrightarrow> nx h (RootOf l) = Some (hd (map Elem xs @ [RootOf l]))"
  by (cases xs) (auto simp: ring_def nodes_def)

lemma links_last: "links n p (us @ [a, b]) \<Longrightarrow> p b = Some a"
  using links_append [of n p us a "[b]"] by simp

lemma ring_last: "ring h l xs \<Longrightarrow> pv h (RootOf l) = Some (last (RootOf l # map Elem xs))"
proof (cases xs rule: rev_cases)
  case (snoc ys y)
  assume "ring h l xs"
  then show ?thesis using links_last [of _ _ "RootOf l # map Elem ys" "Elem y" "RootOf l"] snoc
    by (simp add: ring_def nodes_def)
qed (simp add: ring_def nodes_def)

text \<open>
  The ring of a list around a position: the nodes before it, the neighbours, the nodes after it.
\<close>

lemma nodes_split:
  "nodes l (xs @ ys) = butlast (RootOf l # map Elem xs) @ last (RootOf l # map Elem xs) # hd (map Elem ys @ [RootOf l]) # tl (map Elem ys @ [RootOf l])"
proof -
  have "nodes l (xs @ ys) = (RootOf l # map Elem xs) @ (map Elem ys @ [RootOf l])" by (simp add: nodes_def)
  also have "RootOf l # map Elem xs = butlast (RootOf l # map Elem xs) @ [last (RootOf l # map Elem xs)]" by simp
  also have "map Elem ys @ [RootOf l] = hd (map Elem ys @ [RootOf l]) # tl (map Elem ys @ [RootOf l])" by simp
  finally show ?thesis by simp
qed

lemma distinct_nodes:
  "distinct xs \<Longrightarrow> distinct (butlast (nodes l xs))" "distinct xs \<Longrightarrow> distinct (tl (nodes l xs))"
  by (auto simp: nodes_def butlast_append distinct_map inj_on_def)

lemma set_nodes: "set (nodes l xs) = insert (RootOf l) (Elem ` set xs)"
  by (auto simp: nodes_def)

lemma butlast_split: "butlast (us @ a # b # vs) = us @ a # butlast (b # vs)"
  by (simp add: butlast_append)

lemma tl_split: "tl (us @ a # b # vs) = tl (us @ [a]) @ b # vs"
  by (cases us) auto

lemma links_mid: "links n p (us @ a # b # vs) \<Longrightarrow> n a = Some b \<and> p b = Some a"
  using links_append [of n p us a "b # vs"] by simp

lemma ring_links:
  assumes "ring h l (xs @ ys)"
  shows "nx h (last (RootOf l # map Elem xs)) = Some (hd (map Elem ys @ [RootOf l]))"
    "pv h (hd (map Elem ys @ [RootOf l])) = Some (last (RootOf l # map Elem xs))"
  using links_mid [OF assms [unfolded ring_def nodes_split]] by simp_all

lemma pos_nodes:
  "last (RootOf l # map Elem xs) \<in> set (nodes l (xs @ ys))" "hd (map Elem ys @ [RootOf l]) \<in> set (nodes l (xs @ ys))"
  by (cases xs rule: rev_cases; auto simp: set_nodes) (cases ys; auto simp: set_nodes)

lemma ring_insert:
  assumes r: "ring h l (xs @ ys)" and d: "distinct (xs @ ys)" and k: "k \<notin> set (xs @ ys)"
    and "nx h' = (nx h)(last (RootOf l # map Elem xs) := Some (Elem k), Elem k := Some (hd (map Elem ys @ [RootOf l])))"
    and "pv h' = (pv h)(Elem k := Some (last (RootOf l # map Elem xs)), hd (map Elem ys @ [RootOf l]) := Some (Elem k))"
  shows "ring h' l (xs @ k # ys)"
proof -
  have n: "Elem k \<notin> set (nodes l (xs @ ys))" using k by (auto simp: set_nodes)
  have "nodes l (xs @ k # ys) = butlast (RootOf l # map Elem xs) @ last (RootOf l # map Elem xs) # Elem k #
      hd (map Elem ys @ [RootOf l]) # tl (map Elem ys @ [RootOf l])"
    using nodes_split [of l xs "k # ys"] by simp
  then show ?thesis
    using links_insert [OF r [unfolded ring_def nodes_split]] distinct_nodes [OF d, of l] n assms(4,5)
    unfolding ring_def nodes_split butlast_split tl_split by simp
qed

lemma ring_remove:
  assumes r: "ring h l (xs @ k # ys)" and d: "distinct (xs @ k # ys)"
    and "nx h' = (nx h)(last (RootOf l # map Elem xs) := Some (hd (map Elem ys @ [RootOf l])), Elem k := None)"
    and "pv h' = (pv h)(hd (map Elem ys @ [RootOf l]) := Some (last (RootOf l # map Elem xs)), Elem k := None)"
  shows "ring h' l (xs @ ys)"
proof -
  have n: "Elem k \<notin> set (nodes l (xs @ ys))" and d': "distinct (xs @ ys)" using d by (auto simp: set_nodes)
  have e: "nodes l (xs @ k # ys) = butlast (RootOf l # map Elem xs) @ last (RootOf l # map Elem xs) # Elem k #
      hd (map Elem ys @ [RootOf l]) # tl (map Elem ys @ [RootOf l])"
    using nodes_split [of l xs "k # ys"] by simp
  show ?thesis
    using links_remove [OF r [unfolded ring_def e]] distinct_nodes [OF d', of l] n assms(3,4)
    unfolding ring_def nodes_split butlast_split tl_split by simp
qed

text \<open>A change of links inside the nodes of one list leaves the other lists alone.\<close>

lemma other_lists:
  assumes inv: "list_inv h S" and m: "m \<noteq> l" and k: "k \<notin> set (S m)"
    and nx: "\<And>a. a \<notin> set (nodes l (S l)) \<Longrightarrow> a \<noteq> Elem k \<Longrightarrow> nx h' a = nx h a"
    and pv: "\<And>a. a \<notin> set (nodes l (S l)) \<Longrightarrow> a \<noteq> Elem k \<Longrightarrow> pv h' a = pv h a"
  shows "ring h' m (S m) \<or> S m = [] \<and> nx h' (RootOf m) = None"
proof -
  have disj: "a \<notin> set (nodes l (S l)) \<and> a \<noteq> Elem k" if "a \<in> set (nodes m (S m))" for a
    using that m k list_invD(6) [OF inv] by (auto simp: set_nodes)
  from list_invD(3) [OF inv, of m] show ?thesis
  proof
    assume "ring h m (S m)"
    then show ?thesis using ring_frame [of h m "S m" h'] disj nx pv by blast
  next
    assume "S m = [] \<and> nx h (RootOf m) = None"
    moreover have "nx h' (RootOf m) = nx h (RootOf m)" using disj [of "RootOf m"] nx by (simp add: set_nodes)
    ultimately show ?thesis by simp
  qed
qed

lemma inv_insert:
  assumes inv: "list_inv h S" and S: "S l = xs @ ys" and r: "ring h l (xs @ ys)"
    and k: "ls h (Elem k) = None" "k < elems_alloc h"
  shows "\<exists>h'. list_insert h l (Some (Elem k)) (Some (last (RootOf l # map Elem xs))) = Some (Some (Elem k), h') \<and>
    list_inv h' (S(l := xs @ k # ys)) \<and> vl h' = vl h \<and> elems_alloc h' = elems_alloc h \<and>
    lists_alloc h' = lists_alloc h \<and> ring h' l (xs @ k # ys)"
proof -
  let ?a = "last (RootOf l # map Elem xs)" and ?b = "hd (map Elem ys @ [RootOf l])"
  have new: "k \<notin> set (S m)" for m using list_invD(4) [OF inv, of k m] k(1) by simp
  have ab: "?a \<in> set (nodes l (S l))" "?b \<in> set (nodes l (S l))" unfolding S by (rule pos_nodes)+
  have ne: "Elem k \<noteq> ?a" "Elem k \<noteq> ?b" using ab new [of l] by (auto simp: set_nodes)
  obtain h' where h': "list_insert h l (Some (Elem k)) (Some ?a) = Some (Some (Elem k), h')"
    "nx h' = (nx h)(?a := Some (Elem k), Elem k := Some ?b)" "pv h' = (pv h)(Elem k := Some ?a, ?b := Some (Elem k))"
    "ls h' = (ls h)(Elem k := Some l)" "vl h' = vl h" "lens h' = (lens h)(l := lens h l + 1)"
    "elems_alloc h' = elems_alloc h" "lists_alloc h' = lists_alloc h"
    using list_insert_effect [OF ring_links(1) [OF r] ne, of l] by blast
  have d: "distinct (xs @ ys)" and kn: "k \<notin> set (xs @ ys)" using list_invD(1) [OF inv, of l] new [of l] S by auto
  have rg: "ring h' l (xs @ k # ys)" using ring_insert [OF r d kn h'(2,3)] .
  have oth: "ring h' m (S m) \<or> S m = [] \<and> nx h' (RootOf m) = None" if "m \<noteq> l" for m
    using inv that new [of m] by (rule other_lists) (use ab in \<open>auto simp: fun_cong [OF h'(2)] fun_cong [OF h'(3)]\<close>)
  have "list_inv h' (S(l := xs @ k # ys))"
    unfolding list_inv_def
  proof (intro conjI allI ballI)
    fix m
    show "distinct ((S(l := xs @ k # ys)) m)" using list_invD(1) [OF inv, of m] d kn by auto
    show "lens h' m = int (length ((S(l := xs @ k # ys)) m))"
      using list_invD(2) [OF inv, of m] list_invD(2) [OF inv, of l] by (simp add: h'(6) S)
    show "ring h' m ((S(l := xs @ k # ys)) m) \<or> (S(l := xs @ k # ys)) m = [] \<and> nx h' (RootOf m) = None"
      using rg oth by (cases "m = l") auto
    show "ls h' (Elem i) = Some m \<longleftrightarrow> i \<in> set ((S(l := xs @ k # ys)) m)" for i
      using list_invD(4) [OF inv, of i m] new [of m] S by (auto simp: fun_cong [OF h'(4)])
    show "i < elems_alloc h'" if "i \<in> set ((S(l := xs @ k # ys)) m)" for i
      using that list_invD(5) [OF inv, of i m] k(2) S by (auto simp: h'(7) split: if_splits)
  qed
  then show ?thesis using h' rg by blast
qed

lemma inv_remove:
  assumes inv: "list_inv h S" and S: "S l = xs @ k # ys"
  shows "\<exists>h'. list_remove h l (Some (Elem k)) = Some (Some (Elem k), h') \<and>
    list_inv h' (S(l := xs @ ys)) \<and> vl h' = vl h \<and> elems_alloc h' = elems_alloc h \<and>
    lists_alloc h' = lists_alloc h \<and> ls h' (Elem k) = None \<and> ring h' l (xs @ ys)"
proof -
  let ?a = "last (RootOf l # map Elem xs)" and ?b = "hd (map Elem ys @ [RootOf l])"
  have r: "ring h l (xs @ k # ys)" using list_invD(3) [OF inv, of l] S by auto
  have d: "distinct (xs @ k # ys)" using list_invD(1) [OF inv, of l] S by simp
  have l1: "pv h (Elem k) = Some ?a" using ring_links(2) [OF r] by simp
  have l2: "nx h (Elem k) = Some ?b" using ring_links(1) [of h l "xs @ [k]" ys] r by simp
  have ab: "?a \<in> set (nodes l (xs @ ys))" "?b \<in> set (nodes l (xs @ ys))" by (rule pos_nodes)+
  have ne: "Elem k \<noteq> ?a" "Elem k \<noteq> ?b" using ab d by (auto simp: set_nodes)
  obtain h' where h': "list_remove h l (Some (Elem k)) = Some (Some (Elem k), h')"
    "nx h' = (nx h)(?a := Some ?b, Elem k := None)" "pv h' = (pv h)(?b := Some ?a, Elem k := None)"
    "ls h' = (ls h)(Elem k := None)" "vl h' = vl h" "lens h' = (lens h)(l := lens h l - 1)"
    "elems_alloc h' = elems_alloc h" "lists_alloc h' = lists_alloc h"
    using list_remove_effect [OF l2 l1 ne, of l] by blast
  have rg: "ring h' l (xs @ ys)" using ring_remove [OF r d h'(2,3)] .
  have ab': "?a \<in> set (nodes l (S l))" "?b \<in> set (nodes l (S l))" using ab S by (auto simp: set_nodes)
  have nm: "k \<notin> set (S m)" if "m \<noteq> l" for m using list_invD(6) [OF inv, of k l m] that S by auto
  have oth: "ring h' m (S m) \<or> S m = [] \<and> nx h' (RootOf m) = None" if "m \<noteq> l" for m
    using inv that nm [OF that] by (rule other_lists) (use ab' in \<open>auto simp: fun_cong [OF h'(2)] fun_cong [OF h'(3)]\<close>)
  have "list_inv h' (S(l := xs @ ys))"
    unfolding list_inv_def
  proof (intro conjI allI ballI)
    fix m
    show "distinct ((S(l := xs @ ys)) m)" using list_invD(1) [OF inv, of m] d by auto
    show "lens h' m = int (length ((S(l := xs @ ys)) m))"
      using list_invD(2) [OF inv, of m] list_invD(2) [OF inv, of l] by (simp add: h'(6) S)
    show "ring h' m ((S(l := xs @ ys)) m) \<or> (S(l := xs @ ys)) m = [] \<and> nx h' (RootOf m) = None"
      using rg oth by (cases "m = l") auto
    show "ls h' (Elem i) = Some m \<longleftrightarrow> i \<in> set ((S(l := xs @ ys)) m)" for i
      using list_invD(4) [OF inv, of i m] nm [of m] S d by (auto simp: fun_cong [OF h'(4)])
    show "i < elems_alloc h'" if "i \<in> set ((S(l := xs @ ys)) m)" for i
      using that list_invD(5) [OF inv, of i m] S by (auto simp: h'(7) split: if_splits)
  qed
  then show ?thesis using h' rg fun_cong [OF h'(4), of "Elem k"] by auto
qed

section \<open>The exported operations\<close>

lemma vl_fun_eq: "vl h' = vl h \<Longrightarrow> ValueF (cells h' a) = ValueF (cells h a)"
  by (rule fun_cong)

lemma inv_lazyInit:
  assumes inv: "list_inv h S"
  shows "list_inv (lazyInit h l) S" "ring (lazyInit h l) l (S l)" "vl (lazyInit h l) = vl h"
    "elems_alloc (lazyInit h l) = elems_alloc h" "lists_alloc (lazyInit h l) = lists_alloc h"
proof -
  let ?h = "lazyInit h l"
  have ring: "ring ?h m (S m) \<or> S m = [] \<and> nx ?h (RootOf m) = None"
    and lring: "ring ?h l (S l)" for m
  proof -
    show lr: "ring ?h l (S l)"
    proof (cases "nx h (RootOf l) = None")
      case True
      then have "S l = []" using list_invD(3) [OF inv, of l] ring_head by fastforce
      then show ?thesis using True by (simp add: lazyInit_def list_Init_def Let_def ring_def nodes_def)
    next
      case False
      then show ?thesis using list_invD(3) [OF inv, of l] by (auto simp: lazyInit_def)
    qed
    have c: "cells ?h a = cells h a" if "a \<noteq> RootOf l" for a
      using that by (simp add: lazyInit_def list_Init_def Let_def)
    have "ring ?h m (S m)" if "m \<noteq> l" "ring h m (S m)"
      using that(2) by (rule ring_frame) (use c that(1) in \<open>auto simp: set_nodes\<close>)
    then show "ring ?h m (S m) \<or> S m = [] \<and> nx ?h (RootOf m) = None"
      using lr list_invD(3) [OF inv, of m] c [of "RootOf m"] by (cases "m = l") auto
  qed
  show "ring ?h l (S l)" by (rule lring)
  have z: "nx h (RootOf l) = None \<Longrightarrow> S l = []" using list_invD(3) [OF inv, of l] ring_head by fastforce
  have e: "cells ?h (Elem k) = cells h (Elem k)" for k by (simp add: lazyInit_def list_Init_def Let_def)
  have len: "lens ?h m = lens h m" for m
    using z list_invD(2) [OF inv, of l] by (auto simp: lazyInit_def list_Init_def Let_def)
  show al: "elems_alloc ?h = elems_alloc h" "lists_alloc ?h = lists_alloc h"
    by (simp_all add: lazyInit_def list_Init_def Let_def)
  show "vl ?h = vl h" by (auto simp: fun_eq_iff lazyInit_def list_Init_def Let_def)
  show "list_inv ?h S"
    unfolding list_inv_def e len al using list_invD(1,2,4,5) [OF inv] ring by blast
qed

lemma inv_insertValue:
  assumes inv: "list_inv h S" and S: "S l = xs @ ys" and r: "ring h l (xs @ ys)"
  shows "\<exists>h'. insertValue h l v (Some (last (RootOf l # map Elem xs))) = Some (Some (Elem (elems_alloc h)), h') \<and>
    list_inv h' (S(l := xs @ elems_alloc h # ys)) \<and> vl h' = (vl h)(Elem (elems_alloc h) := v) \<and>
    elems_alloc h' = Suc (elems_alloc h) \<and> lists_alloc h' = lists_alloc h \<and> ring h' l (xs @ elems_alloc h # ys)"
proof -
  let ?k = "elems_alloc h"
  let ?h = "h\<lparr>cells := (cells h)(Elem ?k := zero_Element\<lparr>ValueF := v\<rparr>), elems_alloc := ?k + 1\<rparr>"
  have new: "?k \<notin> set (S m)" for m using list_invD(5) [OF inv, of ?k m] by auto
  have fr: "ring ?h m (S m)" if "ring h m (S m)" for m
    using that by (rule ring_frame) (use new [of m] in \<open>auto simp: set_nodes\<close>)
  have "ls ?h (Elem i) = Some m \<longleftrightarrow> i \<in> set (S m)" for i m
    using list_invD(4) [OF inv, of i m] new [of m] by (auto simp: zero_Element_def)
  moreover have "ring ?h m (S m) \<or> S m = [] \<and> nx ?h (RootOf m) = None" for m
    using list_invD(3) [OF inv, of m] fr [of m] by auto
  ultimately have inv': "list_inv ?h S"
    unfolding list_inv_def using list_invD(1,2,5) [OF inv] by (simp add: less_SucI)
  have "ring ?h l (xs @ ys)" using fr [of l] r S by simp
  moreover have "ls ?h (Elem ?k) = None" "?k < elems_alloc ?h" by (simp_all add: zero_Element_def)
  moreover have "vl ?h = (vl h)(Elem ?k := v)" by (auto simp: fun_eq_iff zero_Element_def)
  ultimately show ?thesis using inv_insert [OF inv' S] unfolding insertValue_def Let_def by auto
qed

lemma inv_PushFront:
  assumes "list_inv h S"
  shows "\<exists>h'. PushFront h l v = Some (Some (Elem (elems_alloc h)), h') \<and>
    list_inv h' (S(l := elems_alloc h # S l)) \<and> vl h' = (vl h)(Elem (elems_alloc h) := v) \<and>
    elems_alloc h' = Suc (elems_alloc h) \<and> lists_alloc h' = lists_alloc h"
  using inv_insertValue [OF inv_lazyInit(1) [OF assms, of l], of l "[]" "S l" v] inv_lazyInit [OF assms, of l]
  by (auto simp: PushFront_def)

lemma inv_PushBack:
  assumes "list_inv h S"
  shows "\<exists>h'. PushBack h l v = Some (Some (Elem (elems_alloc h)), h') \<and>
    list_inv h' (S(l := S l @ [elems_alloc h])) \<and> vl h' = (vl h)(Elem (elems_alloc h) := v) \<and>
    elems_alloc h' = Suc (elems_alloc h) \<and> lists_alloc h' = lists_alloc h"
  using inv_insertValue [OF inv_lazyInit(1) [OF assms, of l], of l "S l" "[]" v] inv_lazyInit [OF assms, of l]
    ring_last [OF inv_lazyInit(2) [OF assms, of l]]
  by (auto simp: PushBack_def Let_def)

lemma inv_InsertBefore:
  assumes "list_inv h S" "S l = xs @ m # ys"
  shows "\<exists>h'. InsertBefore h l v (Some (Elem m)) = Some (Some (Elem (elems_alloc h)), h') \<and>
    list_inv h' (S(l := xs @ elems_alloc h # m # ys)) \<and> vl h' = (vl h)(Elem (elems_alloc h) := v) \<and>
    elems_alloc h' = Suc (elems_alloc h) \<and> lists_alloc h' = lists_alloc h"
proof -
  have r: "ring h l (xs @ m # ys)" using list_invD(3) [OF assms(1), of l] assms(2) by auto
  have "ls h (Elem m) = Some l" using list_invD(4) [OF assms(1)] assms(2) by simp
  then show ?thesis
    using inv_insertValue [OF assms r, of v] ring_links(2) [OF r] by (auto simp: InsertBefore_def cell_def)
qed

lemma inv_InsertAfter:
  assumes "list_inv h S" "S l = xs @ m # ys"
  shows "\<exists>h'. InsertAfter h l v (Some (Elem m)) = Some (Some (Elem (elems_alloc h)), h') \<and>
    list_inv h' (S(l := xs @ m # elems_alloc h # ys)) \<and> vl h' = (vl h)(Elem (elems_alloc h) := v) \<and>
    elems_alloc h' = Suc (elems_alloc h) \<and> lists_alloc h' = lists_alloc h"
proof -
  have r: "ring h l ((xs @ [m]) @ ys)" using list_invD(3) [OF assms(1), of l] assms(2) by auto
  have "ls h (Elem m) = Some l" using list_invD(4) [OF assms(1)] assms(2) by simp
  then show ?thesis
    using inv_insertValue [OF assms(1) _ r, of v] assms(2) by (auto simp: InsertAfter_def cell_def)
qed

lemma inv_Remove:
  assumes "list_inv h S" "S l = xs @ k # ys"
  shows "\<exists>h'. list_Remove h l (Some (Elem k)) = Some (vl h (Elem k), h') \<and> list_inv h' (S(l := xs @ ys)) \<and>
    vl h' = vl h \<and> elems_alloc h' = elems_alloc h \<and> lists_alloc h' = lists_alloc h"
proof -
  obtain h' where h': "list_remove h l (Some (Elem k)) = Some (Some (Elem k), h')" "list_inv h' (S(l := xs @ ys))"
    "vl h' = vl h" "elems_alloc h' = elems_alloc h" "lists_alloc h' = lists_alloc h"
    using inv_remove [OF assms] by blast
  have "ls h (Elem k) = Some l" using list_invD(4) [OF assms(1)] assms(2) by simp
  then show ?thesis using h' vl_fun_eq [OF h'(3), of "Elem k"] by (auto simp: list_Remove_def cell_def)
qed

text \<open>The four moves: a removal followed by an insertion of the same element.\<close>

lemma inv_move:
  assumes inv: "list_inv h S" and S: "S l = xs @ k # ys" and e: "xs @ ys = us @ vs"
  shows "\<exists>h1 h'. list_remove h l (Some (Elem k)) = Some (Some (Elem k), h1) \<and> ring h1 l (us @ vs) \<and>
    list_insert h1 l (Some (Elem k)) (Some (last (RootOf l # map Elem us))) = Some (Some (Elem k), h') \<and>
    list_inv h' (S(l := us @ k # vs)) \<and> vl h' = vl h \<and> elems_alloc h' = elems_alloc h \<and> lists_alloc h' = lists_alloc h"
proof -
  obtain h1 where h1: "list_remove h l (Some (Elem k)) = Some (Some (Elem k), h1)" "list_inv h1 (S(l := xs @ ys))"
    "vl h1 = vl h" "elems_alloc h1 = elems_alloc h" "lists_alloc h1 = lists_alloc h" "ls h1 (Elem k) = None" "ring h1 l (xs @ ys)"
    using inv_remove [OF inv S] by blast
  have "k < elems_alloc h1" using list_invD(5) [OF inv, of k l] S h1(4) by simp
  then show ?thesis
    using inv_insert [OF h1(2), of l us vs k] h1 e by auto
qed

lemma inv_MoveToFront:
  assumes "list_inv h S" "S l = xs @ k # ys"
  shows "\<exists>h'. MoveToFront h l (Some (Elem k)) = Some h' \<and> list_inv h' (S(l := k # xs @ ys)) \<and>
    vl h' = vl h \<and> elems_alloc h' = elems_alloc h \<and> lists_alloc h' = lists_alloc h"
proof -
  have l: "ls h (Elem k) = Some l" using list_invD(4) [OF assms(1)] assms(2) by simp
  have r: "ring h l (xs @ k # ys)" using list_invD(3) [OF assms(1), of l] assms(2) by auto
  show ?thesis
  proof (cases "nx h (RootOf l) = Some (Elem k)")
    case True
    then have "xs = []" using ring_head [OF r] list_invD(1) [OF assms(1), of l] assms(2) by (cases xs) auto
    then have "S(l := k # xs @ ys) = S" using assms(2) by auto
    then show ?thesis using True l assms(1) by (auto simp: MoveToFront_def cell_def)
  next
    case False
    then show ?thesis
      using l inv_move [OF assms, of "[]" "xs @ ys"] by (auto simp: MoveToFront_def cell_def)
  qed
qed

lemma inv_MoveToBack:
  assumes "list_inv h S" "S l = xs @ k # ys"
  shows "\<exists>h'. MoveToBack h l (Some (Elem k)) = Some h' \<and> list_inv h' (S(l := xs @ ys @ [k])) \<and>
    vl h' = vl h \<and> elems_alloc h' = elems_alloc h \<and> lists_alloc h' = lists_alloc h"
proof -
  have l: "ls h (Elem k) = Some l" using list_invD(4) [OF assms(1)] assms(2) by simp
  have r: "ring h l (xs @ k # ys)" using list_invD(3) [OF assms(1), of l] assms(2) by auto
  show ?thesis
  proof (cases "pv h (RootOf l) = Some (Elem k)")
    case True
    then have "ys = []" using ring_last [OF r] list_invD(1) [OF assms(1), of l] assms(2)
      by (cases ys rule: rev_cases) auto
    then have "S(l := xs @ ys @ [k]) = S" using assms(2) by auto
    then show ?thesis using True l assms(1) by (auto simp: MoveToBack_def cell_def)
  next
    case False
    obtain h1 h' where h: "list_remove h l (Some (Elem k)) = Some (Some (Elem k), h1)" "ring h1 l ((xs @ ys) @ [])"
      "list_insert h1 l (Some (Elem k)) (Some (last (RootOf l # map Elem (xs @ ys)))) = Some (Some (Elem k), h')"
      "list_inv h' (S(l := (xs @ ys) @ k # []))" "vl h' = vl h" "elems_alloc h' = elems_alloc h" "lists_alloc h' = lists_alloc h"
      using inv_move [OF assms, of "xs @ ys" "[]"] by auto
    have "pv h1 (RootOf l) = Some (last (RootOf l # map Elem (xs @ ys)))" using ring_last [of h1 l "xs @ ys"] h(2) by simp
    then show ?thesis using False l h by (auto simp: MoveToBack_def cell_def)
  qed
qed

lemma inv_MoveAfter:
  assumes "list_inv h S" "S l = xs @ k # ys" "xs @ ys = us @ m # vs"
  shows "\<exists>h'. MoveAfter h l (Some (Elem k)) (Some (Elem m)) = Some h' \<and> list_inv h' (S(l := us @ m # k # vs)) \<and>
    vl h' = vl h \<and> elems_alloc h' = elems_alloc h \<and> lists_alloc h' = lists_alloc h"
proof -
  have l: "ls h (Elem k) = Some l" using list_invD(4) [OF assms(1)] assms(2) by simp
  have "m \<in> set (xs @ ys)" using assms(3) by simp
  then have "m \<noteq> k" using list_invD(1) [OF assms(1), of l] assms(2) by auto
  then show ?thesis using l inv_move [OF assms(1,2), of "us @ [m]" vs] assms(3) by (auto simp: MoveAfter_def cell_def)
qed

lemma inv_MoveBefore:
  assumes "list_inv h S" "S l = xs @ k # ys" "xs @ ys = us @ m # vs"
  shows "\<exists>h'. MoveBefore h l (Some (Elem k)) (Some (Elem m)) = Some h' \<and> list_inv h' (S(l := us @ k # m # vs)) \<and>
    vl h' = vl h \<and> elems_alloc h' = elems_alloc h \<and> lists_alloc h' = lists_alloc h"
proof -
  have l: "ls h (Elem k) = Some l" using list_invD(4) [OF assms(1)] assms(2) by simp
  have "m \<in> set (xs @ ys)" using assms(3) by simp
  then have "m \<noteq> k" using list_invD(1) [OF assms(1), of l] assms(2) by auto
  moreover obtain h1 h' where h: "list_remove h l (Some (Elem k)) = Some (Some (Elem k), h1)" "ring h1 l (us @ m # vs)"
      "list_insert h1 l (Some (Elem k)) (Some (last (RootOf l # map Elem us))) = Some (Some (Elem k), h')"
      "list_inv h' (S(l := us @ k # m # vs))" "vl h' = vl h" "elems_alloc h' = elems_alloc h" "lists_alloc h' = lists_alloc h"
    using inv_move [OF assms] by blast
  moreover have "pv h1 (Elem m) = Some (last (RootOf l # map Elem us))" using ring_links(2) [OF h(2)] by simp
  ultimately show ?thesis using l by (auto simp: MoveBefore_def cell_def)
qed

end
