(* ===== verification/ListSpec.thy ===== *)
theory ListSpec
  imports ListCorrect
begin

text \<open>
  The abstract machine of package container/list: a map from lists to sequences of elements, the
  values of the elements and the number of elements made so far. \<open>list_exec\<close> runs one operation on
  the store and gives what it returns; \<open>spec_step\<close> and \<open>spec_res\<close> are the same operation and its result
  on sequences. The first refines the second for every sequence of operations that keeps to
  \<open>op_ok\<close>. Two uses of the package that break the invariant are exhibited.
\<close>

section \<open>Walking along a list\<close>

lemma Next_nth:
  assumes "list_inv h S" "j < length (S l)"
  shows "Next h (Some (Elem (S l ! j))) = Some (if j + 1 < length (S l) then Some (Elem (S l ! (j + 1))) else None)"
proof -
  have r: "ring h l (take (j + 1) (S l) @ drop (j + 1) (S l))"
    using list_invD(3) [OF assms(1), of l] assms(2) by auto
  have "last (RootOf l # map Elem (take (j + 1) (S l))) = Elem (S l ! j)"
    using assms(2) by (simp add: take_Suc_conv_app_nth)
  moreover have "hd (map Elem (drop (j + 1) (S l)) @ [RootOf l]) = (if j + 1 < length (S l) then Elem (S l ! (j + 1)) else RootOf l)"
    using Cons_nth_drop_Suc [of "j + 1" "S l"] by (cases "j + 1 < length (S l)") (auto simp: hd_append hd_map hd_drop_conv_nth)
  moreover have "ls h (Elem (S l ! j)) = Some l" using list_invD(4) [OF assms(1)] assms(2) by simp
  ultimately show ?thesis using ring_links(1) [OF r] by (auto simp: Next_def cell_def)
qed

lemma Prev_nth:
  assumes "list_inv h S" "j < length (S l)"
  shows "Prev h (Some (Elem (S l ! j))) = Some (if 0 < j then Some (Elem (S l ! (j - 1))) else None)"
proof -
  have r: "ring h l (take j (S l) @ drop j (S l))"
    using list_invD(3) [OF assms(1), of l] assms(2) by auto
  have "last (RootOf l # map Elem (take j (S l))) = (if 0 < j then Elem (S l ! (j - 1)) else RootOf l)"
    using assms(2) by (cases j) (auto simp: take_Suc_conv_app_nth)
  moreover have "hd (map Elem (drop j (S l)) @ [RootOf l]) = Elem (S l ! j)"
    using Cons_nth_drop_Suc [OF assms(2), symmetric] by simp
  moreover have "ls h (Elem (S l ! j)) = Some l" using list_invD(4) [OF assms(1)] assms(2) by simp
  ultimately show ?thesis using ring_links(2) [OF r] by (auto simp: Prev_def cell_def)
qed

lemma Front_hd: "list_inv h S \<Longrightarrow> Front h l = (if S l = [] then None else Some (Elem (hd (S l))))"
  using list_invD(2,3) [of h S l] ring_head [of h l "S l"] by (auto simp: Front_def hd_map hd_append)

lemma Back_last: "list_inv h S \<Longrightarrow> Back h l = (if S l = [] then None else Some (Elem (last (S l))))"
  using list_invD(2,3) [of h S l] ring_last [of h l "S l"] by (auto simp: Back_def last_map)

section \<open>Copying a list\<close>

definition vals :: "'v Store \<Rightarrow> nat list \<Rightarrow> 'v option list" where
  "vals h ks = map (\<lambda>k. vl h (Elem k)) ks"

lemma vals_Cons: "vals h (k # ks) = vl h (Elem k) # vals h ks"
  by (simp add: vals_def)

lemma vals_fresh:
  assumes "vl h' = (vl h)(Elem (elems_alloc h) := v)" "list_inv h S" "set ks \<subseteq> set (S l)"
  shows "vals h' ks = vals h ks"
proof -
  have "elems_alloc h \<notin> set ks" using list_invD(5) [OF assms(2), of "elems_alloc h" l] assms(3) by auto
  then show ?thesis by (auto simp: vals_def fun_cong [OF assms(1)])
qed

lemma inv_PushBackList_loop:
  "list_inv h S \<Longrightarrow> ring h l (S l) \<Longrightarrow> j + i \<le> length (S other) \<Longrightarrow> (0 < i \<longrightarrow> e = Some (Elem (S other ! j))) \<Longrightarrow>
   \<exists>h'. PushBackList_loop h l i e = Some h' \<and> list_inv h' (S(l := S l @ [elems_alloc h..<elems_alloc h + i])) \<and>
     elems_alloc h' = elems_alloc h + i \<and> lists_alloc h' = lists_alloc h \<and>
     (\<forall>k < elems_alloc h. vl h' (Elem k) = vl h (Elem k)) \<and>
     vals h' [elems_alloc h..<elems_alloc h + i] = vals h (take i (drop j (S other)))"
proof (induction i arbitrary: h S j e)
  case 0
  then show ?case by (simp add: vals_def)
next
  case (Suc i)
  let ?k = "S other ! j" and ?n = "elems_alloc h"
  have e: "e = Some (Elem ?k)" and j: "j < length (S other)" using Suc.prems by auto
  have "pv h (RootOf l) = Some (last (RootOf l # map Elem (S l)))" using Suc.prems(2) by (rule ring_last)
  then obtain h1 where h1: "insertValue h l (vl h (Elem ?k)) (pv h (RootOf l)) = Some (Some (Elem ?n), h1)"
    "list_inv h1 (S(l := S l @ [?n]))" "vl h1 = (vl h)(Elem ?n := vl h (Elem ?k))" "elems_alloc h1 = Suc ?n"
    "lists_alloc h1 = lists_alloc h" "ring h1 l (S l @ [?n])"
    using inv_insertValue [OF Suc.prems(1), of l "S l" "[]" "vl h (Elem ?k)"] Suc.prems(2) by auto
  let ?S = "S(l := S l @ [?n])"
  have nth: "?S other ! x = S other ! x" if "x < length (S other)" for x using that by (auto simp: nth_append)
  have nx: "Next h1 (Some (Elem (?S other ! j))) =
      Some (if j + 1 < length (?S other) then Some (Elem (?S other ! (j + 1))) else None)"
    using j by (intro Next_nth [OF h1(2)]) auto
  define e' where "e' = (if j + 1 < length (?S other) then Some (Elem (?S other ! (j + 1))) else None)"
  have "0 < i \<Longrightarrow> j + 1 < length (?S other)" using Suc.prems(3) by auto
  then have e': "Next h1 e = Some e'" "0 < i \<longrightarrow> e' = Some (Elem (?S other ! (j + 1)))"
    using nx unfolding e nth [OF j] e'_def by simp_all
  have "\<exists>h'. PushBackList_loop h1 l i e' = Some h' \<and> list_inv h' (?S(l := ?S l @ [elems_alloc h1..<elems_alloc h1 + i])) \<and>
     elems_alloc h' = elems_alloc h1 + i \<and> lists_alloc h' = lists_alloc h1 \<and>
     (\<forall>k < elems_alloc h1. vl h' (Elem k) = vl h1 (Elem k)) \<and>
     vals h' [elems_alloc h1..<elems_alloc h1 + i] = vals h1 (take i (drop (j + 1) (?S other)))"
    using h1(6) Suc.prems(3) e'(2) by (intro Suc.IH [OF h1(2)]) auto
  then obtain h' where h': "PushBackList_loop h1 l i e' = Some h'"
    "list_inv h' (?S(l := ?S l @ [elems_alloc h1..<elems_alloc h1 + i]))"
    "elems_alloc h' = elems_alloc h1 + i" "lists_alloc h' = lists_alloc h1"
    "\<forall>k < elems_alloc h1. vl h' (Elem k) = vl h1 (Elem k)"
    "vals h' [elems_alloc h1..<elems_alloc h1 + i] = vals h1 (take i (drop (j + 1) (?S other)))" by blast
  have up: "[?n..<?n + Suc i] = ?n # [elems_alloc h1..<elems_alloc h1 + i]" using h1(4) by (simp add: upt_rec [of ?n])
  have tk: "take i (drop (j + 1) (?S other)) = take i (drop (j + 1) (S other))" using Suc.prems(3) by auto
  have "vals h1 (take i (drop (j + 1) (S other))) = vals h (take i (drop (j + 1) (S other)))"
    by (rule vals_fresh [OF h1(3) Suc.prems(1), of _ other]) (meson in_set_dropD in_set_takeD subsetI)
  then have v1: "vals h' [elems_alloc h1..<elems_alloc h1 + i] = vals h (take i (drop (j + 1) (S other)))"
    using h'(6) unfolding tk by (rule trans [rotated])
  have "take (Suc i) (drop j (S other)) = ?k # take i (drop (j + 1) (S other))"
    using Cons_nth_drop_Suc [OF j, symmetric] by simp
  moreover have "vl h' (Elem ?n) = vl h (Elem ?k)" using h'(5) h1(4) fun_cong [OF h1(3), of "Elem ?n"] by simp
  ultimately have v: "vals h' [?n..<?n + Suc i] = vals h (take (Suc i) (drop j (S other)))"
    unfolding up by (simp only: vals_Cons v1)
  have "PushBackList_loop h l (Suc i) e = Some h'" using e e'(1) h1(1) h'(1) by (simp add: cell_def)
  moreover have "list_inv h' (S(l := S l @ [?n..<?n + Suc i]))" using h'(2) unfolding up by simp
  moreover have "\<forall>k < ?n. vl h' (Elem k) = vl h (Elem k)"
    using h'(5) h1(4) fun_cong [OF h1(3)] by simp
  moreover have "elems_alloc h' = ?n + Suc i" "lists_alloc h' = lists_alloc h" using h'(3,4) h1(4,5) by simp_all
  ultimately show ?case using v by blast
qed

lemma inv_PushBackList:
  assumes "list_inv h S"
  shows "\<exists>h'. PushBackList h l other = Some h' \<and>
     list_inv h' (S(l := S l @ [elems_alloc h..<elems_alloc h + length (S other)])) \<and>
     elems_alloc h' = elems_alloc h + length (S other) \<and> lists_alloc h' = lists_alloc h \<and>
     (\<forall>k < elems_alloc h. vl h' (Elem k) = vl h (Elem k)) \<and>
     vals h' [elems_alloc h..<elems_alloc h + length (S other)] = vals h (S other)"
proof -
  let ?h = "lazyInit h l"
  note L = inv_lazyInit [OF assms, of l]
  have "0 < length (S other) \<longrightarrow> Front ?h other = Some (Elem (S other ! 0))"
    using Front_hd [OF L(1), of other] by (auto simp: hd_conv_nth)
  then have "\<exists>h'. PushBackList_loop ?h l (length (S other)) (Front ?h other) = Some h' \<and>
     list_inv h' (S(l := S l @ [elems_alloc ?h..<elems_alloc ?h + length (S other)])) \<and>
     elems_alloc h' = elems_alloc ?h + length (S other) \<and> lists_alloc h' = lists_alloc ?h \<and>
     (\<forall>k < elems_alloc ?h. vl h' (Elem k) = vl ?h (Elem k)) \<and>
     vals h' [elems_alloc ?h..<elems_alloc ?h + length (S other)] = vals ?h (take (length (S other)) (drop 0 (S other)))"
    by (intro inv_PushBackList_loop [OF L(1,2)]) auto
  moreover have "nat (list_Len ?h other) = length (S other)" using list_invD(2) [OF L(1), of other] by (simp add: list_Len_def)
  ultimately show ?thesis by (simp add: PushBackList_def Let_def L vals_def fun_cong [OF L(3)])
qed

lemma inv_PushFrontList_loop:
  "list_inv h S \<Longrightarrow> ring h l (S l) \<Longrightarrow> j + i \<le> length (S other) \<Longrightarrow> (0 < i \<longrightarrow> e = Some (Elem (rev (S other) ! j))) \<Longrightarrow>
   \<exists>h'. PushFrontList_loop h l i e = Some h' \<and> list_inv h' (S(l := rev [elems_alloc h..<elems_alloc h + i] @ S l)) \<and>
     elems_alloc h' = elems_alloc h + i \<and> lists_alloc h' = lists_alloc h \<and>
     (\<forall>k < elems_alloc h. vl h' (Elem k) = vl h (Elem k)) \<and>
     vals h' [elems_alloc h..<elems_alloc h + i] = vals h (take i (drop j (rev (S other))))"
proof (induction i arbitrary: h S j e)
  case 0
  then show ?case by (simp add: vals_def)
next
  case (Suc i)
  let ?k = "rev (S other) ! j" and ?n = "elems_alloc h"
  have e: "e = Some (Elem ?k)" and j: "j < length (S other)" using Suc.prems by auto
  obtain h1 where h1: "insertValue h l (vl h (Elem ?k)) (Some (RootOf l)) = Some (Some (Elem ?n), h1)"
    "list_inv h1 (S(l := ?n # S l))" "vl h1 = (vl h)(Elem ?n := vl h (Elem ?k))" "elems_alloc h1 = Suc ?n"
    "lists_alloc h1 = lists_alloc h" "ring h1 l (?n # S l)"
    using inv_insertValue [OF Suc.prems(1), of l "[]" "S l" "vl h (Elem ?k)"] Suc.prems(2) by auto
  let ?S = "S(l := ?n # S l)"
  have nth: "rev (?S other) ! x = rev (S other) ! x" if "x < length (S other)" for x using that by (auto simp: nth_append)
  define m where "m = length (?S other) - Suc j"
  have m: "m < length (?S other)" "?S other ! m = ?k"
    using j nth [OF j] rev_nth [of j "?S other"] by (auto simp: m_def)
  define e' where "e' = (if 0 < m then Some (Elem (?S other ! (m - 1))) else None)"
  have "Prev h1 e = Some e'" using Prev_nth [OF h1(2) m(1)] unfolding m(2) e e'_def .
  moreover have "0 < i \<longrightarrow> e' = Some (Elem (rev (?S other) ! (j + 1)))"
    using Suc.prems(3) by (auto simp: e'_def m_def rev_nth)
  ultimately have e': "Prev h1 e = Some e'" "0 < i \<longrightarrow> e' = Some (Elem (rev (?S other) ! (j + 1)))" .
  have "\<exists>h'. PushFrontList_loop h1 l i e' = Some h' \<and> list_inv h' (?S(l := rev [elems_alloc h1..<elems_alloc h1 + i] @ ?S l)) \<and>
     elems_alloc h' = elems_alloc h1 + i \<and> lists_alloc h' = lists_alloc h1 \<and>
     (\<forall>k < elems_alloc h1. vl h' (Elem k) = vl h1 (Elem k)) \<and>
     vals h' [elems_alloc h1..<elems_alloc h1 + i] = vals h1 (take i (drop (j + 1) (rev (?S other))))"
    using h1(6) Suc.prems(3) e'(2) by (intro Suc.IH [OF h1(2)]) auto
  then obtain h' where h': "PushFrontList_loop h1 l i e' = Some h'"
    "list_inv h' (?S(l := rev [elems_alloc h1..<elems_alloc h1 + i] @ ?S l))"
    "elems_alloc h' = elems_alloc h1 + i" "lists_alloc h' = lists_alloc h1"
    "\<forall>k < elems_alloc h1. vl h' (Elem k) = vl h1 (Elem k)"
    "vals h' [elems_alloc h1..<elems_alloc h1 + i] = vals h1 (take i (drop (j + 1) (rev (?S other))))" by blast
  have up: "[?n..<?n + Suc i] = ?n # [elems_alloc h1..<elems_alloc h1 + i]" using h1(4) by (simp add: upt_rec [of ?n])
  have tk: "take i (drop (j + 1) (rev (?S other))) = take i (drop (j + 1) (rev (S other)))" using Suc.prems(3) by auto
  have "vals h1 (take i (drop (j + 1) (rev (S other)))) = vals h (take i (drop (j + 1) (rev (S other))))"
    by (rule vals_fresh [OF h1(3) Suc.prems(1), of _ other]) (metis in_set_dropD in_set_takeD set_rev subsetI)
  then have v1: "vals h' [elems_alloc h1..<elems_alloc h1 + i] = vals h (take i (drop (j + 1) (rev (S other))))"
    using h'(6) unfolding tk by (rule trans [rotated])
  have "take (Suc i) (drop j (rev (S other))) = ?k # take i (drop (j + 1) (rev (S other)))"
    using Cons_nth_drop_Suc [of j "rev (S other)", symmetric] j by simp
  moreover have "vl h' (Elem ?n) = vl h (Elem ?k)" using h'(5) h1(4) fun_cong [OF h1(3), of "Elem ?n"] by simp
  ultimately have v: "vals h' [?n..<?n + Suc i] = vals h (take (Suc i) (drop j (rev (S other))))"
    unfolding up by (simp only: vals_Cons v1)
  have "PushFrontList_loop h l (Suc i) e = Some h'" using e e'(1) h1(1) h'(1) by (simp add: cell_def)
  moreover have "list_inv h' (S(l := rev [?n..<?n + Suc i] @ S l))" using h'(2) unfolding up by simp
  moreover have "\<forall>k < ?n. vl h' (Elem k) = vl h (Elem k)"
    using h'(5) h1(4) fun_cong [OF h1(3)] by simp
  moreover have "elems_alloc h' = ?n + Suc i" "lists_alloc h' = lists_alloc h" using h'(3,4) h1(4,5) by simp_all
  ultimately show ?case using v by blast
qed

lemma inv_PushFrontList:
  assumes "list_inv h S"
  shows "\<exists>h'. PushFrontList h l other = Some h' \<and>
     list_inv h' (S(l := rev [elems_alloc h..<elems_alloc h + length (S other)] @ S l)) \<and>
     elems_alloc h' = elems_alloc h + length (S other) \<and> lists_alloc h' = lists_alloc h \<and>
     (\<forall>k < elems_alloc h. vl h' (Elem k) = vl h (Elem k)) \<and>
     vals h' [elems_alloc h..<elems_alloc h + length (S other)] = vals h (rev (S other))"
proof -
  let ?h = "lazyInit h l"
  note L = inv_lazyInit [OF assms, of l]
  have "0 < length (S other) \<longrightarrow> Back ?h other = Some (Elem (rev (S other) ! 0))"
    using Back_last [OF L(1), of other] by (auto simp: hd_conv_nth [symmetric] hd_rev)
  then have "\<exists>h'. PushFrontList_loop ?h l (length (S other)) (Back ?h other) = Some h' \<and>
     list_inv h' (S(l := rev [elems_alloc ?h..<elems_alloc ?h + length (S other)] @ S l)) \<and>
     elems_alloc h' = elems_alloc ?h + length (S other) \<and> lists_alloc h' = lists_alloc ?h \<and>
     (\<forall>k < elems_alloc ?h. vl h' (Elem k) = vl ?h (Elem k)) \<and>
     vals h' [elems_alloc ?h..<elems_alloc ?h + length (S other)] = vals ?h (take (length (S other)) (drop 0 (rev (S other))))"
    by (intro inv_PushFrontList_loop [OF L(1,2)]) auto
  moreover have "nat (list_Len ?h other) = length (S other)" using list_invD(2) [OF L(1), of other] by (simp add: list_Len_def)
  ultimately show ?thesis by (simp add: PushFrontList_def Let_def L vals_def fun_cong [OF L(3)])
qed

section \<open>The abstract machine\<close>

datatype 'v list_op =
    OPushFront nat "'v option" | OPushBack nat "'v option"
  | OInsertBefore nat "'v option" nat | OInsertAfter nat "'v option" nat
  | ORemove nat nat | OMoveToFront nat nat | OMoveToBack nat nat
  | OMoveBefore nat nat nat | OMoveAfter nat nat nat
  | OPushBackList nat nat | OPushFrontList nat nat
  | OInit nat | OLen nat | OFront nat | OBack nat | ONext nat nat | OPrev nat nat

text \<open>What an operation returns: an element, the value of one, a length, or nothing (\<open>Init\<close> returns its list).\<close>

datatype 'v list_res = RElem ptr | RVal "'v option" | RLen int | RUnit

abbreviation at_elem :: "nat \<Rightarrow> ptr" where
  "at_elem k \<equiv> Some (Elem k)"

definition no_res :: "'v Store \<Rightarrow> 'v list_res \<times> 'v Store" where
  "no_res h = (RUnit, h)"

fun list_exec :: "'v Store \<Rightarrow> 'v list_op \<Rightarrow> ('v list_res \<times> 'v Store) option" where
  "list_exec h (OPushFront l v) = map_option (apfst RElem) (PushFront h l v)"
| "list_exec h (OPushBack l v) = map_option (apfst RElem) (PushBack h l v)"
| "list_exec h (OInsertBefore l v m) = map_option (apfst RElem) (InsertBefore h l v (at_elem m))"
| "list_exec h (OInsertAfter l v m) = map_option (apfst RElem) (InsertAfter h l v (at_elem m))"
| "list_exec h (ORemove l k) = map_option (apfst RVal) (list_Remove h l (at_elem k))"
| "list_exec h (OMoveToFront l k) = map_option no_res (MoveToFront h l (at_elem k))"
| "list_exec h (OMoveToBack l k) = map_option no_res (MoveToBack h l (at_elem k))"
| "list_exec h (OMoveBefore l k m) = map_option no_res (MoveBefore h l (at_elem k) (at_elem m))"
| "list_exec h (OMoveAfter l k m) = map_option no_res (MoveAfter h l (at_elem k) (at_elem m))"
| "list_exec h (OPushBackList l other) = map_option no_res (PushBackList h l other)"
| "list_exec h (OPushFrontList l other) = map_option no_res (PushFrontList h l other)"
| "list_exec h (OInit l) = Some (no_res (list_Init h l))"
| "list_exec h (OLen l) = Some (RLen (list_Len h l), h)"
| "list_exec h (OFront l) = Some (RElem (Front h l), h)"
| "list_exec h (OBack l) = Some (RElem (Back h l), h)"
| "list_exec h (ONext l k) = map_option (\<lambda>e. (RElem e, h)) (Next h (at_elem k))"
| "list_exec h (OPrev l k) = map_option (\<lambda>e. (RElem e, h)) (Prev h (at_elem k))"

fun list_run :: "'v Store \<Rightarrow> 'v list_op list \<Rightarrow> ('v list_res list \<times> 'v Store) option" where
  "list_run h [] = Some ([], h)"
| "list_run h (p # ps) = do { (r, h) \<leftarrow> list_exec h p; (rs, h) \<leftarrow> list_run h ps; Some (r # rs, h) }"

record 'v spec_state =
  seqs :: "nat \<Rightarrow> nat list"
  valmap :: "nat \<Rightarrow> 'v option"
  made :: nat

definition before :: "nat \<Rightarrow> nat \<Rightarrow> nat list \<Rightarrow> nat list" where
  "before k m xs = takeWhile (\<lambda>x. x \<noteq> m) xs @ k # dropWhile (\<lambda>x. x \<noteq> m) xs"

definition after :: "nat \<Rightarrow> nat \<Rightarrow> nat list \<Rightarrow> nat list" where
  "after k m xs = takeWhile (\<lambda>x. x \<noteq> m) xs @ m # k # tl (dropWhile (\<lambda>x. x \<noteq> m) xs)"

text \<open>A new element with value \<open>v\<close> in list \<open>l\<close>, whose sequence becomes \<open>xs\<close>.\<close>

definition add_elem :: "'v spec_state \<Rightarrow> nat \<Rightarrow> 'v option \<Rightarrow> nat list \<Rightarrow> 'v spec_state" where
  "add_elem s l v xs = s\<lparr>seqs := (seqs s)(l := xs), valmap := (valmap s)(made s := v), made := made s + 1\<rparr>"

definition set_seq :: "'v spec_state \<Rightarrow> nat \<Rightarrow> nat list \<Rightarrow> 'v spec_state" where
  "set_seq s l xs = s\<lparr>seqs := (seqs s)(l := xs)\<rparr>"

text \<open>Copies of the elements \<open>ks\<close> are numbered in the order they are made.\<close>

definition add_copies :: "'v spec_state \<Rightarrow> nat \<Rightarrow> nat list \<Rightarrow> nat list \<Rightarrow> 'v spec_state" where
  "add_copies s l ks xs =
     s\<lparr>seqs := (seqs s)(l := xs),
       valmap := (\<lambda>k. if made s \<le> k \<and> k < made s + length ks then valmap s (ks ! (k - made s)) else valmap s k),
       made := made s + length ks\<rparr>"

fun spec_step :: "'v spec_state \<Rightarrow> 'v list_op \<Rightarrow> 'v spec_state" where
  "spec_step s (OPushFront l v) = add_elem s l v (made s # seqs s l)"
| "spec_step s (OPushBack l v) = add_elem s l v (seqs s l @ [made s])"
| "spec_step s (OInsertBefore l v m) = (if m \<in> set (seqs s l) then add_elem s l v (before (made s) m (seqs s l)) else s)"
| "spec_step s (OInsertAfter l v m) = (if m \<in> set (seqs s l) then add_elem s l v (after (made s) m (seqs s l)) else s)"
| "spec_step s (ORemove l k) = set_seq s l (remove1 k (seqs s l))"
| "spec_step s (OMoveToFront l k) = (if k \<in> set (seqs s l) then set_seq s l (k # remove1 k (seqs s l)) else s)"
| "spec_step s (OMoveToBack l k) = (if k \<in> set (seqs s l) then set_seq s l (remove1 k (seqs s l) @ [k]) else s)"
| "spec_step s (OMoveBefore l k m) =
     (if k \<in> set (seqs s l) \<and> k \<noteq> m then set_seq s l (before k m (remove1 k (seqs s l))) else s)"
| "spec_step s (OMoveAfter l k m) =
     (if k \<in> set (seqs s l) \<and> k \<noteq> m then set_seq s l (after k m (remove1 k (seqs s l))) else s)"
| "spec_step s (OPushBackList l other) =
     add_copies s l (seqs s other) (seqs s l @ [made s..<made s + length (seqs s other)])"
| "spec_step s (OPushFrontList l other) =
     add_copies s l (rev (seqs s other)) (rev [made s..<made s + length (seqs s other)] @ seqs s l)"
| "spec_step s _ = s"

text \<open>The results: the element behind \<open>k\<close> in a sequence, its first element, and the value or length asked for.\<close>

definition next_in :: "nat \<Rightarrow> nat list \<Rightarrow> ptr" where
  "next_in k xs = (case dropWhile (\<lambda>x. x \<noteq> k) xs of _ # m # _ \<Rightarrow> at_elem m | _ \<Rightarrow> None)"

definition head_of :: "nat list \<Rightarrow> ptr" where
  "head_of xs = (case xs of [] \<Rightarrow> None | k # _ \<Rightarrow> at_elem k)"

fun spec_res :: "'v spec_state \<Rightarrow> 'v list_op \<Rightarrow> 'v list_res" where
  "spec_res s (OPushFront l v) = RElem (at_elem (made s))"
| "spec_res s (OPushBack l v) = RElem (at_elem (made s))"
| "spec_res s (OInsertBefore l v m) = RElem (if m \<in> set (seqs s l) then at_elem (made s) else None)"
| "spec_res s (OInsertAfter l v m) = RElem (if m \<in> set (seqs s l) then at_elem (made s) else None)"
| "spec_res s (ORemove l k) = RVal (valmap s k)"
| "spec_res s (OLen l) = RLen (int (length (seqs s l)))"
| "spec_res s (OFront l) = RElem (head_of (seqs s l))"
| "spec_res s (OBack l) = RElem (head_of (rev (seqs s l)))"
| "spec_res s (ONext l k) = RElem (next_in k (seqs s l))"
| "spec_res s (OPrev l k) = RElem (next_in k (rev (seqs s l)))"
| "spec_res s _ = RUnit"

fun spec_run :: "'v spec_state \<Rightarrow> 'v list_op list \<Rightarrow> 'v list_res list \<times> 'v spec_state" where
  "spec_run s [] = ([], s)"
| "spec_run s (p # ps) = (let (rs, s') = spec_run (spec_step s p) ps in (spec_res s p # rs, s'))"

text \<open>
  What a client has to keep to: a mark given to \<open>MoveBefore\<close> or \<open>MoveAfter\<close> is an element of the list
  the moved element is in (the code does not test it), \<open>Init\<close> is called on an empty list only (it does
  not take the elements of the list out of it), an element given to \<open>Remove\<close> exists, and \<open>Next\<close> and
  \<open>Prev\<close> are asked of elements of the list.
\<close>

fun op_ok :: "'v spec_state \<Rightarrow> 'v list_op \<Rightarrow> bool" where
  "op_ok s (OMoveBefore l k m) = (k \<in> set (seqs s l) \<longrightarrow> m \<in> set (seqs s l))"
| "op_ok s (OMoveAfter l k m) = (k \<in> set (seqs s l) \<longrightarrow> m \<in> set (seqs s l))"
| "op_ok s (ORemove l k) = (k < made s)"
| "op_ok s (OInit l) = (seqs s l = [])"
| "op_ok s (ONext l k) = (k \<in> set (seqs s l))"
| "op_ok s (OPrev l k) = (k \<in> set (seqs s l))"
| "op_ok s _ = True"

fun ops_ok :: "'v spec_state \<Rightarrow> 'v list_op list \<Rightarrow> bool" where
  "ops_ok s [] = True"
| "ops_ok s (p # ps) = (op_ok s p \<and> ops_ok (spec_step s p) ps)"

definition refines :: "'v Store \<Rightarrow> 'v spec_state \<Rightarrow> bool" where
  "refines h s \<longleftrightarrow> list_inv h (seqs s) \<and> elems_alloc h = made s \<and> (\<forall>k < made s. vl h (Elem k) = valmap s k)"

section \<open>Refinement\<close>

lemma split_at: "m \<in> set xs \<Longrightarrow> distinct xs \<Longrightarrow> \<exists>us vs. xs = us @ m # vs \<and> m \<notin> set us \<and> m \<notin> set vs"
  by (metis distinct.simps(2) distinct_append disjoint_iff list.set_intros(1) split_list)

lemma before_split: "m \<notin> set us \<Longrightarrow> before k m (us @ m # vs) = us @ k # m # vs"
  by (induction us) (auto simp: before_def)

lemma after_split: "m \<notin> set us \<Longrightarrow> after k m (us @ m # vs) = us @ m # k # vs"
  by (induction us) (auto simp: after_def)

lemma refines_add:
  assumes "refines h s" "list_inv h' ((seqs s)(l := xs))" "vl h' = (vl h)(Elem (elems_alloc h) := v)"
    "elems_alloc h' = Suc (elems_alloc h)"
  shows "refines h' (add_elem s l v xs)"
  using assms fun_cong [OF assms(3)] by (auto simp: refines_def add_elem_def less_Suc_eq)

lemma refines_set:
  assumes "refines h s" "list_inv h' ((seqs s)(l := xs))" "vl h' = vl h" "elems_alloc h' = elems_alloc h"
  shows "refines h' (set_seq s l xs)"
  using assms fun_cong [OF assms(3)] by (auto simp: refines_def set_seq_def)

lemma refines_same:
  assumes "refines h s" "list_inv h' (seqs s)" "vl h' = vl h" "elems_alloc h' = elems_alloc h"
  shows "refines h' s"
  using assms fun_cong [OF assms(3)] by (auto simp: refines_def)

lemma refines_copies:
  assumes "refines h s" "list_inv h' ((seqs s)(l := xs))" "elems_alloc h' = elems_alloc h + length ks"
    "\<forall>k < elems_alloc h. vl h' (Elem k) = vl h (Elem k)"
    "vals h' [elems_alloc h..<elems_alloc h + length ks] = vals h ks" "set ks \<subseteq> set (seqs s other)"
  shows "refines h' (add_copies s l ks xs)"
proof -
  have n: "elems_alloc h = made s" and inv: "list_inv h (seqs s)" using assms(1) by (auto simp: refines_def)
  have "vl h' (Elem (made s + i)) = valmap s (ks ! i)" if "i < length ks" for i
  proof -
    have "vl h' (Elem (made s + i)) = vl h (Elem (ks ! i))"
      using arg_cong [OF assms(5), of "\<lambda>xs. xs ! i"] that by (simp add: vals_def n)
    moreover have "ks ! i < made s" using list_invD(5) [OF inv, of "ks ! i" other] assms(6) that n nth_mem by fastforce
    ultimately show ?thesis using assms(1) by (simp add: refines_def)
  qed
  then have "vl h' (Elem k) = valmap s (ks ! (k - made s))" if "made s \<le> k" "k < made s + length ks" for k
    using that by (metis add_diff_inverse_nat less_diff_conv2 add.commute not_less)
  then show ?thesis using assms n by (auto simp: refines_def add_copies_def)
qed

lemma not_in_list: "refines h s \<Longrightarrow> k \<notin> set (seqs s l) \<Longrightarrow> ls h (Elem k) \<noteq> Some l"
  using list_invD(4) [of h "seqs s" k l] by (auto simp: refines_def)

lemma refines_InsertBefore:
  assumes r: "refines h s"
  shows "\<exists>h'. list_exec h (OInsertBefore l v m) = Some (spec_res s (OInsertBefore l v m), h') \<and> refines h' (spec_step s (OInsertBefore l v m))"
proof -
  have inv: "list_inv h (seqs s)" and n: "elems_alloc h = made s" using r by (auto simp: refines_def)
  note d = list_invD(1) [OF inv] and out = not_in_list [OF r]
  show ?thesis
  proof (cases "m \<in> set (seqs s l)")
    case True
    obtain us vs where s: "seqs s l = us @ m # vs" "m \<notin> set us" using split_at [OF True d] by blast
    show ?thesis
      using inv_InsertBefore [OF inv s(1), of v] refines_add [OF r] n True before_split [OF s(2)] s(1)
      by fastforce
  qed (use out r in \<open>auto simp: InsertBefore_def cell_def\<close>)
qed

lemma refines_InsertAfter:
  assumes r: "refines h s"
  shows "\<exists>h'. list_exec h (OInsertAfter l v m) = Some (spec_res s (OInsertAfter l v m), h') \<and> refines h' (spec_step s (OInsertAfter l v m))"
proof -
  have inv: "list_inv h (seqs s)" and n: "elems_alloc h = made s" using r by (auto simp: refines_def)
  note d = list_invD(1) [OF inv] and out = not_in_list [OF r]
  show ?thesis
  proof (cases "m \<in> set (seqs s l)")
    case True
    obtain us vs where s: "seqs s l = us @ m # vs" "m \<notin> set us" using split_at [OF True d] by blast
    show ?thesis
      using inv_InsertAfter [OF inv s(1), of v] refines_add [OF r] n True after_split [OF s(2)] s(1)
      by fastforce
  qed (use out r in \<open>auto simp: InsertAfter_def cell_def\<close>)
qed

lemma refines_Remove:
  assumes r: "refines h s" and ok: "op_ok s (ORemove l k)"
  shows "\<exists>h'. list_exec h (ORemove l k) = Some (spec_res s (ORemove l k), h') \<and> refines h' (spec_step s (ORemove l k))"
proof -
  have inv: "list_inv h (seqs s)" and n: "elems_alloc h = made s" using r by (auto simp: refines_def)
  note d = list_invD(1) [OF inv] and out = not_in_list [OF r]
  have v: "vl h (Elem k) = valmap s k" using r ok by (simp add: refines_def)
  show ?thesis
  proof (cases "k \<in> set (seqs s l)")
    case True
    obtain us vs where s: "seqs s l = us @ k # vs" "k \<notin> set us" using split_at [OF True d] by blast
    then have "remove1 k (seqs s l) = us @ vs" by (simp add: remove1_append)
    then show ?thesis using inv_Remove [OF inv s(1)] refines_set [OF r] v by fastforce
  next
    case False
    then have "set_seq s l (remove1 k (seqs s l)) = s" by (simp add: set_seq_def remove1_idem)
    then show ?thesis using out [OF False] r v by (auto simp: list_Remove_def cell_def)
  qed
qed

lemma refines_MoveToFront:
  assumes r: "refines h s"
  shows "\<exists>h'. list_exec h (OMoveToFront l k) = Some (spec_res s (OMoveToFront l k), h') \<and> refines h' (spec_step s (OMoveToFront l k))"
proof -
  have inv: "list_inv h (seqs s)" and n: "elems_alloc h = made s" using r by (auto simp: refines_def)
  note d = list_invD(1) [OF inv] and out = not_in_list [OF r]
  show ?thesis
  proof (cases "k \<in> set (seqs s l)")
    case True
    obtain us vs where s: "seqs s l = us @ k # vs" "k \<notin> set us" using split_at [OF True d] by blast
    then have "remove1 k (seqs s l) = us @ vs" by (simp add: remove1_append)
    then show ?thesis using True inv_MoveToFront [OF inv s(1)] refines_set [OF r] by (fastforce simp: no_res_def)
  qed (use out r in \<open>auto simp: MoveToFront_def cell_def no_res_def\<close>)
qed

lemma refines_MoveToBack:
  assumes r: "refines h s"
  shows "\<exists>h'. list_exec h (OMoveToBack l k) = Some (spec_res s (OMoveToBack l k), h') \<and> refines h' (spec_step s (OMoveToBack l k))"
proof -
  have inv: "list_inv h (seqs s)" and n: "elems_alloc h = made s" using r by (auto simp: refines_def)
  note d = list_invD(1) [OF inv] and out = not_in_list [OF r]
  show ?thesis
  proof (cases "k \<in> set (seqs s l)")
    case True
    obtain us vs where s: "seqs s l = us @ k # vs" "k \<notin> set us" using split_at [OF True d] by blast
    then have "remove1 k (seqs s l) = us @ vs" by (simp add: remove1_append)
    then show ?thesis using True inv_MoveToBack [OF inv s(1)] refines_set [OF r] by (fastforce simp: no_res_def)
  qed (use out r in \<open>auto simp: MoveToBack_def cell_def no_res_def\<close>)
qed

lemma refines_MoveBefore:
  assumes r: "refines h s" and ok: "op_ok s (OMoveBefore l k m)"
  shows "\<exists>h'. list_exec h (OMoveBefore l k m) = Some (spec_res s (OMoveBefore l k m), h') \<and> refines h' (spec_step s (OMoveBefore l k m))"
proof -
  have inv: "list_inv h (seqs s)" and n: "elems_alloc h = made s" using r by (auto simp: refines_def)
  note d = list_invD(1) [OF inv] and out = not_in_list [OF r]
  show ?thesis
  proof (cases "k \<in> set (seqs s l) \<and> k \<noteq> m")
    case True
    obtain us vs where s: "seqs s l = us @ k # vs" "k \<notin> set us" using split_at [OF _ d] True by blast
    then have e: "remove1 k (seqs s l) = us @ vs" by (simp add: remove1_append)
    have mem: "m \<in> set (us @ vs)" "distinct (us @ vs)" using True ok s(1) d [of l] by auto
    obtain us' vs' where s': "us @ vs = us' @ m # vs'" "m \<notin> set us'" using split_at [OF mem] by blast
    show ?thesis
      using True inv_MoveBefore [OF inv s(1) s'(1)] refines_set [OF r] e before_split [OF s'(2)] s'(1)
      by (fastforce simp: no_res_def)
  qed (use out r in \<open>auto simp: MoveBefore_def cell_def no_res_def\<close>)
qed

lemma refines_MoveAfter:
  assumes r: "refines h s" and ok: "op_ok s (OMoveAfter l k m)"
  shows "\<exists>h'. list_exec h (OMoveAfter l k m) = Some (spec_res s (OMoveAfter l k m), h') \<and> refines h' (spec_step s (OMoveAfter l k m))"
proof -
  have inv: "list_inv h (seqs s)" and n: "elems_alloc h = made s" using r by (auto simp: refines_def)
  note d = list_invD(1) [OF inv] and out = not_in_list [OF r]
  show ?thesis
  proof (cases "k \<in> set (seqs s l) \<and> k \<noteq> m")
    case True
    obtain us vs where s: "seqs s l = us @ k # vs" "k \<notin> set us" using split_at [OF _ d] True by blast
    then have e: "remove1 k (seqs s l) = us @ vs" by (simp add: remove1_append)
    have mem: "m \<in> set (us @ vs)" "distinct (us @ vs)" using True ok s(1) d [of l] by auto
    obtain us' vs' where s': "us @ vs = us' @ m # vs'" "m \<notin> set us'" using split_at [OF mem] by blast
    show ?thesis
      using True inv_MoveAfter [OF inv s(1) s'(1)] refines_set [OF r] e after_split [OF s'(2)] s'(1)
      by (fastforce simp: no_res_def)
  qed (use out r in \<open>auto simp: MoveAfter_def cell_def no_res_def\<close>)
qed

lemma dropWhile_nth:
  "distinct xs \<Longrightarrow> j < length xs \<Longrightarrow> dropWhile (\<lambda>x. x \<noteq> xs ! j) xs = drop j xs"
proof (induction xs arbitrary: j)
  case (Cons x xs)
  then show ?case by (cases j) auto
qed simp

lemma next_in_nth:
  assumes "distinct xs" "j < length xs"
  shows "next_in (xs ! j) xs = (if j + 1 < length xs then at_elem (xs ! (j + 1)) else None)"
proof -
  have d: "drop j xs = xs ! j # drop (Suc j) xs" using assms(2) by (simp add: Cons_nth_drop_Suc)
  show ?thesis
  proof (cases "Suc j < length xs")
    case True
    then have "drop (Suc j) xs = xs ! Suc j # drop (Suc (Suc j)) xs" by (simp add: Cons_nth_drop_Suc)
    then show ?thesis using True d by (simp add: next_in_def dropWhile_nth [OF assms])
  qed (use d in \<open>simp add: next_in_def dropWhile_nth [OF assms]\<close>)
qed

lemma Next_next_in:
  assumes "list_inv h S" "k \<in> set (S l)"
  shows "Next h (at_elem k) = Some (next_in k (S l))"
proof -
  obtain j where "j < length (S l)" "S l ! j = k" using assms(2) by (metis in_set_conv_nth)
  then show ?thesis
    using Next_nth [OF assms(1), of j l] next_in_nth [OF list_invD(1) [OF assms(1)], of j l] by simp
qed

lemma Prev_next_in:
  assumes "list_inv h S" "k \<in> set (S l)"
  shows "Prev h (at_elem k) = Some (next_in k (rev (S l)))"
proof -
  obtain j where j: "j < length (S l)" "S l ! j = k" using assms(2) by (metis in_set_conv_nth)
  define i where "i = length (S l) - Suc j"
  have i: "i < length (rev (S l))" "rev (S l) ! i = k" using j by (auto simp: i_def rev_nth)
  have "next_in k (rev (S l)) = (if i + 1 < length (rev (S l)) then at_elem (rev (S l) ! (i + 1)) else None)"
    using next_in_nth [of "rev (S l)" i] i list_invD(1) [OF assms(1), of l] by simp
  also have "\<dots> = (if 0 < j then at_elem (S l ! (j - 1)) else None)" using j(1) by (auto simp: i_def rev_nth intro: arg_cong [where f = "nth (S l)"])
  finally show ?thesis using Prev_nth [OF assms(1) j(1)] j(2) by simp
qed

lemma Front_head_of: "list_inv h S \<Longrightarrow> Front h l = head_of (S l)"
  by (simp add: Front_hd head_of_def split: list.splits)

lemma Back_head_of: "list_inv h S \<Longrightarrow> Back h l = head_of (rev (S l))"
  by (cases "S l" rule: rev_cases) (simp_all add: Back_last head_of_def)

lemma inv_Init:
  assumes "list_inv h S" "S l = []"
  shows "list_inv (list_Init h l) S \<and> vl (list_Init h l) = vl h \<and> elems_alloc (list_Init h l) = elems_alloc h"
proof (cases "nx h (RootOf l) = None")
  case True
  then have "list_Init h l = lazyInit h l" by (simp add: lazyInit_def)
  then show ?thesis using inv_lazyInit [OF assms(1), of l] by simp
next
  case False
  then have r: "ring h l ([] @ [])" using list_invD(3) [OF assms(1), of l] assms(2) by auto
  have "lens h l = 0" using list_invD(2) [OF assms(1), of l] assms(2) by simp
  then have "list_Init h l = h"
    using ring_head [of h l "[]"] ring_last [of h l "[]"] r
    by (auto simp: list_Init_def Let_def fun_eq_iff intro!: Store.equality Element.equality)
  then show ?thesis using assms(1) by simp
qed

lemma list_step_refines:
  assumes r: "refines h s" and ok: "op_ok s p"
  shows "\<exists>h'. list_exec h p = Some (spec_res s p, h') \<and> refines h' (spec_step s p)"
proof -
  have inv: "list_inv h (seqs s)" and n: "elems_alloc h = made s" using r by (auto simp: refines_def)
  show ?thesis
  proof (cases p)
    case (OPushFront l v)
    then show ?thesis using inv_PushFront [OF inv, of l v] refines_add [OF r] n by fastforce
  next
    case (OPushBack l v)
    then show ?thesis using inv_PushBack [OF inv, of l v] refines_add [OF r] n by fastforce
  next
    case (OInsertBefore l v m)
    then show ?thesis using refines_InsertBefore [OF r] by simp
  next
    case (OInsertAfter l v m)
    then show ?thesis using refines_InsertAfter [OF r] by simp
  next
    case (ORemove l k)
    then show ?thesis using refines_Remove [OF r] ok by simp
  next
    case (OMoveToFront l k)
    then show ?thesis using refines_MoveToFront [OF r] by simp
  next
    case (OMoveToBack l k)
    then show ?thesis using refines_MoveToBack [OF r] by simp
  next
    case (OMoveBefore l k m)
    then show ?thesis using refines_MoveBefore [OF r] ok by simp
  next
    case (OMoveAfter l k m)
    then show ?thesis using refines_MoveAfter [OF r] ok by simp
  next
    case (OPushBackList l other)
    then show ?thesis
      using inv_PushBackList [OF inv, of l other] refines_copies [OF r, of _ l _ "seqs s other" other] n
      by (fastforce simp: no_res_def)
  next
    case (OPushFrontList l other)
    then show ?thesis
      using inv_PushFrontList [OF inv, of l other] refines_copies [OF r, of _ l _ "rev (seqs s other)" other] n
      by (fastforce simp: no_res_def)
  next
    case (OInit l)
    then show ?thesis using inv_Init [OF inv, of l] ok refines_same [OF r, of "list_Init h l"] by (simp add: no_res_def)
  qed (use r ok in \<open>auto simp: Next_next_in [OF inv] Prev_next_in [OF inv] Front_head_of [OF inv] Back_head_of [OF inv]
      list_Len_def list_invD(2) [OF inv]\<close>)
qed

definition spec_init :: "'v spec_state" where
  "spec_init = \<lparr>seqs = (\<lambda>_. []), valmap = (\<lambda>_. None), made = 0\<rparr>"

lemma refines_init: "refines empty_store spec_init"
  by (simp add: refines_def list_inv_def empty_store_def spec_init_def zero_Element_def)

lemma list_run_refines:
  "refines h s \<Longrightarrow> ops_ok s ps \<Longrightarrow>
   \<exists>h'. list_run h ps = Some (fst (spec_run s ps), h') \<and> refines h' (snd (spec_run s ps))"
proof (induction ps arbitrary: h s)
  case (Cons p ps)
  obtain h1 where h1: "list_exec h p = Some (spec_res s p, h1)" "refines h1 (spec_step s p)"
    using list_step_refines [OF Cons.prems(1)] Cons.prems(2) by auto
  then show ?case using Cons.IH [OF h1(2)] Cons.prems(2) by (auto simp: split_beta Let_def)
qed simp

text \<open>
  \<open>for e := l.Front(); e != nil; e = e.Next()\<close>, as the package comment says to iterate: the elements
  visited. The loop need not end on every store; None is that, or a nil dereference.
\<close>

partial_function (option) list_walk :: "'v Store \<Rightarrow> ptr \<Rightarrow> ptr list option" where
  "list_walk h e =
     (if e = None then Some []
      else do { e' \<leftarrow> Next h e; es \<leftarrow> list_walk h e'; Some (e # es) })"

lemma list_walk_from:
  assumes "list_inv h S"
  shows "j + i = length (S l) \<Longrightarrow> e = (if j < length (S l) then Some (Elem (S l ! j)) else None) \<Longrightarrow>
    list_walk h e = Some (map (\<lambda>k. Some (Elem k)) (drop j (S l)))"
proof (induction i arbitrary: j e)
  case 0
  then show ?case by (subst list_walk.simps) simp
next
  case (Suc i)
  then have j: "j < length (S l)" by simp
  have "list_walk h (if j + 1 < length (S l) then Some (Elem (S l ! (j + 1))) else None) =
      Some (map (\<lambda>k. Some (Elem k)) (drop (j + 1) (S l)))"
    using Suc.prems(1) by (intro Suc.IH) auto
  moreover have "drop j (S l) = S l ! j # drop (j + 1) (S l)" using j by (simp add: Cons_nth_drop_Suc)
  ultimately show ?case using Suc.prems(2) j Next_nth [OF assms j] by (subst list_walk.simps) simp
qed

section \<open>Results\<close>

text \<open>
  C12. Linked lists refine sequences. A sequence of operations of the package on any number of lists
  that keeps to \<open>op_ok\<close> (the marks of \<open>MoveBefore\<close> and \<open>MoveAfter\<close> belong to the list, \<open>Init\<close> meets an
  empty list, \<open>Next\<close> and \<open>Prev\<close> are asked of elements of the list, elements exist) runs without a nil
  dereference; every operation returns what it returns on sequences (the new element or nil, the
  value removed, lengths, ends and neighbours), and the store it leaves has the sequences as its
  lists, with the values. \<open>PushBackList\<close> and \<open>PushFrontList\<close> of a list to itself are included.
\<close>

theorem list_refines:
  assumes "ops_ok spec_init ps"
  shows "\<exists>h. list_run empty_store ps = Some (fst (spec_run spec_init ps), h) \<and> refines h (snd (spec_run spec_init ps))"
  using list_run_refines [OF refines_init assms] .

theorem list_refines_witness:
  "ops_ok spec_init [OInit 0, OPushBack 0 (Some (7::nat)), OPushBack 0 (Some 8), OMoveBefore 0 1 0, OPushFrontList 0 0,
     OFront 0, ONext 0 1, ORemove 0 1, OLen 0] \<and>
   (\<exists>h. list_run empty_store [OInit 0, OPushBack 0 (Some (7::nat)), OPushBack 0 (Some 8), OMoveBefore 0 1 0, OPushFrontList 0 0,
       OFront 0, ONext 0 1, ORemove 0 1, OLen 0] =
     Some ([RUnit, RElem (Some (Elem 0)), RElem (Some (Elem 1)), RUnit, RUnit, RElem (Some (Elem 3)), RElem (Some (Elem 0)),
       RVal (Some 8), RLen 3], h) \<and> Front h 0 = Some (Elem 3))"
proof -
  let ?ps = "[OInit 0, OPushBack 0 (Some (7::nat)), OPushBack 0 (Some 8), OMoveBefore 0 1 0, OPushFrontList 0 0,
     OFront 0, ONext 0 1, ORemove 0 1, OLen 0]"
  have ok: "ops_ok spec_init ?ps"
    by (simp add: spec_init_def add_elem_def add_copies_def set_seq_def before_def upt_rec)
  have res: "fst (spec_run spec_init ?ps) = [RUnit, RElem (Some (Elem 0)), RElem (Some (Elem 1)), RUnit, RUnit,
      RElem (Some (Elem 3)), RElem (Some (Elem 0)), RVal (Some 8), RLen 3]"
    and seq: "seqs (snd (spec_run spec_init ?ps)) 0 = [3, 2, 0]"
    by (simp_all add: spec_init_def add_elem_def add_copies_def set_seq_def before_def next_in_def head_of_def upt_rec)
  obtain h where h: "list_run empty_store ?ps = Some (fst (spec_run spec_init ?ps), h)"
    "refines h (snd (spec_run spec_init ?ps))" using list_refines [OF ok] by blast
  have "list_inv h (seqs (snd (spec_run spec_init ?ps)))" using h(2) by (simp only: refines_def)
  from Front_head_of [OF this, of 0] have "Front h 0 = Some (Elem 3)" unfolding seq by (simp add: head_of_def)
  then show ?thesis using ok h(1) unfolding res by blast
qed

text \<open>
  In a store that keeps the invariant \<open>Len\<close> is the length of the sequence, \<open>Front\<close> and \<open>Back\<close> are
  its ends, and the loop from \<open>Front\<close> along \<open>Next\<close> visits exactly the elements of the list in order
  and ends.
\<close>

theorem list_iteration:
  assumes "list_inv h S"
  shows "list_Len h l = int (length (S l)) \<and>
    list_walk h (Front h l) = Some (map (\<lambda>k. Some (Elem k)) (S l)) \<and>
    Back h l = (if S l = [] then None else Some (Elem (last (S l))))"
proof -
  have "list_walk h (Front h l) = Some (map (\<lambda>k. Some (Elem k)) (drop 0 (S l)))"
    by (rule list_walk_from [OF assms, where i = "length (S l)"]) (simp_all add: Front_hd [OF assms] hd_conv_nth)
  then show ?thesis using list_invD(2) [OF assms] Back_last [OF assms] by (simp add: list_Len_def)
qed

text \<open>
  Two uses of the package break its invariant without an error. \<open>MoveAfter\<close> does not test that the
  mark belongs to the list: with a mark of another list the moved element leaves list 0, which
  becomes unreachable from \<open>Front\<close> while \<open>Len\<close> still says 1, and enters list 1, whose \<open>Len\<close> does not
  count it. \<open>Init\<close> clears a list but not the \<open>list\<close> fields of its elements: removing one of them
  afterwards is not refused, and the length becomes -1.
\<close>

theorem list_misuse:
  "(\<exists>rs h. list_run empty_store [OPushBack 0 (Some (7::nat)), OPushBack 1 (Some 8), OMoveAfter 0 0 1] = Some (rs, h) \<and>
     list_Len h 0 = 1 \<and> Front h 0 = Some (RootOf 0) \<and> list_Len h 1 = 1 \<and>
     Front h 1 = Some (Elem 1) \<and> Next h (Some (Elem 1)) = Some (Some (Elem 0))) \<and>
   (\<exists>h. list_run empty_store [OPushBack 0 (Some (7::nat)), OInit 0, ORemove 0 0, OLen 0] =
     Some ([RElem (Some (Elem 0)), RUnit, RVal (Some 7), RLen (- 1)], h))"
  by (simp add: empty_store_def zero_Element_def PushBack_def lazyInit_def list_Init_def insertValue_def
      list_insert_def list_remove_def list_Remove_def MoveAfter_def cell_def upd_def add_len_def list_Len_def
      Front_def Next_def Let_def no_res_def)

end
