(* ===== verification/BinaryDefs.thy ===== *)
theory BinaryDefs
  imports WordBits "HOL-Library.Monad_Syntax"
begin

text \<open>
  Package encoding/binary (\<open>src/src/pkg/encoding/binary\<close>): the byte orders, variable-length
  integers, and \<open>Read\<close> and \<open>Write\<close> of fixed-size data. What the code learns from package reflect about
  a value is the datatype \<open>goval\<close>: its kind, its elements or fields and, of a field, whether it is
  blank and whether it is exported. A float is its bit pattern. An index or slice out of range
  panics, which is the value \<open>None\<close>.
\<close>

unbundle bit_operations_syntax

section \<open>Byte orders\<close>

record ByteOrder =
  Uint16 :: "byte list \<Rightarrow> uint16 option"
  Uint32 :: "byte list \<Rightarrow> uint32 option"
  Uint64 :: "byte list \<Rightarrow> uint64 option"
  PutUint16 :: "byte list \<Rightarrow> uint16 \<Rightarrow> byte list option"
  PutUint32 :: "byte list \<Rightarrow> uint32 \<Rightarrow> byte list option"
  PutUint64 :: "byte list \<Rightarrow> uint64 \<Rightarrow> byte list option"

text \<open>The assignments \<open>b[0] = w0; b[1] = w1; \<dots>\<close>.\<close>

definition put_bytes :: "byte list \<Rightarrow> byte list \<Rightarrow> byte list option" where
  "put_bytes b ws = (if length ws \<le> length b then Some (ws @ drop (length ws) b) else None)"

definition little_Uint16 :: "byte list \<Rightarrow> uint16 option" where
  "little_Uint16 b =
     (if length b < 2 then None
      else Some (ucast (b ! 0) OR push_bit 8 (ucast (b ! 1))))"

definition little_PutUint16 :: "byte list \<Rightarrow> uint16 \<Rightarrow> byte list option" where
  "little_PutUint16 b v = put_bytes b
     [ucast v, ucast (drop_bit 8 v)]"

definition little_Uint32 :: "byte list \<Rightarrow> uint32 option" where
  "little_Uint32 b =
     (if length b < 4 then None
      else Some (ucast (b ! 0) OR push_bit 8 (ucast (b ! 1)) OR push_bit 16 (ucast (b ! 2)) OR push_bit 24 (ucast (b ! 3))))"

definition little_PutUint32 :: "byte list \<Rightarrow> uint32 \<Rightarrow> byte list option" where
  "little_PutUint32 b v = put_bytes b
     [ucast v, ucast (drop_bit 8 v), ucast (drop_bit 16 v), ucast (drop_bit 24 v)]"

definition little_Uint64 :: "byte list \<Rightarrow> uint64 option" where
  "little_Uint64 b =
     (if length b < 8 then None
      else Some (ucast (b ! 0) OR push_bit 8 (ucast (b ! 1)) OR push_bit 16 (ucast (b ! 2)) OR push_bit 24 (ucast (b ! 3)) OR
        push_bit 32 (ucast (b ! 4)) OR push_bit 40 (ucast (b ! 5)) OR push_bit 48 (ucast (b ! 6)) OR push_bit 56 (ucast (b ! 7))))"

definition little_PutUint64 :: "byte list \<Rightarrow> uint64 \<Rightarrow> byte list option" where
  "little_PutUint64 b v = put_bytes b
     [ucast v, ucast (drop_bit 8 v), ucast (drop_bit 16 v), ucast (drop_bit 24 v),
      ucast (drop_bit 32 v), ucast (drop_bit 40 v), ucast (drop_bit 48 v), ucast (drop_bit 56 v)]"

definition big_Uint16 :: "byte list \<Rightarrow> uint16 option" where
  "big_Uint16 b =
     (if length b < 2 then None
      else Some (ucast (b ! 1) OR push_bit 8 (ucast (b ! 0))))"

definition big_PutUint16 :: "byte list \<Rightarrow> uint16 \<Rightarrow> byte list option" where
  "big_PutUint16 b v = put_bytes b
     [ucast (drop_bit 8 v), ucast v]"

definition big_Uint32 :: "byte list \<Rightarrow> uint32 option" where
  "big_Uint32 b =
     (if length b < 4 then None
      else Some (ucast (b ! 3) OR push_bit 8 (ucast (b ! 2)) OR push_bit 16 (ucast (b ! 1)) OR push_bit 24 (ucast (b ! 0))))"

definition big_PutUint32 :: "byte list \<Rightarrow> uint32 \<Rightarrow> byte list option" where
  "big_PutUint32 b v = put_bytes b
     [ucast (drop_bit 24 v), ucast (drop_bit 16 v), ucast (drop_bit 8 v), ucast v]"

definition big_Uint64 :: "byte list \<Rightarrow> uint64 option" where
  "big_Uint64 b =
     (if length b < 8 then None
      else Some (ucast (b ! 7) OR push_bit 8 (ucast (b ! 6)) OR push_bit 16 (ucast (b ! 5)) OR push_bit 24 (ucast (b ! 4)) OR
        push_bit 32 (ucast (b ! 3)) OR push_bit 40 (ucast (b ! 2)) OR push_bit 48 (ucast (b ! 1)) OR push_bit 56 (ucast (b ! 0))))"

definition big_PutUint64 :: "byte list \<Rightarrow> uint64 \<Rightarrow> byte list option" where
  "big_PutUint64 b v = put_bytes b
     [ucast (drop_bit 56 v), ucast (drop_bit 48 v), ucast (drop_bit 40 v), ucast (drop_bit 32 v),
      ucast (drop_bit 24 v), ucast (drop_bit 16 v), ucast (drop_bit 8 v), ucast v]"

definition LittleEndian :: ByteOrder where
  "LittleEndian =
     \<lparr>Uint16 = little_Uint16,
      Uint32 = little_Uint32,
      Uint64 = little_Uint64,
      PutUint16 = little_PutUint16,
      PutUint32 = little_PutUint32,
      PutUint64 = little_PutUint64\<rparr>"

definition BigEndian :: ByteOrder where
  "BigEndian =
     \<lparr>Uint16 = big_Uint16,
      Uint32 = big_Uint32,
      Uint64 = big_Uint64,
      PutUint16 = big_PutUint16,
      PutUint32 = big_PutUint32,
      PutUint64 = big_PutUint64\<rparr>"

section \<open>Variable-length integers\<close>

definition MaxVarintLen16 :: nat where "MaxVarintLen16 = 3"
definition MaxVarintLen32 :: nat where "MaxVarintLen32 = 5"
definition MaxVarintLen64 :: nat where "MaxVarintLen64 = 10"

definition set_byte :: "byte list \<Rightarrow> nat \<Rightarrow> byte \<Rightarrow> byte list option" where
  "set_byte buf i b = (if i < length buf then Some (buf[i := b]) else None)"

function PutUvarint_loop :: "byte list \<Rightarrow> uint64 \<Rightarrow> nat \<Rightarrow> (byte list \<times> nat) option" where
  "PutUvarint_loop buf x i =
     (if x \<ge> 0x80 then do {
        buf \<leftarrow> set_byte buf i (ucast x OR 0x80);
        PutUvarint_loop buf (drop_bit 7 x) (i + 1) }
      else do {
        buf \<leftarrow> set_byte buf i (ucast x);
        Some (buf, i + 1) })"
  by pat_completeness auto
termination
proof (relation "measure (\<lambda>(buf, x, i). unat x)", goal_cases)
  case (2 buf x i buf')
  then have "0x80 \<le> unat x" by (simp add: word_le_nat_alt)
  then show ?case by (simp add: unat_drop_bit)
qed simp

declare PutUvarint_loop.simps [simp del]

definition PutUvarint :: "byte list \<Rightarrow> uint64 \<Rightarrow> (byte list \<times> nat) option" where
  "PutUvarint buf x = PutUvarint_loop buf x 0"

text \<open>The loop \<open>for i, b := range buf\<close>; \<open>s\<close> is a uint.\<close>

fun Uvarint_loop :: "byte list \<Rightarrow> nat \<Rightarrow> uint64 \<Rightarrow> uint64 \<Rightarrow> uint64 \<times> int" where
  "Uvarint_loop [] i x s = (0, 0)"
| "Uvarint_loop (b # bs) i x s =
     (if b < 0x80 then
        if i > 9 \<or> i = 9 \<and> b > 1 then (0, - (int i + 1))
        else (x OR push_bit (unat s) (ucast b), int i + 1)
      else Uvarint_loop bs (i + 1) (x OR push_bit (unat s) (ucast (b AND 0x7f))) (s + 7))"

definition Uvarint :: "byte list \<Rightarrow> uint64 \<times> int" where
  "Uvarint buf = Uvarint_loop buf 0 0 0"

definition PutVarint :: "byte list \<Rightarrow> 64 word \<Rightarrow> (byte list \<times> nat) option" where
  "PutVarint buf x =
     (let ux = push_bit 1 x;
          ux = (if sint x < 0 then NOT ux else ux)
      in PutUvarint buf ux)"

definition Varint :: "byte list \<Rightarrow> 64 word \<times> int" where
  "Varint buf =
     (let (ux, n) = Uvarint buf;
          x = drop_bit 1 ux;
          x = (if ux AND 1 \<noteq> 0 then NOT x else x)
      in (x, n))"

text \<open>
  A reader is the bytes it still has to give; at its end \<open>ReadByte\<close> returns the error \<open>io.EOF\<close>. The
  results also carry what is left to read.
\<close>

datatype bin_err = EOF | UnexpectedEOF | VarintOverflow | InvalidType

fun ReadUvarint_loop :: "byte list \<Rightarrow> nat \<Rightarrow> uint64 \<Rightarrow> uint64 \<Rightarrow> (uint64 \<times> bin_err option) \<times> byte list" where
  "ReadUvarint_loop [] i x s = ((x, Some EOF), [])"
| "ReadUvarint_loop (b # r) i x s =
     (if b < 0x80 then
        if i > 9 \<or> i = 9 \<and> b > 1 then ((x, Some VarintOverflow), r)
        else ((x OR push_bit (unat s) (ucast b), None), r)
      else ReadUvarint_loop r (i + 1) (x OR push_bit (unat s) (ucast (b AND 0x7f))) (s + 7))"

definition ReadUvarint :: "byte list \<Rightarrow> (uint64 \<times> bin_err option) \<times> byte list" where
  "ReadUvarint r = ReadUvarint_loop r 0 0 0"

definition ReadVarint :: "byte list \<Rightarrow> (64 word \<times> bin_err option) \<times> byte list" where
  "ReadVarint r =
     (let ((ux, err), r) = ReadUvarint r;
          x = drop_bit 1 ux;
          x = (if ux AND 1 \<noteq> 0 then NOT x else x)
      in ((x, err), r))"

end
