(* ===== verification/BinaryData.thy ===== *)
theory BinaryData
  imports BinaryDefs
begin

unbundle bit_operations_syntax

text \<open>
  \<open>Read\<close> and \<open>Write\<close> of package encoding/binary (\<open>binary.go\<close>): the fast path for integers and slices of
  integers, and the general path, which package reflect serves. A \<open>goval\<close> is what reflection shows of
  a value; the blank flag of a field says that its name is \<open>_\<close>, the exported flag that its name
  starts with a capital letter (a blank field is never exported). A writer is the bytes it is
  given, a reader the bytes it has.
\<close>

datatype gotype =
    TInt8 | TInt16 | TInt32 | TInt64 | TUint8 | TUint16 | TUint32 | TUint64
  | TFloat32 | TFloat64 | TComplex64 | TComplex128
  | TArray gotype nat | TStruct "tfield list" | TSlice gotype | TOther
and tfield = TField bool bool gotype

datatype goval =
    VInt8 byte | VInt16 uint16 | VInt32 uint32 | VInt64 uint64
  | VUint8 byte | VUint16 uint16 | VUint32 uint32 | VUint64 uint64
  | VFloat32 uint32 | VFloat64 uint64 | VComplex64 uint32 uint32 | VComplex128 uint64 uint64
  | VArray gotype "goval list" | VStruct "vfield list" | VSlice gotype "goval list" | VOther
and vfield = VField bool bool goval

fun typ_of :: "goval \<Rightarrow> gotype" and typ_of_fields :: "vfield list \<Rightarrow> tfield list" where
  "typ_of (VInt8 _) = TInt8" | "typ_of (VInt16 _) = TInt16" | "typ_of (VInt32 _) = TInt32" | "typ_of (VInt64 _) = TInt64"
| "typ_of (VUint8 _) = TUint8" | "typ_of (VUint16 _) = TUint16" | "typ_of (VUint32 _) = TUint32" | "typ_of (VUint64 _) = TUint64"
| "typ_of (VFloat32 _) = TFloat32" | "typ_of (VFloat64 _) = TFloat64"
| "typ_of (VComplex64 _ _) = TComplex64" | "typ_of (VComplex128 _ _) = TComplex128"
| "typ_of (VArray t vs) = TArray t (length vs)"
| "typ_of (VStruct fs) = TStruct (typ_of_fields fs)"
| "typ_of (VSlice t vs) = TSlice t"
| "typ_of VOther = TOther"
| "typ_of_fields [] = []"
| "typ_of_fields (VField b e v # fs) = TField b e (typ_of v) # typ_of_fields fs"

section \<open>Sizes\<close>

fun sizeof :: "gotype \<Rightarrow> nat option" and sizeof_fields :: "tfield list \<Rightarrow> nat \<Rightarrow> nat option" where
  "sizeof (TArray t n) = do { k \<leftarrow> sizeof t; Some (n * k) }"
| "sizeof (TStruct fs) = sizeof_fields fs 0"
| "sizeof TUint8 = Some 1" | "sizeof TUint16 = Some 2" | "sizeof TUint32 = Some 4" | "sizeof TUint64 = Some 8"
| "sizeof TInt8 = Some 1" | "sizeof TInt16 = Some 2" | "sizeof TInt32 = Some 4" | "sizeof TInt64 = Some 8"
| "sizeof TFloat32 = Some 4" | "sizeof TFloat64 = Some 8" | "sizeof TComplex64 = Some 8" | "sizeof TComplex128 = Some 16"
| "sizeof (TSlice t) = None" | "sizeof TOther = None"
| "sizeof_fields [] acc = Some acc"
| "sizeof_fields (TField _ _ t # fs) acc = do { s \<leftarrow> sizeof t; sizeof_fields fs (acc + s) }"

definition dataSize :: "goval \<Rightarrow> nat option" where
  "dataSize v = (case v of
     VSlice t vs \<Rightarrow> do { elem \<leftarrow> sizeof t; Some (length vs * elem) }
   | _ \<Rightarrow> sizeof (typ_of v))"

section \<open>Floats\<close>

text \<open>
  The conversion \<open>float32(float64(x))\<close> on bit patterns. \<open>v.Float()\<close> and \<open>v.SetFloat\<close> of package reflect
  pass a float32 through a float64, which holds every float32 exactly; of a signalling NaN the
  conversions set the top bit of the mantissa and keep the rest of it.
\<close>

definition via_float64 :: "uint32 \<Rightarrow> uint32" where
  "via_float64 x = (if 0x7f800000 < x AND 0x7fffffff then x OR 0x00400000 else x)"

section \<open>The encoder\<close>

text \<open>The state is what has been written and the window \<open>e.buf\<close> that is left.\<close>

type_synonym enc_state = "byte list \<times> byte list"

fun enc_uint8 :: "byte \<Rightarrow> enc_state \<Rightarrow> enc_state option" where
  "enc_uint8 x (d, buf) = (case buf of [] \<Rightarrow> None | _ # r \<Rightarrow> Some (d @ [x], r))"

fun enc_uint16 :: "ByteOrder \<Rightarrow> uint16 \<Rightarrow> enc_state \<Rightarrow> enc_state option" where
  "enc_uint16 ord x (d, buf) =
     (if length buf < 2 then None else do { w \<leftarrow> PutUint16 ord (take 2 buf) x; Some (d @ w, drop 2 buf) })"

fun enc_uint32 :: "ByteOrder \<Rightarrow> uint32 \<Rightarrow> enc_state \<Rightarrow> enc_state option" where
  "enc_uint32 ord x (d, buf) =
     (if length buf < 4 then None else do { w \<leftarrow> PutUint32 ord (take 4 buf) x; Some (d @ w, drop 4 buf) })"

fun enc_uint64 :: "ByteOrder \<Rightarrow> uint64 \<Rightarrow> enc_state \<Rightarrow> enc_state option" where
  "enc_uint64 ord x (d, buf) =
     (if length buf < 8 then None else do { w \<leftarrow> PutUint64 ord (take 8 buf) x; Some (d @ w, drop 8 buf) })"

fun enc_skip :: "goval \<Rightarrow> enc_state \<Rightarrow> enc_state option" where
  "enc_skip v (d, buf) =
     (let n = (case dataSize v of None \<Rightarrow> 0 | Some n \<Rightarrow> n) in
      if n \<le> length buf then Some (d @ replicate n 0, drop n buf) else None)"

text \<open>
  \<open>v.CanSet() || t.Field(i).Name != "_"\<close>: only an exported field can be set, and an exported field
  is not blank.
\<close>

fun enc_value :: "ByteOrder \<Rightarrow> goval \<Rightarrow> enc_state \<Rightarrow> enc_state option"
  and enc_elems :: "ByteOrder \<Rightarrow> goval list \<Rightarrow> enc_state \<Rightarrow> enc_state option"
  and enc_fields :: "ByteOrder \<Rightarrow> vfield list \<Rightarrow> enc_state \<Rightarrow> enc_state option" where
  "enc_value ord (VArray t vs) s = enc_elems ord vs s"
| "enc_value ord (VStruct fs) s = enc_fields ord fs s"
| "enc_value ord (VSlice t vs) s = enc_elems ord vs s"
| "enc_value ord (VInt8 x) s = enc_uint8 x s"
| "enc_value ord (VInt16 x) s = enc_uint16 ord x s"
| "enc_value ord (VInt32 x) s = enc_uint32 ord x s"
| "enc_value ord (VInt64 x) s = enc_uint64 ord x s"
| "enc_value ord (VUint8 x) s = enc_uint8 x s"
| "enc_value ord (VUint16 x) s = enc_uint16 ord x s"
| "enc_value ord (VUint32 x) s = enc_uint32 ord x s"
| "enc_value ord (VUint64 x) s = enc_uint64 ord x s"
| "enc_value ord (VFloat32 x) s = enc_uint32 ord (via_float64 x) s"
| "enc_value ord (VFloat64 x) s = enc_uint64 ord x s"
| "enc_value ord (VComplex64 x y) s = do { s \<leftarrow> enc_uint32 ord (via_float64 x) s; enc_uint32 ord (via_float64 y) s }"
| "enc_value ord (VComplex128 x y) s = do { s \<leftarrow> enc_uint64 ord x s; enc_uint64 ord y s }"
| "enc_value ord VOther s = Some s"
| "enc_elems ord [] s = Some s"
| "enc_elems ord (v # vs) s = do { s \<leftarrow> enc_value ord v s; enc_elems ord vs s }"
| "enc_fields ord [] s = Some s"
| "enc_fields ord (VField blank exported v # fs) s = do {
     s \<leftarrow> (if exported \<or> \<not> blank then enc_value ord v s else enc_skip v s);
     enc_fields ord fs s }"

section \<open>The decoder\<close>

definition dec_uint8 :: "byte list \<Rightarrow> (byte \<times> byte list) option" where
  "dec_uint8 buf = (case buf of [] \<Rightarrow> None | x # r \<Rightarrow> Some (x, r))"

definition dec_uint16 :: "ByteOrder \<Rightarrow> byte list \<Rightarrow> (uint16 \<times> byte list) option" where
  "dec_uint16 ord buf =
     (if length buf < 2 then None else do { x \<leftarrow> Uint16 ord (take 2 buf); Some (x, drop 2 buf) })"

definition dec_uint32 :: "ByteOrder \<Rightarrow> byte list \<Rightarrow> (uint32 \<times> byte list) option" where
  "dec_uint32 ord buf =
     (if length buf < 4 then None else do { x \<leftarrow> Uint32 ord (take 4 buf); Some (x, drop 4 buf) })"

definition dec_uint64 :: "ByteOrder \<Rightarrow> byte list \<Rightarrow> (uint64 \<times> byte list) option" where
  "dec_uint64 ord buf =
     (if length buf < 8 then None else do { x \<leftarrow> Uint64 ord (take 8 buf); Some (x, drop 8 buf) })"

definition dec_skip :: "goval \<Rightarrow> byte list \<Rightarrow> byte list option" where
  "dec_skip v buf =
     (let n = (case dataSize v of None \<Rightarrow> 0 | Some n \<Rightarrow> n) in
      if n \<le> length buf then Some (drop n buf) else None)"

text \<open>
  The value passed is the one that is overwritten; the result is the new value and the rest of the
  buffer. The flag says that the value was reached through an unexported field: setting it panics.
\<close>

definition set_leaf :: "bool \<Rightarrow> ('a \<Rightarrow> goval) \<Rightarrow> ('a \<times> byte list) option \<Rightarrow> (goval \<times> byte list) option" where
  "set_leaf ro c r = do { (x, buf) \<leftarrow> r; if ro then None else Some (c x, buf) }"

fun dec_value :: "ByteOrder \<Rightarrow> bool \<Rightarrow> goval \<Rightarrow> byte list \<Rightarrow> (goval \<times> byte list) option"
  and dec_elems :: "ByteOrder \<Rightarrow> bool \<Rightarrow> goval list \<Rightarrow> byte list \<Rightarrow> (goval list \<times> byte list) option"
  and dec_fields :: "ByteOrder \<Rightarrow> bool \<Rightarrow> vfield list \<Rightarrow> byte list \<Rightarrow> (vfield list \<times> byte list) option" where
  "dec_value ord ro (VArray t vs) buf = do { (vs, buf) \<leftarrow> dec_elems ord ro vs buf; Some (VArray t vs, buf) }"
| "dec_value ord ro (VStruct fs) buf = do { (fs, buf) \<leftarrow> dec_fields ord ro fs buf; Some (VStruct fs, buf) }"
| "dec_value ord ro (VSlice t vs) buf = do { (vs, buf) \<leftarrow> dec_elems ord ro vs buf; Some (VSlice t vs, buf) }"
| "dec_value ord ro (VInt8 _) buf = set_leaf ro VInt8 (dec_uint8 buf)"
| "dec_value ord ro (VInt16 _) buf = set_leaf ro VInt16 (dec_uint16 ord buf)"
| "dec_value ord ro (VInt32 _) buf = set_leaf ro VInt32 (dec_uint32 ord buf)"
| "dec_value ord ro (VInt64 _) buf = set_leaf ro VInt64 (dec_uint64 ord buf)"
| "dec_value ord ro (VUint8 _) buf = set_leaf ro VUint8 (dec_uint8 buf)"
| "dec_value ord ro (VUint16 _) buf = set_leaf ro VUint16 (dec_uint16 ord buf)"
| "dec_value ord ro (VUint32 _) buf = set_leaf ro VUint32 (dec_uint32 ord buf)"
| "dec_value ord ro (VUint64 _) buf = set_leaf ro VUint64 (dec_uint64 ord buf)"
| "dec_value ord ro (VFloat32 _) buf = set_leaf ro (\<lambda>x. VFloat32 (via_float64 x)) (dec_uint32 ord buf)"
| "dec_value ord ro (VFloat64 _) buf = set_leaf ro VFloat64 (dec_uint64 ord buf)"
| "dec_value ord ro (VComplex64 _ _) buf = set_leaf ro (\<lambda>(x, y). VComplex64 (via_float64 x) (via_float64 y))
     (do { (x, buf) \<leftarrow> dec_uint32 ord buf; (y, buf) \<leftarrow> dec_uint32 ord buf; Some ((x, y), buf) })"
| "dec_value ord ro (VComplex128 _ _) buf = set_leaf ro (\<lambda>(x, y). VComplex128 x y)
     (do { (x, buf) \<leftarrow> dec_uint64 ord buf; (y, buf) \<leftarrow> dec_uint64 ord buf; Some ((x, y), buf) })"
| "dec_value ord ro VOther buf = Some (VOther, buf)"
| "dec_elems ord ro [] buf = Some ([], buf)"
| "dec_elems ord ro (v # vs) buf = do {
     (v, buf) \<leftarrow> dec_value ord ro v buf;
     (vs, buf) \<leftarrow> dec_elems ord ro vs buf;
     Some (v # vs, buf) }"
| "dec_fields ord ro [] buf = Some ([], buf)"
| "dec_fields ord ro (VField blank exported v # fs) buf = do {
     (v, buf) \<leftarrow> (if exported \<or> \<not> blank then dec_value ord (ro \<or> \<not> exported) v buf
                  else do { buf \<leftarrow> dec_skip v buf; Some (v, buf) });
     (fs, buf) \<leftarrow> dec_fields ord ro fs buf;
     Some (VField blank exported v # fs, buf) }"

section \<open>Read and Write\<close>

text \<open>
  The argument \<open>data interface{}\<close>: a value, or a pointer to one. The element of a slice of integers
  is read as a word of the slice's width.
\<close>

datatype godata = Val goval | Ptr goval

fun word8_of :: "goval \<Rightarrow> byte" where
  "word8_of (VInt8 x) = x" | "word8_of (VUint8 x) = x" | "word8_of _ = 0"

fun word16_of :: "goval \<Rightarrow> uint16" where
  "word16_of (VInt16 x) = x" | "word16_of (VUint16 x) = x" | "word16_of _ = 0"

fun word32_of :: "goval \<Rightarrow> uint32" where
  "word32_of (VInt32 x) = x" | "word32_of (VUint32 x) = x" | "word32_of _ = 0"

fun word64_of :: "goval \<Rightarrow> uint64" where
  "word64_of (VInt64 x) = x" | "word64_of (VUint64 x) = x" | "word64_of _ = 0"

fun intDataSize :: "godata \<Rightarrow> nat" where
  "intDataSize (Val (VInt8 _)) = 1" | "intDataSize (Ptr (VInt8 _)) = 1" | "intDataSize (Ptr (VUint8 _)) = 1"
| "intDataSize (Val (VSlice TInt8 vs)) = length vs" | "intDataSize (Val (VSlice TUint8 vs)) = length vs"
| "intDataSize (Val (VInt16 _)) = 2" | "intDataSize (Ptr (VInt16 _)) = 2" | "intDataSize (Ptr (VUint16 _)) = 2"
| "intDataSize (Val (VSlice TInt16 vs)) = 2 * length vs" | "intDataSize (Val (VSlice TUint16 vs)) = 2 * length vs"
| "intDataSize (Val (VInt32 _)) = 4" | "intDataSize (Ptr (VInt32 _)) = 4" | "intDataSize (Ptr (VUint32 _)) = 4"
| "intDataSize (Val (VSlice TInt32 vs)) = 4 * length vs" | "intDataSize (Val (VSlice TUint32 vs)) = 4 * length vs"
| "intDataSize (Val (VInt64 _)) = 8" | "intDataSize (Ptr (VInt64 _)) = 8" | "intDataSize (Ptr (VUint64 _)) = 8"
| "intDataSize (Val (VSlice TInt64 vs)) = 8 * length vs" | "intDataSize (Val (VSlice TUint64 vs)) = 8 * length vs"
| "intDataSize _ = 0"

text \<open>\<open>for i, x := range v { put(bs[k*i:], x) }\<close>.\<close>

fun put_loop :: "(byte list \<Rightarrow> 'x \<Rightarrow> byte list option) \<Rightarrow> nat \<Rightarrow> byte list \<Rightarrow> nat \<Rightarrow> 'x list \<Rightarrow> byte list option" where
  "put_loop put k bs i [] = Some bs"
| "put_loop put k bs i (x # xs) =
     (if k * i \<le> length bs then do {
        w \<leftarrow> put (drop (k * i) bs) x;
        put_loop put k (take (k * i) bs @ w) (i + 1) xs }
      else None)"

text \<open>\<open>for i := range data { data[i] = get(bs[k*i:]) }\<close>.\<close>

fun get_loop :: "(byte list \<Rightarrow> 'x option) \<Rightarrow> nat \<Rightarrow> byte list \<Rightarrow> nat \<Rightarrow> nat \<Rightarrow> 'x list option" where
  "get_loop get k bs i 0 = Some []"
| "get_loop get k bs i (Suc n) =
     (if k * i \<le> length bs then do { x \<leftarrow> get (drop (k * i) bs); xs \<leftarrow> get_loop get k bs (i + 1) n; Some (x # xs) }
      else None)"

definition put8 :: "byte list \<Rightarrow> byte \<Rightarrow> byte list option" where
  "put8 b x = put_bytes b [x]"

definition get8 :: "byte list \<Rightarrow> byte option" where
  "get8 b = (case b of [] \<Rightarrow> None | x # _ \<Rightarrow> Some x)"

text \<open>The bytes handed to \<open>w.Write\<close> by the fast path; \<open>None\<close> is a panic.\<close>

fun write_fast :: "ByteOrder \<Rightarrow> godata \<Rightarrow> byte list \<Rightarrow> byte list option" where
  "write_fast ord (Ptr (VInt8 x)) bs = put8 (replicate 1 0) x"
| "write_fast ord (Val (VInt8 x)) bs = put8 (replicate 1 0) x"
| "write_fast ord (Val (VSlice TInt8 vs)) bs = put_loop put8 1 bs 0 (map word8_of vs)"
| "write_fast ord (Ptr (VUint8 x)) bs = put8 (replicate 1 0) x"
| "write_fast ord (Val (VUint8 x)) bs = put8 (replicate 1 0) x"
| "write_fast ord (Val (VSlice TUint8 vs)) bs = Some (map word8_of vs)"
| "write_fast ord (Ptr (VInt16 x)) bs = PutUint16 ord (replicate 2 0) x"
| "write_fast ord (Val (VInt16 x)) bs = PutUint16 ord (replicate 2 0) x"
| "write_fast ord (Val (VSlice TInt16 vs)) bs = put_loop (PutUint16 ord) 2 bs 0 (map word16_of vs)"
| "write_fast ord (Ptr (VUint16 x)) bs = PutUint16 ord (replicate 2 0) x"
| "write_fast ord (Val (VUint16 x)) bs = PutUint16 ord (replicate 2 0) x"
| "write_fast ord (Val (VSlice TUint16 vs)) bs = put_loop (PutUint16 ord) 2 bs 0 (map word16_of vs)"
| "write_fast ord (Ptr (VInt32 x)) bs = PutUint32 ord (replicate 4 0) x"
| "write_fast ord (Val (VInt32 x)) bs = PutUint32 ord (replicate 4 0) x"
| "write_fast ord (Val (VSlice TInt32 vs)) bs = put_loop (PutUint32 ord) 4 bs 0 (map word32_of vs)"
| "write_fast ord (Ptr (VUint32 x)) bs = PutUint32 ord (replicate 4 0) x"
| "write_fast ord (Val (VUint32 x)) bs = PutUint32 ord (replicate 4 0) x"
| "write_fast ord (Val (VSlice TUint32 vs)) bs = put_loop (PutUint32 ord) 4 bs 0 (map word32_of vs)"
| "write_fast ord (Ptr (VInt64 x)) bs = PutUint64 ord (replicate 8 0) x"
| "write_fast ord (Val (VInt64 x)) bs = PutUint64 ord (replicate 8 0) x"
| "write_fast ord (Val (VSlice TInt64 vs)) bs = put_loop (PutUint64 ord) 8 bs 0 (map word64_of vs)"
| "write_fast ord (Ptr (VUint64 x)) bs = PutUint64 ord (replicate 8 0) x"
| "write_fast ord (Val (VUint64 x)) bs = PutUint64 ord (replicate 8 0) x"
| "write_fast ord (Val (VSlice TUint64 vs)) bs = put_loop (PutUint64 ord) 8 bs 0 (map word64_of vs)"
| "write_fast ord _ bs = Some bs"

definition reflect_Indirect :: "godata \<Rightarrow> goval" where
  "reflect_Indirect data = (case data of Val v \<Rightarrow> v | Ptr v \<Rightarrow> v)"

definition write_slow :: "ByteOrder \<Rightarrow> godata \<Rightarrow> (bin_err + byte list) option" where
  "write_slow ord data =
     (let v = reflect_Indirect data in
      case dataSize v of
        None \<Rightarrow> Some (Inl InvalidType)
      | Some n \<Rightarrow> do { (d, buf) \<leftarrow> enc_value ord v ([], replicate n 0); Some (Inr (d @ buf)) })"

definition bin_Write :: "ByteOrder \<Rightarrow> godata \<Rightarrow> (bin_err + byte list) option" where
  "bin_Write ord data =
     (let n = intDataSize data in
      if n \<noteq> 0 then do { bs \<leftarrow> write_fast ord data (replicate n 0); Some (Inr bs) }
      else write_slow ord data)"

definition bin_Size :: "goval \<Rightarrow> int" where
  "bin_Size v = (case dataSize v of None \<Rightarrow> - 1 | Some n \<Rightarrow> int n)"

text \<open>\<open>io.ReadFull\<close> of \<open>n\<close> bytes: the bytes and what is left to read, or the error.\<close>

definition ReadFull :: "byte list \<Rightarrow> nat \<Rightarrow> bin_err + byte list \<times> byte list" where
  "ReadFull r n =
     (if n \<le> length r then Inr (take n r, drop n r) else if r = [] then Inl EOF else Inl UnexpectedEOF)"

fun read_fast :: "ByteOrder \<Rightarrow> godata \<Rightarrow> byte list \<Rightarrow> goval option" where
  "read_fast ord (Ptr (VInt8 _)) bs = map_option VInt8 (get8 bs)"
| "read_fast ord (Ptr (VUint8 _)) bs = map_option VUint8 (get8 bs)"
| "read_fast ord (Ptr (VInt16 _)) bs = map_option VInt16 (Uint16 ord bs)"
| "read_fast ord (Ptr (VUint16 _)) bs = map_option VUint16 (Uint16 ord bs)"
| "read_fast ord (Ptr (VInt32 _)) bs = map_option VInt32 (Uint32 ord bs)"
| "read_fast ord (Ptr (VUint32 _)) bs = map_option VUint32 (Uint32 ord bs)"
| "read_fast ord (Ptr (VInt64 _)) bs = map_option VInt64 (Uint64 ord bs)"
| "read_fast ord (Ptr (VUint64 _)) bs = map_option VUint64 (Uint64 ord bs)"
| "read_fast ord (Val (VSlice TInt8 vs)) bs = Some (VSlice TInt8 (map VInt8 bs))"
| "read_fast ord (Val (VSlice TUint8 vs)) bs = Some (VSlice TUint8 (map VUint8 bs))"
| "read_fast ord (Val (VSlice TInt16 vs)) bs = map_option (\<lambda>xs. VSlice TInt16 (map VInt16 xs)) (get_loop (Uint16 ord) 2 bs 0 (length vs))"
| "read_fast ord (Val (VSlice TUint16 vs)) bs = map_option (\<lambda>xs. VSlice TUint16 (map VUint16 xs)) (get_loop (Uint16 ord) 2 bs 0 (length vs))"
| "read_fast ord (Val (VSlice TInt32 vs)) bs = map_option (\<lambda>xs. VSlice TInt32 (map VInt32 xs)) (get_loop (Uint32 ord) 4 bs 0 (length vs))"
| "read_fast ord (Val (VSlice TUint32 vs)) bs = map_option (\<lambda>xs. VSlice TUint32 (map VUint32 xs)) (get_loop (Uint32 ord) 4 bs 0 (length vs))"
| "read_fast ord (Val (VSlice TInt64 vs)) bs = map_option (\<lambda>xs. VSlice TInt64 (map VInt64 xs)) (get_loop (Uint64 ord) 8 bs 0 (length vs))"
| "read_fast ord (Val (VSlice TUint64 vs)) bs = map_option (\<lambda>xs. VSlice TUint64 (map VUint64 xs)) (get_loop (Uint64 ord) 8 bs 0 (length vs))"
| "read_fast ord data bs = Some (reflect_Indirect data)"

definition read_slow :: "ByteOrder \<Rightarrow> godata \<Rightarrow> byte list \<Rightarrow> (bin_err + goval \<times> byte list) option" where
  "read_slow ord data r =
     (case (case data of Ptr v \<Rightarrow> Some v | Val (VSlice t vs) \<Rightarrow> Some (VSlice t vs) | _ \<Rightarrow> None) of
        None \<Rightarrow> Some (Inl InvalidType)
      | Some v \<Rightarrow>
          (case dataSize v of
             None \<Rightarrow> Some (Inl InvalidType)
           | Some n \<Rightarrow>
               (case ReadFull r n of
                  Inl e \<Rightarrow> Some (Inl e)
                | Inr (buf, r) \<Rightarrow> do { (v, _) \<leftarrow> dec_value ord False v buf; Some (Inr (v, r)) })))"

definition bin_Read :: "ByteOrder \<Rightarrow> godata \<Rightarrow> byte list \<Rightarrow> (bin_err + goval \<times> byte list) option" where
  "bin_Read ord data r =
     (let n = intDataSize data in
      if n \<noteq> 0 then
        (case ReadFull r n of
           Inl e \<Rightarrow> Some (Inl e)
         | Inr (bs, r) \<Rightarrow> do { v \<leftarrow> read_fast ord data bs; Some (Inr (v, r)) })
      else read_slow ord data r)"

end
