(* ===== verification/Varint.thy ===== *)
theory Varint
  imports BinaryDefs
begin

text \<open>
  Variable-length integers. \<open>uvarint_nat\<close> is the base-128 representation with continuation bits,
  \<open>uvarint_value\<close> the value of a sequence of bytes; the word-level loops compute them, and overflow is
  reported exactly when the value does not fit or the sequence has more than ten bytes.
\<close>

unbundle bit_operations_syntax

fun uvarint_nat :: "nat \<Rightarrow> nat list" where
  "uvarint_nat n = (if n < 128 then [n] else (n mod 128 + 128) # uvarint_nat (n div 128))"

declare uvarint_nat.simps [simp del]

text \<open>The bytes up to the first one without a continuation bit, and the value of their payload.\<close>

fun uvarint_value :: "byte list \<Rightarrow> (nat \<times> nat) option" where
  "uvarint_value [] = None"
| "uvarint_value (b # bs) =
     (if unat b < 128 then Some (unat b, 1)
      else case uvarint_value bs of None \<Rightarrow> None | Some (v, n) \<Rightarrow> Some (unat b mod 128 + 128 * v, Suc n))"

lemma unat_join_shift:
  fixes x b :: uint64
  assumes "unat x < 2 ^ k" "unat x + unat b * 2 ^ k < 2 ^ 64" "k < 64"
  shows "unat (x OR push_bit k b) = unat x + unat b * 2 ^ k"
proof -
  have p: "unat (push_bit k b) = unat b * 2 ^ k" using assms(2) by (subst unat_push_bit) simp_all
  have "unat (push_bit k b OR x) = unat (push_bit k b) + unat x"
    using assms p by (subst unat_join [of k]) (simp_all add: take_bit_push_bit_zero)
  then show ?thesis using p by (simp add: or.commute)
qed

lemma unat_byte64: "unat (ucast (b :: byte) :: uint64) = unat b"
proof -
  have "unat b < 2 ^ 8" using unsigned_less [of b, where 'a = nat] by simp
  then have "unat b < 2 ^ 64" by simp
  then show ?thesis by (simp add: unsigned_ucast_eq take_bit_nat_eq_self)
qed

lemma unat_payload: "unat (b AND 0x7f) = unat (b :: byte) mod 128"
proof -
  have m: "(0x7f :: byte) = mask 7" by (simp add: mask_eq_exp_minus_1)
  show ?thesis unfolding m unat_and_mask by simp
qed

lemma byte_ge_128: "\<not> unat (b :: byte) < 128 \<Longrightarrow> unat b mod 128 + 128 = unat b"
proof -
  assume b: "\<not> unat b < 128"
  have "unat b < 256" using unsigned_less [of b, where 'a = nat] by simp
  then have "unat b div 128 = 1" using b by (simp add: div_nat_eqI)
  then show ?thesis using mod_mult_div_eq [of "unat b" 128] by simp
qed

lemma shift_small: "i \<le> 9 \<Longrightarrow> unat (of_nat (7 * i) :: uint64) = 7 * i"
  by (simp only: unat_of_nat) (simp add: take_bit_nat_eq_self)

lemma byte_lt_128: "b < 0x80 \<longleftrightarrow> unat (b :: byte) < 128"
  by (simp add: word_less_nat_alt)

lemma word64_ge_128: "x \<ge> 0x80 \<longleftrightarrow> \<not> unat (x :: uint64) < 128"
  by (simp add: word_le_nat_alt not_less)

text \<open>The decoder's state before byte \<open>i\<close>: the payload so far and a shift of \<open>7 * i\<close>.\<close>

lemma Uvarint_loop_value:
  "uvarint_value bs = Some (v, n) \<Longrightarrow> unat x < 2 ^ (7 * i) \<Longrightarrow> i + n \<le> 10 \<Longrightarrow> unat x + v * 2 ^ (7 * i) < 2 ^ 64 \<Longrightarrow>
   (\<exists>y. Uvarint_loop bs i x (of_nat (7 * i)) = (y, int (i + n)) \<and> unat y = unat x + v * 2 ^ (7 * i))"
proof (induction bs arbitrary: v n x i)
  case (Cons b bs)
  show ?case
  proof (cases "unat b < 128")
    case True
    then have v: "v = unat b" "n = 1" using Cons.prems(1) by auto
    then have i: "i \<le> 9" using Cons.prems(3) by simp
    have "\<not> (i > 9 \<or> i = 9 \<and> b > 1)"
    proof
      assume "i > 9 \<or> i = 9 \<and> b > 1"
      then have "i = 9" "2 \<le> unat b" using i by (auto simp: word_less_nat_alt)
      then have "2 * 2 ^ 63 \<le> v * 2 ^ (7 * i)" using v by simp
      then show False using Cons.prems(4) by simp
    qed
    moreover have "unat (x OR push_bit (7 * i) (ucast b)) = unat x + v * 2 ^ (7 * i)"
      using Cons.prems v i by (subst unat_join_shift) (auto simp: unat_byte64)
    ultimately show ?thesis
      using True v by (simp add: byte_lt_128 shift_small [OF i] del: of_nat_mult)
  next
    case False
    obtain w m where wm: "uvarint_value bs = Some (w, m)" "v = unat b mod 128 + 128 * w" "n = Suc m"
      using Cons.prems(1) False by (auto split: option.splits)
    have "0 < m" using wm(1) by (cases bs) (auto split: if_splits option.splits)
    then have i: "i \<le> 8" using Cons.prems(3) wm(3) by simp
    define x' where "x' = x OR push_bit (7 * i) (ucast (b AND 0x7f))"
    have pow: "(2 :: nat) ^ (7 * (i + 1)) = 128 * 2 ^ (7 * i)" by (simp add: power_add)
    have "unat b mod 128 * 2 ^ (7 * i) \<le> v * 2 ^ (7 * i)" using wm(2) by simp
    then have "unat x + unat b mod 128 * 2 ^ (7 * i) < 2 ^ 64" using Cons.prems(4) by linarith
    then have x': "unat x' = unat x + unat b mod 128 * 2 ^ (7 * i)"
      unfolding x'_def using Cons.prems(2) i by (subst unat_join_shift) (auto simp: unat_byte64 unat_payload)
    have "unat x + unat b mod 128 * 2 ^ (7 * i) < 2 ^ (7 * i) + 127 * 2 ^ (7 * i)"
      using Cons.prems(2) by (intro add_less_le_mono mult_le_mono1) auto
    then have lt: "unat x' < 2 ^ (7 * (i + 1))" unfolding x' pow by simp
    have e: "unat x' + w * 2 ^ (7 * (i + 1)) = unat x + v * 2 ^ (7 * i)"
      unfolding x' pow wm(2) by (simp add: algebra_simps)
    have "of_nat (7 * i) + 7 = (of_nat (7 * (i + 1)) :: uint64)" by simp
    moreover obtain y where "Uvarint_loop bs (i + 1) x' (of_nat (7 * (i + 1))) = (y, int (i + 1 + m))" "unat y = unat x' + w * 2 ^ (7 * (i + 1))"
      using Cons.IH [OF wm(1) lt] Cons.prems(3,4) wm(3) e by auto
    ultimately show ?thesis
      using False e wm(3) i by (simp add: byte_lt_128 shift_small x'_def del: of_nat_add of_nat_mult)
  qed
qed simp

lemma uvarint_value_bounds:
  "uvarint_value bs = Some (v, n) \<Longrightarrow> 0 < n \<and> n \<le> length bs \<and> v < 128 ^ n"
proof (induction bs arbitrary: v n)
  case (Cons b bs)
  show ?case
  proof (cases "unat b < 128")
    case False
    then obtain w m where wm: "uvarint_value bs = Some (w, m)" "v = unat b mod 128 + 128 * w" "n = Suc m"
      using Cons.prems by (auto split: option.splits)
    have "v < 128 + 128 * w" using wm(2) by simp
    also have "\<dots> \<le> 128 * 128 ^ m" using Cons.IH [OF wm(1)] by (simp add: Suc_leI)
    finally show ?thesis using Cons.IH [OF wm(1)] wm(3) by simp
  qed (use Cons.prems in auto)
qed simp

lemma Uvarint_loop_long:
  "uvarint_value bs = Some (v, n) \<Longrightarrow> i + n > 10 \<Longrightarrow> Uvarint_loop bs i x s = (0, - int (i + n))"
proof (induction bs arbitrary: v n x i s)
  case (Cons b bs)
  show ?case
  proof (cases "unat b < 128")
    case False
    then obtain w m where "uvarint_value bs = Some (w, m)" "n = Suc m"
      using Cons.prems(1) by (auto split: option.splits)
    then show ?thesis using Cons.IH [of w m "i + 1"] Cons.prems(2) False by (simp add: byte_lt_128)
  qed (use Cons.prems in \<open>auto simp: byte_lt_128\<close>)
qed simp

lemma Uvarint_loop_big:
  "uvarint_value bs = Some (v, n) \<Longrightarrow> i + n = 10 \<Longrightarrow> 2 * 128 ^ (n - 1) \<le> v \<Longrightarrow> Uvarint_loop bs i x s = (0, - 10)"
proof (induction bs arbitrary: v n x i s)
  case (Cons b bs)
  show ?case
  proof (cases "unat b < 128")
    case True
    then have "v = unat b" "n = 1" using Cons.prems(1) by auto
    then show ?thesis using Cons.prems(2,3) True by (auto simp: byte_lt_128 word_less_nat_alt [of 1])
  next
    case False
    then obtain w m where wm: "uvarint_value bs = Some (w, m)" "v = unat b mod 128 + 128 * w" "n = Suc m"
      using Cons.prems(1) by (auto split: option.splits)
    obtain k where k: "m = Suc k" using uvarint_value_bounds [OF wm(1)] by (cases m) auto
    have "2 * 128 ^ k < w + 1"
    proof -
      have "128 * (2 * 128 ^ k) < 128 + 128 * w" using Cons.prems(3) wm(2,3) k by simp
      then show ?thesis by simp
    qed
    then show ?thesis using Cons.IH [OF wm(1), of "i + 1"] Cons.prems(2) False wm(3) k by (simp add: byte_lt_128)
  qed
qed simp

lemma Uvarint_loop_none: "uvarint_value bs = None \<Longrightarrow> Uvarint_loop bs i x s = (0, 0)"
  by (induction bs arbitrary: i x s) (auto simp: byte_lt_128 split: option.splits if_splits)

lemma Uvarint_eq:
  "Uvarint buf = (case uvarint_value buf of
     None \<Rightarrow> (0, 0)
   | Some (v, n) \<Rightarrow> if n \<le> 10 \<and> v < 2 ^ 64 then (of_nat v, int n) else (0, - int n))"
proof (cases "uvarint_value buf")
  case None
  then show ?thesis by (simp add: Uvarint_def Uvarint_loop_none)
next
  case (Some vn)
  obtain v n where vn: "uvarint_value buf = Some (v, n)" using Some by (cases vn) auto
  consider "n > 10" | "n \<le> 10" "v < 2 ^ 64" | "n \<le> 10" "2 ^ 64 \<le> v" by linarith
  then show ?thesis
  proof cases
    case 1
    then show ?thesis using vn Uvarint_loop_long [OF vn, of 0] by (simp add: Uvarint_def)
  next
    case 2
    obtain y where "Uvarint buf = (y, int n)" "unat y = v"
      using Uvarint_loop_value [OF vn, of 0 0] 2 by (auto simp: Uvarint_def)
    then show ?thesis using vn 2 by auto
  next
    case 3
    have "v < 128 ^ n" using uvarint_value_bounds [OF vn] by simp
    moreover have "(128 :: nat) ^ n \<le> 128 ^ 9" if "n \<le> 9" using that by (rule power_increasing) simp
    ultimately have n: "n = 10" using 3 by (cases "n \<le> 9") auto
    then have "2 * 128 ^ (n - 1) \<le> v" using 3(2) by simp
    then have "Uvarint buf = (0, - 10)" using Uvarint_loop_big [OF vn, of 0 0 0] n by (simp add: Uvarint_def)
    then show ?thesis using vn 3 n by simp
  qed
qed

section \<open>Encoding\<close>

lemma uvarint_nat_length: "n < 2 ^ 64 \<Longrightarrow> length (uvarint_nat n) \<le> 10"
proof -
  have "n < 128 ^ k \<Longrightarrow> 0 < k \<Longrightarrow> length (uvarint_nat n) \<le> k" for k
  proof (induction k arbitrary: n)
    case (Suc k)
    show ?case
    proof (cases "n < 128")
      case True
      then show ?thesis by (subst uvarint_nat.simps) simp
    next
      case False
      then have "n div 128 < 128 ^ k" "0 < k" using Suc.prems(1) by (auto simp: less_mult_imp_div_less mult.commute intro: gr0I)
      then show ?thesis using Suc.IH False by (subst uvarint_nat.simps) simp
    qed
  qed simp
  moreover assume "n < 2 ^ 64"
  then have "n < 128 ^ 10" by simp
  ultimately show ?thesis by simp
qed

lemma uvarint_nat_value:
  "uvarint_value (map of_nat (uvarint_nat n) @ rest) = Some (n, length (uvarint_nat n))"
proof (induction n rule: uvarint_nat.induct)
  case (1 n)
  show ?case
  proof (cases "n < 128")
    case True
    then have "unat (of_nat n :: byte) = n" by (simp add: unat_of_nat take_bit_nat_eq_self)
    then show ?thesis using True by (simp add: uvarint_nat.simps [of n])
  next
    case False
    have "n mod 128 + 128 < 256" by simp
    then have "unat (of_nat (n mod 128 + 128) :: byte) = n mod 128 + 128"
      by (simp only: unat_of_nat) (simp add: take_bit_nat_eq_self)
    then show ?thesis using False 1 by (simp add: uvarint_nat.simps [of n] del: of_nat_add)
  qed
qed

lemma put_byte: "ucast x OR 0x80 = (of_nat (unat (x :: uint64) mod 128 + 128) :: byte)"
proof -
  let ?c = "ucast x :: byte"
  have n8: "n < 8 \<longleftrightarrow> n = 0 \<or> n = 1 \<or> n = 2 \<or> n = 3 \<or> n = 4 \<or> n = 5 \<or> n = 6 \<or> n = (7::nat)" for n by auto
  have "?c OR 0x80 = 0x80 OR (?c AND 0x7f)"
    by (rule bit_word_eqI) (auto simp: bit_or_iff bit_and_iff n8)
  moreover have "unat (0x80 OR (?c AND 0x7f)) = 128 + unat ?c mod 128"
    by (subst unat_join [of 7]) (simp_all add: unat_payload take_bit_eq_mask mask_eq_exp_minus_1)
  moreover have "unat ?c mod 128 = unat x mod 128"
    using mod_mod_cancel [of 128 256 "unat x"] by (simp add: unsigned_ucast_eq take_bit_eq_mod)
  ultimately have "unat (?c OR 0x80) = unat x mod 128 + 128" by simp
  then have "of_nat (unat (?c OR 0x80)) = (of_nat (unat x mod 128 + 128) :: byte)" by (rule arg_cong)
  then show ?thesis by (simp only: of_nat_unat ucast_id)
qed

lemma PutUvarint_loop_eq:
  "PutUvarint_loop buf x i =
     (let bs = map of_nat (uvarint_nat (unat x)) in
      if i + length bs \<le> length buf then Some (take i buf @ bs @ drop (i + length bs) buf, i + length bs) else None)"
proof (induction "unat x" arbitrary: buf x i rule: less_induct)
  case less
  show ?case
  proof (cases "unat x < 128")
    case True
    then have "ucast x = (of_nat (unat x) :: byte)" by simp
    then show ?thesis using True
      by (subst PutUvarint_loop.simps)
        (simp add: word64_ge_128 uvarint_nat.simps [of "unat x"] set_byte_def Let_def upd_conv_take_nth_drop)
  next
    case False
    let ?x = "drop_bit 7 x"
    have x': "unat ?x = unat x div 128" by (simp add: unat_drop_bit)
    have b: "ucast x OR 0x80 = (of_nat (unat x mod 128 + 128) :: byte)" by (rule put_byte)
    have nt: "uvarint_nat (unat x) = (unat x mod 128 + 128) # uvarint_nat (unat ?x)"
      using False by (subst uvarint_nat.simps) (simp add: x')
    show ?thesis
    proof (cases "i < length buf")
      case True
      have IH: "PutUvarint_loop (buf[i := ucast x OR 0x80]) ?x (i + 1) =
         (let bs = map of_nat (uvarint_nat (unat ?x)) in
          if i + 1 + length bs \<le> length buf then
            Some (take (i + 1) (buf[i := ucast x OR 0x80]) @ bs @ drop (i + 1 + length bs) (buf[i := ucast x OR 0x80]), i + 1 + length bs) else None)"
        using less [of ?x "buf[i := ucast x OR 0x80]" "i + 1"] False x' by simp
      have "take (i + 1) (buf[i := ucast x OR 0x80]) = take i buf @ [ucast x OR 0x80]"
        using True by (simp add: take_Suc_conv_app_nth)
      then show ?thesis using False True IH nt b
        by (subst PutUvarint_loop.simps) (simp add: word64_ge_128 set_byte_def Let_def del: of_nat_add)
    next
      case out: False
      then show ?thesis using False nt
        by (subst PutUvarint_loop.simps) (simp add: word64_ge_128 set_byte_def Let_def)
    qed
  qed
qed

section \<open>Signed integers\<close>

definition zigzag :: "64 word \<Rightarrow> uint64" where
  "zigzag x = (let ux = push_bit 1 x in if sint x < 0 then NOT ux else ux)"

definition unzigzag :: "uint64 \<Rightarrow> 64 word" where
  "unzigzag ux = (let x = drop_bit 1 ux in if ux AND 1 \<noteq> 0 then NOT x else x)"

lemma sign_bit: "sint (x :: 64 word) < 0 \<longleftrightarrow> bit x 63"
  by (simp add: sint_uint signed_take_bit_negative_iff bit_uint_iff)

lemma and_one_bit: "ux AND 1 \<noteq> 0 \<longleftrightarrow> bit ux 0" for ux :: uint64
  by (simp add: and_one_eq odd_iff_mod_2_eq_one bit_0)

lemma unzigzag_zigzag: "unzigzag (zigzag x) = x"
proof (cases "sint x < 0")
  case True
  then have m: "bit x 63" by (simp add: sign_bit)
  have "NOT (drop_bit 1 (NOT (push_bit 1 x))) = x"
  proof (rule bit_word_eqI)
    fix n assume n: "n < LENGTH(64)"
    show "bit (NOT (drop_bit 1 (NOT (push_bit 1 x)))) n = bit x n"
      using n m by (cases "n = 63") (auto simp: bit_simps simp del: push_bit_Suc drop_bit_Suc)
  qed
  moreover have "bit (NOT (push_bit 1 x)) 0" by (simp add: bit_simps del: push_bit_Suc)
  ultimately show ?thesis using True by (simp add: zigzag_def unzigzag_def and_one_bit Let_def)
next
  case False
  then have m: "\<not> bit x 63" by (simp add: sign_bit)
  have "drop_bit 1 (push_bit 1 x) = x"
  proof (rule bit_word_eqI)
    fix n assume n: "n < LENGTH(64)"
    show "bit (drop_bit 1 (push_bit 1 x)) n = bit x n"
      using n m by (cases "n = 63") (auto simp: bit_simps simp del: push_bit_Suc drop_bit_Suc)
  qed
  moreover have "\<not> bit (push_bit 1 x) 0" by (simp add: bit_simps del: push_bit_Suc)
  ultimately show ?thesis using False by (simp add: zigzag_def unzigzag_def and_one_bit Let_def)
qed

lemma PutVarint_zigzag: "PutVarint buf x = PutUvarint buf (zigzag x)"
  by (simp add: PutVarint_def zigzag_def Let_def)

lemma Varint_unzigzag: "Varint buf = (case Uvarint buf of (ux, n) \<Rightarrow> (unzigzag ux, n))"
  by (simp add: Varint_def unzigzag_def Let_def split: prod.split)

lemma ReadVarint_unzigzag: "ReadVarint r = (case ReadUvarint r of ((ux, e), r') \<Rightarrow> ((unzigzag ux, e), r'))"
  by (simp add: ReadVarint_def unzigzag_def Let_def split: prod.split)

section \<open>Reading from a stream\<close>

lemma Uvarint_loop_count: "snd (Uvarint_loop q j x s) > 0 \<Longrightarrow> int j < snd (Uvarint_loop q j x s)"
proof (induction q arbitrary: j x s)
  case (Cons b q)
  show ?case
  proof (cases "b < 0x80")
    case False
    then have e: "Uvarint_loop (b # q) j x s = Uvarint_loop q (j + 1) (x OR push_bit (unat s) (ucast (b AND 0x7f))) (s + 7)"
      by simp
    show ?thesis using Cons.IH [of "j + 1"] Cons.prems unfolding e by fastforce
  qed (use Cons.prems in \<open>auto split: if_splits\<close>)
qed simp

lemma ReadUvarint_loop_eq:
  "Uvarint_loop r i x s = (y, n) \<Longrightarrow> n > 0 \<Longrightarrow> ReadUvarint_loop r i x s = ((y, None), drop (nat n - i) r)"
proof (induction r arbitrary: i x s)
  case (Cons b r)
  show ?case
  proof (cases "b < 0x80")
    case False
    have n: "int (Suc i) < n"
      using Uvarint_loop_count [of r "i + 1"] Cons.prems False by (metis Suc_eq_plus1 Uvarint_loop.simps(2) snd_conv)
    have "nat n - i = Suc (nat n - Suc i)" using n by linarith
    then show ?thesis using Cons False by simp
  next
    case True
    then have "n = int i + 1" using Cons.prems by (auto split: if_splits)
    then have "nat n - i = 1" by simp
    then show ?thesis using Cons.prems True by (auto split: if_splits)
  qed
qed simp

lemma ReadUvarint_eq:
  "Uvarint r = (y, n) \<Longrightarrow> n > 0 \<Longrightarrow> ReadUvarint r = ((y, None), drop (nat n) r)"
  using ReadUvarint_loop_eq [of r 0 0 0 y n] by (simp add: Uvarint_def ReadUvarint_def)

section \<open>Results\<close>

lemma PutUvarint_Uvarint:
  assumes "PutUvarint buf x = Some (buf', n)"
  shows "Uvarint buf' = (x, int n)" "0 < n" "n \<le> 10" "drop n buf' = drop n buf" "length buf' = length buf"
proof -
  let ?bs = "map of_nat (uvarint_nat (unat x)) :: byte list"
  have b: "buf' = ?bs @ drop (length ?bs) buf" "n = length ?bs" "length ?bs \<le> length buf"
    using assms unfolding PutUvarint_def PutUvarint_loop_eq by (auto simp: Let_def split: if_splits)
  have x: "unat x < 2 ^ 64" using unsigned_less [of x, where 'a = nat] by simp
  have l: "length (uvarint_nat (unat x)) \<le> 10" using uvarint_nat_length [OF x] .
  show "Uvarint buf' = (x, int n)"
    using uvarint_nat_value [of "unat x" "drop (length ?bs) buf"] l x b by (simp add: Uvarint_eq)
  show "0 < n" using uvarint_value_bounds [OF uvarint_nat_value [of "unat x" "[]"]] b by simp
  show "n \<le> 10" "drop n buf' = drop n buf" "length buf' = length buf" using l b by auto
qed

lemma PutUvarint_room: "10 \<le> length buf \<Longrightarrow> PutUvarint buf x \<noteq> None"
proof -
  assume "10 \<le> length buf"
  moreover have "unat x < 2 ^ 64" using unsigned_less [of x, where 'a = nat] by simp
  ultimately show ?thesis
    using uvarint_nat_length [of "unat x"] unfolding PutUvarint_def PutUvarint_loop_eq by (auto simp: Let_def)
qed

text \<open>
  C13. Variable-length integers round trip: in a buffer of \<open>MaxVarintLen64\<close> bytes every 64-bit integer
  can be written, and what \<open>PutUvarint\<close> or \<open>PutVarint\<close> writes, \<open>Uvarint\<close> or \<open>Varint\<close> and the stream
  readers read back, consuming exactly the bytes written; the rest of the buffer is untouched.
\<close>

theorem varint_round_trip:
  assumes "MaxVarintLen64 \<le> length buf"
  shows "\<exists>bu n bv m. PutUvarint buf x = Some (bu, n) \<and> Uvarint bu = (x, int n) \<and>
    ReadUvarint bu = ((x, None), drop n bu) \<and> n \<le> MaxVarintLen64 \<and> drop n bu = drop n buf \<and>
    PutVarint buf y = Some (bv, m) \<and> Varint bv = (y, int m) \<and> ReadVarint bv = ((y, None), drop m bv) \<and>
    m \<le> MaxVarintLen64 \<and> drop m bv = drop m buf"
proof -
  have room: "10 \<le> length buf" using assms by (simp add: MaxVarintLen64_def)
  obtain bu n where u: "PutUvarint buf x = Some (bu, n)" using PutUvarint_room [OF room, of x] by auto
  obtain bv m where v: "PutUvarint buf (zigzag y) = Some (bv, m)" using PutUvarint_room [OF room, of "zigzag y"] by auto
  note U = PutUvarint_Uvarint [OF u] and V = PutUvarint_Uvarint [OF v]
  have "ReadUvarint bu = ((x, None), drop n bu)" using ReadUvarint_eq [OF U(1)] U(2) by simp
  moreover have "ReadUvarint bv = ((zigzag y, None), drop m bv)" using ReadUvarint_eq [OF V(1)] V(2) by simp
  ultimately show ?thesis
    using u v U V by (simp add: PutVarint_zigzag Varint_unzigzag ReadVarint_unzigzag unzigzag_zigzag MaxVarintLen64_def)
qed

theorem varint_round_trip_witness:
  "MaxVarintLen64 \<le> length (replicate 12 (0 :: byte)) \<and>
   (\<exists>bu n. PutUvarint (replicate 12 0) 300 = Some (bu, n) \<and> Uvarint bu = (300, int n))"
proof -
  have l: "MaxVarintLen64 \<le> length (replicate 12 (0 :: byte))" by (simp add: MaxVarintLen64_def)
  show ?thesis using l varint_round_trip [OF l, of 300 "- 1"] by blast
qed

text \<open>
  What \<open>Uvarint\<close> makes of arbitrary bytes. Without a final byte (one below 0x80) it reports a
  buffer too small. Otherwise, with \<open>n\<close> bytes up to the final one and \<open>v\<close> the base-128 number they
  stand for, it returns \<open>v\<close> and \<open>n\<close> if \<open>n\<close> is at most ten and \<open>v\<close> fits into 64 bits, and reports an
  overflow after \<open>n\<close> bytes if not: no out-of-range value is ever truncated. \<open>ReadUvarint\<close> has no bound
  on the number of bytes: of \<open>k\<close> continuation bytes it consumes all.
\<close>

theorem uvarint_decodes:
  "Uvarint buf = (case uvarint_value buf of
     None \<Rightarrow> (0, 0)
   | Some (v, n) \<Rightarrow> if n \<le> 10 \<and> v < 2 ^ 64 then (of_nat v, int n) else (0, - int n)) \<and>
   (\<exists>y. ReadUvarint (replicate k 0x80) = ((y, Some EOF), []))"
proof -
  have "\<exists>y. ReadUvarint_loop (replicate k 0x80) i x s = ((y, Some EOF), [])" for i x s
    by (induction k arbitrary: i x s) auto
  then show ?thesis using Uvarint_eq [of buf] by (simp add: ReadUvarint_def)
qed

end
