(* ===== verification/BinaryCorrect.thy ===== *)
theory BinaryCorrect
  imports BinaryData Varint
begin

text \<open>
  The contract of a \<open>ByteOrder\<close> (a locale) and what \<open>Read\<close> and \<open>Write\<close> do with any order that keeps it:
  the fast path agrees with the general path, and reading what was written gives the value back.
  \<open>LittleEndian\<close> and \<open>BigEndian\<close> are interpretations.
\<close>

unbundle bit_operations_syntax

section \<open>Well-formed values\<close>

text \<open>The elements of arrays and slices have the element type; a blank field is not exported.\<close>

fun wt :: "goval \<Rightarrow> bool" and wt_elems :: "gotype \<Rightarrow> goval list \<Rightarrow> bool" and wt_fields :: "vfield list \<Rightarrow> bool" where
  "wt (VArray t vs) = wt_elems t vs" | "wt (VSlice t vs) = wt_elems t vs" | "wt (VStruct fs) = wt_fields fs" | "wt _ = True"
| "wt_elems t [] = True" | "wt_elems t (v # vs) = (typ_of v = t \<and> wt v \<and> wt_elems t vs)"
| "wt_fields [] = True"
| "wt_fields (VField blank exported v # fs) = (\<not> (blank \<and> exported) \<and> wt v \<and> wt_fields fs)"

text \<open>Every field that is not blank is exported, so that \<open>Read\<close> can set it.\<close>

fun settable :: "goval \<Rightarrow> bool" and settable_elems :: "goval list \<Rightarrow> bool" and settable_fields :: "vfield list \<Rightarrow> bool" where
  "settable (VArray t vs) = settable_elems vs" | "settable (VSlice t vs) = settable_elems vs"
| "settable (VStruct fs) = settable_fields fs" | "settable _ = True"
| "settable_elems [] = True" | "settable_elems (v # vs) = (settable v \<and> settable_elems vs)"
| "settable_fields [] = True"
| "settable_fields (VField blank exported v # fs) = ((blank \<or> exported \<and> settable v) \<and> settable_fields fs)"

text \<open>
  What reading \<open>v\<close> into \<open>v0\<close> gives: \<open>v\<close>, with the blank fields of \<open>v0\<close>, and with the signalling NaNs
  among the single-precision floats made quiet. It is \<open>v\<close> itself if \<open>v\<close> has neither (\<open>exact\<close>).
\<close>

fun elems_in :: "goval \<Rightarrow> goval list" where
  "elems_in (VArray t vs) = vs" | "elems_in (VSlice t vs) = vs" | "elems_in _ = []"

fun fields_in :: "goval \<Rightarrow> vfield list" where
  "fields_in (VStruct fs) = fs" | "fields_in _ = []"

fun merge :: "goval \<Rightarrow> goval \<Rightarrow> goval" and merge_elems :: "goval list \<Rightarrow> goval list \<Rightarrow> goval list"
  and merge_fields :: "vfield list \<Rightarrow> vfield list \<Rightarrow> vfield list" where
  "merge v0 (VArray t vs) = VArray t (merge_elems (elems_in v0) vs)"
| "merge v0 (VSlice t vs) = VSlice t (merge_elems (elems_in v0) vs)"
| "merge v0 (VStruct fs) = VStruct (merge_fields (fields_in v0) fs)"
| "merge v0 (VFloat32 x) = VFloat32 (via_float64 x)"
| "merge v0 (VComplex64 x y) = VComplex64 (via_float64 x) (via_float64 y)"
| "merge v0 v = v"
| "merge_elems (v0 # vs0) (v # vs) = merge v0 v # merge_elems vs0 vs"
| "merge_elems vs0 vs = vs"
| "merge_fields (VField b0 e0 v0 # fs0) (VField b e v # fs) =
     VField b e (if e \<or> \<not> b then merge v0 v else v0) # merge_fields fs0 fs"
| "merge_fields fs0 fs = fs"

fun exact :: "goval \<Rightarrow> bool" and exact_elems :: "goval list \<Rightarrow> bool" and exact_fields :: "vfield list \<Rightarrow> bool" where
  "exact (VArray t vs) = exact_elems vs" | "exact (VSlice t vs) = exact_elems vs" | "exact (VStruct fs) = exact_fields fs"
| "exact (VFloat32 x) = (via_float64 x = x)" | "exact (VComplex64 x y) = (via_float64 x = x \<and> via_float64 y = y)"
| "exact _ = True"
| "exact_elems [] = True" | "exact_elems (v # vs) = (exact v \<and> exact_elems vs)"
| "exact_fields [] = True" | "exact_fields (VField blank exported v # fs) = (\<not> blank \<and> exact v \<and> exact_fields fs)"

lemma exact_merge:
  "exact v \<Longrightarrow> merge v0 v = v"
  "exact_elems vs \<Longrightarrow> merge_elems vs0 vs = vs"
  "exact_fields fs \<Longrightarrow> merge_fields fs0 fs = fs"
  by (induction v0 v and vs0 vs and fs0 fs rule: merge_merge_elems_merge_fields.induct) auto

lemma via_float64_idem [simp]: "via_float64 (via_float64 x) = via_float64 x"
  by (simp add: via_float64_def)

text \<open>A variable to read into: of the same type, and of the same length if it is a slice.\<close>

fun slice_len :: "goval \<Rightarrow> nat" where
  "slice_len (VSlice t vs) = length vs" | "slice_len _ = 0"

definition same_shape :: "goval \<Rightarrow> goval \<Rightarrow> bool" where
  "same_shape v0 v \<longleftrightarrow> typ_of v0 = typ_of v \<and> slice_len v0 = slice_len v"

text \<open>A slice is passed to \<open>Read\<close> as it is, any other variable by its address.\<close>

definition read_arg :: "goval \<Rightarrow> godata" where
  "read_arg v = (case v of VSlice t vs \<Rightarrow> Val v | _ \<Rightarrow> Ptr v)"

section \<open>The contract of a byte order\<close>

locale byte_order =
  fixes ord :: ByteOrder
    and p16 :: "uint16 \<Rightarrow> byte list"
    and p32 :: "uint32 \<Rightarrow> byte list"
    and p64 :: "uint64 \<Rightarrow> byte list"
  assumes len16: "length (p16 x) = 2" and len32: "length (p32 y) = 4" and len64: "length (p64 z) = 8"
    and put16: "PutUint16 ord b x = put_bytes b (p16 x)"
    and put32: "PutUint32 ord b y = put_bytes b (p32 y)"
    and put64: "PutUint64 ord b z = put_bytes b (p64 z)"
    and get16: "Uint16 ord (p16 x @ r) = Some x"
    and get32: "Uint32 ord (p32 y @ r) = Some y"
    and get64: "Uint64 ord (p64 z @ r) = Some z"

lemma sizeof_fields_acc: "sizeof_fields fs acc = map_option (\<lambda>n. acc + n) (sizeof_fields fs 0)"
proof (induction fs arbitrary: acc)
  case (Cons f fs)
  obtain b e t where f: "f = TField b e t" by (cases f)
  show ?case
  proof (cases "sizeof t")
    case (Some k)
    then show ?thesis using Cons [of "acc + k"] Cons [of k] f by (cases "sizeof_fields fs 0") auto
  qed (simp add: f)
qed simp

lemma sizeof_fields_Cons:
  assumes "sizeof_fields (TField b e t # fs) 0 = Some n"
  obtains k m where "sizeof t = Some k" "sizeof_fields fs 0 = Some m" "n = k + m"
proof (cases "sizeof t")
  case (Some k)
  then show ?thesis using assms that sizeof_fields_acc [of fs k] by (cases "sizeof_fields fs 0") auto
qed (use assms in simp)

lemma dataSize_sizeof: "sizeof (typ_of v) = Some n \<Longrightarrow> dataSize v = Some n"
  by (cases v) (auto simp: dataSize_def)

context byte_order begin

lemmas len_simps = len16 len32 len64

lemma get_exact: "Uint16 ord (p16 x) = Some x" "Uint32 ord (p32 y) = Some y" "Uint64 ord (p64 z) = Some z"
  using get16 [of x "[]"] get32 [of y "[]"] get64 [of z "[]"] by simp_all

text \<open>The bytes of a value.\<close>

fun bytes_of :: "goval \<Rightarrow> byte list" and bytes_of_elems :: "goval list \<Rightarrow> byte list"
  and bytes_of_fields :: "vfield list \<Rightarrow> byte list" where
  "bytes_of (VInt8 x) = [x]" | "bytes_of (VUint8 x) = [x]"
| "bytes_of (VInt16 x16) = p16 x16" | "bytes_of (VUint16 x16) = p16 x16"
| "bytes_of (VInt32 x32) = p32 x32" | "bytes_of (VUint32 x32) = p32 x32" | "bytes_of (VFloat32 x32) = p32 (via_float64 x32)"
| "bytes_of (VInt64 x64) = p64 x64" | "bytes_of (VUint64 x64) = p64 x64" | "bytes_of (VFloat64 x64) = p64 x64"
| "bytes_of (VComplex64 x32 y32) = p32 (via_float64 x32) @ p32 (via_float64 y32)"
| "bytes_of (VComplex128 x64 y64) = p64 x64 @ p64 y64"
| "bytes_of (VArray t vs) = bytes_of_elems vs" | "bytes_of (VSlice t vs) = bytes_of_elems vs"
| "bytes_of (VStruct fs) = bytes_of_fields fs" | "bytes_of VOther = []"
| "bytes_of_elems [] = []" | "bytes_of_elems (v # vs) = bytes_of v @ bytes_of_elems vs"
| "bytes_of_fields [] = []"
| "bytes_of_fields (VField blank exported v # fs) =
     (if exported \<or> \<not> blank then bytes_of v else replicate (case dataSize v of None \<Rightarrow> 0 | Some n \<Rightarrow> n) 0) @ bytes_of_fields fs"

lemma put_take: "length w \<le> length b \<Longrightarrow> put_bytes (take (length w) b) w = Some w"
  by (simp add: put_bytes_def)

lemma enc_words:
  "2 \<le> length b \<Longrightarrow> enc_uint16 ord x (d, b) = Some (d @ p16 x, drop 2 b)"
  "4 \<le> length b \<Longrightarrow> enc_uint32 ord y (d, b) = Some (d @ p32 y, drop 4 b)"
  "8 \<le> length b \<Longrightarrow> enc_uint64 ord z (d, b) = Some (d @ p64 z, drop 8 b)"
  using put_take [of "p16 x" b] put_take [of "p32 y" b] put_take [of "p64 z" b]
  by (simp_all add: put16 put32 put64 len_simps)

lemma enc_value_bytes:
  "length (bytes_of v) \<le> length b \<Longrightarrow> enc_value ord v (d, b) = Some (d @ bytes_of v, drop (length (bytes_of v)) b)"
  "length (bytes_of_elems vs) \<le> length b \<Longrightarrow> enc_elems ord vs (d, b) = Some (d @ bytes_of_elems vs, drop (length (bytes_of_elems vs)) b)"
  "length (bytes_of_fields fs) \<le> length b \<Longrightarrow> enc_fields ord fs (d, b) = Some (d @ bytes_of_fields fs, drop (length (bytes_of_fields fs)) b)"
proof (induction v and vs and fs arbitrary: d b and d b and d b rule: bytes_of_bytes_of_elems_bytes_of_fields.induct)
  case (20 blank exported v fs)
  then show ?case by (cases "exported \<or> \<not> blank") (auto simp: Let_def add.commute)
qed (auto simp: enc_words len_simps add.commute simp del: enc_uint16.simps enc_uint32.simps enc_uint64.simps split: list.split)

lemma bytes_of_size:
  "wt v \<Longrightarrow> sizeof (typ_of v) = Some n \<Longrightarrow> length (bytes_of v) = n"
  "wt_elems t vs \<Longrightarrow> sizeof t = Some n \<Longrightarrow> length (bytes_of_elems vs) = length vs * n"
  "wt_fields fs \<Longrightarrow> sizeof_fields (typ_of_fields fs) 0 = Some n \<Longrightarrow> length (bytes_of_fields fs) = n"
proof (induction v and vs and fs arbitrary: n and n t and n rule: bytes_of_bytes_of_elems_bytes_of_fields.induct)
  case (20 blank exported v fs)
  obtain k m where k: "sizeof (typ_of v) = Some k" "sizeof_fields (typ_of_fields fs) 0 = Some m" "n = k + m"
    using "20.prems"(2) sizeof_fields_Cons by (metis typ_of_fields.simps(2))
  then show ?case using 20 dataSize_sizeof [OF k(1)] by (cases "exported \<or> \<not> blank") auto
qed (auto simp: len_simps split: bind_splits)

lemma dec_words:
  "dec_uint16 ord (p16 x @ r) = Some (x, r)" "dec_uint32 ord (p32 y @ r) = Some (y, r)" "dec_uint64 ord (p64 z @ r) = Some (z, r)"
  using get_exact by (simp_all add: dec_uint16_def dec_uint32_def dec_uint64_def len_simps)

lemma dec_value_bytes:
  "wt v \<Longrightarrow> settable v \<Longrightarrow> sizeof (typ_of v) = Some n \<Longrightarrow> typ_of v0 = typ_of v \<Longrightarrow> wt v0 \<Longrightarrow>
   dec_value ord False v0 (bytes_of v @ r) = Some (merge v0 v, r)"
  "wt_elems t vs \<Longrightarrow> settable_elems vs \<Longrightarrow> sizeof t = Some n \<Longrightarrow> length vs0 = length vs \<Longrightarrow> wt_elems t vs0 \<Longrightarrow>
   dec_elems ord False vs0 (bytes_of_elems vs @ r) = Some (merge_elems vs0 vs, r)"
  "wt_fields fs \<Longrightarrow> settable_fields fs \<Longrightarrow> sizeof_fields (typ_of_fields fs) 0 = Some n \<Longrightarrow> typ_of_fields fs0 = typ_of_fields fs \<Longrightarrow>
   wt_fields fs0 \<Longrightarrow> dec_fields ord False fs0 (bytes_of_fields fs @ r) = Some (merge_fields fs0 fs, r)"
proof (induction v and vs and fs arbitrary: n v0 r and n t vs0 r and n fs0 r rule: bytes_of_bytes_of_elems_bytes_of_fields.induct)
  case (18 v vs)
  then show ?case by (cases vs0) (auto 4 3)
next
  case 19
  then show ?case by (cases fs0 rule: typ_of_fields.cases) auto
next
  case (20 blank exported v fs)
  obtain k m where k: "sizeof (typ_of v) = Some k" "sizeof_fields (typ_of_fields fs) 0 = Some m"
    using "20.prems"(3) sizeof_fields_Cons by (metis typ_of_fields.simps(2))
  obtain v0 fs1 where fs0: "fs0 = VField blank exported v0 # fs1" "typ_of v0 = typ_of v" "typ_of_fields fs1 = typ_of_fields fs"
    using "20.prems"(4) by (cases fs0 rule: typ_of_fields.cases) auto
  have d: "dataSize v0 = Some k" "dataSize v = Some k" using k(1) fs0(2) dataSize_sizeof by metis+
  show ?case using 20 k fs0 d
    by (cases "exported \<or> \<not> blank") (auto simp: dec_skip_def)
qed (auto simp: dec_words dec_uint8_def set_leaf_def split: bind_splits elim!: typ_of.elims)

section \<open>The fast paths\<close>

lemma put_loop_bytes:
  assumes "\<And>b x. put b x = put_bytes b (p x)" "\<And>x. length (p x) = k"
  shows "length d = k * i \<Longrightarrow> length rest = k * length xs \<Longrightarrow>
    put_loop put k (d @ rest) i xs = Some (d @ concat (map p xs))"
proof (induction xs arbitrary: d rest i)
  case (Cons x xs)
  have w: "put rest x = Some (p x @ drop k rest)" using Cons.prems(2) by (simp add: assms put_bytes_def)
  have "put_loop put k ((d @ p x) @ drop k rest) (i + 1) xs = Some ((d @ p x) @ concat (map p xs))"
    using Cons.prems by (intro Cons.IH) (simp_all add: assms)
  then show ?case using Cons.prems w by simp
qed simp

lemma get_loop_bytes:
  assumes "\<And>x r. get (p x @ r) = Some x" "\<And>x. length (p x) = k"
  shows "length d = k * i \<Longrightarrow> get_loop get k (d @ concat (map p xs)) i (length xs) = Some xs"
proof (induction xs arbitrary: d i)
  case (Cons x xs)
  have "get_loop get k ((d @ p x) @ concat (map p xs)) (i + 1) (length xs) = Some xs"
    using Cons.prems by (intro Cons.IH) (simp add: assms)
  then show ?case using Cons.prems by (simp add: assms)
qed simp

lemma bytes_of_ints:
  "wt_elems t vs \<Longrightarrow> t = TInt8 \<or> t = TUint8 \<Longrightarrow> bytes_of_elems vs = map word8_of vs"
  "wt_elems t vs \<Longrightarrow> t = TInt16 \<or> t = TUint16 \<Longrightarrow> bytes_of_elems vs = concat (map p16 (map word16_of vs))"
  "wt_elems t vs \<Longrightarrow> t = TInt32 \<or> t = TUint32 \<Longrightarrow> bytes_of_elems vs = concat (map p32 (map word32_of vs))"
  "wt_elems t vs \<Longrightarrow> t = TInt64 \<or> t = TUint64 \<Longrightarrow> bytes_of_elems vs = concat (map p64 (map word64_of vs))"
  by (induction vs) (auto elim!: typ_of.elims)

lemma put8_loop: "put_loop put8 1 (replicate (length xs) 0) 0 xs = Some xs"
  using put_loop_bytes [of put8 "\<lambda>x. [x]" 1 "[]" 0 "replicate (length xs) 0" xs] by (simp add: put8_def)

lemma put_loops:
  "put_loop (PutUint16 ord) 2 (replicate (2 * length xs) 0) 0 xs = Some (concat (map p16 xs))"
  "put_loop (PutUint32 ord) 4 (replicate (4 * length ys) 0) 0 ys = Some (concat (map p32 ys))"
  "put_loop (PutUint64 ord) 8 (replicate (8 * length zs) 0) 0 zs = Some (concat (map p64 zs))"
  using put_loop_bytes [of "PutUint16 ord" p16 2 "[]" 0 "replicate (2 * length xs) 0" xs]
    put_loop_bytes [of "PutUint32 ord" p32 4 "[]" 0 "replicate (4 * length ys) 0" ys]
    put_loop_bytes [of "PutUint64 ord" p64 8 "[]" 0 "replicate (8 * length zs) 0" zs]
  by (simp_all add: put16 put32 put64 len_simps)

lemma get_loops:
  "get_loop (Uint16 ord) 2 (concat (map p16 xs)) 0 (length xs) = Some xs"
  "get_loop (Uint32 ord) 4 (concat (map p32 ys)) 0 (length ys) = Some ys"
  "get_loop (Uint64 ord) 8 (concat (map p64 zs)) 0 (length zs) = Some zs"
  using get_loop_bytes [of "Uint16 ord" p16 2 "[]" 0 xs] get_loop_bytes [of "Uint32 ord" p32 4 "[]" 0 ys]
    get_loop_bytes [of "Uint64 ord" p64 8 "[]" 0 zs]
  by (simp_all add: get16 get32 get64 len_simps)

lemma write_fast_bytes:
  assumes "wt (reflect_Indirect data)" "intDataSize data \<noteq> 0"
  shows "write_fast ord data (replicate (intDataSize data) 0) = Some (bytes_of (reflect_Indirect data))"
proof -
  have loops:
    "put_loop put8 1 (replicate (length vs) 0) 0 (map word8_of vs) = Some (map word8_of vs)"
    "put_loop (PutUint16 ord) 2 (replicate (2 * length vs) 0) 0 (map word16_of vs) = Some (concat (map p16 (map word16_of vs)))"
    "put_loop (PutUint32 ord) 4 (replicate (4 * length vs) 0) 0 (map word32_of vs) = Some (concat (map p32 (map word32_of vs)))"
    "put_loop (PutUint64 ord) 8 (replicate (8 * length vs) 0) 0 (map word64_of vs) = Some (concat (map p64 (map word64_of vs)))" for vs
    using put8_loop [of "map word8_of vs"] put_loops(1) [of "map word16_of vs"] put_loops(2) [of "map word32_of vs"]
      put_loops(3) [of "map word64_of vs"] by simp_all
  show ?thesis using assms
    by (cases data rule: intDataSize.cases)
      (simp_all add: reflect_Indirect_def put8_def put_bytes_def put16 put32 put64 len_simps bytes_of_ints loops [unfolded One_nat_def] del: map_map)
qed

lemma dataSize_bytes:
  assumes "wt v" "dataSize v = Some n"
  shows "length (bytes_of v) = n"
  using assms bytes_of_size(1) [of v n] by (cases v) (auto simp: dataSize_def bytes_of_size(2) split: bind_splits)

lemma Write_bytes:
  assumes "wt v" "dataSize v = Some n" "reflect_Indirect data = v"
  shows "bin_Write ord data = Some (Inr (bytes_of v))" "write_slow ord data = Some (Inr (bytes_of v))"
proof -
  have "enc_value ord v ([], replicate n 0) = Some (bytes_of v, [])"
    using enc_value_bytes(1) [of v "replicate n 0" "[]"] dataSize_bytes [OF assms(1,2)] by simp
  then show slow: "write_slow ord data = Some (Inr (bytes_of v))" using assms by (simp add: write_slow_def)
  show "bin_Write ord data = Some (Inr (bytes_of v))"
    using write_fast_bytes [of data] slow assms by (auto simp: bin_Write_def Let_def)
qed

lemma int_elems:
  "wt_elems TInt8 vs \<Longrightarrow> map VInt8 (map word8_of vs) = vs" "wt_elems TUint8 vs \<Longrightarrow> map VUint8 (map word8_of vs) = vs"
  "wt_elems TInt16 vs \<Longrightarrow> map VInt16 (map word16_of vs) = vs" "wt_elems TUint16 vs \<Longrightarrow> map VUint16 (map word16_of vs) = vs"
  "wt_elems TInt32 vs \<Longrightarrow> map VInt32 (map word32_of vs) = vs" "wt_elems TUint32 vs \<Longrightarrow> map VUint32 (map word32_of vs) = vs"
  "wt_elems TInt64 vs \<Longrightarrow> map VInt64 (map word64_of vs) = vs" "wt_elems TUint64 vs \<Longrightarrow> map VUint64 (map word64_of vs) = vs"
  by (induction vs) (auto elim!: typ_of.elims)

lemma merge_int_elems:
  "wt_elems t vs \<Longrightarrow> t \<in> {TInt8, TUint8, TInt16, TUint16, TInt32, TUint32, TInt64, TUint64} \<Longrightarrow> merge_elems vs0 vs = vs"
proof (induction vs arbitrary: vs0)
  case (Cons v vs)
  then show ?case by (cases vs0; cases v) auto
qed simp

lemma read_fast_bytes:
  assumes "wt v" "wt v0" "same_shape v0 v" "intDataSize (read_arg v0) \<noteq> 0"
  shows "read_fast ord (read_arg v0) (bytes_of v) = Some (merge v0 v)" "intDataSize (read_arg v0) = length (bytes_of v)"
proof -
  have loops:
    "get_loop (Uint16 ord) 2 (concat (map p16 (map word16_of vs))) 0 (length vs) = Some (map word16_of vs)"
    "get_loop (Uint32 ord) 4 (concat (map p32 (map word32_of vs))) 0 (length vs) = Some (map word32_of vs)"
    "get_loop (Uint64 ord) 8 (concat (map p64 (map word64_of vs))) 0 (length vs) = Some (map word64_of vs)" for vs
    using get_loops(1) [of "map word16_of vs"] get_loops(2) [of "map word32_of vs"] get_loops(3) [of "map word64_of vs"] by simp_all
  have "read_fast ord (read_arg v0) (bytes_of v) = Some (merge v0 v) \<and> intDataSize (read_arg v0) = length (bytes_of v)"
  proof (cases "\<exists>t vs. v = VSlice t vs")
    case True
    then obtain t vs vs0 where v: "v = VSlice t vs" "v0 = VSlice t vs0" "length vs0 = length vs"
      using assms(3) by (cases v0) (auto simp: same_shape_def)
    have t: "t \<in> {TInt8, TUint8, TInt16, TUint16, TInt32, TUint32, TInt64, TUint64}"
      using assms(4) v by (cases t) (auto simp: read_arg_def)
    have w: "wt_elems t vs" using assms(1) v by simp
    have sz: "sizeof t = Some k \<Longrightarrow> length (bytes_of_elems vs) = length vs * k" for k using bytes_of_size(2) [OF w] .
    show ?thesis
      using t v w sz merge_int_elems [OF w t, of vs0]
      by (auto simp: read_arg_def bytes_of_ints loops int_elems simp del: map_map)
  next
    case False
    then show ?thesis
      using assms by (cases v; cases v0)
        (auto simp: same_shape_def read_arg_def get8_def get_exact len_simps)
  qed
  then show "read_fast ord (read_arg v0) (bytes_of v) = Some (merge v0 v)" "intDataSize (read_arg v0) = length (bytes_of v)"
    by auto
qed

lemma read_slow_bytes:
  assumes "wt v" "settable v" "dataSize v = Some n" "typ_of v0 = typ_of v" "wt v0" "dataSize v0 = Some n"
    "data = Ptr v0 \<or> data = Val v0 \<and> (\<exists>t vs. v0 = VSlice t vs)"
    "\<And>t vs vs0. v = VSlice t vs \<Longrightarrow> v0 = VSlice t vs0 \<Longrightarrow> length vs0 = length vs"
  shows "read_slow ord data (bytes_of v @ r) = Some (Inr (merge v0 v, r))"
proof -
  have "dec_value ord False v0 (bytes_of v) = Some (merge v0 v, [])"
  proof (cases "\<exists>t vs. v = VSlice t vs")
    case True
    then obtain t vs vs0 where v: "v = VSlice t vs" "v0 = VSlice t vs0"
      using assms(4) by (cases v0) auto
    obtain k where "sizeof t = Some k" using assms(3) v by (auto simp: dataSize_def split: bind_splits)
    then show ?thesis
      using dec_value_bytes(2) [of t vs k vs0 "[]"] assms v by simp
  next
    case False
    then have "sizeof (typ_of v) = Some n" using assms(3) by (cases v) (auto simp: dataSize_def)
    then show ?thesis using dec_value_bytes(1) [of v n v0 "[]"] assms by simp
  qed
  moreover have "length (bytes_of v) = n" using assms(1,3) by (rule dataSize_bytes)
  ultimately show ?thesis using assms(6,7) by (auto simp: read_slow_def ReadFull_def simp del: dec_value.simps)
qed

lemma Read_bytes:
  assumes "wt v" "settable v" "dataSize v = Some n" "wt v0" "same_shape v0 v"
  shows "bin_Read ord (read_arg v0) (bytes_of v @ r) = Some (Inr (merge v0 v, r))"
proof (cases "intDataSize (read_arg v0) = 0")
  case True
  have "dataSize v0 = dataSize v" using assms(5)
    by (cases v; cases v0) (auto simp: same_shape_def dataSize_def)
  moreover have "read_arg v0 = Ptr v0 \<or> read_arg v0 = Val v0 \<and> (\<exists>t vs. v0 = VSlice t vs)"
    by (cases v0) (auto simp: read_arg_def)
  ultimately have "read_slow ord (read_arg v0) (bytes_of v @ r) = Some (Inr (merge v0 v, r))"
    using assms by (intro read_slow_bytes [of v n v0]) (auto simp: same_shape_def)
  then show ?thesis using True by (simp add: bin_Read_def)
next
  case False
  then show ?thesis using read_fast_bytes [OF assms(1,4,5)] by (simp add: bin_Read_def ReadFull_def Let_def)
qed

end

section \<open>The two byte orders\<close>

lemma byte_at: "ucast (ucast (w :: 'a::len word) :: byte) = (take_bit 8 w :: 'a word)"
  by (rule bit_word_eqI) (auto simp: bit_simps)

lemma peel_byte:
  "push_bit m (take_bit 8 (drop_bit m v)) OR push_bit (m + 8) (drop_bit (m + 8) v) = push_bit m (drop_bit m v)" for v :: "'a::len word"
proof (rule bit_word_eqI)
  fix n assume "n < LENGTH('a)"
  then show "bit (push_bit m (take_bit 8 (drop_bit m v)) OR push_bit (m + 8) (drop_bit (m + 8) v)) n = bit (push_bit m (drop_bit m v)) n"
    by (cases "n < m + 8") (auto simp: bit_simps)
qed

lemma top_byte: "LENGTH('a) \<le> m + 8 \<Longrightarrow> take_bit 8 (drop_bit m v) = drop_bit m v" for v :: "'a::len word"
  by (rule bit_word_eqI) (auto simp: bit_simps dest: bit_imp_le_length)

lemma join16: "ucast (ucast v :: byte) OR push_bit 8 (ucast (ucast (drop_bit 8 v) :: byte)) = (v :: uint16)"
  unfolding byte_at using peel_byte [of 0 v] top_byte [of 8 v] by simp

lemma join32:
  "ucast (ucast v :: byte) OR push_bit 8 (ucast (ucast (drop_bit 8 v) :: byte)) OR
   push_bit 16 (ucast (ucast (drop_bit 16 v) :: byte)) OR push_bit 24 (ucast (ucast (drop_bit 24 v) :: byte)) = (v :: uint32)"
  unfolding byte_at using peel_byte [of 0 v] peel_byte [of 8 v] peel_byte [of 16 v] top_byte [of 24 v] by simp

lemma join64:
  "ucast (ucast v :: byte) OR push_bit 8 (ucast (ucast (drop_bit 8 v) :: byte)) OR
   push_bit 16 (ucast (ucast (drop_bit 16 v) :: byte)) OR push_bit 24 (ucast (ucast (drop_bit 24 v) :: byte)) OR
   push_bit 32 (ucast (ucast (drop_bit 32 v) :: byte)) OR push_bit 40 (ucast (ucast (drop_bit 40 v) :: byte)) OR
   push_bit 48 (ucast (ucast (drop_bit 48 v) :: byte)) OR push_bit 56 (ucast (ucast (drop_bit 56 v) :: byte)) = (v :: uint64)"
  unfolding byte_at using peel_byte [of 0 v] peel_byte [of 8 v] peel_byte [of 16 v] peel_byte [of 24 v]
    peel_byte [of 32 v] peel_byte [of 40 v] peel_byte [of 48 v] top_byte [of 56 v] by simp

definition le16 :: "uint16 \<Rightarrow> byte list" where
  "le16 v = [ucast v, ucast (drop_bit 8 v)]"

definition le32 :: "uint32 \<Rightarrow> byte list" where
  "le32 v = [ucast v, ucast (drop_bit 8 v), ucast (drop_bit 16 v), ucast (drop_bit 24 v)]"

definition le64 :: "uint64 \<Rightarrow> byte list" where
  "le64 v = [ucast v, ucast (drop_bit 8 v), ucast (drop_bit 16 v), ucast (drop_bit 24 v),
     ucast (drop_bit 32 v), ucast (drop_bit 40 v), ucast (drop_bit 48 v), ucast (drop_bit 56 v)]"

interpretation little: byte_order LittleEndian le16 le32 le64
  by unfold_locales
    (simp_all add: LittleEndian_def le16_def le32_def le64_def little_PutUint16_def little_PutUint32_def little_PutUint64_def
      little_Uint16_def little_Uint32_def little_Uint64_def join16 join32 join64)

interpretation big: byte_order BigEndian "\<lambda>v. rev (le16 v)" "\<lambda>v. rev (le32 v)" "\<lambda>v. rev (le64 v)"
  by unfold_locales
    (simp_all add: BigEndian_def le16_def le32_def le64_def big_PutUint16_def big_PutUint32_def big_PutUint64_def
      big_Uint16_def big_Uint32_def big_Uint64_def join16 join32 join64)

section \<open>Results\<close>



text \<open>
  The fast path of \<open>Write\<close> is an optimisation only: for the data it handles it hands the writer
  the bytes that the general path does.
\<close>

theorem binary_fast_path:
  assumes "byte_order ord p16 p32 p64" "wt (reflect_Indirect data)" "intDataSize data \<noteq> 0"
  shows "bin_Write ord data = write_slow ord data"
proof -
  have "\<exists>n. dataSize (reflect_Indirect data) = Some n"
    using assms(3) by (cases data rule: intDataSize.cases) (auto simp: dataSize_def reflect_Indirect_def)
  then show ?thesis using byte_order.Write_bytes [OF assms(1,2) _ refl] by auto
qed

text \<open>
  \<open>Read\<close> wants a pointer or a slice, and reports an invalid type for other data, such as a
  uint16. But an int16 (or int8, int32, int64) that is not a pointer gets past the test: \<open>Read\<close>
  consumes the bytes of it, stores nothing, and reports no error.
\<close>

theorem binary_Read_value:
  "bin_Read ord (Val (VUint16 x)) (b0 # b1 # r) = Some (Inl InvalidType) \<and>
   bin_Read ord (Val (VInt16 x)) (b0 # b1 # r) = Some (Inr (VInt16 x, r))"
  by (simp add: bin_Read_def read_slow_def ReadFull_def reflect_Indirect_def)

end
