(* ===== verification/Tally.thy ===== *)
theory Tally
  imports WordBits
begin

text \<open>
  Goroutines and the state they share. A system of goroutines is the list of their program
  counters; an invariant relates the shared words to the number of goroutines at certain points of
  the code. \<open>tally w ps\<close> sums the weights of the program counters, and the lemmas say how it changes
  when one goroutine takes a step. The semaphore operations of the runtime
  (\<open>runtime_Semacquire\<close>, \<open>runtime_Semrelease\<close>: sync/runtime.go) and the operations of sync/atomic
  on 32-bit integers are those the package comment of each documents; each of them is one step.
\<close>

unbundle bit_operations_syntax

type_synonym int32 = "32 word"

section \<open>Counting goroutines\<close>

definition tally :: "('p \<Rightarrow> int) \<Rightarrow> 'p list \<Rightarrow> int" where
  "tally w ps = sum_list (map w ps)"

named_theorems tally_simps \<open>how tallies change when one goroutine moves\<close>

lemma tally_update [tally_simps]:
  "i < length ps \<Longrightarrow> tally w (ps[i := p]) = tally w ps - w (ps ! i) + w p"
  unfolding tally_def
  by (induction ps arbitrary: i) (auto split: nat.splits)

lemma tally_replicate [tally_simps]: "tally w (replicate n p) = int n * w p"
  by (simp add: tally_def sum_list_replicate)

lemma tally_nonneg: "(\<And>p. 0 \<le> w p) \<Longrightarrow> 0 \<le> tally w ps"
  unfolding tally_def by (induction ps) auto

lemma tally_member: "(\<And>p. 0 \<le> w p) \<Longrightarrow> p \<in> set ps \<Longrightarrow> w p \<le> tally w ps"
  unfolding tally_def by (rule member_le_sum_list) auto

lemma tally_nth: "(\<And>p. 0 \<le> w p) \<Longrightarrow> i < length ps \<Longrightarrow> w (ps ! i) \<le> tally w ps"
  by (simp add: tally_member)

lemma tally_two:
  assumes "\<And>p. 0 \<le> w p" "i < length ps" "j < length ps" "i \<noteq> j"
  shows "w (ps ! i) + w (ps ! j) \<le> tally w ps"
  using assms(2-4)
proof (induction ps arbitrary: i j)
  case (Cons p ps)
  have "w (ps ! k) \<le> tally w ps" if "k < length ps" for k
    using that assms(1) by (simp add: tally_nth)
  then show ?case using Cons assms(1) [of p]
    by (cases i; cases j) (force simp: tally_def)+
qed simp

lemma tally_le_length: "(\<And>p. w p \<le> 1) \<Longrightarrow> tally w ps \<le> int (length ps)"
  unfolding tally_def by (induction ps) (auto, smt (verit))

lemma tally_pos:
  "(\<And>p. 0 \<le> w p) \<Longrightarrow> 0 < tally w ps \<Longrightarrow> \<exists>i < length ps. 0 < w (ps ! i)"
  unfolding tally_def
proof (induction ps)
  case (Cons p ps)
  then show ?case by (cases "0 < w p") (auto simp: order.order_iff_strict intro: exI [of _ 0])
qed simp

lemma tally_add: "tally (\<lambda>p. v p + w p) ps = tally v ps + tally w ps"
  unfolding tally_def by (induction ps) auto

lemma tally_map [simp]: "tally w (map f ps) = tally (w \<circ> f) ps"
  by (simp add: tally_def)

lemma tally_zero: "(\<And>p. p \<in> set ps \<Longrightarrow> w p = 0) \<Longrightarrow> tally w ps = 0"
  unfolding tally_def by (metis (mono_tags, lifting) map_eq_conv sum_list_0)

lemma tally_only:
  "i < length ps \<Longrightarrow> (\<And>j. j < length ps \<Longrightarrow> j \<noteq> i \<Longrightarrow> w (ps ! j) = 0) \<Longrightarrow> tally w ps = w (ps ! i)"
proof (induction ps arbitrary: i)
  case (Cons p ps)
  have z: "tally w ps = 0" if "\<And>j. j < length ps \<Longrightarrow> w (ps ! j) = 0"
    unfolding tally_def by (rule sum_list_nonneg_eq_0_iff [THEN iffD2]) (use that in \<open>auto simp: in_set_conv_nth\<close>)
  show ?case
  proof (cases i)
    case 0
    then have "w (ps ! j) = 0" if "j < length ps" for j using that Cons.prems(2) [of "Suc j"] by simp
    with z 0 show ?thesis by (simp add: tally_def)
  next
    case (Suc k)
    have "w (ps ! j) = 0" if "j < length ps" "j \<noteq> k" for j
      using that Cons.prems(2) [of "Suc j"] Suc by simp
    with Cons Suc have "tally w ps = w (ps ! k)" by simp
    moreover have "w p = 0" using Cons.prems(2) [of 0] Suc by simp
    ultimately show ?thesis using Suc by (simp add: tally_def)
  qed
qed simp

section \<open>Semaphores and atomic operations\<close>

definition Semacquire :: "uint32 \<Rightarrow> uint32 option" where
  "Semacquire s = (if s > 0 then Some (s - 1) else None)"

definition Semrelease :: "uint32 \<Rightarrow> uint32" where
  "Semrelease s = s + 1"

definition CompareAndSwap :: "'a \<Rightarrow> 'a \<Rightarrow> 'a \<Rightarrow> 'a \<times> bool" where
  "CompareAndSwap addr old new = (if addr = old then (new, True) else (addr, False))"

lemma unat_of_nat32: "k < 2 ^ 32 \<Longrightarrow> unat (of_nat k :: uint32) = k"
  by (simp add: unsigned_of_nat take_bit_nat_eq_self_iff)

lemma Semrelease_of_nat: "Semrelease (of_nat k) = of_nat (Suc k)"
  by (simp add: Semrelease_def add.commute)

lemma Semacquire_of_nat:
  "k < 2 ^ 32 \<Longrightarrow> Semacquire (of_nat k) = (if k = 0 then None else Some (of_nat (k - 1)))"
proof -
  assume k: "k < 2 ^ 32"
  have u: "unat (of_nat k :: uint32) = k"
    using k by (rule unat_of_nat32)
  then have "(of_nat k :: uint32) > 0 \<longleftrightarrow> 0 < k" by (metis unat_gt_0 word_gt_0)
  moreover have "0 < k \<Longrightarrow> (of_nat k :: uint32) - 1 = of_nat (k - 1)"
    by (cases k) simp_all
  ultimately show ?thesis by (cases "0 < k") (simp_all add: Semacquire_def)
qed

lemma Semacquire_SomeD:
  "Semacquire x = Some y \<Longrightarrow> x = of_nat k \<Longrightarrow> k < 2 ^ 32 \<Longrightarrow> \<exists>k'. k = Suc k' \<and> y = of_nat k'"
  by (cases k) (simp_all add: Semacquire_def split: if_splits)

lemma sint_of_int32: "- (2 ^ 31) \<le> x \<Longrightarrow> x < 2 ^ 31 \<Longrightarrow> sint (of_int x :: int32) = x"
  by (simp add: signed_of_int signed_take_bit_int_eq_self)

end
