(* ===== verification/Mutex.thy ===== *)
theory Mutex
  imports Tally
begin

text \<open>
  The mutual exclusion lock of package sync (sync/mutex.go). \<open>state\<close> packs three fields: bit 0 says
  that the mutex is locked, bit 1 that a waiter has been woken, and the rest counts the waiters.
  \<open>Lock_step\<close> and \<open>Unlock_step\<close> run one goroutine from one access of the shared words to the next;
  \<open>mutex_step\<close> interleaves any number of goroutines, each of which calls \<open>Lock\<close> and \<open>Unlock\<close> in
  turn or hands the right to unlock over to another one, as the comment on \<open>Unlock\<close> allows. The race
  detector's hooks are off (\<open>raceenabled\<close> is false in sync/race0.go).
\<close>

section \<open>The code\<close>

record Mutex =
  state :: int32
  sema :: uint32

definition mutexLocked :: int32 where "mutexLocked = 1"
definition mutexWoken :: int32 where "mutexWoken = 2"
definition mutexWaiterShift :: nat where "mutexWaiterShift = 2"

text \<open>The program counters of a goroutine, with the local variables that are live there.\<close>

datatype mpc =
    Outside                 \<comment> \<open>not inside a call and not holding the mutex\<close>
  | LFast                   \<comment> \<open>Lock, at the compare-and-swap of the fast path\<close>
  | LLoad bool              \<comment> \<open>Lock, at \<open>old := m.state\<close>, with awoke\<close>
  | LCas bool int32         \<comment> \<open>Lock, at the compare-and-swap of the loop, with awoke and old\<close>
  | LSema                   \<comment> \<open>Lock, at \<open>runtime_Semacquire(&m.sema)\<close>\<close>
  | Held                    \<comment> \<open>Lock has returned and Unlock has not been called\<close>
  | UAdd                    \<comment> \<open>Unlock, at \<open>atomic.AddInt32(&m.state, -mutexLocked)\<close>\<close>
  | UTest int32             \<comment> \<open>Unlock, at the test of the loop, with old\<close>
  | UCas int32              \<comment> \<open>Unlock, at the compare-and-swap, with old\<close>
  | USema                   \<comment> \<open>Unlock, at \<open>runtime_Semrelease(&m.sema)\<close>\<close>
  | ULoad                   \<comment> \<open>Unlock, at \<open>old = m.state\<close>\<close>
  | UPanic                  \<comment> \<open>Unlock has panicked: unlock of unlocked mutex\<close>

text \<open>The value the loop of Lock tries to store.\<close>

definition lock_new :: "bool \<Rightarrow> int32 \<Rightarrow> int32" where
  "lock_new awoke old =
     (let new = old OR mutexLocked;
          new = (if old AND mutexLocked \<noteq> 0 then old + push_bit mutexWaiterShift 1 else new)
      in if awoke then new AND NOT mutexWoken else new)"

text \<open>The value the loop of Unlock tries to store.\<close>

definition unlock_new :: "int32 \<Rightarrow> int32" where
  "unlock_new old = (old - push_bit mutexWaiterShift 1) OR mutexWoken"

definition no_wakeup :: "int32 \<Rightarrow> bool" where
  "no_wakeup old \<longleftrightarrow>
     signed_drop_bit mutexWaiterShift old = 0 \<or> old AND (mutexLocked OR mutexWoken) \<noteq> 0"

fun Lock_step :: "Mutex \<Rightarrow> mpc \<Rightarrow> (Mutex \<times> mpc) option" where
  "Lock_step m LFast =
     (case CompareAndSwap (state m) 0 mutexLocked of
        (s, True) \<Rightarrow> Some (m\<lparr>state := s\<rparr>, Held)
      | (s, False) \<Rightarrow> Some (m, LLoad False))"
| "Lock_step m (LLoad awoke) = Some (m, LCas awoke (state m))"
| "Lock_step m (LCas awoke old) =
     (case CompareAndSwap (state m) old (lock_new awoke old) of
        (s, True) \<Rightarrow> Some (m\<lparr>state := s\<rparr>, if old AND mutexLocked = 0 then Held else LSema)
      | (s, False) \<Rightarrow> Some (m, LLoad awoke))"
| "Lock_step m LSema =
     (case Semacquire (sema m) of
        None \<Rightarrow> None
      | Some s \<Rightarrow> Some (m\<lparr>sema := s\<rparr>, LLoad True))"
| "Lock_step m _ = None"

fun Unlock_step :: "Mutex \<Rightarrow> mpc \<Rightarrow> (Mutex \<times> mpc) option" where
  "Unlock_step m UAdd =
     (let new = state m + - mutexLocked
      in Some (m\<lparr>state := new\<rparr>,
               if (new + mutexLocked) AND mutexLocked = 0 then UPanic else UTest new))"
| "Unlock_step m (UTest old) = Some (m, if no_wakeup old then Outside else UCas old)"
| "Unlock_step m (UCas old) =
     (case CompareAndSwap (state m) old (unlock_new old) of
        (s, True) \<Rightarrow> Some (m\<lparr>state := s\<rparr>, USema)
      | (s, False) \<Rightarrow> Some (m, ULoad))"
| "Unlock_step m USema = Some (m\<lparr>sema := Semrelease (sema m)\<rparr>, Outside)"
| "Unlock_step m ULoad = Some (m, UTest (state m))"
| "Unlock_step m _ = None"

definition run_mutex :: "Mutex \<Rightarrow> mpc \<Rightarrow> (Mutex \<times> mpc) option" where
  "run_mutex m p = (case Lock_step m p of None \<Rightarrow> Unlock_step m p | Some r \<Rightarrow> Some r)"

text \<open>One goroutine continues inside its call.\<close>

inductive mutex_run :: "Mutex \<times> mpc list \<Rightarrow> Mutex \<times> mpc list \<Rightarrow> bool" where
  run: "i < length ps \<Longrightarrow> run_mutex m (ps ! i) = Some (m', p') \<Longrightarrow> mutex_run (m, ps) (m', ps[i := p'])"

text \<open>All steps of the system: calls, runs of a call, and handing the mutex over.\<close>

inductive mutex_step :: "Mutex \<times> mpc list \<Rightarrow> Mutex \<times> mpc list \<Rightarrow> bool" where
  run_call: "mutex_run (m, ps) (m', ps') \<Longrightarrow> mutex_step (m, ps) (m', ps')"
| call_Lock: "i < length ps \<Longrightarrow> ps ! i = Outside \<Longrightarrow> mutex_step (m, ps) (m, ps[i := LFast])"
| call_Unlock: "i < length ps \<Longrightarrow> ps ! i = Held \<Longrightarrow> mutex_step (m, ps) (m, ps[i := UAdd])"
| hand_over: "i < length ps \<Longrightarrow> j < length ps \<Longrightarrow> ps ! i = Held \<Longrightarrow> ps ! j = Outside \<Longrightarrow>
     mutex_step (m, ps) (m, ps[i := Outside, j := Held])"

definition mutex_init :: "nat \<Rightarrow> Mutex \<times> mpc list" where
  "mutex_init n = (\<lparr>state = 0, sema = 0\<rparr>, replicate n Outside)"

section \<open>The packed state word\<close>

definition packed :: "bool \<Rightarrow> bool \<Rightarrow> nat \<Rightarrow> int32" where
  "packed l w n = of_bool l + 2 * of_bool w + 4 * of_nat n"

lemmas mutex_consts = mutexLocked_def mutexWoken_def mutexWaiterShift_def

lemma packed_as_or: "packed l w n = of_bool l OR push_bit 1 (of_bool w) OR push_bit 2 (of_nat n)"
proof -
  have "push_bit 1 (of_bool w) + push_bit 2 (of_nat n) =
      (push_bit 1 (of_bool w) OR push_bit 2 (of_nat n) :: int32)"
    by (rule disjunctive_add) (auto simp: bit_simps)
  moreover have "of_bool l + (push_bit 1 (of_bool w) OR push_bit 2 (of_nat n)) =
      (of_bool l OR (push_bit 1 (of_bool w) OR push_bit 2 (of_nat n)) :: int32)"
    by (rule disjunctive_add) (auto simp: bit_simps)
  ultimately show ?thesis by (simp add: packed_def push_bit_eq_mult ac_simps)
qed

lemma packed_bit: "bit (packed l w n) k \<longleftrightarrow>
    k < 32 \<and> (if k = 0 then l else if k = 1 then w else bit n (k - 2))"
  by (cases k rule: nat.exhaust [case_product nat.exhaust])
    (auto simp: packed_as_or bit_simps)

lemma packed_eqI: "(\<And>k. k < 32 \<Longrightarrow> bit a k = bit (packed l w n) k) \<Longrightarrow> a = packed l w n"
  by (rule bit_word_eqI) simp

lemma unat_packed: "n < 2 ^ 29 \<Longrightarrow> unat (packed l w n) = of_bool l + 2 * of_bool w + 4 * n"
proof -
  assume n: "n < 2 ^ 29"
  have "packed l w n = of_nat (of_bool l + 2 * of_bool w + 4 * n)" by (simp add: packed_def)
  then show ?thesis using n unat_of_nat32 [of "of_bool l + 2 * of_bool w + 4 * n"]
    by (cases l; cases w) simp_all
qed

lemma packed_inject:
  "n < 2 ^ 29 \<Longrightarrow> n' < 2 ^ 29 \<Longrightarrow> packed l w n = packed l' w' n' \<longleftrightarrow> l = l' \<and> w = w' \<and> n = n'"
proof -
  assume n: "n < 2 ^ 29" "n' < 2 ^ 29"
  have "packed l w n = packed l' w' n' \<longleftrightarrow> unat (packed l w n) = unat (packed l' w' n')"
    by (simp add: word_unat_eq_iff)
  then show ?thesis using n by (cases l; cases l'; cases w; cases w') (simp_all add: unat_packed; presburger)+
qed

lemma packed_and_locked: "packed l w n AND mutexLocked = of_bool l"
  by (rule bit_word_eqI) (auto simp: bit_simps packed_bit mutex_consts)

lemma packed_or_locked: "packed l w n OR mutexLocked = packed True w n"
  by (rule bit_word_eqI) (auto simp: bit_simps packed_bit mutex_consts)

lemma packed_and_not_woken: "packed l w n AND NOT mutexWoken = packed l False n"
  by (rule bit_word_eqI) (auto simp: bit_simps packed_bit mutex_consts)

lemma packed_and_flags: "packed l w n AND (mutexLocked OR mutexWoken) = packed l w 0"
proof -
  have "mutexLocked OR mutexWoken = mask 2" by (simp add: mutex_consts mask_eq_exp_minus_1)
  then show ?thesis by (auto intro!: bit_word_eqI simp: bit_simps packed_bit split: if_splits)
qed

lemma packed_or_woken: "packed l w n OR mutexWoken = packed l True n"
  by (rule bit_word_eqI) (auto simp: bit_simps packed_bit mutex_consts)

lemma packed_shift: "n < 2 ^ 29 \<Longrightarrow> signed_drop_bit mutexWaiterShift (packed l w n) = of_nat n"
proof -
  assume n: "n < 2 ^ 29"
  have "\<not> bit n k" if "29 \<le> k" for k
  proof -
    have "n < 2 ^ k" using n power_increasing [OF that, of "2 :: nat"] by simp
    then show ?thesis by (simp add: bit_iff_odd)
  qed
  then show ?thesis
    by (auto intro!: bit_word_eqI simp: bit_simps packed_bit mutex_consts split: if_splits)
qed

lemma packed_more: "packed l w n + push_bit mutexWaiterShift 1 = packed l w (Suc n)"
  by (simp add: packed_def mutex_consts)

lemma packed_fewer: "packed l w (Suc n) - push_bit mutexWaiterShift 1 = packed l w n"
  by (simp add: packed_def mutex_consts)

lemma packed_unlock: "packed True w n + - mutexLocked = packed False w n"
  by (simp add: packed_def mutex_consts)

lemma no_wakeup_packed: "n < 2 ^ 29 \<Longrightarrow> no_wakeup (packed l w n) \<longleftrightarrow> n = 0 \<or> l \<or> w"
proof -
  assume n: "n < 2 ^ 29"
  have "(of_nat n :: int32) = 0 \<longleftrightarrow> n = 0"
    using n unat_of_nat32 [of n] by (auto simp: word_unat_eq_iff)
  moreover have "packed l w 0 = 0 \<longleftrightarrow> \<not> l \<and> \<not> w"
    using packed_inject [of 0 0 l w False False] by (simp add: packed_def)
  ultimately show ?thesis
    using n unfolding no_wakeup_def packed_and_flags by (simp add: packed_shift)
qed

lemma lock_new_packed:
  "lock_new awoke (packed l w n) = packed True (w \<and> \<not> awoke) (if l then Suc n else n)"
  unfolding lock_new_def Let_def packed_and_locked packed_or_locked packed_more
  by (simp add: packed_and_not_woken)

lemma unlock_new_packed: "unlock_new (packed l w (Suc n)) = packed l True n"
  unfolding unlock_new_def packed_fewer by (rule packed_or_woken)

lemma packed_zero: "n < 2 ^ 29 \<Longrightarrow> packed l w n = 0 \<longleftrightarrow> \<not> l \<and> \<not> w \<and> n = 0"
  using packed_inject [of n 0 l w False False] by (simp add: packed_def)

lemma packed_locked: "mutexLocked = packed True False 0"
  by (simp add: packed_def mutex_consts)

lemmas packed_simps = packed_and_locked no_wakeup_packed lock_new_packed unlock_new_packed packed_zero
  packed_unlock

section \<open>The invariant\<close>

text \<open>
  The fields of the word count goroutines: the locked bit those that hold the mutex; the waiters,
  together with the wakeups under way, those asleep; the woken bit the wakeup under way or the
  goroutine that has taken it. \<open>waking\<close> marks a goroutine inside Unlock that will still look for
  a waiter: if the mutex is free and there are waiters but none has been woken, there is one.
\<close>

fun holding :: "mpc \<Rightarrow> int" where
  "holding Held = 1" | "holding UAdd = 1" | "holding _ = 0"

fun asleep :: "mpc \<Rightarrow> int" where
  "asleep LSema = 1" | "asleep _ = 0"

fun releasing :: "mpc \<Rightarrow> int" where
  "releasing USema = 1" | "releasing _ = 0"

fun awake :: "mpc \<Rightarrow> int" where
  "awake (LLoad a) = of_bool a" | "awake (LCas a old) = of_bool a" | "awake _ = 0"

fun waking :: "mpc \<Rightarrow> bool" where
  "waking ULoad = True" | "waking (UTest old) = (\<not> no_wakeup old)"
| "waking (UCas old) = True" | "waking _ = False"

fun sane :: "mpc \<Rightarrow> bool" where
  "sane (UCas old) = (\<not> no_wakeup old)" | "sane UPanic = False" | "sane _ = True"

definition mutex_fields :: "Mutex \<Rightarrow> mpc list \<Rightarrow> bool \<Rightarrow> bool \<Rightarrow> nat \<Rightarrow> nat \<Rightarrow> bool" where
  "mutex_fields m ps l w n k \<longleftrightarrow>
     state m = packed l w n \<and> sema m = of_nat k \<and>
     tally holding ps = of_bool l \<and>
     tally asleep ps = int n + tally releasing ps + int k \<and>
     tally releasing ps + int k + tally awake ps = of_bool w \<and>
     (\<not> l \<and> \<not> w \<and> 0 < n \<longrightarrow> (\<exists>p \<in> set ps. waking p)) \<and>
     (\<forall>p \<in> set ps. sane p)"

definition mutex_inv :: "Mutex \<Rightarrow> mpc list \<Rightarrow> bool" where
  "mutex_inv m ps \<longleftrightarrow> length ps < 2 ^ 29 \<and> (\<exists>l w n k. mutex_fields m ps l w n k)"

lemma weights_nonneg [simp]:
  "0 \<le> holding p" "0 \<le> asleep p" "0 \<le> releasing p" "0 \<le> awake p"
  by (cases p; simp)+

lemma asleep_le_one: "asleep p \<le> 1"
  by (cases p; simp)

lemma mutex_fields_bounds:
  assumes "mutex_fields m ps l w n k" "length ps < 2 ^ 29"
  shows "n < 2 ^ 29" "k \<le> 1"
proof -
  have "tally asleep ps \<le> int (length ps)" by (rule tally_le_length [OF asleep_le_one])
  moreover have "0 \<le> tally releasing ps" "0 \<le> tally awake ps" by (rule tally_nonneg; simp)+
  moreover have "of_bool w \<le> (1 :: int)" by simp
  ultimately show "n < 2 ^ 29" "k \<le> 1" using assms unfolding mutex_fields_def by linarith+
qed

lemma mutex_fields_update:
  assumes f: "mutex_fields m ps l w n k" and i: "i < length ps"
    and st: "state m' = packed l' w' n'" "sema m' = of_nat k'" and sane: "sane p'"
    and h: "holding p' - holding (ps ! i) = of_bool l' - of_bool l"
    and a: "asleep p' - asleep (ps ! i) =
      int n' - int n + (releasing p' - releasing (ps ! i)) + (int k' - int k)"
    and r: "releasing p' - releasing (ps ! i) + (int k' - int k) + (awake p' - awake (ps ! i)) =
      of_bool w' - of_bool w"
    and w: "\<not> l' \<and> \<not> w' \<and> 0 < n' \<longrightarrow> waking p' \<or> \<not> waking (ps ! i) \<and> \<not> l \<and> \<not> w \<and> 0 < n"
  shows "mutex_fields m' (ps[i := p']) l' w' n' k'"
proof -
  have wk: "\<exists>p \<in> set (ps[i := p']). waking p" if "\<not> l' \<and> \<not> w' \<and> 0 < n'"
  proof (cases "waking p'")
    case True
    then show ?thesis using i by (auto simp: set_update_memI)
  next
    case False
    with w that f have "\<exists>p \<in> set ps. waking p" "\<not> waking (ps ! i)"
      by (auto simp: mutex_fields_def)
    then obtain j where "j < length ps" "waking (ps ! j)" "j \<noteq> i"
      by (metis in_set_conv_nth)
    then show ?thesis by (metis in_set_conv_nth length_list_update nth_list_update_neq)
  qed
  have sn: "\<forall>p \<in> set (ps[i := p']). sane p"
    using f sane set_update_subset_insert [of ps i p'] by (auto simp: mutex_fields_def)
  have "tally holding (ps[i := p']) = of_bool l'"
    "tally asleep (ps[i := p']) = int n' + tally releasing (ps[i := p']) + int k'"
    "tally releasing (ps[i := p']) + int k' + tally awake (ps[i := p']) = of_bool w'"
    using f h a r i unfolding mutex_fields_def tally_update [OF i] by linarith+
  with st wk sn show ?thesis by (simp add: mutex_fields_def)
qed

lemma mutex_fields_nth:
  assumes "mutex_fields m ps l w n k" "i < length ps"
  shows "sane (ps ! i)" "holding (ps ! i) \<le> of_bool l" "awake (ps ! i) \<le> of_bool w"
proof -
  have "0 \<le> tally releasing ps" by (rule tally_nonneg) simp
  moreover have "holding (ps ! i) \<le> tally holding ps" "awake (ps ! i) \<le> tally awake ps"
    using assms(2) by (simp_all add: tally_nth)
  ultimately show "sane (ps ! i)" "holding (ps ! i) \<le> of_bool l" "awake (ps ! i) \<le> of_bool w"
    using assms unfolding mutex_fields_def by (simp_all)
qed

lemma Lock_step_fields:
  assumes f: "mutex_fields m ps l w n k" and len: "length ps < 2 ^ 29" and i: "i < length ps"
    and s: "Lock_step m (ps ! i) = Some (m', p')"
  shows "\<exists>l w n k. mutex_fields m' (ps[i := p']) l w n k"
proof -
  note b = mutex_fields_bounds [OF f len] and nth = mutex_fields_nth [OF f i]
  have st: "state m = packed l w n" "sema m = of_nat k" using f by (simp_all add: mutex_fields_def)
  show ?thesis
  proof (cases "ps ! i")
    case LFast
    show ?thesis
    proof (cases "state m = 0")
      case True
      then have "\<not> l" "\<not> w" "n = 0" using st b by (simp_all add: packed_zero)
      with True show ?thesis using s LFast st
        by (intro exI [of _ True] exI [of _ False] exI [of _ 0] exI [of _ k])
          (auto simp: CompareAndSwap_def packed_locked intro!: mutex_fields_update [OF f i])
    next
      case False
      then show ?thesis using s LFast st
        by (intro exI, auto simp: CompareAndSwap_def intro!: mutex_fields_update [OF f i])
    qed
  next
    case (LLoad awoke)
    then show ?thesis using s st
      by (intro exI, auto intro!: mutex_fields_update [OF f i])
  next
    case (LCas awoke old)
    have aw: "awoke \<Longrightarrow> w" using nth(3) LCas by (cases w) auto
    show ?thesis
    proof (cases "state m = old")
      case True
      then have old: "old = packed l w n" using st by simp
      show ?thesis using s LCas st True aw
        by (intro exI [of _ True] exI [of _ "w \<and> \<not> awoke"] exI [of _ "if l then Suc n else n"] exI [of _ k])
          (cases l; cases w; cases awoke;
            auto simp: CompareAndSwap_def packed_simps intro!: mutex_fields_update [OF f i])
    next
      case False
      then show ?thesis using s LCas st
        by (intro exI, auto simp: CompareAndSwap_def intro!: mutex_fields_update [OF f i])
    qed
  next
    case LSema
    then have "k = 1" using s st b by (cases "k = 0") (auto simp: Semacquire_def)
    then show ?thesis using s st LSema
      by (intro exI [of _ l] exI [of _ w] exI [of _ n] exI [of _ 0])
        (auto simp: Semacquire_def intro!: mutex_fields_update [OF f i])
  qed (use s in simp_all)
qed

lemma Unlock_step_fields:
  assumes f: "mutex_fields m ps l w n k" and len: "length ps < 2 ^ 29" and i: "i < length ps"
    and s: "Unlock_step m (ps ! i) = Some (m', p')"
  shows "\<exists>l w n k. mutex_fields m' (ps[i := p']) l w n k"
proof -
  note b = mutex_fields_bounds [OF f len] and nth = mutex_fields_nth [OF f i]
  have st: "state m = packed l w n" "sema m = of_nat k" using f by (simp_all add: mutex_fields_def)
  show ?thesis
  proof (cases "ps ! i")
    case UAdd
    then have "l" using nth(2) by (cases l) auto
    then have new: "state m + - mutexLocked = packed False w n" "state m = packed True w n"
      using st packed_unlock by simp_all
    have m': "m' = m\<lparr>state := packed False w n\<rparr>" "p' = UTest (packed False w n)"
      using s UAdd new packed_and_locked [of True w n] by (auto simp: Let_def)
    show ?thesis using UAdd \<open>l\<close> st(2) b
      by (intro exI [of _ False] exI [of _ w] exI [of _ n] exI [of _ k] mutex_fields_update [OF f i])
        (auto simp: m' no_wakeup_packed)
  next
    case (UTest old)
    then show ?thesis using s st
      by (intro exI, auto simp: Let_def intro!: mutex_fields_update [OF f i])
  next
    case (UCas old)
    then have nw: "\<not> no_wakeup old" using nth(1) by simp
    show ?thesis
    proof (cases "state m = old")
      case True
      then have "\<not> l" "\<not> w" "0 < n" using nw st b by (auto simp: no_wakeup_packed)
      moreover from this obtain n' where "n = Suc n'" by (cases n) auto
      ultimately show ?thesis using s UCas st True
        by (intro exI [of _ False] exI [of _ True] exI [of _ n'] exI [of _ k] mutex_fields_update [OF f i])
          (auto simp: CompareAndSwap_def unlock_new_packed)
    next
      case False
      then show ?thesis using s UCas st
        by (intro exI, auto simp: CompareAndSwap_def intro!: mutex_fields_update [OF f i])
    qed
  next
    case USema
    then show ?thesis using s st
      by (intro exI [of _ l] exI [of _ w] exI [of _ n] exI [of _ "Suc k"] mutex_fields_update [OF f i])
        (auto simp: Semrelease_of_nat)
  next
    case ULoad
    then show ?thesis using s st b
      by (intro exI [of _ l] exI [of _ w] exI [of _ n] exI [of _ k] mutex_fields_update [OF f i])
        (auto simp: no_wakeup_packed)
  qed (use s in simp_all)
qed

lemma run_mutex_cases:
  "run_mutex m p = Some r \<Longrightarrow> Lock_step m p = Some r \<or> Unlock_step m p = Some r"
  by (auto simp: run_mutex_def split: option.splits)

lemma mutex_run_inv:
  assumes "mutex_run s t" "mutex_inv (fst s) (snd s)"
  shows "mutex_inv (fst t) (snd t)"
  using assms
proof (induction rule: mutex_run.induct)
  case (run i ps m m' p')
  then obtain l w n k where "mutex_fields m ps l w n k" "length ps < 2 ^ 29"
    by (auto simp: mutex_inv_def)
  then have "\<exists>l w n k. mutex_fields m' (ps[i := p']) l w n k"
    using run_mutex_cases [OF run.hyps(2)] run.hyps(1)
    by (blast intro: Lock_step_fields Unlock_step_fields)
  with \<open>length ps < 2 ^ 29\<close> show ?case by (simp add: mutex_inv_def)
qed

lemma mutex_step_inv:
  assumes "mutex_step s t" "mutex_inv (fst s) (snd s)"
  shows "mutex_inv (fst t) (snd t)"
  using assms
proof (induction rule: mutex_step.induct)
  case (run_call m ps m' ps')
  then show ?case using mutex_run_inv by fastforce
next
  case (call_Lock i ps m)
  then obtain l w n k where f: "mutex_fields m ps l w n k" and "length ps < 2 ^ 29"
    by (auto simp: mutex_inv_def)
  then have "mutex_fields m (ps[i := LFast]) l w n k"
    using call_Lock by (intro mutex_fields_update [OF f]) (auto simp: mutex_fields_def)
  with \<open>length ps < 2 ^ 29\<close> show ?case by (auto simp: mutex_inv_def)
next
  case (call_Unlock i ps m)
  then obtain l w n k where f: "mutex_fields m ps l w n k" and "length ps < 2 ^ 29"
    by (auto simp: mutex_inv_def)
  then have "mutex_fields m (ps[i := UAdd]) l w n k"
    using call_Unlock by (intro mutex_fields_update [OF f]) (auto simp: mutex_fields_def)
  with \<open>length ps < 2 ^ 29\<close> show ?case by (auto simp: mutex_inv_def)
next
  case (hand_over i ps j m)
  then obtain l w n k where f: "mutex_fields m ps l w n k" and len: "length ps < 2 ^ 29"
    by (auto simp: mutex_inv_def)
  have l: "l" using mutex_fields_nth(2) [OF f hand_over.hyps(1)] hand_over.hyps(3) by (cases l) auto
  have ij: "i \<noteq> j" using hand_over.hyps by auto
  have t: "tally v (ps[i := Outside, j := Held]) = tally v ps"
    if "v Outside + v Held = v (ps ! i) + v (ps ! j)" for v
    using that hand_over.hyps ij by (simp add: tally_simps)
  have "set (ps[i := Outside, j := Held]) \<subseteq> insert Held (insert Outside (set ps))"
    by (meson insert_mono order_trans set_update_subset_insert)
  then have "\<forall>p \<in> set (ps[i := Outside, j := Held]). sane p"
    using f by (fastforce simp: mutex_fields_def)
  then have "mutex_fields m (ps[i := Outside, j := Held]) l w n k"
    using f l hand_over.hyps by (simp add: mutex_fields_def t)
  with len show ?case by (auto simp: mutex_inv_def)
qed

lemma mutex_inv_init: "n < 2 ^ 29 \<Longrightarrow> mutex_inv (fst (mutex_init n)) (snd (mutex_init n))"
  unfolding mutex_inv_def mutex_init_def
  by (auto simp: mutex_fields_def tally_simps packed_def intro!: exI [of _ False] exI [of _ 0])

section \<open>What the invariant gives\<close>

lemma mutex_inv_exclusive:
  assumes "mutex_inv m ps" "i < length ps" "j < length ps" "holding (ps ! i) = 1" "holding (ps ! j) = 1"
  shows "i = j"
proof (rule ccontr)
  assume "i \<noteq> j"
  then have "holding (ps ! i) + holding (ps ! j) \<le> tally holding ps"
    using assms by (intro tally_two) auto
  moreover from assms(1) obtain l w n k where "mutex_fields m ps l w n k" by (auto simp: mutex_inv_def)
  ultimately show False using assms by (cases l) (simp_all add: mutex_fields_def)
qed

lemma mutex_inv_no_panic: "mutex_inv m ps \<Longrightarrow> UPanic \<notin> set ps"
  by (fastforce simp: mutex_inv_def mutex_fields_def)

lemma mutex_inv_held: "mutex_inv m ps \<Longrightarrow> state m AND mutexLocked = of_bool (tally holding ps = 1)"
  by (auto simp: mutex_inv_def mutex_fields_def packed_and_locked)

end
