(* ===== verification/MutexProps.thy ===== *)
theory MutexProps
  imports Mutex
begin

text \<open>
  What the mutex of package sync promises: no two goroutines hold it at once, a goroutine that waits
  for it can always be served, and every step is a step of the abstract lock \<open>alock_step\<close>. The
  locale \<open>mutex_client\<close> carries the first of these over to code that embeds a mutex: a system whose
  goroutines use the mutex only through its calls.
\<close>

section \<open>The abstract lock\<close>

datatype apc = Absent | Wanting | Owning

fun abs_pc :: "mpc \<Rightarrow> apc" where
  "abs_pc LFast = Wanting"
| "abs_pc (LLoad a) = Wanting"
| "abs_pc (LCas a old) = Wanting"
| "abs_pc LSema = Wanting"
| "abs_pc Held = Owning"
| "abs_pc UAdd = Owning"
| "abs_pc _ = Absent"

inductive alock_step :: "apc list \<Rightarrow> apc list \<Rightarrow> bool" where
  want: "i < length as \<Longrightarrow> as ! i = Absent \<Longrightarrow> alock_step as (as[i := Wanting])"
| take_lock: "i < length as \<Longrightarrow> as ! i = Wanting \<Longrightarrow> Owning \<notin> set as \<Longrightarrow> alock_step as (as[i := Owning])"
| drop_lock: "i < length as \<Longrightarrow> as ! i = Owning \<Longrightarrow> alock_step as (as[i := Absent])"
| pass_lock: "i < length as \<Longrightarrow> j < length as \<Longrightarrow> as ! i = Owning \<Longrightarrow> as ! j = Absent \<Longrightarrow>
     alock_step as (as[i := Absent, j := Owning])"

lemma owning_iff: "abs_pc p = Owning \<longleftrightarrow> holding p = 1"
  by (cases p) auto

lemma free_not_owning: "tally holding ps = 0 \<Longrightarrow> Owning \<notin> abs_pc ` set ps"
proof
  assume t: "tally holding ps = 0" and "Owning \<in> abs_pc ` set ps"
  then obtain p where p: "p \<in> set ps" "holding p = 1" by (metis imageE owning_iff)
  then have "holding p \<le> tally holding ps" by (intro tally_member) auto
  with t p show False by simp
qed

lemma run_mutex_refines:
  assumes inv: "mutex_inv m ps" and i: "i < length ps" and r: "run_mutex m (ps ! i) = Some (m', p')"
  shows "abs_pc p' = abs_pc (ps ! i) \<or>
    abs_pc (ps ! i) = Wanting \<and> abs_pc p' = Owning \<and> Owning \<notin> abs_pc ` set ps \<or>
    abs_pc (ps ! i) = Owning \<and> abs_pc p' = Absent"
proof -
  from inv obtain l w n k where f: "mutex_fields m ps l w n k" and len: "length ps < 2 ^ 29"
    by (auto simp: mutex_inv_def)
  note b = mutex_fields_bounds [OF f len]
  have st: "state m = packed l w n" "tally holding ps = of_bool l"
    using f by (simp_all add: mutex_fields_def)
  have own: "Owning \<notin> abs_pc ` set ps" if "\<not> l" using st that by (intro free_not_owning) simp
  show ?thesis
  proof (cases "ps ! i")
    case LFast
    then show ?thesis using r st b own
      by (auto simp: run_mutex_def CompareAndSwap_def packed_zero split: if_splits)
  next
    case (LCas a old)
    have "\<not> l" if "state m AND mutexLocked = 0"
      using that packed_and_locked [of l w n] st(1) by (cases l) auto
    then show ?thesis using r LCas own
      by (auto simp: run_mutex_def CompareAndSwap_def split: if_splits)
  qed (use r in \<open>auto simp: run_mutex_def CompareAndSwap_def Let_def split: if_splits option.splits\<close>)
qed

lemma mutex_step_refines:
  assumes inv: "mutex_inv (fst s) (snd s)" and "mutex_step s t"
  shows "map abs_pc (snd t) = map abs_pc (snd s) \<or> alock_step (map abs_pc (snd s)) (map abs_pc (snd t))"
  using assms(2,1)
proof (induction rule: mutex_step.induct)
  case (run_call m ps m' ps')
  then obtain i p' where i: "i < length ps" "run_mutex m (ps ! i) = Some (m', p')" "ps' = ps[i := p']"
    by (auto elim: mutex_run.cases)
  let ?as = "map abs_pc ps"
  have upd: "map abs_pc ps' = ?as[i := abs_pc p']" by (simp add: i map_update)
  have as: "i < length ?as" "?as ! i = abs_pc (ps ! i)" using i by auto
  from run_mutex_refines [OF _ i(1,2)] run_call.prems
  consider "abs_pc p' = abs_pc (ps ! i)"
    | "abs_pc (ps ! i) = Wanting" "abs_pc p' = Owning" "Owning \<notin> set ?as"
    | "abs_pc (ps ! i) = Owning" "abs_pc p' = Absent"
    by auto
  then show ?case
  proof cases
    case 1
    then have "map abs_pc ps' = ?as" unfolding upd using as by (metis list_update_id)
    then show ?thesis by simp
  next
    case 2
    then show ?thesis using as alock_step.take_lock [of i ?as] by (simp add: upd)
  next
    case 3
    then show ?thesis using as alock_step.drop_lock [of i ?as] by (simp add: upd)
  qed
next
  case (call_Lock i ps m)
  then show ?case using alock_step.want [of i "map abs_pc ps"] by (simp add: map_update)
next
  case (call_Unlock i ps m)
  then have "(map abs_pc ps)[i := Owning] = map abs_pc ps"
    by (metis abs_pc.simps(5) length_map list_update_id nth_map)
  then show ?case by (simp add: map_update)
next
  case (hand_over i ps j m)
  then show ?case using alock_step.pass_lock [of i "map abs_pc ps" j] by (simp add: map_update)
qed

section \<open>Every waiter can be served\<close>

text \<open>A goroutine inside Lock that is not asleep takes a free mutex in at most three steps of its own.\<close>

definition inside_Lock :: "mpc \<Rightarrow> bool" where
  "inside_Lock p \<longleftrightarrow> (case p of LFast \<Rightarrow> True | LLoad a \<Rightarrow> True | LCas a old \<Rightarrow> True | LSema \<Rightarrow> True | _ \<Rightarrow> False)"

definition can_hold :: "Mutex \<times> mpc list \<Rightarrow> bool" where
  "can_hold s \<longleftrightarrow> (\<exists>m ps. mutex_run\<^sup>*\<^sup>* s (m, ps) \<and> Held \<in> set ps)"

lemma can_hold_now: "i < length ps \<Longrightarrow> ps ! i = Held \<Longrightarrow> can_hold (m, ps)"
  unfolding can_hold_def by (metis nth_mem rtranclp.rtrancl_refl)

lemma can_hold_run:
  assumes "i < length ps" "run_mutex m (ps ! i) = Some (m', p')" "can_hold (m', ps[i := p'])"
  shows "can_hold (m, ps)"
  using assms(3) mutex_run.run [OF assms(1,2)]
  unfolding can_hold_def by (blast intro: converse_rtranclp_into_rtranclp)

lemma free_not_locked: "state m = packed False w n \<Longrightarrow> state m AND mutexLocked = 0"
  by (simp add: packed_and_locked)

lemma LCas_can_hold:
  assumes "i < length ps" "ps ! i = LCas a (state m)" "state m = packed False w n"
  shows "can_hold (m, ps)"
  using assms(1)
proof (rule can_hold_run)
  show "run_mutex m (ps ! i) = Some (m\<lparr>state := lock_new a (state m)\<rparr>, Held)"
    using assms free_not_locked [of m] by (simp add: run_mutex_def CompareAndSwap_def)
qed (use assms(1) in \<open>auto intro: can_hold_now\<close>)

lemma LLoad_can_hold:
  assumes "i < length ps" "ps ! i = LLoad a" "state m = packed False w n"
  shows "can_hold (m, ps)"
  using assms
  by (intro can_hold_run [of i ps m m "LCas a (state m)"] LCas_can_hold [of i _ a m w n])
    (auto simp: run_mutex_def)

lemma awake_can_hold:
  assumes i: "i < length ps" and p: "ps ! i = LFast \<or> ps ! i = LCas a old"
    and st: "state m = packed False w n"
  shows "can_hold (m, ps)"
  using p
proof
  assume p: "ps ! i = LFast"
  show ?thesis
  proof (cases "state m = 0")
    case True
    with i p show ?thesis
      by (intro can_hold_run [of i ps m "m\<lparr>state := mutexLocked\<rparr>" Held] can_hold_now [of i])
        (auto simp: run_mutex_def CompareAndSwap_def)
  next
    case False
    with i p st show ?thesis
      by (intro can_hold_run [of i ps m m "LLoad False"] LLoad_can_hold [of i _ False m w n])
        (auto simp: run_mutex_def CompareAndSwap_def)
  qed
next
  assume p: "ps ! i = LCas a old"
  show ?thesis
  proof (cases "state m = old")
    case True
    with i p st show ?thesis by (intro LCas_can_hold [of i ps a m w n]) auto
  next
    case False
    with i p st show ?thesis
      by (intro can_hold_run [of i ps m m "LLoad a"] LLoad_can_hold [of i _ a m w n])
        (auto simp: run_mutex_def CompareAndSwap_def)
  qed
qed

lemma woken_can_hold:
  assumes "i < length ps" "ps ! i = LSema" "sema m \<noteq> 0" "state m = packed False w n"
  shows "can_hold (m, ps)"
  using assms
  by (intro can_hold_run [of i ps m "m\<lparr>sema := sema m - 1\<rparr>" "LLoad True"]
      LLoad_can_hold [of i _ True _ w n])
    (auto simp: run_mutex_def Semacquire_def word_gt_0)

text \<open>The goroutine that looks for a waiter wakes one.\<close>

lemma USema_can_hold:
  assumes ij: "i < length ps" "j < length ps" and p: "ps ! i = LSema" "ps ! j = USema"
    and m: "sema m = 0" "state m = packed False w n"
  shows "can_hold (m, ps)"
proof (rule can_hold_run [OF ij(2)])
  show "run_mutex m (ps ! j) = Some (m\<lparr>sema := Semrelease (sema m)\<rparr>, Outside)"
    using p by (simp add: run_mutex_def)
  show "can_hold (m\<lparr>sema := Semrelease (sema m)\<rparr>, ps[j := Outside])"
    using assms by (intro woken_can_hold [of i _ _ w n]) (auto simp: Semrelease_def nth_list_update)
qed

lemma UCas_can_hold:
  assumes ij: "i < length ps" "j < length ps" and p: "ps ! i = LSema" "ps ! j = UCas (state m)"
    and m: "sema m = 0" "state m = packed False w (Suc n)"
  shows "can_hold (m, ps)"
proof (rule can_hold_run [OF ij(2)])
  show "run_mutex m (ps ! j) = Some (m\<lparr>state := unlock_new (state m)\<rparr>, USema)"
    using p by (simp add: run_mutex_def CompareAndSwap_def)
  show "can_hold (m\<lparr>state := unlock_new (state m)\<rparr>, ps[j := USema])"
    using assms
    by (intro USema_can_hold [of i _ j _ True n]) (auto simp: unlock_new_packed nth_list_update)
qed

lemma ULoad_can_hold:
  assumes ij: "i < length ps" "j < length ps" and p: "ps ! i = LSema" "ps ! j = ULoad"
    and m: "sema m = 0" "state m = packed False False (Suc n)" "Suc n < 2 ^ 29"
  shows "can_hold (m, ps)"
proof (rule can_hold_run [OF ij(2)])
  let ?ps = "ps[j := UTest (state m)]"
  show "run_mutex m (ps ! j) = Some (m, UTest (state m))" using p by (simp add: run_mutex_def)
  have "run_mutex m (?ps ! j) = Some (m, UCas (state m))"
    using ij m by (simp add: run_mutex_def no_wakeup_packed)
  then show "can_hold (m, ?ps)"
    using ij p m
    by (intro can_hold_run [of j ?ps] UCas_can_hold [of i _ j _ False n]) (auto simp: nth_list_update)
qed

lemma waking_can_hold:
  assumes ij: "i < length ps" "j < length ps" and p: "ps ! i = LSema" "waking (ps ! j)"
    and m: "sema m = 0" "state m = packed False False (Suc n)" "Suc n < 2 ^ 29"
  shows "can_hold (m, ps)"
proof -
  have cas: "can_hold (m, qs)" if q: "j < length qs" "i < length qs" "qs ! j = UCas old" "qs ! i = LSema" for qs old
  proof (cases "state m = old")
    case True
    with q m show ?thesis by (intro UCas_can_hold [of i qs j m False n]) auto
  next
    case False
    with q m show ?thesis
      by (intro can_hold_run [of j qs m m ULoad] ULoad_can_hold [of i _ j _ n])
        (auto simp: run_mutex_def CompareAndSwap_def nth_list_update)
  qed
  from p(2) show ?thesis
  proof (cases "ps ! j")
    case (UTest old)
    with assms show ?thesis
      by (intro can_hold_run [of j ps m m "UCas old"] cas [of _ old])
        (auto simp: run_mutex_def nth_list_update)
  qed (use assms cas in \<open>auto intro: ULoad_can_hold\<close>)
qed

lemma free_can_hold:
  assumes inv: "mutex_inv m ps" and free: "tally holding ps = 0"
    and i: "i < length ps" "inside_Lock (ps ! i)"
  shows "can_hold (m, ps)"
proof -
  from inv obtain l w n k where f: "mutex_fields m ps l w n k" and len: "length ps < 2 ^ 29"
    by (auto simp: mutex_inv_def)
  note b = mutex_fields_bounds [OF f len]
  have st: "state m = packed False w n" "sema m = of_nat k" and "\<not> l"
    using f free by (auto simp: mutex_fields_def)
  have nonneg: "0 \<le> tally releasing ps" "0 \<le> tally awake ps" by (rule tally_nonneg; simp)+
  have aw: "can_hold (m, ps)" if "0 < tally awake ps"
  proof -
    from that obtain j where j: "j < length ps" "0 < awake (ps ! j)"
      using tally_pos [of awake ps] by auto
    then show ?thesis using st
      by (cases "ps ! j") (auto intro: awake_can_hold LLoad_can_hold)
  qed
  from i(2) show ?thesis
  proof (cases "ps ! i")
    case LSema
    have sl: "0 < tally asleep ps" using tally_nth [of asleep i ps] i LSema by simp
    consider "0 < k" | "k = 0" "0 < tally releasing ps" | "k = 0" "0 < n" "w" "tally releasing ps = 0"
      | "k = 0" "0 < n" "\<not> w"
      using f sl nonneg unfolding mutex_fields_def by linarith
    then show ?thesis
    proof cases
      case 1
      then have "k = 1" using b by simp
      with i LSema st show ?thesis by (intro woken_can_hold) auto
    next
      case 2
      then obtain j where j: "j < length ps" "0 < releasing (ps ! j)"
        using tally_pos [of releasing ps] by auto
      then have "ps ! j = USema" by (cases "ps ! j") auto
      with i j LSema st 2 show ?thesis by (intro USema_can_hold) auto
    next
      case 3
      then have "0 < tally awake ps" using f by (simp add: mutex_fields_def)
      then show ?thesis by (rule aw)
    next
      case 4
      then obtain j where "j < length ps" "waking (ps ! j)"
        using f \<open>\<not> l\<close> unfolding mutex_fields_def by (metis in_set_conv_nth)
      moreover obtain n' where "n = Suc n'" using 4 by (cases n) auto
      ultimately show ?thesis using i LSema st 4 b by (intro waking_can_hold) auto
    qed
  qed (use i st in \<open>auto simp: inside_Lock_def intro: awake_can_hold LLoad_can_hold\<close>)
qed

lemma mutex_can_hold:
  assumes inv: "mutex_inv m ps" and i: "i < length ps" "inside_Lock (ps ! i)"
  shows "can_hold (m, ps)"
proof (cases "tally holding ps = 0")
  case True
  with assms show ?thesis by (intro free_can_hold)
next
  case False
  moreover have "0 \<le> tally holding ps" by (rule tally_nonneg) simp
  ultimately obtain j where j: "j < length ps" "0 < holding (ps ! j)"
    using tally_pos [of holding ps] by auto
  show ?thesis
  proof (cases "ps ! j")
    case UAdd
    let ?m = "m\<lparr>state := state m + - mutexLocked\<rparr>"
    from inv obtain l w n k where f: "mutex_fields m ps l w n k" by (auto simp: mutex_inv_def)
    have "state m AND mutexLocked \<noteq> 0"
      using f mutex_fields_nth(2) [OF f j(1)] UAdd by (cases l) (auto simp: mutex_fields_def packed_and_locked)
    then have r: "run_mutex m (ps ! j) = Some (?m, UTest (state ?m))"
      using UAdd by (simp add: run_mutex_def Let_def)
    have "mutex_inv ?m (ps[j := UTest (state ?m)])"
      using mutex_run_inv [OF mutex_run.run [OF j(1) r]] inv by simp
    moreover have "tally holding (ps[j := UTest (state ?m)]) = 0"
      using f False UAdd j by (auto simp: tally_simps mutex_fields_def)
    ultimately have "can_hold (?m, ps[j := UTest (state ?m)])"
      using i UAdd j by (intro free_can_hold [of _ _ i]) (auto simp: nth_list_update inside_Lock_def)
    with r j(1) show ?thesis by (blast intro: can_hold_run)
  qed (use j in \<open>auto intro: can_hold_now\<close>)
qed

lemma mutex_not_stuck:
  assumes "mutex_inv m ps" "p \<in> set ps" "inside_Lock p" "Held \<notin> set ps"
  shows "\<exists>q \<in> set ps. run_mutex m q \<noteq> None"
proof -
  from assms(2,3) obtain i where "i < length ps" "inside_Lock (ps ! i)" by (auto simp: in_set_conv_nth)
  then obtain m' ps' where run: "mutex_run\<^sup>*\<^sup>* (m, ps) (m', ps')" and "Held \<in> set ps'"
    using mutex_can_hold [OF assms(1), of i] unfolding can_hold_def by blast
  with assms(4) have "(m, ps) \<noteq> (m', ps')" by auto
  with run obtain s where "mutex_run (m, ps) s" by (metis converse_rtranclpE)
  then obtain j where "j < length ps" "run_mutex m (ps ! j) \<noteq> None" by (auto elim!: mutex_run.cases)
  then show ?thesis using nth_mem by blast
qed

lemma Unlock_not_Lock: "Unlock_step m p = Some r \<Longrightarrow> Lock_step m p = None"
  by (cases p) auto

section \<open>Code that embeds a mutex\<close>

locale mutex_client =
  fixes init :: "'s \<Rightarrow> bool"
    and step :: "'s \<Rightarrow> 's \<Rightarrow> bool"
    and mutex_of :: "'s \<Rightarrow> Mutex"
    and pcs_of :: "'s \<Rightarrow> mpc list"
  assumes client_init: "init s \<Longrightarrow> \<exists>n < 2 ^ 29. (mutex_of s, pcs_of s) = mutex_init n"
    and client_step: "step s t \<Longrightarrow> (mutex_of t, pcs_of t) = (mutex_of s, pcs_of s) \<or>
      mutex_step (mutex_of s, pcs_of s) (mutex_of t, pcs_of t)"
begin

definition reach :: "'s \<Rightarrow> bool" where
  "reach s \<longleftrightarrow> (\<exists>s0. init s0 \<and> step\<^sup>*\<^sup>* s0 s)"

lemma reach_induct [consumes 1, case_names start run]:
  assumes "reach s" "\<And>s. init s \<Longrightarrow> P s" "\<And>s t. reach s \<Longrightarrow> P s \<Longrightarrow> step s t \<Longrightarrow> P t"
  shows "P s"
proof -
  from assms(1) obtain s0 where s0: "init s0" and "step\<^sup>*\<^sup>* s0 s" by (auto simp: reach_def)
  from this(2) show ?thesis
    by (induction rule: rtranclp_induct) (use s0 assms(2,3) in \<open>auto simp: reach_def\<close>)
qed

lemma client_inv: "reach s \<Longrightarrow> mutex_inv (mutex_of s) (pcs_of s)"
proof (induction rule: reach_induct)
  case (start s)
  then show ?case using client_init [of s] mutex_inv_init by (metis fst_conv snd_conv)
next
  case (run s t)
  then show ?case using client_step [of s t] mutex_step_inv by (metis Pair_inject fst_conv snd_conv)
qed

lemma client_exclusive:
  "reach s \<Longrightarrow> i < length (pcs_of s) \<Longrightarrow> j < length (pcs_of s) \<Longrightarrow>
   abs_pc (pcs_of s ! i) = Owning \<Longrightarrow> abs_pc (pcs_of s ! j) = Owning \<Longrightarrow> i = j"
  using mutex_inv_exclusive [OF client_inv] by (simp add: owning_iff)

lemma client_no_panic: "reach s \<Longrightarrow> UPanic \<notin> set (pcs_of s)"
  by (rule mutex_inv_no_panic [OF client_inv])

lemma client_owners: "reach s \<Longrightarrow> tally holding (pcs_of s) \<le> 1"
  using client_inv by (fastforce simp: mutex_inv_def mutex_fields_def)

lemma client_refines:
  "reach s \<Longrightarrow> step s t \<Longrightarrow> map abs_pc (pcs_of t) = map abs_pc (pcs_of s) \<or>
     alock_step (map abs_pc (pcs_of s)) (map abs_pc (pcs_of t))"
  using client_step [of s t] client_inv [of s]
    mutex_step_refines [of "(mutex_of s, pcs_of s)" "(mutex_of t, pcs_of t)"] by auto

end

interpretation mutex: mutex_client "\<lambda>s. \<exists>n < 2 ^ 29. s = mutex_init n" mutex_step fst snd
  by unfold_locales auto

lemma mutex_reach: "n < 2 ^ 29 \<Longrightarrow> mutex_step\<^sup>*\<^sup>* (mutex_init n) s \<Longrightarrow> mutex.reach s"
  unfolding mutex.reach_def by blast

section \<open>The properties of the mutex\<close>

text \<open>
  C15. Mutual exclusion. However the calls of Lock and Unlock by fewer than \<open>2 ^ 29\<close> goroutines
  interleave, at most one goroutine holds the mutex, the locked bit of the state word says whether one
  does, and no Unlock panics.
\<close>

theorem mutex_exclusion:
  assumes n: "n < 2 ^ 29" and run: "mutex_step\<^sup>*\<^sup>* (mutex_init n) (m, ps)"
  shows "(\<forall>i j. i < length ps \<and> j < length ps \<and> ps ! i = Held \<and> ps ! j = Held \<longrightarrow> i = j) \<and>
    (state m AND mutexLocked \<noteq> 0 \<longleftrightarrow> Held \<in> set ps \<or> UAdd \<in> set ps) \<and> UPanic \<notin> set ps"
proof -
  have r: "mutex.reach (m, ps)" using assms by (rule mutex_reach)
  have inv: "mutex_inv m ps" using mutex.client_inv [OF r] by simp
  have "0 < tally holding ps \<longleftrightarrow> Held \<in> set ps \<or> UAdd \<in> set ps"
  proof
    assume "0 < tally holding ps"
    then obtain i where "i < length ps" "0 < holding (ps ! i)" using tally_pos [of holding ps] by auto
    then show "Held \<in> set ps \<or> UAdd \<in> set ps" by (cases "ps ! i") (auto simp: in_set_conv_nth)
  next
    assume "Held \<in> set ps \<or> UAdd \<in> set ps"
    then show "0 < tally holding ps" using tally_member [of holding _ ps] by fastforce
  qed
  moreover have "tally holding ps \<le> 1" using mutex.client_owners [OF r] by simp
  ultimately have "state m AND mutexLocked \<noteq> 0 \<longleftrightarrow> Held \<in> set ps \<or> UAdd \<in> set ps"
    unfolding mutex_inv_held [OF inv] by auto
  moreover have "i = j" if "i < length ps" "j < length ps" "ps ! i = Held" "ps ! j = Held" for i j
    using mutex.client_exclusive [OF r, of i j] that by simp
  ultimately show ?thesis using mutex.client_no_panic [OF r] by auto
qed

lemma mutex_run_at:
  "i < length ps \<Longrightarrow> run_mutex m (ps ! i) = Some (m', p') \<Longrightarrow> ps' = ps[i := p'] \<Longrightarrow>
   mutex_step\<^sup>*\<^sup>* (m', ps') t \<Longrightarrow> mutex_step\<^sup>*\<^sup>* (m, ps) t"
  by (metis converse_rtranclp_into_rtranclp mutex_run.run mutex_step.run_call)

lemma mutex_call_at:
  "i < length ps \<Longrightarrow> ps ! i = Outside \<Longrightarrow> ps' = ps[i := LFast] \<Longrightarrow>
   mutex_step\<^sup>*\<^sup>* (m, ps') t \<Longrightarrow> mutex_step\<^sup>*\<^sup>* (m, ps) t"
  by (metis converse_rtranclp_into_rtranclp mutex_step.call_Lock)

text \<open>Two goroutines: the first holds the mutex, the second has gone to sleep.\<close>

lemma mutex_run_two:
  "mutex_step\<^sup>*\<^sup>* (mutex_init 2) (\<lparr>state = 5, sema = 0\<rparr>, [Held, LSema])"
  unfolding mutex_init_def
  by (rule mutex_call_at [of 0], simp, simp, rule refl,
      rule mutex_run_at [of 0], simp, simp add: run_mutex_def CompareAndSwap_def, rule refl,
      rule mutex_call_at [of 1], simp, simp, rule refl,
      rule mutex_run_at [of 1], simp, simp add: run_mutex_def CompareAndSwap_def mutex_consts, rule refl,
      rule mutex_run_at [of 1], simp, simp add: run_mutex_def, rule refl,
      rule mutex_run_at [of 1], simp, simp add: run_mutex_def CompareAndSwap_def mutex_consts, rule refl,
      simp add: numeral_2_eq_2 lock_new_def mutex_consts)

theorem mutex_exclusion_witness:
  "state \<lparr>state = 5, sema = 0\<rparr> AND mutexLocked \<noteq> 0 \<and> UPanic \<notin> set [Held, LSema]"
  using mutex_exclusion [OF _ mutex_run_two] by simp

text \<open>
  C16. No wakeup is lost. In every reachable state in which a goroutine is inside Lock, some goroutine
  can come to hold the mutex without any new call being made: the calls under way suffice to pass it on,
  unless its holder simply keeps it.
\<close>

theorem mutex_served:
  assumes n: "n < 2 ^ 29" and run: "mutex_step\<^sup>*\<^sup>* (mutex_init n) (m, ps)"
    and waiting: "\<exists>p \<in> set ps. inside_Lock p"
  shows "\<exists>m' ps'. mutex_run\<^sup>*\<^sup>* (m, ps) (m', ps') \<and> Held \<in> set ps'"
proof -
  have "mutex_inv m ps" using mutex.client_inv [OF mutex_reach [OF n run]] by simp
  moreover from waiting obtain i where "i < length ps" "inside_Lock (ps ! i)"
    by (auto simp: in_set_conv_nth)
  ultimately show ?thesis using mutex_can_hold by (auto simp: can_hold_def)
qed

text \<open>The holder unlocks and has taken the right to wake the sleeper.\<close>

lemma mutex_run_unlocking:
  "mutex_step\<^sup>*\<^sup>* (mutex_init 2) (\<lparr>state = 2, sema = 0\<rparr>, [USema, LSema])"
proof -
  let ?m = "\<lparr>state = 5, sema = 0\<rparr>" and ?m' = "\<lparr>state = 4, sema = 0\<rparr>"
  have nw: "\<not> no_wakeup 4" using no_wakeup_packed [of 1 False False] by (simp add: packed_def)
  have "mutex_step (?m, [Held, LSema]) (?m, [UAdd, LSema])"
    using mutex_step.call_Unlock [of 0 "[Held, LSema]" ?m] by simp
  moreover have "mutex_step\<^sup>*\<^sup>* (?m, [UAdd, LSema]) (\<lparr>state = 2, sema = 0\<rparr>, [USema, LSema])"
    by (rule mutex_run_at [of 0], simp, simp add: run_mutex_def mutex_consts, rule refl,
      rule mutex_run_at [of 0], simp, simp add: run_mutex_def nw, rule refl,
      rule mutex_run_at [of 0], simp, simp add: run_mutex_def CompareAndSwap_def, rule refl,
      simp add: unlock_new_def mutex_consts)
  ultimately show ?thesis using mutex_run_two by (meson rtranclp.rtrancl_into_rtrancl rtranclp_trans)
qed

theorem mutex_served_witness:
  "\<exists>m' ps'. mutex_run\<^sup>*\<^sup>* (\<lparr>state = 2, sema = 0\<rparr>, [USema, LSema]) (m', ps') \<and> Held \<in> set ps'"
  using mutex_served [OF _ mutex_run_unlocking] by (simp add: inside_Lock_def)

text \<open>
  The mutex implements the abstract lock. Every step of every run is either invisible or a step of
  \<open>alock_step\<close>: a goroutine asks for the lock, takes it while nobody owns it, drops it, or passes it on.
\<close>

theorem mutex_refines_lock:
  assumes "n < 2 ^ 29" "mutex_step\<^sup>*\<^sup>* (mutex_init n) (m, ps)" "mutex_step (m, ps) (m', ps')"
  shows "map abs_pc ps' = map abs_pc ps \<or> alock_step (map abs_pc ps) (map abs_pc ps')"
  using mutex.client_refines [OF mutex_reach [OF assms(1,2)] assms(3)] by simp

end
