(* ===== verification/RWMutex.thy ===== *)
theory RWMutex
  imports MutexProps
begin

text \<open>
  The reader/writer lock of package sync (sync/rwmutex.go). Writers compete for the embedded mutex
  \<open>rw_w\<close>, whose own code runs inside theirs; the winner announces itself by subtracting
  \<open>rwmutexMaxReaders\<close> from the reader count, waits for the readers of that moment to leave, and admits
  the readers that came in between when it unlocks. \<open>rw_run\<close> is one step of one goroutine between two
  accesses of shared words, \<open>rw_step\<close> the interleaving of all goroutines.
\<close>

section \<open>The code\<close>

record RWMutex =
  rw_w :: Mutex
  writerSem :: uint32
  readerSem :: uint32
  readerCount :: int32
  readerWait :: int32

definition rwmutexMaxReaders :: int32 where "rwmutexMaxReaders = push_bit 30 1"

datatype rwpc =
    Idle                \<comment> \<open>outside of every call, holding nothing\<close>
  | RAdd                \<comment> \<open>RLock, at the increment of readerCount\<close>
  | RSema               \<comment> \<open>RLock, at \<open>runtime_Semacquire(&rw.readerSem)\<close>\<close>
  | Reading             \<comment> \<open>RLock has returned\<close>
  | RUAdd               \<comment> \<open>RUnlock, at the decrement of readerCount\<close>
  | RUWait              \<comment> \<open>RUnlock, at the decrement of readerWait\<close>
  | RUSema              \<comment> \<open>RUnlock, at \<open>runtime_Semrelease(&rw.writerSem)\<close>\<close>
  | WMutex mpc          \<comment> \<open>Lock, inside \<open>rw.w.Lock()\<close>\<close>
  | WAnnounce           \<comment> \<open>Lock, at the subtraction from readerCount\<close>
  | WWait int32         \<comment> \<open>Lock, at the addition of r to readerWait\<close>
  | WSema               \<comment> \<open>Lock, at \<open>runtime_Semacquire(&rw.writerSem)\<close>\<close>
  | Writing             \<comment> \<open>Lock has returned\<close>
  | WUAnnounce          \<comment> \<open>Unlock, at the addition to readerCount\<close>
  | WURelease int int32 \<comment> \<open>Unlock, at the head of the loop, with i and r\<close>
  | WUMutex mpc         \<comment> \<open>Unlock, inside \<open>rw.w.Unlock()\<close>\<close>

fun RLock :: "RWMutex \<Rightarrow> rwpc \<Rightarrow> (RWMutex \<times> rwpc) option" where
  "RLock rw RAdd =
     (let c = readerCount rw + 1
      in Some (rw\<lparr>readerCount := c\<rparr>, if sint c < 0 then RSema else Reading))"
| "RLock rw RSema =
     (case Semacquire (readerSem rw) of
        None \<Rightarrow> None
      | Some s \<Rightarrow> Some (rw\<lparr>readerSem := s\<rparr>, Reading))"
| "RLock rw _ = None"

fun RUnlock :: "RWMutex \<Rightarrow> rwpc \<Rightarrow> (RWMutex \<times> rwpc) option" where
  "RUnlock rw RUAdd =
     (let c = readerCount rw + - 1
      in Some (rw\<lparr>readerCount := c\<rparr>, if sint c < 0 then RUWait else Idle))"
| "RUnlock rw RUWait =
     (let c = readerWait rw + - 1
      in Some (rw\<lparr>readerWait := c\<rparr>, if c = 0 then RUSema else Idle))"
| "RUnlock rw RUSema = Some (rw\<lparr>writerSem := Semrelease (writerSem rw)\<rparr>, Idle)"
| "RUnlock rw _ = None"

fun RW_Lock :: "RWMutex \<Rightarrow> rwpc \<Rightarrow> (RWMutex \<times> rwpc) option" where
  "RW_Lock rw (WMutex p) =
     (case Lock_step (rw_w rw) p of
        None \<Rightarrow> None
      | Some (m, p') \<Rightarrow> Some (rw\<lparr>rw_w := m\<rparr>, if p' = Held then WAnnounce else WMutex p'))"
| "RW_Lock rw WAnnounce =
     (let c = readerCount rw + - rwmutexMaxReaders;
          r = c + rwmutexMaxReaders
      in Some (rw\<lparr>readerCount := c\<rparr>, if r \<noteq> 0 then WWait r else Writing))"
| "RW_Lock rw (WWait r) =
     (let c = readerWait rw + r
      in Some (rw\<lparr>readerWait := c\<rparr>, if c \<noteq> 0 then WSema else Writing))"
| "RW_Lock rw WSema =
     (case Semacquire (writerSem rw) of
        None \<Rightarrow> None
      | Some s \<Rightarrow> Some (rw\<lparr>writerSem := s\<rparr>, Writing))"
| "RW_Lock rw _ = None"

fun RW_Unlock :: "RWMutex \<Rightarrow> rwpc \<Rightarrow> (RWMutex \<times> rwpc) option" where
  "RW_Unlock rw WUAnnounce =
     (let r = readerCount rw + rwmutexMaxReaders
      in Some (rw\<lparr>readerCount := r\<rparr>, WURelease 0 r))"
| "RW_Unlock rw (WURelease i r) =
     Some (if i < sint r then (rw\<lparr>readerSem := Semrelease (readerSem rw)\<rparr>, WURelease (i + 1) r)
           else (rw, WUMutex UAdd))"
| "RW_Unlock rw (WUMutex p) =
     (case Unlock_step (rw_w rw) p of
        None \<Rightarrow> None
      | Some (m, p') \<Rightarrow> Some (rw\<lparr>rw_w := m\<rparr>, if p' = Outside then Idle else WUMutex p'))"
| "RW_Unlock rw _ = None"

definition rw_run :: "RWMutex \<Rightarrow> rwpc \<Rightarrow> (RWMutex \<times> rwpc) option" where
  "rw_run rw p =
     (case RLock rw p of Some r \<Rightarrow> Some r | None \<Rightarrow>
      (case RUnlock rw p of Some r \<Rightarrow> Some r | None \<Rightarrow>
       (case RW_Lock rw p of Some r \<Rightarrow> Some r | None \<Rightarrow> RW_Unlock rw p)))"

text \<open>\<open>RLocker\<close> returns the same lock with Lock and Unlock meaning RLock and RUnlock.\<close>

definition rlocker_Lock :: "RWMutex \<Rightarrow> rwpc \<Rightarrow> (RWMutex \<times> rwpc) option" where
  "rlocker_Lock r p = RLock r p"

definition rlocker_Unlock :: "RWMutex \<Rightarrow> rwpc \<Rightarrow> (RWMutex \<times> rwpc) option" where
  "rlocker_Unlock r p = RUnlock r p"

inductive rw_step :: "RWMutex \<times> rwpc list \<Rightarrow> RWMutex \<times> rwpc list \<Rightarrow> bool" where
  rw_run_call: "i < length ps \<Longrightarrow> rw_run rw (ps ! i) = Some (rw', p') \<Longrightarrow> rw_step (rw, ps) (rw', ps[i := p'])"
| call_RLock: "i < length ps \<Longrightarrow> ps ! i = Idle \<Longrightarrow> rw_step (rw, ps) (rw, ps[i := RAdd])"
| call_RUnlock: "i < length ps \<Longrightarrow> ps ! i = Reading \<Longrightarrow> rw_step (rw, ps) (rw, ps[i := RUAdd])"
| call_RW_Lock: "i < length ps \<Longrightarrow> ps ! i = Idle \<Longrightarrow> rw_step (rw, ps) (rw, ps[i := WMutex LFast])"
| call_RW_Unlock: "i < length ps \<Longrightarrow> ps ! i = Writing \<Longrightarrow> rw_step (rw, ps) (rw, ps[i := WUAnnounce])"
| rw_hand_over: "i < length ps \<Longrightarrow> j < length ps \<Longrightarrow> ps ! i = Reading \<or> ps ! i = Writing \<Longrightarrow> ps ! j = Idle \<Longrightarrow>
     rw_step (rw, ps) (rw, ps[i := Idle, j := ps ! i])"

definition rw_zero :: RWMutex where
  "rw_zero = \<lparr>rw_w = \<lparr>state = 0, sema = 0\<rparr>, writerSem = 0, readerSem = 0, readerCount = 0, readerWait = 0\<rparr>"

definition rw_init :: "nat \<Rightarrow> RWMutex \<times> rwpc list" where
  "rw_init n = (rw_zero, replicate n Idle)"

section \<open>The embedded mutex\<close>

text \<open>Where a goroutine stands with respect to the mutex \<open>rw_w\<close>.\<close>

fun rw_view :: "rwpc \<Rightarrow> mpc" where
  "rw_view (WMutex p) = p"
| "rw_view WAnnounce = Held"
| "rw_view (WWait r) = Held"
| "rw_view WSema = Held"
| "rw_view Writing = Held"
| "rw_view WUAnnounce = Held"
| "rw_view (WURelease i r) = Held"
| "rw_view (WUMutex p) = p"
| "rw_view _ = Outside"

lemma rw_run_cases:
  assumes "rw_run rw p = Some r"
  obtains "RLock rw p = Some r" | "RUnlock rw p = Some r" | "RW_Lock rw p = Some r" | "RW_Unlock rw p = Some r"
  using assms by (auto simp: rw_run_def split: option.splits)

lemma rw_run_view:
  assumes "rw_run rw p = Some (rw', p')"
  shows "rw_w rw' = rw_w rw \<and> rw_view p' = rw_view p \<or>
    run_mutex (rw_w rw) (rw_view p) = Some (rw_w rw', rw_view p') \<or>
    rw_w rw' = rw_w rw \<and> rw_view p = Held \<and> rw_view p' = UAdd"
  using assms
proof (cases rule: rw_run_cases)
  case 1
  then show ?thesis by (cases p) (auto simp: Let_def split: option.splits if_splits)
next
  case 2
  then show ?thesis by (cases p) (auto simp: Let_def split: option.splits if_splits)
next
  case 3
  then show ?thesis by (cases p) (auto simp: Let_def run_mutex_def split: option.splits if_splits)
next
  case 4
  show ?thesis
  proof (cases p)
    case (WUMutex q)
    have "Unlock_step (rw_w rw) q = Some r \<Longrightarrow> Lock_step (rw_w rw) q = None" for r
      by (cases q) auto
    then show ?thesis using 4 WUMutex
      by (auto simp: run_mutex_def split: option.splits if_splits)
  qed (use 4 in \<open>auto simp: Let_def split: if_splits\<close>)
qed

lemma rw_step_view:
  assumes "rw_step s t"
  shows "(rw_w (fst t), map rw_view (snd t)) = (rw_w (fst s), map rw_view (snd s)) \<or>
    mutex_step (rw_w (fst s), map rw_view (snd s)) (rw_w (fst t), map rw_view (snd t))"
  using assms
proof (induction rule: rw_step.induct)
  case (rw_run_call i ps rw rw' p')
  let ?vs = "map rw_view ps"
  have vs: "i < length ?vs" "?vs ! i = rw_view (ps ! i)" using rw_run_call by auto
  have upd: "map rw_view (ps[i := p']) = ?vs[i := rw_view p']" by (simp add: map_update)
  from rw_run_view [OF rw_run_call.hyps(2)] show ?case
  proof (elim disjE conjE)
    assume "rw_view p' = rw_view (ps ! i)" "rw_w rw' = rw_w rw"
    moreover have "?vs[i := rw_view (ps ! i)] = ?vs" using vs by (metis list_update_id)
    ultimately show ?thesis by (simp add: map_update)
  next
    assume "run_mutex (rw_w rw) (rw_view (ps ! i)) = Some (rw_w rw', rw_view p')"
    then show ?thesis using vs upd mutex_run.run [of i ?vs "rw_w rw"] by (simp add: mutex_step.run_call)
  next
    assume "rw_w rw' = rw_w rw" "rw_view (ps ! i) = Held" "rw_view p' = UAdd"
    then show ?thesis using vs upd mutex_step.call_Unlock [of i ?vs "rw_w rw"] by simp
  qed
next
  case (call_RW_Lock i ps rw)
  then show ?case using mutex_step.call_Lock [of i "map rw_view ps" "rw_w rw"] by (simp add: map_update)
next
  case (rw_hand_over i ps j rw)
  show ?case
  proof (cases "ps ! i = Writing")
    case True
    then show ?thesis using rw_hand_over mutex_step.hand_over [of i "map rw_view ps" j "rw_w rw"]
      by (simp add: map_update)
  next
    case False
    then have "map rw_view (ps[i := Idle, j := ps ! i]) = map rw_view ps"
      using rw_hand_over by (intro nth_equalityI) (auto simp: nth_list_update)
    then show ?thesis by simp
  qed
qed (auto simp: map_update intro!: nth_equalityI simp: nth_list_update)

interpretation rw: mutex_client "\<lambda>s. \<exists>n < 2 ^ 29. s = rw_init n" rw_step
  "\<lambda>s. rw_w (fst s)" "\<lambda>s. map rw_view (snd s)"
proof unfold_locales
  fix s :: "RWMutex \<times> rwpc list"
  assume "\<exists>n < 2 ^ 29. s = rw_init n"
  then show "\<exists>n < 2 ^ 29. (rw_w (fst s), map rw_view (snd s)) = mutex_init n"
    by (auto simp: rw_init_def rw_zero_def mutex_init_def)
qed (rule rw_step_view)

end
