(* ===== verification/RWMutexProps.thy ===== *)
theory RWMutexProps
  imports RWMutex
begin

text \<open>
  Correctness of the reader/writer lock: a writer excludes readers and other writers, and the lock never
  deadlocks. The invariant relates the four words of the lock to the number of goroutines at each point;
  that at most one writer is past the embedded mutex comes from the interpretation of \<open>mutex_client\<close>.
\<close>

section \<open>Weights\<close>

fun reading :: "rwpc \<Rightarrow> int" where
  "reading Reading = 1" | "reading RUAdd = 1" | "reading _ = 0"

fun blocked :: "rwpc \<Rightarrow> int" where
  "blocked RSema = 1" | "blocked _ = 0"

fun departing :: "rwpc \<Rightarrow> int" where
  "departing RUWait = 1" | "departing _ = 0"

fun signalling :: "rwpc \<Rightarrow> int" where
  "signalling RUSema = 1" | "signalling _ = 0"

fun announced :: "rwpc \<Rightarrow> int" where
  "announced (WWait r) = 1" | "announced WSema = 1" | "announced Writing = 1"
| "announced WUAnnounce = 1" | "announced _ = 0"

fun writing :: "rwpc \<Rightarrow> int" where
  "writing Writing = 1" | "writing WUAnnounce = 1" | "writing _ = 0"

fun sleeping :: "rwpc \<Rightarrow> int" where
  "sleeping WSema = 1" | "sleeping _ = 0"

text \<open>The readers a writer has still to add to readerWait, and those it has still to admit.\<close>

fun pending :: "rwpc \<Rightarrow> int" where
  "pending (WWait r) = sint r" | "pending _ = 0"

fun admitting :: "rwpc \<Rightarrow> int" where
  "admitting (WURelease i r) = sint r - i" | "admitting _ = 0"

fun rw_ok :: "rwpc \<Rightarrow> bool" where
  "rw_ok (WMutex p) = inside_Lock p"
| "rw_ok (WUMutex p) = (\<not> inside_Lock p \<and> p \<noteq> Held \<and> p \<noteq> Outside)"
| "rw_ok (WWait r) = (0 < sint r)"
| "rw_ok (WURelease i r) = (i \<le> sint r)"
| "rw_ok _ = True"

lemma rw_weights_nonneg [simp]:
  "0 \<le> reading p" "0 \<le> blocked p" "0 \<le> departing p" "0 \<le> signalling p" "0 \<le> announced p"
  "0 \<le> writing p" "0 \<le> sleeping p"
  by (cases p; simp)+

lemma writer_weights:
  "rw_view p \<noteq> Held \<Longrightarrow>
   announced p = 0 \<and> writing p = 0 \<and> sleeping p = 0 \<and> pending p = 0 \<and> admitting p = 0"
  by (cases p) auto

section \<open>The invariant\<close>

text \<open>
  \<open>RD\<close> readers are inside or about to leave, \<open>BL\<close> wait on readerSem, \<open>DE\<close> have left and not yet
  counted down readerWait, \<open>SI\<close> are about to wake the writer; \<open>AN\<close> writers have announced themselves,
  \<open>WR\<close> hold the lock, \<open>SL\<close> wait on writerSem; \<open>PE\<close> and \<open>AD\<close> are what the writer has still to add to
  readerWait and to admit; \<open>s\<close> and \<open>t\<close> are the values of the two semaphores.
\<close>

definition rw_num :: "RWMutex \<Rightarrow> nat \<Rightarrow> nat \<Rightarrow> int \<Rightarrow> int \<Rightarrow> int \<Rightarrow> int \<Rightarrow> int \<Rightarrow> int \<Rightarrow> int \<Rightarrow> int \<Rightarrow> int \<Rightarrow> bool" where
  "rw_num rw s t RD BL DE SI AN WR SL PE AD \<longleftrightarrow>
     readerSem rw = of_nat s \<and> writerSem rw = of_nat t \<and>
     readerCount rw = of_int (RD + BL - 2 ^ 30 * AN) \<and>
     readerWait rw = of_int (if AN = 1 then RD + int s + DE - PE else 0) \<and>
     (AN = 0 \<longrightarrow> DE = 0 \<and> int s + AD = BL \<and> WR = 0 \<and> SL = 0 \<and> PE = 0) \<and> int s \<le> BL \<and>
     int t + SI = (if RD + int s + DE = 0 then SL else 0) \<and>
     (WR = 1 \<longrightarrow> RD + int s + DE = 0) \<and> (0 < PE \<longrightarrow> RD + int s + DE \<le> PE)"

definition rw_fields :: "RWMutex \<Rightarrow> rwpc list \<Rightarrow> nat \<Rightarrow> nat \<Rightarrow> bool" where
  "rw_fields rw ps s t \<longleftrightarrow>
     rw_num rw s t (tally reading ps) (tally blocked ps) (tally departing ps) (tally signalling ps)
       (tally announced ps) (tally writing ps) (tally sleeping ps) (tally pending ps) (tally admitting ps)"

definition rw_inv :: "RWMutex \<times> rwpc list \<Rightarrow> bool" where
  "rw_inv s \<longleftrightarrow> (\<forall>p \<in> set (snd s). rw_ok p) \<and> (\<exists>a b. rw_fields (fst s) (snd s) a b)"

lemma rw_bounds:
  assumes len: "length ps < 2 ^ 29"
  shows "0 \<le> tally reading ps" "0 \<le> tally blocked ps" "0 \<le> tally departing ps" "0 \<le> tally signalling ps"
    "0 \<le> tally announced ps" "0 \<le> tally writing ps" "0 \<le> tally sleeping ps"
    "tally reading ps + tally blocked ps + tally departing ps < 2 ^ 29"
proof -
  have "tally (\<lambda>p. reading p + (blocked p + departing p)) ps \<le> int (length ps)"
  proof (rule tally_le_length)
    show "reading p + (blocked p + departing p) \<le> 1" for p by (cases p) auto
  qed
  with len show "tally reading ps + tally blocked ps + tally departing ps < 2 ^ 29"
    by (simp add: tally_add)
qed (rule tally_nonneg; simp)+

lemma rw_announced:
  assumes "mutex_inv m (map rw_view ps)"
  shows "tally announced ps = 0 \<or> tally announced ps = 1"
proof -
  have "tally announced ps \<le> tally (holding \<circ> rw_view) ps"
    unfolding tally_def
  proof (rule sum_list_mono)
    fix p show "announced p \<le> (holding \<circ> rw_view) p"
      by (cases p) (auto simp: holding.simps)
  qed
  moreover have "tally holding (map rw_view ps) \<le> 1"
    using assms by (auto simp: mutex_inv_def mutex_fields_def)
  moreover have "0 \<le> tally announced ps" by (rule tally_nonneg) simp
  ultimately show ?thesis by auto
qed

text \<open>When goroutine \<open>i\<close> is past the mutex, it alone accounts for the weights of writers.\<close>

lemma rw_writer:
  assumes inv: "mutex_inv m (map rw_view ps)" and i: "i < length ps" "rw_view (ps ! i) = Held"
  shows "tally announced ps = announced (ps ! i)" "tally writing ps = writing (ps ! i)"
    "tally sleeping ps = sleeping (ps ! i)" "tally pending ps = pending (ps ! i)"
    "tally admitting ps = admitting (ps ! i)"
proof -
  have "rw_view (ps ! j) \<noteq> Held" if "j < length ps" "j \<noteq> i" for j
    using mutex_inv_exclusive [OF inv, of i j] i that by auto
  then have "announced (ps ! j) = 0 \<and> writing (ps ! j) = 0 \<and> sleeping (ps ! j) = 0 \<and>
      pending (ps ! j) = 0 \<and> admitting (ps ! j) = 0" if "j < length ps" "j \<noteq> i" for j
    using that by (intro writer_weights) auto
  then show "tally announced ps = announced (ps ! i)" "tally writing ps = writing (ps ! i)"
    "tally sleeping ps = sleeping (ps ! i)" "tally pending ps = pending (ps ! i)"
    "tally admitting ps = admitting (ps ! i)"
    using i(1) by (auto intro: tally_only)
qed

subsection \<open>The transitions on the counts\<close>

text \<open>A reader arrives while no writer has announced itself, or while one has.\<close>

lemma num_reader_enters:
  "rw_num rw s t RD BL DE SI 0 WR SL PE AD \<Longrightarrow> 0 \<le> RD \<Longrightarrow>
   rw_num (rw\<lparr>readerCount := readerCount rw + 1\<rparr>) s t (RD + 1) BL DE SI 0 WR SL PE AD"
  by (simp add: rw_num_def)

lemma num_reader_blocks:
  "rw_num rw s t RD BL DE SI 1 WR SL PE AD \<Longrightarrow>
   rw_num (rw\<lparr>readerCount := readerCount rw + 1\<rparr>) s t RD (BL + 1) DE SI 1 WR SL PE AD"
  by (simp add: rw_num_def)

lemma num_reader_admitted:
  "rw_num rw (Suc s) t RD BL DE SI AN WR SL PE AD \<Longrightarrow> 0 \<le> RD \<Longrightarrow> 0 \<le> DE \<Longrightarrow> AN = 0 \<or> AN = 1 \<Longrightarrow>
   rw_num (rw\<lparr>readerSem := of_nat s\<rparr>) s t (RD + 1) (BL - 1) DE SI AN WR SL PE AD"
  by (elim disjE; simp add: rw_num_def algebra_simps)

text \<open>A reader leaves while no writer has announced itself, or while one has.\<close>

lemma num_reader_leaves:
  "rw_num rw s t RD BL DE SI 0 WR SL PE AD \<Longrightarrow>
   rw_num (rw\<lparr>readerCount := readerCount rw + - 1\<rparr>) s t (RD - 1) BL DE SI 0 WR SL PE AD"
  by (simp add: rw_num_def)

lemma num_reader_departs:
  "rw_num rw s t RD BL DE SI 1 WR SL PE AD \<Longrightarrow> 0 < RD \<Longrightarrow>
   rw_num (rw\<lparr>readerCount := readerCount rw + - 1\<rparr>) s t (RD - 1) BL (DE + 1) SI 1 WR SL PE AD"
  by (simp add: rw_num_def algebra_simps)

text \<open>
  A departing reader counts down: before the writer has added its count to readerWait, not as the last
  one, or as the last one, which then signals the writer.
\<close>

lemma num_counts_down_early:
  "rw_num rw s t RD BL DE SI 1 0 0 PE AD \<Longrightarrow> 0 \<le> RD \<Longrightarrow> 0 < DE \<Longrightarrow> 0 < PE \<Longrightarrow>
   rw_num (rw\<lparr>readerWait := readerWait rw + - 1\<rparr>) s t RD BL (DE - 1) SI 1 0 0 PE AD"
  by (simp add: rw_num_def algebra_simps)

lemma num_counts_down:
  "rw_num rw s t RD BL DE SI 1 0 1 0 AD \<Longrightarrow> 0 \<le> RD \<Longrightarrow> 0 < DE \<Longrightarrow> RD + int s + DE \<noteq> 1 \<Longrightarrow>
   rw_num (rw\<lparr>readerWait := readerWait rw + - 1\<rparr>) s t RD BL (DE - 1) SI 1 0 1 0 AD"
  by (simp add: rw_num_def algebra_simps)

lemma num_counts_down_last:
  assumes "rw_num rw s t RD BL DE SI 1 0 1 0 AD" "0 \<le> RD" "0 < DE" "RD + int s + DE = 1"
  shows "rw_num (rw\<lparr>readerWait := readerWait rw + - 1\<rparr>) s t RD BL (DE - 1) (SI + 1) 1 0 1 0 AD"
proof -
  have "RD = 0" "s = 0" "DE = 1" using assms(2-4) by auto
  with assms(1) show ?thesis by (simp add: rw_num_def)
qed

lemma num_signals:
  "rw_num rw s t RD BL DE SI AN WR SL PE AD \<Longrightarrow>
   rw_num (rw\<lparr>writerSem := of_nat (Suc t)\<rparr>) s (Suc t) RD BL DE (SI - 1) AN WR SL PE AD"
  by (simp add: rw_num_def)

text \<open>The writer announces itself, with readers present or without.\<close>

lemma num_announces:
  "rw_num rw s t RD BL DE SI 0 0 0 0 0 \<Longrightarrow> 0 \<le> RD \<Longrightarrow> 0 \<le> SI \<Longrightarrow>
   rw_num (rw\<lparr>readerCount := readerCount rw + - rwmutexMaxReaders\<rparr>) s t RD BL DE SI 1 0 0 (RD + BL) 0"
  by (simp add: rw_num_def rwmutexMaxReaders_def algebra_simps)

lemma num_announces_alone:
  assumes "rw_num rw s t RD BL DE SI 0 0 0 0 0" "RD + BL = 0" "0 \<le> RD" "0 \<le> BL"
  shows "rw_num (rw\<lparr>readerCount := readerCount rw + - rwmutexMaxReaders\<rparr>) s t RD BL DE SI 1 1 0 0 0"
proof -
  have "RD = 0" "BL = 0" using assms(2-4) by auto
  with assms(1) show ?thesis by (simp add: rw_num_def rwmutexMaxReaders_def)
qed

text \<open>The writer adds the count of readers it has to wait for.\<close>

lemma num_waits:
  "rw_num rw s t RD BL DE SI 1 0 0 PE AD \<Longrightarrow> RD + int s + DE \<noteq> 0 \<Longrightarrow>
   rw_num (rw\<lparr>readerWait := readerWait rw + of_int PE\<rparr>) s t RD BL DE SI 1 0 1 0 AD"
  by (simp add: rw_num_def)

lemma num_waits_alone:
  "rw_num rw s t RD BL DE SI 1 0 0 PE AD \<Longrightarrow> RD + int s + DE = 0 \<Longrightarrow>
   rw_num (rw\<lparr>readerWait := readerWait rw + of_int PE\<rparr>) s t RD BL DE SI 1 1 0 0 AD"
  by (simp add: rw_num_def)

lemma num_woken:
  "rw_num rw s (Suc t) RD BL DE SI 1 0 1 0 AD \<Longrightarrow> 0 \<le> SI \<Longrightarrow>
   rw_num (rw\<lparr>writerSem := of_nat t\<rparr>) s t RD BL DE SI 1 1 0 0 AD"
  by (simp add: rw_num_def split: if_splits)

text \<open>The writer withdraws its announcement and admits the readers that wait.\<close>

lemma num_withdraws:
  assumes "rw_num rw s t RD BL DE SI 1 1 0 0 AD" "0 \<le> RD" "0 \<le> DE"
  shows "rw_num (rw\<lparr>readerCount := readerCount rw + rwmutexMaxReaders\<rparr>) s t RD BL DE SI 0 0 0 0 (RD + BL)"
proof -
  have "RD = 0" "s = 0" "DE = 0" using assms by (auto simp: rw_num_def)
  with assms(1) show ?thesis by (simp add: rw_num_def rwmutexMaxReaders_def)
qed

lemma num_admits:
  "rw_num rw s t RD BL DE SI 0 WR SL PE AD \<Longrightarrow> 0 \<le> RD \<Longrightarrow> 0 < AD \<Longrightarrow>
   rw_num (rw\<lparr>readerSem := of_nat (Suc s)\<rparr>) (Suc s) t RD BL DE SI 0 WR SL PE (AD - 1)"
  by (simp add: rw_num_def)

lemma num_mutex:
  "rw_num (rw\<lparr>rw_w := m\<rparr>) s t RD BL DE SI AN WR SL PE AD = rw_num rw s t RD BL DE SI AN WR SL PE AD"
  by (simp add: rw_num_def)

subsection \<open>The steps of the code\<close>

lemma rw_writer_phase:
  assumes inv: "mutex_inv m (map rw_view ps)" and ok: "\<forall>p \<in> set ps. rw_ok p" and an: "tally announced ps = 1"
  shows "(tally writing ps, tally sleeping ps, tally pending ps) = (1, 0, 0) \<or>
    (tally writing ps, tally sleeping ps, tally pending ps) = (0, 1, 0) \<or>
    tally writing ps = 0 \<and> tally sleeping ps = 0 \<and> 0 < tally pending ps"
proof -
  from an obtain i where i: "i < length ps" "0 < announced (ps ! i)"
    using tally_pos [of announced ps] by auto
  then have "rw_view (ps ! i) = Held" by (cases "ps ! i") auto
  with rw_writer [OF inv i(1)] show ?thesis
    using i ok by (cases "ps ! i") (fastforce dest: nth_mem)+
qed

lemma rw_pending_less:
  assumes inv: "mutex_inv m (map rw_view ps)"
  shows "tally pending ps < 2 ^ 31"
proof (cases "\<exists>i < length ps. rw_view (ps ! i) = Held")
  case True
  then obtain i where i: "i < length ps" "rw_view (ps ! i) = Held" by blast
  have "pending (ps ! i) < 2 ^ 31"
    using sint_less [where 'a = 32] by (cases "ps ! i") auto
  with rw_writer(4) [OF inv i] show ?thesis by simp
next
  case False
  then have "pending p = 0" if "p \<in> set ps" for p
    using that writer_weights [of p] by (auto simp: in_set_conv_nth)
  then have "tally pending ps = 0"
    unfolding tally_def by (metis (mono_tags, lifting) map_eq_conv sum_list_0)
  then show ?thesis by simp
qed

lemma of_int32_eq: "\<bar>x\<bar> < 2 ^ 31 \<Longrightarrow> (of_int x :: int32) = 0 \<longleftrightarrow> x = 0"
  using sint_of_int32 [of x] by (auto simp: abs_less_iff)

lemma rw_fields_update:
  assumes "i < length ps"
    and "rw_num rw' a b (tally reading ps - reading (ps ! i) + reading p')
      (tally blocked ps - blocked (ps ! i) + blocked p')
      (tally departing ps - departing (ps ! i) + departing p')
      (tally signalling ps - signalling (ps ! i) + signalling p')
      (tally announced ps - announced (ps ! i) + announced p')
      (tally writing ps - writing (ps ! i) + writing p')
      (tally sleeping ps - sleeping (ps ! i) + sleeping p')
      (tally pending ps - pending (ps ! i) + pending p')
      (tally admitting ps - admitting (ps ! i) + admitting p')"
  shows "\<exists>a b. rw_fields rw' (ps[i := p']) a b"
  using assms unfolding rw_fields_def by (auto simp: tally_simps)

lemma RLock_fields:
  assumes f: "rw_fields rw ps a b" and inv: "mutex_inv m (map rw_view ps)" and i: "i < length ps"
    and r: "RLock rw (ps ! i) = Some (rw', p')"
  shows "\<exists>a b. rw_fields rw' (ps[i := p']) a b"
proof -
  have len: "length ps < 2 ^ 29" using inv by (simp add: mutex_inv_def)
  note bds = rw_bounds [OF len] and an = rw_announced [OF inv]
  note num = f [unfolded rw_fields_def]
  show ?thesis
  proof (cases "ps ! i")
    case RAdd
    have c: "readerCount rw + 1 = of_int (tally reading ps + tally blocked ps + 1 - 2 ^ 30 * tally announced ps)"
      using num by (simp add: rw_num_def)
    have "sint (readerCount rw + 1) = tally reading ps + tally blocked ps + 1 - 2 ^ 30 * tally announced ps"
      unfolding c by (rule sint_of_int32) (use bds an in auto)
    then have "sint (readerCount rw + 1) < 0 \<longleftrightarrow> tally announced ps = 1" using bds an by auto
    then show ?thesis using an r RAdd num num_reader_enters num_reader_blocks bds(1)
      by (intro rw_fields_update [OF i, of rw' a b]) (auto simp: Let_def)
  next
    case RSema
    have "int a \<le> tally blocked ps" using num by (simp add: rw_num_def)
    then have "a < 2 ^ 32" using bds by simp
    moreover obtain y where y: "Semacquire (readerSem rw) = Some y" "rw' = rw\<lparr>readerSem := y\<rparr>" "p' = Reading"
      using r RSema by (auto split: option.splits)
    ultimately obtain a' where "a = Suc a'" "y = of_nat a'"
      using Semacquire_SomeD [OF y(1), of a] num by (auto simp: rw_num_def)
    note a' = this y
    then show ?thesis using RSema num bds an num_reader_admitted [of rw a' b]
      by (intro rw_fields_update [OF i, of rw' a' b]) auto
  qed (use r in auto)
qed

lemma RUnlock_fields:
  assumes f: "rw_fields rw ps a b" and inv: "mutex_inv m (map rw_view ps)" and i: "i < length ps"
    and ok: "\<forall>p \<in> set ps. rw_ok p" and r: "RUnlock rw (ps ! i) = Some (rw', p')"
  shows "\<exists>a b. rw_fields rw' (ps[i := p']) a b"
proof -
  have len: "length ps < 2 ^ 29" using inv by (simp add: mutex_inv_def)
  note bds = rw_bounds [OF len] and an = rw_announced [OF inv]
  note num = f [unfolded rw_fields_def]
  show ?thesis
  proof (cases "ps ! i")
    case RUAdd
    have pos: "0 < tally reading ps" using tally_nth [of reading i ps] i RUAdd by simp
    have c: "readerCount rw + - 1 = of_int (tally reading ps + tally blocked ps - 1 - 2 ^ 30 * tally announced ps)"
      using num by (simp add: rw_num_def)
    have "sint (readerCount rw + - 1) = tally reading ps + tally blocked ps - 1 - 2 ^ 30 * tally announced ps"
      unfolding c by (rule sint_of_int32) (use bds an in auto)
    then have "sint (readerCount rw + - 1) < 0 \<longleftrightarrow> tally announced ps = 1" using bds an pos by auto
    then show ?thesis using an r RUAdd num num_reader_leaves num_reader_departs pos
      by (intro rw_fields_update [OF i, of rw' a b]) (auto simp: Let_def)
  next
    case RUWait
    have pos: "0 < tally departing ps" using tally_nth [of departing i ps] i RUWait by simp
    have an1: "tally announced ps = 1" using an num pos by (auto simp: rw_num_def)
    let ?x = "tally reading ps + int a + tally departing ps - tally pending ps - 1"
    have c: "readerWait rw + - 1 = of_int ?x" using num an1 by (simp add: rw_num_def)
    have a: "int a \<le> tally blocked ps" using num by (simp add: rw_num_def)
    from rw_writer_phase [OF inv ok an1] show ?thesis
    proof (elim disjE)
      assume "(tally writing ps, tally sleeping ps, tally pending ps) = (1, 0, 0)"
      then show ?thesis using num pos bds by (auto simp: rw_num_def)
    next
      assume ph: "(tally writing ps, tally sleeping ps, tally pending ps) = (0, 1, 0)"
      have "readerWait rw + - 1 = 0 \<longleftrightarrow> tally reading ps + int a + tally departing ps = 1"
        unfolding c using ph bds a by (subst of_int32_eq) auto
      then show ?thesis
        using r RUWait num ph an1 pos bds(1) num_counts_down [of rw a b] num_counts_down_last [of rw a b]
        by (intro rw_fields_update [OF i, of rw' a b]) (auto simp: Let_def)
    next
      assume ph: "tally writing ps = 0 \<and> tally sleeping ps = 0 \<and> 0 < tally pending ps"
      have "?x < 0" using num ph by (auto simp: rw_num_def)
      moreover have "- (2 ^ 31) < ?x"
        using ph pos bds rw_pending_less [OF inv] by simp
      ultimately have "readerWait rw + - 1 \<noteq> 0" unfolding c by (subst of_int32_eq) auto
      then show ?thesis
        using r RUWait num ph an1 pos bds(1) num_counts_down_early [of rw a b]
        by (intro rw_fields_update [OF i, of rw' a b]) (auto simp: Let_def)
    qed
  next
    case RUSema
    have "writerSem rw = of_nat b" using num by (simp add: rw_num_def)
    then have "rw' = rw\<lparr>writerSem := of_nat (Suc b)\<rparr>" "p' = Idle"
      using r RUSema by (auto simp: Semrelease_of_nat simp del: of_nat_Suc)
    then show ?thesis using RUSema num_signals [OF num]
      by (intro rw_fields_update [OF i, of rw' a "Suc b"]) (simp add: del: of_nat_Suc)
  qed (use r in auto)
qed

lemma RW_Lock_fields:
  assumes f: "rw_fields rw ps a b" and inv: "mutex_inv m (map rw_view ps)" and i: "i < length ps"
    and ok: "\<forall>p \<in> set ps. rw_ok p" and r: "RW_Lock rw (ps ! i) = Some (rw', p')"
  shows "rw_ok p' \<and> (\<exists>a b. rw_fields rw' (ps[i := p']) a b)"
proof -
  have len: "length ps < 2 ^ 29" using inv by (simp add: mutex_inv_def)
  note bds = rw_bounds [OF len] and writer = rw_writer [OF inv i]
  note num = f [unfolded rw_fields_def]
  show ?thesis
  proof (cases "ps ! i")
    case (WMutex p)
    then obtain m q where q: "Lock_step (rw_w rw) p = Some (m, q)" "rw' = rw\<lparr>rw_w := m\<rparr>"
        "p' = (if q = Held then WAnnounce else WMutex q)"
      using r by (auto split: option.splits)
    have "inside_Lock q \<or> q = Held"
      using q(1) by (cases p) (auto simp: inside_Lock_def CompareAndSwap_def split: option.splits if_splits)
    then have "rw_ok p'" using q(3) by auto
    moreover have "\<exists>a b. rw_fields rw' (ps[i := p']) a b"
      using q WMutex num by (intro rw_fields_update [OF i, of rw' a b]) (auto simp: num_mutex)
    ultimately show ?thesis by blast
  next
    case WAnnounce
    have w: "tally announced ps = 0" "tally writing ps = 0" "tally sleeping ps = 0" "tally pending ps = 0"
      "tally admitting ps = 0" using writer WAnnounce by simp_all
    let ?r = "tally reading ps + tally blocked ps"
    have c: "readerCount rw + - rwmutexMaxReaders + rwmutexMaxReaders = of_int ?r"
      using num w by (simp add: rw_num_def)
    have s: "sint (of_int ?r :: int32) = ?r" by (rule sint_of_int32) (use bds in auto)
    have z: "(of_int ?r :: int32) = 0 \<longleftrightarrow> ?r = 0" by (rule of_int32_eq) (use bds in auto)
    let ?rw = "rw\<lparr>readerCount := readerCount rw + - rwmutexMaxReaders\<rparr>"
    have r': "rw' = ?rw" "p' = (if ?r = 0 then Writing else WWait (of_int ?r))"
      using r WAnnounce c z by (auto simp: Let_def)
    have "rw_ok p'" using r' s bds by (auto simp del: of_int_add)
    moreover have "\<exists>a b. rw_fields rw' (ps[i := p']) a b"
      using num WAnnounce w bds s num_announces [of rw a b] num_announces_alone [of rw a b] unfolding r'
      by (intro rw_fields_update [OF i, of _ a b]) (auto simp del: of_int_add)
    ultimately show ?thesis by blast
  next
    case (WWait r0)
    have w: "tally announced ps = 1" "tally writing ps = 0" "tally sleeping ps = 0"
      "tally pending ps = sint r0" using writer WWait by simp_all
    let ?x = "tally reading ps + int a + tally departing ps"
    have c: "readerWait rw + r0 = of_int ?x" using num w by (simp add: rw_num_def)
    have a: "int a \<le> tally blocked ps" using num by (simp add: rw_num_def)
    have z: "(of_int ?x :: int32) = 0 \<longleftrightarrow> ?x = 0" by (rule of_int32_eq) (use bds a in auto)
    have r': "rw' = rw\<lparr>readerWait := readerWait rw + r0\<rparr>" "p' = (if ?x = 0 then Writing else WSema)"
      using r WWait c z by (auto simp: Let_def simp del: of_int_add)
    have "rw_ok p'" using r' by auto
    moreover have "\<exists>a b. rw_fields rw' (ps[i := p']) a b"
      using num WWait w num_waits [of rw a b _ _ _ _ "sint r0"] num_waits_alone [of rw a b _ _ _ _ "sint r0"]
      unfolding r' by (intro rw_fields_update [OF i, of _ a b]) auto
    ultimately show ?thesis by blast
  next
    case WSema
    have w: "tally announced ps = 1" "tally writing ps = 0" "tally sleeping ps = 1" "tally pending ps = 0"
      using writer WSema by simp_all
    obtain y where y: "Semacquire (writerSem rw) = Some y" "rw' = rw\<lparr>writerSem := y\<rparr>" "p' = Writing"
      using r WSema by (auto split: option.splits)
    moreover have "b \<le> 1" using num w bds by (auto simp: rw_num_def split: if_splits)
    ultimately obtain b' where b': "b = Suc b'" "y = of_nat b'"
      using Semacquire_SomeD [OF y(1), of b] num by (auto simp: rw_num_def)
    have "\<exists>a b. rw_fields rw' (ps[i := p']) a b"
      using num WSema w bds y b' num_woken [of rw a b'] by (intro rw_fields_update [OF i, of _ a b']) auto
    then show ?thesis using y by simp
  qed (use r in auto)
qed

lemma RW_Unlock_fields:
  assumes f: "rw_fields rw ps a b" and inv: "mutex_inv m (map rw_view ps)" and i: "i < length ps"
    and ok: "\<forall>p \<in> set ps. rw_ok p" and r: "RW_Unlock rw (ps ! i) = Some (rw', p')"
  shows "rw_ok p' \<and> (\<exists>a b. rw_fields rw' (ps[i := p']) a b)"
proof -
  have len: "length ps < 2 ^ 29" using inv by (simp add: mutex_inv_def)
  note bds = rw_bounds [OF len] and writer = rw_writer [OF inv i]
  note num = f [unfolded rw_fields_def]
  show ?thesis
  proof (cases "ps ! i")
    case WUAnnounce
    have w: "tally announced ps = 1" "tally writing ps = 1" "tally sleeping ps = 0" "tally pending ps = 0"
      "tally admitting ps = 0" using writer WUAnnounce by simp_all
    let ?r = "tally reading ps + tally blocked ps"
    have c: "readerCount rw + rwmutexMaxReaders = of_int ?r"
      using num w by (simp add: rw_num_def rwmutexMaxReaders_def)
    have s: "sint (of_int ?r :: int32) = ?r" by (rule sint_of_int32) (use bds in auto)
    have r': "rw' = rw\<lparr>readerCount := readerCount rw + rwmutexMaxReaders\<rparr>" "p' = WURelease 0 (of_int ?r)"
      using r WUAnnounce c by (auto simp: Let_def)
    have "\<exists>a b. rw_fields rw' (ps[i := p']) a b"
      using num WUAnnounce w bds s num_withdraws [of rw a b] unfolding r'
      by (intro rw_fields_update [OF i, of _ a b]) (auto simp del: of_int_add)
    then show ?thesis using r' s bds by (auto simp del: of_int_add)
  next
    case (WURelease j q)
    have w: "tally announced ps = 0" "tally admitting ps = sint q - j" using writer WURelease by simp_all
    have sm: "readerSem rw = of_nat a" using num by (simp add: rw_num_def)
    show ?thesis
    proof (cases "j < sint q")
      case True
      then have r': "rw' = rw\<lparr>readerSem := of_nat (Suc a)\<rparr>" "p' = WURelease (j + 1) q"
        using r WURelease sm by (auto simp: Semrelease_of_nat simp del: of_nat_Suc)
      have "\<exists>a b. rw_fields rw' (ps[i := p']) a b"
        using num WURelease w bds True num_admits [of rw a b] unfolding r'
        by (intro rw_fields_update [OF i, of _ "Suc a" b])
          (auto simp: diff_diff_eq [symmetric] simp del: of_nat_Suc)
      then show ?thesis using r' True by simp
    next
      case False
      moreover have "j \<le> sint q" using ok i WURelease nth_mem by fastforce
      ultimately have "\<exists>a b. rw_fields rw' (ps[i := p']) a b"
        using num WURelease w r by (intro rw_fields_update [OF i, of _ a b]) auto
      then show ?thesis using False r WURelease by (auto simp: inside_Lock_def)
    qed
  next
    case (WUMutex p)
    then obtain m q where q: "Unlock_step (rw_w rw) p = Some (m, q)" "rw' = rw\<lparr>rw_w := m\<rparr>"
        "p' = (if q = Outside then Idle else WUMutex q)"
      using r by (auto split: option.splits)
    have "\<not> inside_Lock q \<and> q \<noteq> Held"
      using q(1) by (cases p) (auto simp: inside_Lock_def CompareAndSwap_def Let_def split: if_splits)
    then have "rw_ok p'" using q(3) by auto
    moreover have "\<exists>a b. rw_fields rw' (ps[i := p']) a b"
      using q WUMutex num by (intro rw_fields_update [OF i, of rw' a b]) (auto simp: num_mutex)
    ultimately show ?thesis by blast
  qed (use r in auto)
qed

lemma rw_run_inv:
  assumes inv: "rw_inv (rw, ps)" and m: "mutex_inv m (map rw_view ps)" and i: "i < length ps"
    and r: "rw_run rw (ps ! i) = Some (rw', p')"
  shows "rw_inv (rw', ps[i := p'])"
proof -
  from inv obtain a b where f: "rw_fields rw ps a b" and ok: "\<forall>p \<in> set ps. rw_ok p"
    by (auto simp: rw_inv_def)
  have "rw_ok p' \<and> (\<exists>a b. rw_fields rw' (ps[i := p']) a b)"
    using r
  proof (cases rule: rw_run_cases)
    case 1
    then have "rw_ok p'" by (cases "ps ! i") (auto simp: Let_def split: option.splits)
    then show ?thesis using RLock_fields [OF f m i 1] by blast
  next
    case 2
    then have "rw_ok p'" by (cases "ps ! i") (auto simp: Let_def)
    then show ?thesis using RUnlock_fields [OF f m i ok 2] by blast
  next
    case 3
    then show ?thesis using RW_Lock_fields [OF f m i ok] by blast
  next
    case 4
    then show ?thesis using RW_Unlock_fields [OF f m i ok] by blast
  qed
  then show ?thesis using ok set_update_subset_insert [of ps i p'] by (auto simp: rw_inv_def)
qed

text \<open>Calls and the handing over of the lock do not touch the words.\<close>

lemma rw_call_inv:
  assumes inv: "rw_inv (rw, ps)" and i: "i < length ps" and ok: "rw_ok p'"
    and w: "reading p' = reading (ps ! i)" "blocked p' = blocked (ps ! i)" "departing p' = departing (ps ! i)"
      "signalling p' = signalling (ps ! i)" "announced p' = announced (ps ! i)"
      "writing p' = writing (ps ! i)" "sleeping p' = sleeping (ps ! i)" "pending p' = pending (ps ! i)"
      "admitting p' = admitting (ps ! i)"
  shows "rw_inv (rw, ps[i := p'])"
proof -
  have "rw_fields rw (ps[i := p']) a b = rw_fields rw ps a b" for a b
    using i w by (simp add: rw_fields_def tally_simps)
  then show ?thesis using inv ok set_update_subset_insert [of ps i p'] by (auto simp: rw_inv_def)
qed

lemma rw_step_inv:
  assumes "rw_step s t" "rw_inv s" "mutex_inv (rw_w (fst s)) (map rw_view (snd s))"
  shows "rw_inv t"
  using assms
proof (induction rule: rw_step.induct)
  case (rw_run_call i ps rw rw' p')
  then show ?case by (auto intro: rw_run_inv)
next
  case (rw_hand_over i ps j rw)
  then have ij: "i \<noteq> j" by auto
  have "tally v (ps[i := Idle, j := ps ! i]) = tally v ps" for v
    using rw_hand_over.hyps ij by (simp add: tally_simps)
  then have "rw_fields rw (ps[i := Idle, j := ps ! i]) a b = rw_fields rw ps a b" for a b
    by (simp add: rw_fields_def)
  moreover have "set (ps[i := Idle, j := ps ! i]) \<subseteq> insert (ps ! i) (insert Idle (set ps))"
    by (meson insert_mono order_trans set_update_subset_insert)
  ultimately show ?case
    using rw_hand_over by (fastforce simp: rw_inv_def)
qed (auto intro!: rw_call_inv simp: inside_Lock_def)

lemma rw_inv_init: "rw_inv (rw_init n)"
  unfolding rw_inv_def rw_init_def
  by (auto simp: rw_fields_def rw_num_def tally_simps rw_zero_def intro!: exI [of _ 0])

lemma rw_reach_inv: "rw.reach s \<Longrightarrow> rw_inv s"
proof (induction rule: rw.reach_induct)
  case (start s)
  then show ?case by (auto simp: rw_inv_init)
next
  case (run s t)
  then show ?case using rw.client_inv [OF run.hyps(1)] by (blast intro: rw_step_inv)
qed

lemma rw_reach: "n < 2 ^ 29 \<Longrightarrow> rw_step\<^sup>*\<^sup>* (rw_init n) s \<Longrightarrow> rw.reach s"
  unfolding rw.reach_def by blast

section \<open>Properties\<close>

text \<open>
  C17. A writer holds the lock alone. However calls of RLock, RUnlock, Lock and Unlock by fewer than
  \<open>2 ^ 29\<close> goroutines interleave, there is at most one writer and no reader while there is one; no
  unlock of the embedded mutex panics; and while a writer waits or writes, a reader that calls RLock is
  made to wait.
\<close>

theorem rw_exclusion:
  assumes n: "n < 2 ^ 29" and run: "rw_step\<^sup>*\<^sup>* (rw_init n) (rw, ps)"
  shows "(\<forall>i j. i < length ps \<and> j < length ps \<and> ps ! i = Writing \<and> ps ! j = Writing \<longrightarrow> i = j) \<and>
    \<not> (Writing \<in> set ps \<and> Reading \<in> set ps) \<and> WUMutex UPanic \<notin> set ps \<and>
    (WSema \<in> set ps \<or> Writing \<in> set ps \<longrightarrow> (\<exists>rw'. rw_run rw RAdd = Some (rw', RSema)))"
proof -
  have r: "rw.reach (rw, ps)" using assms by (rule rw_reach)
  have m: "mutex_inv (rw_w rw) (map rw_view ps)" using rw.client_inv [OF r] by simp
  have len: "length ps < 2 ^ 29" using m by (simp add: mutex_inv_def)
  note bds = rw_bounds [OF len] and an = rw_announced [OF m]
  obtain a b where num: "rw_num rw a b (tally reading ps) (tally blocked ps) (tally departing ps)
      (tally signalling ps) (tally announced ps) (tally writing ps) (tally sleeping ps)
      (tally pending ps) (tally admitting ps)"
    using rw_reach_inv [OF r] by (auto simp: rw_inv_def rw_fields_def)
  have 1: "i = j" if "i < length ps" "j < length ps" "ps ! i = Writing" "ps ! j = Writing" for i j
    using rw.client_exclusive [OF r, of i j] that by simp
  have 2: "\<not> (Writing \<in> set ps \<and> Reading \<in> set ps)"
  proof
    assume "Writing \<in> set ps \<and> Reading \<in> set ps"
    then obtain i where i: "i < length ps" "ps ! i = Writing" and "Reading \<in> set ps"
      by (auto simp: in_set_conv_nth)
    then have "0 < tally reading ps" using tally_member [of reading Reading ps] by simp
    moreover have "tally writing ps = 1" using rw_writer(2) [OF m i(1)] i by simp
    ultimately show False using num bds by (simp add: rw_num_def)
  qed
  have 3: "WUMutex UPanic \<notin> set ps"
    using rw.client_no_panic [OF r] by (force simp: image_iff)
  have 4: "\<exists>rw'. rw_run rw RAdd = Some (rw', RSema)" if w: "WSema \<in> set ps \<or> Writing \<in> set ps"
  proof -
    have "1 \<le> tally announced ps"
      using w tally_member [of announced _ ps] by fastforce
    then have an1: "tally announced ps = 1" using an by simp
    have c: "readerCount rw + 1 = of_int (tally reading ps + tally blocked ps + 1 - 2 ^ 30)"
      using num an1 by (simp add: rw_num_def)
    have "sint (readerCount rw + 1) = tally reading ps + tally blocked ps + 1 - 2 ^ 30"
      unfolding c by (rule sint_of_int32) (use bds in auto)
    then show ?thesis using bds by (simp add: rw_run_def Let_def)
  qed
  show ?thesis using 1 2 3 4 by blast
qed

lemma rw_stuck_cases:
  assumes "rw_run rw p = None" "rw_ok p" "p \<noteq> Reading" "p \<noteq> Writing" "p \<noteq> WUMutex UPanic"
  shows "p = Idle \<or> p = RSema \<and> readerSem rw = 0 \<or> p = WSema \<and> writerSem rw = 0 \<or>
    (\<exists>q. p = WMutex q \<and> inside_Lock q \<and> Lock_step (rw_w rw) q = None)"
proof (cases p)
  case (WUMutex q)
  then show ?thesis using assms
    by (cases q) (auto simp: rw_run_def inside_Lock_def CompareAndSwap_def Let_def split: option.splits if_splits)
qed (use assms in \<open>auto simp: rw_run_def Let_def Semacquire_def word_gt_0 split: option.splits if_splits\<close>)

text \<open>Two ways in which goroutines cannot be stuck: at a semaphore that has been released, and all at the mutex.\<close>

lemma rw_readers_awake:
  assumes len: "length ps < 2 ^ 29" and a: "int a \<le> tally blocked ps" "readerSem rw = of_nat a"
    and stuck: "RSema \<in> set ps \<Longrightarrow> readerSem rw = 0"
  shows "a = 0"
proof (rule ccontr)
  assume "a \<noteq> 0"
  then have "0 < tally blocked ps" using a(1) by simp
  then obtain i where "i < length ps" "0 < blocked (ps ! i)" using tally_pos [of blocked ps] by auto
  then have "RSema \<in> set ps" by (cases "ps ! i") (auto simp: in_set_conv_nth)
  then show False using stuck a rw_bounds [OF len] \<open>a \<noteq> 0\<close> unat_of_nat32 [of a] by simp
qed

lemma rw_waiting_for_mutex:
  assumes m: "mutex_inv (rw_w rw) (map rw_view ps)" and busy: "\<exists>p \<in> set ps. p \<noteq> Idle"
    and all: "\<And>p. p \<in> set ps \<Longrightarrow> p = Idle \<or> (\<exists>q. p = WMutex q \<and> inside_Lock q \<and> Lock_step (rw_w rw) q = None)"
  shows False
proof -
  obtain q where "WMutex q \<in> set ps" "inside_Lock q" using busy all by blast
  moreover have "Held \<notin> set (map rw_view ps)" using all by (fastforce simp: inside_Lock_def)
  ultimately obtain v where "v \<in> set (map rw_view ps)" "run_mutex (rw_w rw) v \<noteq> None"
    using mutex_not_stuck [OF m, of q] by force
  then obtain p where p: "p \<in> set ps" "run_mutex (rw_w rw) (rw_view p) \<noteq> None" by auto
  have "Unlock_step (rw_w rw) q = None" if "inside_Lock q" for q
    using that by (cases q) (auto simp: inside_Lock_def)
  with all [OF p(1)] p(2) show False by (auto simp: run_mutex_def)
qed

lemma rw_run_at:
  "i < length ps \<Longrightarrow> rw_run rw (ps ! i) = Some (rw', p') \<Longrightarrow> ps' = ps[i := p'] \<Longrightarrow>
   rw_step\<^sup>*\<^sup>* (rw', ps') t \<Longrightarrow> rw_step\<^sup>*\<^sup>* (rw, ps) t"
  by (metis converse_rtranclp_into_rtranclp rw_step.rw_run_call)

lemma rw_call_at:
  "i < length ps \<Longrightarrow> (ps ! i, p') \<in> {(Idle, RAdd), (Idle, WMutex LFast), (Reading, RUAdd), (Writing, WUAnnounce)} \<Longrightarrow>
   ps' = ps[i := p'] \<Longrightarrow> rw_step\<^sup>*\<^sup>* (rw, ps') t \<Longrightarrow> rw_step\<^sup>*\<^sup>* (rw, ps) t"
  by (auto intro: converse_rtranclp_into_rtranclp rw_step.intros)

definition rw_example :: RWMutex where
  "rw_example = \<lparr>rw_w = \<lparr>state = 1, sema = 0\<rparr>, writerSem = 0, readerSem = 0,
     readerCount = 1 - rwmutexMaxReaders, readerWait = 1\<rparr>"

text \<open>A writer waits for a reader.\<close>

lemma rw_run_two: "rw_step\<^sup>*\<^sup>* (rw_init 2) (rw_example, [Reading, WSema])"
  unfolding rw_init_def
  by (rule rw_call_at [of 0 _ RAdd], simp, simp, rule refl,
      rule rw_run_at [of 0], simp, simp add: rw_run_def Let_def, rule refl,
      rule rw_call_at [of 1 _ "WMutex LFast"], simp, simp, rule refl,
      rule rw_run_at [of 1], simp, simp add: rw_run_def CompareAndSwap_def rw_zero_def, rule refl,
      rule rw_run_at [of 1], simp, simp add: rw_run_def Let_def rw_zero_def, rule refl,
      rule rw_run_at [of 1], simp, simp add: rw_run_def Let_def rw_zero_def, rule refl,
      simp add: numeral_2_eq_2 rw_zero_def rw_example_def mutex_consts)

theorem rw_exclusion_witness:
  "\<exists>rw'. rw_run rw_example RAdd = Some (rw', RSema)"
  using rw_exclusion [OF _ rw_run_two] by simp

text \<open>
  C18. The lock does not deadlock. In every reachable state in which some goroutine is inside a call and
  no goroutine holds the lock for reading or writing, some goroutine can take a step.
\<close>

theorem rw_progress:
  assumes n: "n < 2 ^ 29" and run: "rw_step\<^sup>*\<^sup>* (rw_init n) (rw, ps)"
    and busy: "\<exists>p \<in> set ps. p \<noteq> Idle" and free: "Reading \<notin> set ps" "Writing \<notin> set ps"
  shows "\<exists>i < length ps. rw_run rw (ps ! i) \<noteq> None"
proof (rule ccontr)
  assume "\<not> (\<exists>i < length ps. rw_run rw (ps ! i) \<noteq> None)"
  then have stuck: "rw_run rw p = None" if "p \<in> set ps" for p
    using that by (metis in_set_conv_nth)
  have r: "rw.reach (rw, ps)" using n run by (rule rw_reach)
  have m: "mutex_inv (rw_w rw) (map rw_view ps)" using rw.client_inv [OF r] by simp
  have inv: "rw_inv (rw, ps)" by (rule rw_reach_inv [OF r])
  then obtain a b where num: "rw_num rw a b (tally reading ps) (tally blocked ps) (tally departing ps)
      (tally signalling ps) (tally announced ps) (tally writing ps) (tally sleeping ps)
      (tally pending ps) (tally admitting ps)"
    by (auto simp: rw_inv_def rw_fields_def)
  have "WUMutex UPanic \<notin> set ps" using rw.client_no_panic [OF r] by (force simp: image_iff)
  then have kinds: "p = Idle \<or> p = RSema \<and> readerSem rw = 0 \<or> p = WSema \<and> writerSem rw = 0 \<or>
      (\<exists>q. p = WMutex q \<and> inside_Lock q \<and> Lock_step (rw_w rw) q = None)" if "p \<in> set ps" for p
    using stuck [OF that] that free inv by (intro rw_stuck_cases) (auto simp: rw_inv_def)
  then have zero: "tally reading ps = 0" "tally departing ps = 0" "tally signalling ps = 0"
    "tally admitting ps = 0" "tally pending ps = 0"
    by (fastforce intro!: tally_zero)+
  have len: "length ps < 2 ^ 29" using m by (simp add: mutex_inv_def)
  have a0: "a = 0"
    using num by (intro rw_readers_awake [OF len, of a rw]) (use kinds in \<open>auto simp: rw_num_def\<close>)
  show False
  proof (cases "WSema \<in> set ps")
    case True
    then obtain i where i: "i < length ps" "ps ! i = WSema" by (auto simp: in_set_conv_nth)
    have "tally sleeping ps = 1" using rw_writer(3) [OF m i(1)] i by simp
    then have "b = 1" using num zero a0 by (simp add: rw_num_def)
    then have "writerSem rw = 1" using num by (simp add: rw_num_def)
    with kinds [OF True] show False by simp
  next
    case False
    have "tally announced ps = 0" using kinds False by (fastforce intro: tally_zero)
    then have "tally blocked ps = 0" using num zero a0 by (simp add: rw_num_def)
    then have "RSema \<notin> set ps" using tally_member [of blocked RSema ps] by auto
    with kinds False have all: "p = Idle \<or> (\<exists>q. p = WMutex q \<and> inside_Lock q \<and> Lock_step (rw_w rw) q = None)"
      if "p \<in> set ps" for p using that by blast
    then show False using rw_waiting_for_mutex [OF m] busy by blast
  qed
qed

text \<open>The reader leaves and is about to wake the writer.\<close>

lemma rw_run_leaving:
  "rw_step\<^sup>*\<^sup>* (rw_init 2) (rw_example\<lparr>readerCount := - rwmutexMaxReaders, readerWait := 0\<rparr>, [RUSema, WSema])"
proof -
  have "rw_step\<^sup>*\<^sup>* (rw_example, [Reading, WSema])
      (rw_example\<lparr>readerCount := - rwmutexMaxReaders, readerWait := 0\<rparr>, [RUSema, WSema])"
    by (rule rw_call_at [of 0 _ RUAdd], simp, simp, rule refl,
      rule rw_run_at [of 0], simp,
        simp add: rw_run_def Let_def rw_example_def rwmutexMaxReaders_def, rule refl,
      rule rw_run_at [of 0], simp, simp add: rw_run_def Let_def rw_example_def, rule refl,
      simp add: rw_example_def rwmutexMaxReaders_def)
  with rw_run_two show ?thesis by (rule rtranclp_trans)
qed

theorem rw_progress_witness:
  "\<exists>i < length [RUSema, WSema]. rw_run (rw_example\<lparr>readerCount := - rwmutexMaxReaders, readerWait := 0\<rparr>) ([RUSema, WSema] ! i) \<noteq> None"
  using rw_progress [OF _ rw_run_leaving] by simp

end
