(* ===== verification/Once.thy ===== *)
theory Once
  imports MutexProps
begin

text \<open>
  Package sync's \<open>Once\<close> (sync/once.go): goroutines call \<open>Do(f)\<close>; the embedded mutex makes the slow path
  exclusive. The function \<open>f\<close> is the caller's: it either returns or panics, in which case the deferred
  Unlock runs and the flag stays as it was. \<open>calls\<close>, \<open>returns\<close> and \<open>panics\<close> count the calls of \<open>f\<close>
  that were started, that returned and that panicked; they are not part of the code's state.
\<close>

section \<open>The code\<close>

record Once =
  once_m :: Mutex
  done_flag :: uint32

datatype opc =
    ORest          \<comment> \<open>not inside Do\<close>
  | OLoad          \<comment> \<open>at \<open>atomic.LoadUint32(&o.done)\<close>\<close>
  | OMutex mpc     \<comment> \<open>inside \<open>o.m.Lock()\<close>\<close>
  | OCheck         \<comment> \<open>at \<open>o.done == 0\<close>\<close>
  | OCall          \<comment> \<open>at the call of f\<close>
  | OInside        \<comment> \<open>inside f\<close>
  | OStore         \<comment> \<open>at \<open>atomic.StoreUint32(&o.done, 1)\<close>\<close>
  | ODefer mpc bool \<comment> \<open>inside the deferred \<open>o.m.Unlock()\<close>, after a panic of f or not\<close>
  | ODone          \<comment> \<open>Do has returned\<close>
  | OPanicked      \<comment> \<open>Do has passed on a panic of f\<close>

record once_sys =
  once :: Once
  calls :: nat
  returns :: nat
  panics :: nat

definition set_once :: "once_sys \<Rightarrow> Once \<Rightarrow> once_sys" where
  "set_once s o1 = s\<lparr>once := o1\<rparr>"

text \<open>One step of Do; the flag says whether f panics at the step where it ends.\<close>

fun Do_step :: "bool \<Rightarrow> once_sys \<Rightarrow> opc \<Rightarrow> (once_sys \<times> opc) option" where
  "Do_step pn s OLoad =
     Some (s, if done_flag (once s) = 1 then ODone else OMutex LFast)"
| "Do_step pn s (OMutex p) =
     (case Lock_step (once_m (once s)) p of
        None \<Rightarrow> None
      | Some (m, p') \<Rightarrow>
          Some (set_once s ((once s)\<lparr>once_m := m\<rparr>), if p' = Held then OCheck else OMutex p'))"
| "Do_step pn s OCheck = Some (s, if done_flag (once s) = 0 then OCall else ODefer UAdd False)"
| "Do_step pn s OCall = Some (s\<lparr>calls := calls s + 1\<rparr>, OInside)"
| "Do_step pn s OInside =
     Some (if pn then (s\<lparr>panics := panics s + 1\<rparr>, ODefer UAdd True)
           else (s\<lparr>returns := returns s + 1\<rparr>, OStore))"
| "Do_step pn s OStore = Some (set_once s ((once s)\<lparr>done_flag := 1\<rparr>), ODefer UAdd False)"
| "Do_step pn s (ODefer p b) =
     (case Unlock_step (once_m (once s)) p of
        None \<Rightarrow> None
      | Some (m, p') \<Rightarrow>
          Some (set_once s ((once s)\<lparr>once_m := m\<rparr>),
                if p' = Outside then (if b then OPanicked else ODone) else ODefer p' b))"
| "Do_step pn s _ = None"

inductive once_step :: "once_sys \<times> opc list \<Rightarrow> once_sys \<times> opc list \<Rightarrow> bool" where
  once_run: "i < length ps \<Longrightarrow> Do_step pn s (ps ! i) = Some (s', p') \<Longrightarrow> once_step (s, ps) (s', ps[i := p'])"
| call_Do: "i < length ps \<Longrightarrow> ps ! i = ORest \<or> ps ! i = ODone \<or> ps ! i = OPanicked \<Longrightarrow>
     once_step (s, ps) (s, ps[i := OLoad])"

definition once_init :: "nat \<Rightarrow> once_sys \<times> opc list" where
  "once_init n =
     (\<lparr>once = \<lparr>once_m = \<lparr>state = 0, sema = 0\<rparr>, done_flag = 0\<rparr>, calls = 0, returns = 0, panics = 0\<rparr>,
      replicate n ORest)"

section \<open>The embedded mutex\<close>

fun once_view :: "opc \<Rightarrow> mpc" where
  "once_view (OMutex p) = p"
| "once_view OCheck = Held"
| "once_view OCall = Held"
| "once_view OInside = Held"
| "once_view OStore = Held"
| "once_view (ODefer p b) = p"
| "once_view _ = Outside"

lemma Do_step_view:
  assumes "Do_step pn s p = Some (s', p')"
  shows "(once_m (once s'), once_view p') = (once_m (once s), once_view p) \<or>
    run_mutex (once_m (once s)) (once_view p) = Some (once_m (once s'), once_view p') \<or>
    once_m (once s') = once_m (once s) \<and> once_view p = Held \<and> once_view p' = UAdd \<or>
    once_m (once s') = once_m (once s) \<and> once_view p = Outside \<and> once_view p' = LFast"
  using assms
  by (cases p) (auto simp: run_mutex_def set_once_def split: option.splits if_splits dest: Unlock_not_Lock)

lemma once_step_view:
  assumes "once_step s t"
  shows "(once_m (once (fst t)), map once_view (snd t)) = (once_m (once (fst s)), map once_view (snd s)) \<or>
    mutex_step (once_m (once (fst s)), map once_view (snd s)) (once_m (once (fst t)), map once_view (snd t))"
  using assms
proof (induction rule: once_step.induct)
  case (once_run i ps pn s s' p')
  let ?vs = "map once_view ps" and ?m = "once_m (once s)"
  have vs: "i < length ?vs" "?vs ! i = once_view (ps ! i)" using once_run by auto
  have upd: "map once_view (ps[i := p']) = ?vs[i := once_view p']" by (simp add: map_update)
  have same: "?vs[i := once_view (ps ! i)] = ?vs" using vs by (metis list_update_id)
  from Do_step_view [OF once_run.hyps(2)] show ?case
    using vs upd same mutex_run.run [of i ?vs ?m] mutex_step.call_Unlock [of i ?vs ?m]
      mutex_step.call_Lock [of i ?vs ?m]
    by (auto simp: mutex_step.run_call)
next
  case (call_Do i ps s)
  then have "map once_view (ps[i := OLoad]) = map once_view ps"
    by (intro nth_equalityI) (auto simp: nth_list_update)
  then show ?case by simp
qed

interpretation once_client: mutex_client "\<lambda>s. \<exists>n < 2 ^ 29. s = once_init n" once_step
  "\<lambda>s. once_m (once (fst s))" "\<lambda>s. map once_view (snd s)"
proof unfold_locales
  fix s :: "once_sys \<times> opc list"
  assume "\<exists>n < 2 ^ 29. s = once_init n"
  then show "\<exists>n < 2 ^ 29. (once_m (once (fst s)), map once_view (snd s)) = mutex_init n"
    by (auto simp: once_init_def mutex_init_def)
qed (rule once_step_view)

section \<open>The invariant\<close>

fun testing :: "opc \<Rightarrow> int" where
  "testing OCheck = 1" | "testing _ = 0"

fun calling :: "opc \<Rightarrow> int" where
  "calling OCall = 1" | "calling OInside = 1" | "calling _ = 0"

fun inside_f :: "opc \<Rightarrow> int" where
  "inside_f OInside = 1" | "inside_f _ = 0"

fun storing :: "opc \<Rightarrow> int" where
  "storing OStore = 1" | "storing _ = 0"

fun finished :: "opc \<Rightarrow> bool" where
  "finished ODone = True" | "finished (ODefer p b) = (\<not> b)" | "finished _ = False"

text \<open>Whether f has returned, the flag, and where the goroutines stand agree.\<close>

definition once_inv :: "once_sys \<Rightarrow> opc list \<Rightarrow> bool" where
  "once_inv s ps \<longleftrightarrow>
     (done_flag (once s) = 0 \<or> done_flag (once s) = 1) \<and>
     int (returns s) = tally storing ps + of_bool (done_flag (once s) = 1) \<and>
     int (calls s) = int (returns s) + int (panics s) + tally inside_f ps \<and>
     (done_flag (once s) = 1 \<longrightarrow> tally storing ps = 0 \<and> tally calling ps = 0) \<and>
     (\<forall>p \<in> set ps. finished p \<longrightarrow> done_flag (once s) = 1)"

lemma once_weights [simp]: "0 \<le> testing p" "0 \<le> calling p" "0 \<le> inside_f p" "0 \<le> storing p"
  by (cases p; simp)+

lemma once_weights_tally:
  assumes "mutex_inv m (map once_view ps)"
  shows "0 \<le> tally testing ps" "0 \<le> tally calling ps" "0 \<le> tally inside_f ps" "0 \<le> tally storing ps"
    "tally testing ps + tally calling ps + tally storing ps \<le> 1" "tally inside_f ps \<le> tally calling ps"
proof -
  have "tally (\<lambda>p. testing p + (calling p + storing p)) ps \<le> tally (holding \<circ> once_view) ps"
    unfolding tally_def
  proof (rule sum_list_mono)
    fix p show "testing p + (calling p + storing p) \<le> (holding \<circ> once_view) p" by (cases p) auto
  qed
  moreover have "tally holding (map once_view ps) \<le> 1"
    using assms by (auto simp: mutex_inv_def mutex_fields_def)
  ultimately show "tally testing ps + tally calling ps + tally storing ps \<le> 1" by (simp add: tally_add)
  show "tally inside_f ps \<le> tally calling ps"
    unfolding tally_def
  proof (rule sum_list_mono)
    fix p show "inside_f p \<le> calling p" by (cases p) auto
  qed
qed (rule tally_nonneg; simp)+

lemma once_inv_update:
  assumes inv: "once_inv s ps" and i: "i < length ps"
    and d: "done_flag (once s') = 0 \<or> done_flag (once s') = 1"
      "done_flag (once s) = 1 \<longrightarrow> done_flag (once s') = 1"
    and r: "int (returns s') - int (returns s) =
      storing p' - storing (ps ! i) + of_bool (done_flag (once s') = 1) - of_bool (done_flag (once s) = 1)"
    and c: "int (calls s') - int (calls s) = int (returns s') - int (returns s) +
      int (panics s') - int (panics s) + inside_f p' - inside_f (ps ! i)"
    and e: "done_flag (once s') = 1 \<longrightarrow>
      tally storing ps - storing (ps ! i) + storing p' = 0 \<and> tally calling ps - calling (ps ! i) + calling p' = 0"
    and f: "finished p' \<longrightarrow> done_flag (once s') = 1"
  shows "once_inv s' (ps[i := p'])"
proof -
  have "\<forall>p \<in> set (ps[i := p']). finished p \<longrightarrow> done_flag (once s') = 1"
    using inv d(2) f set_update_subset_insert [of ps i p'] by (auto simp: once_inv_def)
  moreover have "int (returns s') = tally storing ps - storing (ps ! i) + storing p' + of_bool (done_flag (once s') = 1)"
    "int (calls s') = int (returns s') + int (panics s') + (tally inside_f ps - inside_f (ps ! i) + inside_f p')"
    using inv r c by (simp_all add: once_inv_def)
  ultimately show ?thesis using d(1) e unfolding once_inv_def tally_update [OF i] by blast
qed

lemma Do_step_inv:
  assumes inv: "once_inv s ps" and m: "mutex_inv m (map once_view ps)" and i: "i < length ps"
    and st: "Do_step pn s (ps ! i) = Some (s', p')"
  shows "once_inv s' (ps[i := p'])"
proof -
  note w = once_weights_tally [OF m]
  have at: "testing (ps ! i) \<le> tally testing ps" "calling (ps ! i) \<le> tally calling ps"
    "storing (ps ! i) \<le> tally storing ps" using i by (simp_all add: tally_nth)
  have fin: "finished (ps ! i) \<Longrightarrow> done_flag (once s) = 1" using inv i by (auto simp: once_inv_def)
  note d = inv [unfolded once_inv_def]
  show ?thesis
  proof (cases "ps ! i")
    case OCheck
    then show ?thesis using st at w d by (intro once_inv_update [OF inv i]) auto
  next
    case OInside
    then show ?thesis using st at w d by (intro once_inv_update [OF inv i]) (auto split: if_splits)
  next
    case OStore
    then show ?thesis using st at w d by (intro once_inv_update [OF inv i]) (auto simp: set_once_def)
  next
    case OLoad
    then show ?thesis using st d by (intro once_inv_update [OF inv i]) auto
  next
    case OCall
    then show ?thesis using st at d by (intro once_inv_update [OF inv i]) auto
  next
    case (OMutex p)
    then show ?thesis using st d
      by (intro once_inv_update [OF inv i]) (auto simp: set_once_def split: option.splits if_splits)
  next
    case (ODefer p b)
    then show ?thesis using st d fin
      by (intro once_inv_update [OF inv i]) (auto simp: set_once_def split: option.splits if_splits)
  qed (use st in auto)
qed

lemma once_reach_inv: "once_client.reach s \<Longrightarrow> once_inv (fst s) (snd s)"
proof (induction rule: once_client.reach_induct)
  case (start s)
  then show ?case by (auto simp: once_init_def once_inv_def tally_simps)
next
  case (run s t)
  from run.hyps(2) run.IH once_client.client_inv [OF run.hyps(1)] show ?case
  proof (induction rule: once_step.induct)
    case (once_run i ps pn s s' p')
    then show ?case by (auto intro: Do_step_inv)
  next
    case (call_Do i ps s)
    then have inv: "once_inv s ps" by simp
    have "once_inv s (ps[i := OLoad])"
      using call_Do.hyps inv by (intro once_inv_update [OF inv]) (auto simp: once_inv_def)
    then show ?case by simp
  qed
qed

text \<open>
  C19. Do runs its function once. However calls of Do interleave, at most one call of f has returned and
  at most one is under way, never both; f is started a second time only after it panicked; and when a
  call of Do has returned, f has returned before.
\<close>

theorem once_exactly_once:
  assumes n: "n < 2 ^ 29" and run: "once_step\<^sup>*\<^sup>* (once_init n) (s, ps)"
  shows "int (returns s) + tally inside_f ps \<le> 1 \<and> calls s \<le> panics s + 1 \<and>
    (ODone \<in> set ps \<longrightarrow> returns s = 1 \<and> done_flag (once s) = 1)"
proof -
  have r: "once_client.reach (s, ps)" using assms unfolding once_client.reach_def by blast
  have inv: "once_inv s ps" using once_reach_inv [OF r] by simp
  note w = once_weights_tally [OF once_client.client_inv [OF r], simplified]
  have "int (returns s) + tally inside_f ps \<le> 1" using inv w by (auto simp: once_inv_def)
  moreover have "int (calls s) \<le> int (panics s) + 1" using inv calculation by (auto simp: once_inv_def)
  moreover have "returns s = 1 \<and> done_flag (once s) = 1" if "ODone \<in> set ps"
  proof -
    have "done_flag (once s) = 1" using inv that finished.simps(1) unfolding once_inv_def by blast
    then show ?thesis using inv by (simp add: once_inv_def)
  qed
  ultimately show ?thesis by auto
qed

lemma once_run_at:
  "i < length ps \<Longrightarrow> Do_step False s (ps ! i) = Some (s', p') \<Longrightarrow> ps' = ps[i := p'] \<Longrightarrow>
   once_step\<^sup>*\<^sup>* (s', ps') t \<Longrightarrow> once_step\<^sup>*\<^sup>* (s, ps) t"
  by (metis converse_rtranclp_into_rtranclp once_step.once_run)

definition once_example :: once_sys where
  "once_example = \<lparr>once = \<lparr>once_m = \<lparr>state = 0, sema = 0\<rparr>, done_flag = 1\<rparr>, calls = 1, returns = 1, panics = 0\<rparr>"

text \<open>One goroutine calls Do, which calls f and returns; the second goroutine is at its load.\<close>

lemma once_run_one: "once_step\<^sup>*\<^sup>* (once_init 2) (once_example, [ODone, OLoad])"
proof -
  let ?s = "fst (once_init 2)"
  have "once_step (once_init 2) (?s, [OLoad, ORest])"
    using once_step.call_Do [of 0 "replicate 2 ORest" ?s] by (simp add: once_init_def numeral_2_eq_2)
  moreover have "once_step (?s, [OLoad, ORest]) (?s, [OLoad, OLoad])"
    using once_step.call_Do [of 1 "[OLoad, ORest]" ?s] by simp
  moreover have "once_step\<^sup>*\<^sup>* (?s, [OLoad, OLoad]) (once_example, [ODone, OLoad])"
    unfolding once_init_def fst_conv
    by (rule once_run_at [of 0], simp, simp, rule refl,
      rule once_run_at [of 0], simp, simp add: CompareAndSwap_def set_once_def, rule refl,
      rule once_run_at [of 0], simp, simp, rule refl, rule once_run_at [of 0], simp, simp, rule refl,
      rule once_run_at [of 0], simp, simp, rule refl,
      rule once_run_at [of 0], simp, simp add: set_once_def, rule refl,
      rule once_run_at [of 0], simp, simp add: set_once_def mutex_consts, rule refl,
      rule once_run_at [of 0], simp, simp add: set_once_def no_wakeup_def, rule refl,
      simp add: once_example_def)
  ultimately show ?thesis by (meson converse_rtranclp_into_rtranclp)
qed

theorem once_exactly_once_witness:
  "int (returns once_example) + tally inside_f [ODone, OLoad] \<le> 1 \<and> returns once_example = 1"
  using once_exactly_once [OF _ once_run_one] by simp

end
