(* ===== verification/WaitGroup.thy ===== *)
theory WaitGroup
  imports MutexProps
begin

text \<open>
  Package sync's \<open>WaitGroup\<close> (sync/waitgroup.go): any number of goroutines call Add, Done and Wait; each
  step is one access of shared memory. A semaphore allocated by Wait is its index in the list of all
  semaphores. The race detector's hooks do nothing in an ordinary build and are left out.
\<close>

section \<open>The code\<close>

record WaitGroup =
  wg_m :: Mutex
  counter :: int32
  waiters :: int32
  wg_sema :: "nat option"
  semas :: "uint32 list"

datatype wpc =
    WRest                   \<comment> \<open>not inside a call\<close>
  | AAdd int32              \<comment> \<open>Add(delta), at \<open>atomic.AddInt32(&wg.counter, int32(delta))\<close>\<close>
  | ALoad                   \<comment> \<open>at \<open>atomic.LoadInt32(&wg.waiters)\<close>\<close>
  | ALock mpc               \<comment> \<open>inside \<open>wg.m.Lock()\<close>\<close>
  | ALoop int32             \<comment> \<open>at the test of the loop, with i\<close>
  | ARelease int32          \<comment> \<open>at \<open>runtime_Semrelease(wg.sema)\<close>, with i\<close>
  | AStoreW int32           \<comment> \<open>at \<open>wg.waiters = 0\<close>, with the last i\<close>
  | AStoreS                 \<comment> \<open>at \<open>wg.sema = nil\<close>\<close>
  | AUnlock mpc             \<comment> \<open>inside \<open>wg.m.Unlock()\<close>\<close>
  | APanic                  \<comment> \<open>Add has panicked: negative counter\<close>
  | AFault                  \<comment> \<open>Add has panicked, holding the mutex: nil semaphore\<close>
  | WLoad                   \<comment> \<open>Wait, at \<open>atomic.LoadInt32(&wg.counter)\<close>\<close>
  | WLock mpc               \<comment> \<open>inside \<open>wg.m.Lock()\<close>\<close>
  | WAddW                   \<comment> \<open>at \<open>atomic.AddInt32(&wg.waiters, 1)\<close>\<close>
  | WCheck                  \<comment> \<open>at the second load of the counter\<close>
  | WUndo                   \<comment> \<open>at \<open>atomic.AddInt32(&wg.waiters, -1)\<close>\<close>
  | WAlloc                  \<comment> \<open>at \<open>wg.sema == nil\<close>\<close>
  | WTake                   \<comment> \<open>at \<open>s := wg.sema\<close>, which is not nil here (the invariant below)\<close>
  | WUnlock mpc "nat option" \<comment> \<open>inside \<open>wg.m.Unlock()\<close>, with s if it has to be acquired\<close>
  | WSema nat               \<comment> \<open>at \<open>runtime_Semacquire(s)\<close>\<close>
  | WReturned               \<comment> \<open>Wait has returned\<close>

fun Add_step :: "WaitGroup \<Rightarrow> wpc \<Rightarrow> (WaitGroup \<times> wpc) option" where
  "Add_step wg (AAdd delta) =
     (let v = counter wg + delta
      in Some (wg\<lparr>counter := v\<rparr>, if v <s 0 then APanic else if 0 <s v then WRest else ALoad))"
| "Add_step wg ALoad = Some (wg, if waiters wg = 0 then WRest else ALock LFast)"
| "Add_step wg (ALock p) =
     (case Lock_step (wg_m wg) p of
        None \<Rightarrow> None
      | Some (m, p') \<Rightarrow> Some (wg\<lparr>wg_m := m\<rparr>, if p' = Held then ALoop 0 else ALock p'))"
| "Add_step wg (ALoop i) = Some (wg, if i <s waiters wg then ARelease i else AStoreW i)"
| "Add_step wg (ARelease i) =
     (case wg_sema wg of
        None \<Rightarrow> Some (wg, AFault)
      | Some s \<Rightarrow> Some (wg\<lparr>semas := (semas wg)[s := Semrelease (semas wg ! s)]\<rparr>, ALoop (i + 1)))"
| "Add_step wg (AStoreW i) = Some (wg\<lparr>waiters := 0\<rparr>, AStoreS)"
| "Add_step wg AStoreS = Some (wg\<lparr>wg_sema := None\<rparr>, AUnlock UAdd)"
| "Add_step wg (AUnlock p) =
     (case Unlock_step (wg_m wg) p of
        None \<Rightarrow> None
      | Some (m, p') \<Rightarrow> Some (wg\<lparr>wg_m := m\<rparr>, if p' = Outside then WRest else AUnlock p'))"
| "Add_step wg _ = None"

fun Wait_step :: "WaitGroup \<Rightarrow> wpc \<Rightarrow> (WaitGroup \<times> wpc) option" where
  "Wait_step wg WLoad = Some (wg, if counter wg = 0 then WReturned else WLock LFast)"
| "Wait_step wg (WLock p) =
     (case Lock_step (wg_m wg) p of
        None \<Rightarrow> None
      | Some (m, p') \<Rightarrow> Some (wg\<lparr>wg_m := m\<rparr>, if p' = Held then WAddW else WLock p'))"
| "Wait_step wg WAddW = Some (wg\<lparr>waiters := waiters wg + 1\<rparr>, WCheck)"
| "Wait_step wg WCheck = Some (wg, if counter wg = 0 then WUndo else WAlloc)"
| "Wait_step wg WUndo = Some (wg\<lparr>waiters := waiters wg - 1\<rparr>, WUnlock UAdd None)"
| "Wait_step wg WAlloc =
     Some (if wg_sema wg = None
           then wg\<lparr>semas := semas wg @ [0], wg_sema := Some (length (semas wg))\<rparr> else wg, WTake)"
| "Wait_step wg WTake = Some (wg, WUnlock UAdd (wg_sema wg))"
| "Wait_step wg (WUnlock p s) =
     (case Unlock_step (wg_m wg) p of
        None \<Rightarrow> None
      | Some (m, p') \<Rightarrow>
          Some (wg\<lparr>wg_m := m\<rparr>,
                if p' \<noteq> Outside then WUnlock p' s
                else case s of None \<Rightarrow> WReturned | Some s \<Rightarrow> WSema s))"
| "Wait_step wg (WSema s) =
     (case Semacquire (semas wg ! s) of
        None \<Rightarrow> None
      | Some x \<Rightarrow> Some (wg\<lparr>semas := (semas wg)[s := x]\<rparr>, WReturned))"
| "Wait_step wg _ = None"

definition wg_run :: "WaitGroup \<Rightarrow> wpc \<Rightarrow> (WaitGroup \<times> wpc) option" where
  "wg_run wg p = (case Add_step wg p of None \<Rightarrow> Wait_step wg p | Some r \<Rightarrow> Some r)"

definition resting :: "wpc \<Rightarrow> bool" where
  "resting p \<longleftrightarrow> p = WRest \<or> p = WReturned \<or> p = APanic"

text \<open>All steps of the system, for callers that keep a rule about when a delta may be added.\<close>

inductive wg_step :: "(WaitGroup \<Rightarrow> wpc list \<Rightarrow> int32 \<Rightarrow> bool) \<Rightarrow> WaitGroup \<times> wpc list \<Rightarrow> WaitGroup \<times> wpc list \<Rightarrow> bool"
  for rule where
  wg_run_call: "i < length ps \<Longrightarrow> wg_run wg (ps ! i) = Some (wg', p') \<Longrightarrow> (\<And>d. ps ! i = AAdd d \<Longrightarrow> rule wg ps d) \<Longrightarrow>
     wg_step rule (wg, ps) (wg', ps[i := p'])"
| call_Add: "i < length ps \<Longrightarrow> ps ! i = WRest \<or> ps ! i = WReturned \<Longrightarrow> wg_step rule (wg, ps) (wg, ps[i := AAdd d])"
| call_Wait: "i < length ps \<Longrightarrow> ps ! i = WRest \<or> ps ! i = WReturned \<Longrightarrow> wg_step rule (wg, ps) (wg, ps[i := WLoad])"

text \<open>The rules: the counter neither becomes negative nor overflows, and is raised only while it is
  positive; or also from 0 when no Wait is under way, to use the WaitGroup again.\<close>

definition in_range :: "WaitGroup \<Rightarrow> int32 \<Rightarrow> bool" where
  "in_range wg d \<longleftrightarrow> 0 \<le> sint (counter wg) + sint d \<and> sint (counter wg) + sint d < 2 ^ 31"

definition one_round :: "WaitGroup \<Rightarrow> wpc list \<Rightarrow> int32 \<Rightarrow> bool" where
  "one_round wg ps d \<longleftrightarrow> in_range wg d \<and> (0 <s d \<longrightarrow> 0 <s counter wg)"

fun inside_Wait :: "wpc \<Rightarrow> bool" where
  "inside_Wait WLoad = True"
| "inside_Wait (WLock p) = True"
| "inside_Wait WAddW = True"
| "inside_Wait WCheck = True"
| "inside_Wait WUndo = True"
| "inside_Wait WAlloc = True"
| "inside_Wait WTake = True"
| "inside_Wait (WUnlock p s) = True"
| "inside_Wait (WSema s) = True"
| "inside_Wait _ = False"

definition reused :: "WaitGroup \<Rightarrow> wpc list \<Rightarrow> int32 \<Rightarrow> bool" where
  "reused wg ps d \<longleftrightarrow> in_range wg d \<and> (0 <s d \<longrightarrow> 0 <s counter wg \<or> \<not> list_ex inside_Wait ps)"

definition wg_init :: "nat \<Rightarrow> int32 \<Rightarrow> WaitGroup \<times> wpc list" where
  "wg_init n k =
     (\<lparr>wg_m = \<lparr>state = 0, sema = 0\<rparr>, counter = k, waiters = 0, wg_sema = None, semas = []\<rparr>, replicate n WRest)"

section \<open>The embedded mutex\<close>

fun wg_view :: "wpc \<Rightarrow> mpc" where
  "wg_view (ALock p) = p"
| "wg_view (ALoop i) = Held"
| "wg_view (ARelease i) = Held"
| "wg_view (AStoreW i) = Held"
| "wg_view AFault = Held"
| "wg_view AStoreS = Held"
| "wg_view (AUnlock p) = p"
| "wg_view (WLock p) = p"
| "wg_view WAddW = Held"
| "wg_view WCheck = Held"
| "wg_view WUndo = Held"
| "wg_view WAlloc = Held"
| "wg_view WTake = Held"
| "wg_view (WUnlock p s) = p"
| "wg_view _ = Outside"

lemma wg_run_view:
  assumes "wg_run wg p = Some (wg', p')"
  shows "(wg_m wg', wg_view p') = (wg_m wg, wg_view p) \<or>
    run_mutex (wg_m wg) (wg_view p) = Some (wg_m wg', wg_view p') \<or>
    wg_m wg' = wg_m wg \<and> wg_view p = Held \<and> wg_view p' = UAdd \<or>
    wg_m wg' = wg_m wg \<and> wg_view p = Outside \<and> wg_view p' = LFast"
  using assms
  by (cases p) (auto simp: wg_run_def run_mutex_def Let_def split: option.splits if_splits dest: Unlock_not_Lock)

lemma wg_step_view:
  assumes "wg_step rule s t"
  shows "(wg_m (fst t), map wg_view (snd t)) = (wg_m (fst s), map wg_view (snd s)) \<or>
    mutex_step (wg_m (fst s), map wg_view (snd s)) (wg_m (fst t), map wg_view (snd t))"
  using assms
proof (induction rule: wg_step.induct)
  case (wg_run_call i ps wg wg' p')
  let ?vs = "map wg_view ps" and ?m = "wg_m wg"
  have vs: "i < length ?vs" "?vs ! i = wg_view (ps ! i)" using wg_run_call by auto
  have upd: "map wg_view (ps[i := p']) = ?vs[i := wg_view p']" by (simp add: map_update)
  have same: "?vs[i := wg_view (ps ! i)] = ?vs" using vs by (metis list_update_id)
  from wg_run_view [OF wg_run_call.hyps(2)] show ?case
    using vs upd same mutex_run.run [of i ?vs ?m] mutex_step.call_Unlock [of i ?vs ?m]
      mutex_step.call_Lock [of i ?vs ?m]
    by (auto simp: mutex_step.run_call)
next
  case (call_Add i ps wg d)
  then have "map wg_view (ps[i := AAdd d]) = map wg_view ps"
    by (intro nth_equalityI) (auto simp: nth_list_update)
  then show ?case by simp
next
  case (call_Wait i ps wg)
  then have "map wg_view (ps[i := WLoad]) = map wg_view ps"
    by (intro nth_equalityI) (auto simp: nth_list_update)
  then show ?case by simp
qed

text \<open>The rule of the callers does not matter to the mutex: the largest system is its client.\<close>

interpretation wg_client: mutex_client "\<lambda>s. \<exists>n < 2 ^ 29. \<exists>k. s = wg_init n k" "\<lambda>s t. \<exists>rule. wg_step rule s t"
  "\<lambda>s. wg_m (fst s)" "\<lambda>s. map wg_view (snd s)"
proof unfold_locales
  fix s :: "WaitGroup \<times> wpc list"
  assume "\<exists>n < 2 ^ 29. \<exists>k. s = wg_init n k"
  then show "\<exists>n < 2 ^ 29. (wg_m (fst s), map wg_view (snd s)) = mutex_init n"
    by (auto simp: wg_init_def mutex_init_def)
next
  fix s t
  assume "\<exists>rule. wg_step rule s t"
  then show "(wg_m (fst t), map wg_view (snd t)) = (wg_m (fst s), map wg_view (snd s)) \<or>
    mutex_step (wg_m (fst s), map wg_view (snd s)) (wg_m (fst t), map wg_view (snd t))"
    using wg_step_view by blast
qed

lemma wg_reach: "n < 2 ^ 29 \<Longrightarrow> (wg_step rule)\<^sup>*\<^sup>* (wg_init n k) s \<Longrightarrow> wg_client.reach s"
  unfolding wg_client.reach_def by (metis (mono_tags, lifting) mono_rtranclp)

end
