(* ===== verification/WaitGroupProps.thy ===== *)
theory WaitGroupProps
  imports WaitGroup
begin

text \<open>
  Correctness of \<open>WaitGroup\<close>: no wakeup is lost, whatever the callers do; in one round, Wait returns only
  when the counter is 0; and the WaitGroup of this release may not be used again right after a round,
  although its Waits have returned.
\<close>

section \<open>Counting the waiters\<close>

text \<open>Goroutines that have counted themselves and not yet taken a semaphore, and those of them that may still
  withdraw; releases of the loop so far; goroutines that acquire semaphore s; calls of Add on their way to
  the release.\<close>

fun entering :: "wpc \<Rightarrow> int" where
  "entering WCheck = 1" | "entering WUndo = 1" | "entering WAlloc = 1" | "entering WTake = 1" | "entering _ = 0"

fun undecided :: "wpc \<Rightarrow> int" where
  "undecided WCheck = 1" | "undecided WUndo = 1" | "undecided _ = 0"

fun released :: "wpc \<Rightarrow> int" where
  "released (ALoop i) = sint i" | "released (ARelease i) = sint i" | "released (AStoreW i) = sint i" | "released _ = 0"

fun attached :: "nat \<Rightarrow> wpc \<Rightarrow> int" where
  "attached s (WUnlock p (Some t)) = of_bool (s = t)" | "attached s (WSema t) = of_bool (s = t)" | "attached s _ = 0"

fun closing :: "wpc \<Rightarrow> int" where
  "closing ALoad = 1" | "closing (ALock p) = 1" | "closing (ALoop i) = 1" | "closing (ARelease i) = 1" |
  "closing (AStoreW i) = 1" | "closing _ = 0"

definition owed :: "WaitGroup \<Rightarrow> wpc list \<Rightarrow> int" where
  "owed wg ps = (case wg_sema wg of None \<Rightarrow> 0 | Some s \<Rightarrow> tally (attached s) ps - int (unat (semas wg ! s)))"

definition waiting :: "WaitGroup \<Rightarrow> wpc list \<Rightarrow> int" where
  "waiting wg ps = tally entering ps + tally released ps + owed wg ps"

definition semas_ok :: "WaitGroup \<Rightarrow> wpc list \<Rightarrow> bool" where
  "semas_ok wg ps \<longleftrightarrow> (\<forall>s. wg_sema wg = Some s \<longrightarrow> s < length (semas wg)) \<and>
     (\<forall>s < length (semas wg). int (unat (semas wg ! s)) \<le> tally (attached s) ps \<and>
        (wg_sema wg \<noteq> Some s \<longrightarrow> int (unat (semas wg ! s)) = tally (attached s) ps)) \<and>
     (\<forall>s \<ge> length (semas wg). tally (attached s) ps = 0)"

definition pc_ok :: "WaitGroup \<Rightarrow> int \<Rightarrow> wpc \<Rightarrow> bool" where
  "pc_ok wg w p = (case p of
     ALoop i \<Rightarrow> 0 \<le> sint i \<and> sint i \<le> w
   | ARelease i \<Rightarrow> 0 \<le> sint i \<and> sint i < w
   | AStoreW i \<Rightarrow> 0 \<le> sint i \<and> sint i = w
   | AStoreS \<Rightarrow> w = 0
   | WTake \<Rightarrow> wg_sema wg \<noteq> None
   | AFault \<Rightarrow> False
   | _ \<Rightarrow> True)"

definition wg_count :: "WaitGroup \<Rightarrow> wpc list \<Rightarrow> bool" where
  "wg_count wg ps \<longleftrightarrow> waiters wg = of_int (waiting wg ps) \<and> waiting wg ps \<le> int (length ps) \<and> semas_ok wg ps \<and>
     (\<forall>p \<in> set ps. pc_ok wg (waiting wg ps) p) \<and>
     (counter wg = 0 \<and> tally closing ps = 0 \<longrightarrow> waiting wg ps = tally undecided ps)"

lemma wg_weights [simp]: "0 \<le> entering p" "0 \<le> undecided p" "undecided p \<le> entering p" "0 \<le> closing p"
  by (cases p; simp)+

lemma attached_bounds [simp]: "0 \<le> attached s p" "attached s p \<le> 1"
  by (cases "(s, p)" rule: attached.cases; simp)+

lemma not_held: "wg_view p \<noteq> Held \<Longrightarrow> entering p = 0 \<and> released p = 0 \<and> undecided p = 0 \<and> pc_ok wg w p"
  by (cases p) (simp_all add: pc_ok_def)

text \<open>What one goroutine at a step knows of the tallies.\<close>

lemma held_alone:
  assumes "mutex_inv m (map wg_view ps)" "i < length ps" "wg_view (ps ! i) = Held"
  shows "tally entering ps = entering (ps ! i)" "tally released ps = released (ps ! i)" "tally undecided ps = undecided (ps ! i)"
    "p \<in> set (ps[i := p']) \<Longrightarrow> p = p' \<or> pc_ok wg w p"
proof -
  have other: "wg_view (ps ! j) \<noteq> Held" if "j < length ps" "j \<noteq> i" for j
    using mutex_inv_exclusive [OF assms(1), of i j] assms(2,3) that by auto
  show "tally entering ps = entering (ps ! i)" "tally released ps = released (ps ! i)" "tally undecided ps = undecided (ps ! i)"
    by (rule tally_only [OF assms(2)], simp add: other not_held)+
  assume "p \<in> set (ps[i := p'])"
  then obtain j where "j < length ps" "p = (if j = i then p' else ps ! j)" by (auto simp: in_set_conv_nth nth_list_update split: if_splits)
  then show "p = p' \<or> pc_ok wg w p" using other [of j] not_held by (cases "j = i") auto
qed

lemma owed_nonneg: "semas_ok wg ps \<Longrightarrow> 0 \<le> owed wg ps"
  by (auto simp: semas_ok_def owed_def split: option.splits)

lemma waiting_nonneg:
  assumes "wg_count wg ps"
  shows "0 \<le> tally entering ps" "0 \<le> tally released ps" "0 \<le> owed wg ps" "0 \<le> waiting wg ps" "sint (waiters wg) = waiting wg ps \<or> 2 ^ 29 \<le> length ps"
proof -
  show e: "0 \<le> tally entering ps" by (rule tally_nonneg) simp
  have "0 \<le> released p" if "p \<in> set ps" for p
    using assms that by (cases p) (auto simp: wg_count_def pc_ok_def split: wpc.splits)
  then show r: "0 \<le> tally released ps" unfolding tally_def by (intro sum_list_nonneg) auto
  show o': "0 \<le> owed wg ps" using assms by (simp add: wg_count_def owed_nonneg)
  show w: "0 \<le> waiting wg ps" using e r o' by (simp add: waiting_def)
  show "sint (waiters wg) = waiting wg ps \<or> 2 ^ 29 \<le> length ps"
    using assms w sint_of_int32 [of "waiting wg ps"] by (auto simp: wg_count_def)
qed

lemma semas_ok_same:
  "semas_ok wg ps \<Longrightarrow> i < length ps \<Longrightarrow> (\<And>s. attached s p' = attached s (ps ! i)) \<Longrightarrow> wg_sema wg' = wg_sema wg \<Longrightarrow> semas wg' = semas wg \<Longrightarrow>
   semas_ok wg' (ps[i := p']) \<and> owed wg' (ps[i := p']) = owed wg ps"
  by (simp add: semas_ok_def owed_def tally_update split: option.splits)

lemma wg_keeps:
  assumes inv: "wg_count wg ps" and i: "i < length ps"
    and sema: "semas_ok wg' (ps[i := p']) \<and> owed wg' (ps[i := p']) = owed wg ps"
    and same: "waiters wg' = waiters wg" "wg_sema wg' = wg_sema wg" "entering p' = entering (ps ! i)"
      "released p' = released (ps ! i)" "undecided p' = undecided (ps ! i)"
    and ok: "pc_ok wg (waiting wg ps) p'"
    and k: "counter wg' = 0 \<Longrightarrow> tally closing ps - closing (ps ! i) + closing p' = 0 \<Longrightarrow> waiting wg ps = tally undecided ps"
  shows "wg_count wg' (ps[i := p'])"
proof -
  have w: "waiting wg' (ps[i := p']) = waiting wg ps" using sema same by (simp add: waiting_def tally_update [OF i])
  have "pc_ok wg' w = pc_ok wg w" for w by (rule ext) (simp add: pc_ok_def same(2) split: wpc.split)
  then have "\<forall>p \<in> set (ps[i := p']). pc_ok wg' (waiting wg ps) p"
    using inv ok set_update_subset_insert [of ps i p'] by (auto simp: wg_count_def)
  then show ?thesis using inv k sema same by (auto simp: wg_count_def w tally_update [OF i])
qed

lemma wg_quiet:
  assumes inv: "wg_count wg ps" and i: "i < length ps"
    and same: "waiters wg' = waiters wg" "wg_sema wg' = wg_sema wg" "semas wg' = semas wg" "entering p' = entering (ps ! i)"
      "released p' = released (ps ! i)" "undecided p' = undecided (ps ! i)" "\<And>s. attached s p' = attached s (ps ! i)"
    and ok: "pc_ok wg (waiting wg ps) p'"
    and k: "counter wg' = 0 \<Longrightarrow> tally closing ps - closing (ps ! i) + closing p' = 0 \<Longrightarrow> waiting wg ps = tally undecided ps"
  shows "wg_count wg' (ps[i := p'])"
proof (rule wg_keeps [OF inv i])
  show "semas_ok wg' (ps[i := p']) \<and> owed wg' (ps[i := p']) = owed wg ps"
    using inv same by (intro semas_ok_same [OF _ i]) (auto simp: wg_count_def)
qed (use same ok k in auto)

text \<open>A step of the goroutine that holds the mutex: w is the number of waiters after it.\<close>

lemma wg_held:
  assumes inv: "wg_count wg ps" and m: "mutex_inv m (map wg_view ps)" and i: "i < length ps" and h: "wg_view (ps ! i) = Held"
    and sema: "semas_ok wg' (ps[i := p'])"
    and w: "entering p' + released p' + owed wg' (ps[i := p']) = w" "waiters wg' = of_int w" "w \<le> int (length ps)"
    and ok: "pc_ok wg' w p'"
    and k: "counter wg' = 0 \<Longrightarrow> tally closing ps - closing (ps ! i) + closing p' = 0 \<Longrightarrow> w = undecided p'"
  shows "wg_count wg' (ps[i := p'])"
proof -
  note alone = held_alone [OF m i h]
  have "waiting wg' (ps[i := p']) = w" using w(1) alone by (simp add: waiting_def tally_update [OF i])
  moreover have "\<forall>p \<in> set (ps[i := p']). pc_ok wg' w p" using alone(4) [where p' = p'] ok by blast
  ultimately show ?thesis using sema w(2,3) k alone by (auto simp: wg_count_def tally_update [OF i])
qed

lemma unat_Semrelease: "unat s < 2 ^ 31 \<Longrightarrow> unat (Semrelease s) = unat s + 1"
  unfolding Semrelease_def by (subst unat_word_ariths(1)) simp

lemma semas_ok_release:
  assumes ok: "semas_ok wg ps" and s: "wg_sema wg = Some s" and owed: "0 < owed wg ps" and i: "i < length ps" and len: "length ps < 2 ^ 29"
    and same: "\<And>t. attached t p' = attached t (ps ! i)"
  shows "semas_ok (wg\<lparr>semas := (semas wg)[s := Semrelease (semas wg ! s)]\<rparr>) (ps[i := p']) \<and>
    owed (wg\<lparr>semas := (semas wg)[s := Semrelease (semas wg ! s)]\<rparr>) (ps[i := p']) = owed wg ps - 1"
proof -
  have l: "s < length (semas wg)" using ok s by (simp add: semas_ok_def)
  have "tally (attached s) ps \<le> int (length ps)" by (rule tally_le_length) simp
  moreover have lt: "int (unat (semas wg ! s)) < tally (attached s) ps" using owed s by (simp add: owed_def)
  ultimately have "unat (semas wg ! s) < length ps" by linarith
  then have "int (unat (Semrelease (semas wg ! s))) = int (unat (semas wg ! s)) + 1" using len unat_Semrelease [of "semas wg ! s"] by simp
  then show ?thesis using ok s l lt same by (auto simp: semas_ok_def owed_def tally_update [OF i] nth_list_update)
qed

lemma attached_length:
  assumes "semas_ok wg ps" "i < length ps" "ps ! i = WSema s"
  shows "s < length (semas wg)"
proof -
  have "attached s (ps ! i) \<le> tally (attached s) ps" using assms(2) by (intro tally_nth) simp_all
  then have "tally (attached s) ps \<noteq> 0" using assms(3) by simp
  then show ?thesis using assms(1) by (meson semas_ok_def not_less)
qed

lemma semas_ok_acquire:
  assumes ok: "semas_ok wg ps" and i: "i < length ps" and at: "ps ! i = WSema s" and acq: "Semacquire (semas wg ! s) = Some x"
  shows "semas_ok (wg\<lparr>semas := (semas wg)[s := x]\<rparr>) (ps[i := WReturned]) \<and>
    owed (wg\<lparr>semas := (semas wg)[s := x]\<rparr>) (ps[i := WReturned]) = owed wg ps"
proof -
  have l: "s < length (semas wg)" by (rule attached_length [OF ok i at])
  have "semas wg ! s \<noteq> 0" "x = semas wg ! s - 1" using acq by (auto simp: Semacquire_def word_gt_0 split: if_splits)
  then have "int (unat x) = int (unat (semas wg ! s)) - 1" by (simp add: unat_minus_one unat_gt_0 of_nat_diff Suc_le_eq)
  moreover have "attached t (WSema s) = of_bool (t = s)" for t by simp
  ultimately show ?thesis using ok l at by (auto simp: semas_ok_def owed_def tally_update [OF i] nth_list_update split: option.splits)
qed

text \<open>Taking the semaphore in Wait, with a new one if there is none.\<close>

lemma semas_ok_alloc:
  "semas_ok wg ps \<Longrightarrow> wg_sema wg = None \<Longrightarrow> i < length ps \<Longrightarrow> (\<And>t. attached t p' = attached t (ps ! i)) \<Longrightarrow>
   semas_ok (wg\<lparr>semas := semas wg @ [0], wg_sema := Some (length (semas wg))\<rparr>) (ps[i := p']) \<and>
   owed (wg\<lparr>semas := semas wg @ [0], wg_sema := Some (length (semas wg))\<rparr>) (ps[i := p']) = 0"
  by (auto simp: semas_ok_def owed_def tally_update nth_append less_Suc_eq)

lemma semas_ok_take:
  "semas_ok wg ps \<Longrightarrow> wg_sema wg = Some s \<Longrightarrow> i < length ps \<Longrightarrow> ps ! i = WTake \<Longrightarrow>
   semas_ok wg (ps[i := WUnlock UAdd (Some s)]) \<and> owed wg (ps[i := WUnlock UAdd (Some s)]) = owed wg ps + 1"
  by (auto simp: semas_ok_def owed_def tally_update)

lemma semas_ok_drop:
  "semas_ok wg ps \<Longrightarrow> owed wg ps = 0 \<Longrightarrow> i < length ps \<Longrightarrow> (\<And>t. attached t p' = attached t (ps ! i)) \<Longrightarrow>
   semas_ok (wg\<lparr>wg_sema := None\<rparr>) (ps[i := p']) \<and> owed (wg\<lparr>wg_sema := None\<rparr>) (ps[i := p']) = 0"
  by (cases "wg_sema wg") (auto simp: semas_ok_def owed_def tally_update)

lemma Add_step_count:
  assumes inv: "wg_count wg ps" and m: "mutex_inv (wg_m wg) (map wg_view ps)" and i: "i < length ps"
    and st: "Add_step wg (ps ! i) = Some (wg', p')"
  shows "wg_count wg' (ps[i := p'])"
proof -
  have len: "length ps < 2 ^ 29" using m by (simp add: mutex_inv_def)
  have ok: "semas_ok wg ps" "pc_ok wg (waiting wg ps) (ps ! i)" using inv i by (auto simp: wg_count_def)
  note W = waiting_nonneg [OF inv]
  have wt: "sint (waiters wg) = waiting wg ps" using W(5) len by simp
  have le: "waiting wg ps \<le> int (length ps)" using inv by (simp add: wg_count_def)
  have cl: "closing (ps ! i) \<le> tally closing ps" using i by (intro tally_nth) simp_all
  note same = semas_ok_same [OF ok(1) i]
  show ?thesis
  proof (cases "ps ! i")
    case (AAdd d)
    then show ?thesis using st inv cl by (intro wg_quiet [OF inv i]) (auto simp: Let_def pc_ok_def wg_count_def word_sless_alt split: if_splits)
  next
    case ALoad
    have "waiting wg ps = tally undecided ps" if "waiters wg = 0"
    proof -
      have "tally undecided ps \<le> tally entering ps" unfolding tally_def by (rule sum_list_mono) simp
      moreover have "0 \<le> tally undecided ps" by (rule tally_nonneg) simp
      ultimately show ?thesis using that wt W by (simp add: waiting_def)
    qed
    then show ?thesis using ALoad st inv by (intro wg_quiet [OF inv i]) (auto simp: pc_ok_def wg_count_def split: if_splits)
  next
    case (ALock p)
    then show ?thesis using st inv cl W(4) by (intro wg_quiet [OF inv i]) (auto simp: pc_ok_def wg_count_def split: option.splits if_splits)
  next
    case (ALoop j)
    then show ?thesis using st inv cl ok(2) wt by (intro wg_quiet [OF inv i]) (auto simp: pc_ok_def wg_count_def word_sless_alt split: if_splits)
  next
    case (ARelease j)
    note alone = held_alone(1,2) [OF m i]
    have j: "0 \<le> sint j" "sint j < waiting wg ps" using ARelease ok(2) by (simp_all add: pc_ok_def)
    have o: "owed wg ps = waiting wg ps - sint j" using ARelease alone by (simp add: waiting_def)
    then obtain s where s: "wg_sema wg = Some s" using j by (cases "wg_sema wg") (auto simp: owed_def)
    have "j + 1 = of_int (sint j + 1)" by simp
    then have "sint (j + 1) = sint j + 1" using j le len by (simp only:) (rule sint_of_int32, auto)
    then show ?thesis using ARelease st inv s j o semas_ok_release [OF ok(1) s _ i len, of "ALoop (j + 1)"] cl
      by (intro wg_held [OF inv m i, where w = "waiting wg ps"]) (auto simp: pc_ok_def wg_count_def)
  next
    case (AStoreW j)
    then have "owed wg ps = 0" using ok(2) held_alone(1,2) [OF m i] by (simp add: pc_ok_def waiting_def)
    then show ?thesis using AStoreW st same [of AStoreS wg']
      by (intro wg_held [OF inv m i, where w = 0]) (auto simp: pc_ok_def)
  next
    case AStoreS
    then have "owed wg ps = 0" using ok(2) held_alone(1,2) [OF m i] by (simp add: pc_ok_def waiting_def)
    then show ?thesis using AStoreS st ok inv semas_ok_drop [OF ok(1) _ i, of "AUnlock UAdd"]
      by (intro wg_held [OF inv m i, where w = 0]) (auto simp: pc_ok_def wg_count_def)
  next
    case (AUnlock p)
    then show ?thesis using st inv by (intro wg_quiet [OF inv i]) (auto simp: pc_ok_def wg_count_def split: option.splits if_splits)
  qed (use st in auto)
qed

lemma owed_room:
  assumes i: "i < length ps" and at: "ps ! i = WAddW"
  shows "owed wg ps + 1 \<le> int (length ps)"
proof -
  have "1 \<le> tally (\<lambda>p. of_bool (p = WAddW)) ps" using tally_nth [of "\<lambda>p. of_bool (p = WAddW)" i ps] i at by simp
  moreover have "tally (\<lambda>p. attached s p + of_bool (p = WAddW)) ps \<le> int (length ps)" for s
    by (rule tally_le_length) simp
  ultimately have "tally (attached s) ps + 1 \<le> int (length ps)" for s by (simp add: tally_add) (smt (verit))
  then have "tally (attached s) ps - int k + 1 \<le> int (length ps)" for s k by (smt (verit) of_nat_0_le_iff)
  then have "owed wg ps + 1 \<le> int (length ps)" if "wg_sema wg = Some s" for s
    using that by (simp only: owed_def option.case)
  then show ?thesis using i by (cases "wg_sema wg") (auto simp: owed_def)
qed

lemma Wait_step_count:
  assumes inv: "wg_count wg ps" and m: "mutex_inv (wg_m wg) (map wg_view ps)" and i: "i < length ps"
    and st: "Wait_step wg (ps ! i) = Some (wg', p')"
  shows "wg_count wg' (ps[i := p'])"
proof -
  have ok: "semas_ok wg ps" "pc_ok wg (waiting wg ps) (ps ! i)" using inv i by (auto simp: wg_count_def)
  note W = waiting_nonneg [OF inv]
  have w: "waiters wg = of_int (waiting wg ps)" "waiting wg ps \<le> int (length ps)" using inv by (simp_all add: wg_count_def)
  note same = semas_ok_same [OF ok(1) i]
  have k: "counter wg = 0 \<Longrightarrow> tally closing ps = 0 \<Longrightarrow> waiting wg ps = tally undecided ps" using inv by (simp add: wg_count_def)
  show ?thesis
  proof (cases "ps ! i")
    case WAddW
    have alone: "waiting wg ps = owed wg ps" "tally undecided ps = 0" using WAddW held_alone [OF m i] by (simp_all add: waiting_def)
    have "owed wg ps + 1 \<le> int (length ps)" by (rule owed_room [OF i WAddW])
    then show ?thesis using WAddW st same [of WCheck wg'] w alone k
      by (intro wg_held [OF inv m i, where w = "waiting wg ps + 1"]) (auto simp: pc_ok_def)
  next
    case WCheck
    then show ?thesis using st same [of p' wg'] w held_alone [OF m i] k
      by (intro wg_held [OF inv m i, where w = "waiting wg ps"]) (auto simp: pc_ok_def waiting_def)
  next
    case WUndo
    then show ?thesis using st same [of p' wg'] w held_alone [OF m i] k
      by (intro wg_held [OF inv m i, where w = "waiting wg ps - 1"]) (auto simp: pc_ok_def waiting_def)
  next
    case WAlloc
    then show ?thesis using st same [of p' wg'] semas_ok_alloc [OF ok(1) _ i, of p'] w held_alone [OF m i] k W
      by (intro wg_held [OF inv m i, where w = "waiting wg ps"]) (auto simp: pc_ok_def waiting_def owed_def split: if_splits)
  next
    case WTake
    then obtain s where "wg_sema wg = Some s" using ok(2) by (auto simp: pc_ok_def)
    then show ?thesis using WTake st semas_ok_take [OF ok(1) _ i, of s] w held_alone [OF m i] k
      by (intro wg_held [OF inv m i, where w = "waiting wg ps"]) (auto simp: pc_ok_def waiting_def)
  next
    case (WUnlock p s)
    then show ?thesis using st inv by (cases s) (intro wg_quiet [OF inv i]; auto simp: pc_ok_def wg_count_def split: option.splits if_splits)+
  next
    case (WSema s)
    then obtain x where x: "Semacquire (semas wg ! s) = Some x" "wg' = wg\<lparr>semas := (semas wg)[s := x]\<rparr>" "p' = WReturned"
      using st by (auto split: option.splits)
    then show ?thesis using WSema k semas_ok_acquire [OF ok(1) i WSema x(1)]
      by (intro wg_keeps [OF inv i]) (auto simp: pc_ok_def)
  qed (use st inv in \<open>(intro wg_quiet [OF inv i]; auto simp: pc_ok_def wg_count_def split: option.splits if_splits)+\<close>)
qed

lemma wg_step_count:
  assumes "wg_step rule s t" "wg_count (fst s) (snd s)" "mutex_inv (wg_m (fst s)) (map wg_view (snd s))"
  shows "wg_count (fst t) (snd t)"
  using assms
proof (induction rule: wg_step.induct)
  case (wg_run_call i ps wg wg' p')
  then show ?case using Add_step_count [of wg ps i wg' p'] Wait_step_count [of wg ps i wg' p']
    by (auto simp: wg_run_def split: option.splits)
next
  case (call_Add i ps wg d)
  then show ?case using wg_quiet [of wg ps i wg "AAdd d"] by (auto simp: pc_ok_def wg_count_def)
next
  case (call_Wait i ps wg)
  then show ?case using wg_quiet [of wg ps i wg WLoad] by (auto simp: pc_ok_def wg_count_def)
qed

lemma wg_reach_count: "wg_client.reach s \<Longrightarrow> wg_count (fst s) (snd s)"
proof (induction rule: wg_client.reach_induct)
  case (start s)
  then show ?case
    by (auto simp: wg_init_def wg_count_def waiting_def owed_def semas_ok_def pc_ok_def tally_replicate)
next
  case (run s t)
  then show ?case using wg_step_count wg_client.client_inv [OF run.hyps(1)] by blast
qed

section \<open>One round\<close>

text \<open>Points of the code that are reached only after the counter was 0.\<close>

fun after_zero :: "wpc \<Rightarrow> bool" where
  "after_zero ALoad = True"
| "after_zero (ALock p) = True"
| "after_zero (ALoop i) = True"
| "after_zero (ARelease i) = True"
| "after_zero (AStoreW i) = True"
| "after_zero AStoreS = True"
| "after_zero (AUnlock p) = True"
| "after_zero WUndo = True"
| "after_zero (WUnlock p None) = True"
| "after_zero WReturned = True"
| "after_zero _ = False"

definition wg_zero :: "WaitGroup \<Rightarrow> wpc list \<Rightarrow> bool" where
  "wg_zero wg ps \<longleftrightarrow> 0 \<le> sint (counter wg) \<and> APanic \<notin> set ps \<and> (\<forall>p \<in> set ps. after_zero p \<longrightarrow> counter wg = 0) \<and>
     (\<forall>s \<in> set (semas wg). s \<noteq> 0 \<longrightarrow> counter wg = 0)"

lemma wg_zero_update:
  assumes "wg_zero wg ps" "0 \<le> sint (counter wg')" "p' \<noteq> APanic" "counter wg = 0 \<Longrightarrow> counter wg' = 0" "after_zero p' \<Longrightarrow> counter wg' = 0"
    "\<And>s. s \<in> set (semas wg') \<Longrightarrow> s \<in> set (semas wg) \<or> s = 0 \<or> counter wg' = 0"
  shows "wg_zero wg' (ps[i := p'])"
  using assms set_update_subset_insert [of ps i p'] unfolding wg_zero_def by blast

lemma sint_zero: "sint d = 0 \<longleftrightarrow> d = 0" for d :: int32
proof
  have "d = of_int (sint d)" by simp
  then show "sint d = 0 \<Longrightarrow> d = 0" by (metis of_int_0)
qed simp

lemma one_round_counter:
  assumes "one_round wg ps d" "0 \<le> sint (counter wg)"
  shows "0 \<le> sint (counter wg + d)" "counter wg = 0 \<Longrightarrow> counter wg + d = 0"
proof -
  have "counter wg + d = of_int (sint (counter wg) + sint d)" by simp
  moreover have r: "0 \<le> sint (counter wg) + sint d" "sint (counter wg) + sint d < 2 ^ 31" using assms(1) by (auto simp: one_round_def in_range_def)
  ultimately have "sint (counter wg + d) = sint (counter wg) + sint d" by (simp only:) (rule sint_of_int32, auto)
  then show "0 \<le> sint (counter wg + d)" using r by simp
  assume z: "counter wg = 0"
  then have "sint d = 0" using assms(1) r by (auto simp: one_round_def word_sless_alt)
  then show "counter wg + d = 0" using z by (simp add: sint_zero)
qed

lemma wg_step_zero:
  assumes "wg_step one_round s t" "wg_zero (fst s) (snd s)" "wg_count (fst s) (snd s)"
  shows "wg_zero (fst t) (snd t)"
  using assms
proof (induction rule: wg_step.induct)
  case (wg_run_call i ps wg wg' p')
  then have z: "wg_zero wg ps" and at: "pc_ok wg (waiting wg ps) (ps ! i)" "after_zero (ps ! i) \<Longrightarrow> counter wg = 0" "ps ! i \<in> set ps"
    and ok: "semas_ok wg ps" by (auto simp: wg_count_def wg_zero_def)
  have sub: "set ((semas wg)[j := x]) \<subseteq> insert x (set (semas wg))" for j x by (rule set_update_subset_insert)
  have c: "0 \<le> sint (counter wg)" using z by (simp add: wg_zero_def)
  show ?case
  proof (cases "ps ! i")
    case (AAdd d)
    then have "one_round wg ps d" using wg_run_call by simp
    note this = one_round_counter [OF this c]
    moreover have "sint (counter wg + d) = 0 \<Longrightarrow> counter wg + d = 0" by (simp only: sint_zero)
    ultimately show ?thesis using AAdd wg_run_call(2)
      by (auto intro!: wg_zero_update [OF z] simp: wg_run_def Let_def word_sless_alt split: if_splits)
  next
    case (WSema s)
    have "counter wg = 0" if "Semacquire (semas wg ! s) \<noteq> None"
    proof -
      have "semas wg ! s \<noteq> 0" using that by (auto simp: Semacquire_def)
      moreover have "s < length (semas wg)" by (rule attached_length [OF ok wg_run_call.hyps(1) WSema])
      ultimately show ?thesis using z by (auto simp: wg_zero_def)
    qed
    then show ?thesis using WSema wg_run_call c sub by (auto intro!: wg_zero_update [OF z] simp: wg_run_def split: option.splits)
  next
    case (WUnlock p s)
    then show ?thesis using wg_run_call c at by (cases s) (auto intro!: wg_zero_update [OF z] simp: wg_run_def split: option.splits if_splits)
  qed (use wg_run_call c at sub in \<open>auto intro!: wg_zero_update [OF z] simp: wg_run_def pc_ok_def split: option.splits if_splits\<close>)
next
  case (call_Add i ps wg d)
  then show ?case using wg_zero_update [of wg ps wg "AAdd d" i] by (auto simp: wg_zero_def)
next
  case (call_Wait i ps wg)
  then show ?case using wg_zero_update [of wg ps wg WLoad i] by (auto simp: wg_zero_def)
qed

lemma wg_round_zero:
  assumes "n < 2 ^ 29" "0 \<le> sint k" "(wg_step one_round)\<^sup>*\<^sup>* (wg_init n k) s"
  shows "wg_zero (fst s) (snd s)"
  using assms(3)
proof (induction rule: rtranclp_induct)
  case base
  then show ?case using assms(2) by (auto simp: wg_zero_def wg_init_def)
next
  case (step s t)
  then show ?case using wg_step_zero wg_reach_count [OF wg_reach [OF assms(1) step.hyps(1)]] by blast
qed

text \<open>C20. In one round, Wait waits. From a counter of k, while the callers only raise a positive counter and keep
  it from becoming negative, however fewer than \<open>2 ^ 29\<close> goroutines interleave: when a call of Wait has
  returned the counter is 0, no call of Add panics and none meets a nil semaphore.\<close>

theorem wg_waits:
  assumes "n < 2 ^ 29" "0 \<le> sint k" "(wg_step one_round)\<^sup>*\<^sup>* (wg_init n k) (wg, ps)"
  shows "(WReturned \<in> set ps \<longrightarrow> counter wg = 0) \<and> APanic \<notin> set ps \<and> AFault \<notin> set ps"
proof -
  have "wg_zero wg ps" using wg_round_zero [OF assms] by simp
  moreover have "wg_count wg ps" using wg_reach_count [OF wg_reach [OF assms(1,3)]] by simp
  ultimately show ?thesis by (force simp: wg_zero_def wg_count_def pc_ok_def)
qed

section \<open>No lost wakeup\<close>

definition unlocking :: "mpc \<Rightarrow> bool" where
  "unlocking q \<longleftrightarrow> \<not> inside_Lock q \<and> q \<noteq> Held \<and> q \<noteq> Outside"

fun wg_ok :: "wpc \<Rightarrow> bool" where
  "wg_ok (ALock q) = inside_Lock q"
| "wg_ok (WLock q) = inside_Lock q"
| "wg_ok (AUnlock q) = unlocking q"
| "wg_ok (WUnlock q s) = unlocking q"
| "wg_ok _ = True"

lemma mutex_step_ok:
  "Lock_step m q = Some (m', q') \<Longrightarrow> q' \<noteq> Held \<Longrightarrow> inside_Lock q'"
  "Unlock_step m q = Some (m', q') \<Longrightarrow> q' \<noteq> Outside \<Longrightarrow> unlocking q'"
  by (cases q; auto simp: inside_Lock_def unlocking_def Let_def split: prod.splits bool.splits option.splits if_splits)+

lemma wg_run_ok: "wg_run wg p = Some (wg', p') \<Longrightarrow> wg_ok p'"
  by (cases p) (auto simp: wg_run_def Let_def mutex_step_ok unlocking_def inside_Lock_def split: option.splits if_splits dest!: mutex_step_ok)

lemma wg_reach_ok: "wg_client.reach s \<Longrightarrow> \<forall>p \<in> set (snd s). wg_ok p"
proof (induction rule: wg_client.reach_induct)
  case (start s)
  then show ?case by (auto simp: wg_init_def)
next
  case (run s t)
  from run.hyps(2) obtain rule where "wg_step rule s t" by blast
  then show ?case using run.IH
    by (induction rule: wg_step.induct) (use set_update_subset_insert in \<open>fastforce dest: wg_run_ok\<close>)+
qed

lemma wg_stuck_cases:
  assumes "wg_run wg p = None" "wg_ok p" "p \<noteq> AFault" "wg_view p \<noteq> UPanic"
  shows "resting p \<or> (\<exists>s. p = WSema s \<and> semas wg ! s = 0) \<or>
    (\<exists>q. (p = ALock q \<or> p = WLock q) \<and> inside_Lock q \<and> Lock_step (wg_m wg) q = None)"
proof -
  have "Unlock_step m q = None \<Longrightarrow> unlocking q \<Longrightarrow> q = UPanic" for m q
    by (cases q) (auto simp: unlocking_def inside_Lock_def CompareAndSwap_def Let_def split: if_splits)
  then show ?thesis using assms
    by (cases p) (auto simp: wg_run_def resting_def Let_def Semacquire_def word_gt_0 split: option.splits if_splits)
qed

text \<open>C21. No wakeup is lost, whatever the callers add and whenever: in every reachable state in which the counter
  is 0 and some goroutine is inside a call, some goroutine can take a step; so Wait does not sleep when
  there is nothing left to wait for.\<close>

theorem wg_progress:
  assumes n: "n < 2 ^ 29" and run: "(wg_step rule)\<^sup>*\<^sup>* (wg_init n k) (wg, ps)"
    and busy: "\<exists>p \<in> set ps. \<not> resting p" and zero: "counter wg = 0"
  shows "\<exists>i < length ps. wg_run wg (ps ! i) \<noteq> None"
proof (rule ccontr)
  assume "\<not> (\<exists>i < length ps. wg_run wg (ps ! i) \<noteq> None)"
  then have stuck: "wg_run wg p = None" if "p \<in> set ps" for p using that by (metis in_set_conv_nth)
  have r: "wg_client.reach (wg, ps)" using n run by (rule wg_reach)
  have m: "mutex_inv (wg_m wg) (map wg_view ps)" using wg_client.client_inv [OF r] by simp
  have inv: "wg_count wg ps" using wg_reach_count [OF r] by simp
  have pan: "wg_view p \<noteq> UPanic" if "p \<in> set ps" for p using wg_client.client_no_panic [OF r] that by (force simp: image_iff)
  have kinds: "resting p \<or> (\<exists>s. p = WSema s \<and> semas wg ! s = 0) \<or>
      (\<exists>q. (p = ALock q \<or> p = WLock q) \<and> inside_Lock q \<and> Lock_step (wg_m wg) q = None)" if "p \<in> set ps" for p
    using stuck [OF that] pan [OF that] wg_reach_ok [OF r] inv that
    by (intro wg_stuck_cases) (auto simp: wg_count_def pc_ok_def)
  have out: "wg_view p = Outside \<or> inside_Lock (wg_view p) \<and> Lock_step (wg_m wg) (wg_view p) = None" if "p \<in> set ps" for p
    using kinds [OF that] by (auto simp: resting_def)
  have nolock: "\<not> inside_Lock (wg_view p)" if "p \<in> set ps" for p
  proof
    assume "inside_Lock (wg_view p)"
    moreover have "Held \<notin> set (map wg_view ps)" using out by (force simp: inside_Lock_def)
    moreover have "wg_view p \<in> set (map wg_view ps)" using that by simp
    ultimately obtain v where "v \<in> set (map wg_view ps)" "run_mutex (wg_m wg) v \<noteq> None" using mutex_not_stuck [OF m] by blast
    then obtain q where "q \<in> set ps" "run_mutex (wg_m wg) (wg_view q) \<noteq> None" by auto
    then show False using out [of q] by (cases "wg_view q") (auto simp: run_mutex_def inside_Lock_def)
  qed
  then have sema: "resting p \<or> (\<exists>s. p = WSema s \<and> semas wg ! s = 0)" if "p \<in> set ps" for p
    using kinds [OF that] that by force
  have "tally closing ps = 0" "tally undecided ps = 0" "tally entering ps = 0" "tally released ps = 0"
    by (rule tally_zero; use sema in \<open>force simp: resting_def\<close>)+
  then have o: "owed wg ps = 0" using inv zero by (simp add: wg_count_def waiting_def)
  from busy sema obtain i s where i: "i < length ps" "ps ! i = WSema s" "semas wg ! s = 0" by (metis in_set_conv_nth)
  have ok: "semas_ok wg ps" using inv by (simp add: wg_count_def)
  have "tally (attached s) ps = 0"
    using ok o i(3) attached_length [OF ok i(1,2)] by (cases "wg_sema wg = Some s") (auto simp: semas_ok_def owed_def)
  moreover have "attached s (ps ! i) \<le> tally (attached s) ps" using i by (intro tally_nth) simp_all
  ultimately show False using i by simp
qed

section \<open>Runs\<close>

lemma wg_run_at:
  "i < length ps \<Longrightarrow> wg_run wg (ps ! i) = Some (wg', p') \<Longrightarrow> (\<And>d. ps ! i = AAdd d \<Longrightarrow> rule wg ps d) \<Longrightarrow> ps' = ps[i := p'] \<Longrightarrow>
   (wg_step rule)\<^sup>*\<^sup>* (wg', ps') t \<Longrightarrow> (wg_step rule)\<^sup>*\<^sup>* (wg, ps) t"
  by (metis converse_rtranclp_into_rtranclp wg_step.wg_run_call)

lemma wg_call_at:
  "i < length ps \<Longrightarrow> ps ! i = WRest \<or> ps ! i = WReturned \<Longrightarrow> (\<exists>d. p' = AAdd d) \<or> p' = WLoad \<Longrightarrow> ps' = ps[i := p'] \<Longrightarrow>
   (wg_step rule)\<^sup>*\<^sup>* (wg, ps') t \<Longrightarrow> (wg_step rule)\<^sup>*\<^sup>* (wg, ps) t"
  by (metis converse_rtranclp_into_rtranclp wg_step.call_Add wg_step.call_Wait)

definition wg_free :: "int32 \<Rightarrow> WaitGroup" where
  "wg_free k = \<lparr>wg_m = \<lparr>state = 0, sema = 0\<rparr>, counter = k, waiters = 0, wg_sema = None, semas = []\<rparr>"

lemma wg_init_2: "wg_init 2 k = (wg_free k, [WRest, WRest])"
  by (simp add: wg_init_def wg_free_def numeral_2_eq_2)

text \<open>A goroutine waits for one unit, and another one gives it back and wakes it.\<close>

definition wg_asleep :: WaitGroup where
  "wg_asleep = \<lparr>wg_m = \<lparr>state = 0, sema = 0\<rparr>, counter = 1, waiters = 1, wg_sema = Some 0, semas = [0]\<rparr>"

lemmas wg_simps = wg_run_def wg_asleep_def wg_free_def Let_def CompareAndSwap_def mutex_consts no_wakeup_def Semrelease_def Semacquire_def

lemma wg_sleeps:
  assumes "length ps = 1"
  shows "(wg_step rule)\<^sup>*\<^sup>* (wg_free 1, WLoad # ps) (wg_asleep, WSema 0 # ps)"
  by (rule wg_run_at [of 0], simp, simp add: wg_simps, simp, simp,
      rule wg_run_at [of 0], simp, simp add: wg_simps, simp, simp,
      rule wg_run_at [of 0], simp, simp add: wg_simps, simp, simp,
      rule wg_run_at [of 0], simp, simp add: wg_simps, simp, simp,
      rule wg_run_at [of 0], simp, simp add: wg_simps, simp, simp,
      rule wg_run_at [of 0], simp, simp add: wg_simps, simp, simp,
      rule wg_run_at [of 0], simp, simp add: wg_simps, simp, simp,
      rule wg_run_at [of 0], simp, simp add: wg_simps, simp, simp, simp add: wg_simps)

definition wg_woken :: "int32 \<Rightarrow> WaitGroup" where
  "wg_woken k = \<lparr>wg_m = \<lparr>state = 0, sema = 0\<rparr>, counter = k, waiters = 0, wg_sema = None, semas = [0]\<rparr>"

lemma wg_wakes: "(wg_step rule)\<^sup>*\<^sup>* (wg_asleep\<lparr>counter := k\<rparr>, [WSema 0, ALoad]) (wg_woken k, [WReturned, WRest])"
  by (rule wg_run_at [of 1], simp, simp add: wg_simps word_sless_alt, simp, simp,
      rule wg_run_at [of 1], simp, simp add: wg_simps word_sless_alt, simp, simp,
      rule wg_run_at [of 1], simp, simp add: wg_simps word_sless_alt, simp, simp,
      rule wg_run_at [of 1], simp, simp add: wg_simps word_sless_alt, simp, simp,
      rule wg_run_at [of 1], simp, simp add: wg_simps word_sless_alt, simp, simp,
      rule wg_run_at [of 1], simp, simp add: wg_simps word_sless_alt, simp, simp,
      rule wg_run_at [of 1], simp, simp add: wg_simps word_sless_alt, simp, simp,
      rule wg_run_at [of 1], simp, simp add: wg_simps word_sless_alt, simp, simp,
      rule wg_run_at [of 1], simp, simp add: wg_simps word_sless_alt, simp, simp,
      rule wg_run_at [of 0], simp, simp add: wg_simps word_sless_alt, simp, simp,
      simp add: wg_woken_def wg_simps)

lemma wg_round:
  "(wg_step one_round)\<^sup>*\<^sup>* (wg_init 2 1) (wg_asleep\<lparr>counter := 0\<rparr>, [WSema 0, ALoad])"
proof -
  have "(wg_step one_round)\<^sup>*\<^sup>* (wg_init 2 1) (wg_free 1, WLoad # [WRest])"
    unfolding wg_init_2 by (rule wg_call_at [of 0 _ WLoad], simp, simp, simp, simp, simp)
  moreover note wg_sleeps [of "[WRest]" one_round]
  moreover have "(wg_step one_round)\<^sup>*\<^sup>* (wg_asleep, WSema 0 # [WRest]) (wg_asleep\<lparr>counter := 0\<rparr>, [WSema 0, ALoad])"
    by (rule wg_call_at [of 1 _ "AAdd (- 1)"], simp, simp, simp, simp,
      rule wg_run_at [of 1], simp, simp add: wg_simps, simp add: one_round_def in_range_def wg_simps word_sless_alt, simp, simp add: wg_simps)
  ultimately show ?thesis by simp
qed

theorem wg_waits_witness: "counter (wg_woken 0) = 0"
  using wg_waits [of 2 1, OF _ _ rtranclp_trans [OF wg_round wg_wakes]] by simp

theorem wg_progress_witness: "\<exists>i < length [WSema 0, ALoad]. wg_run (wg_asleep\<lparr>counter := 0\<rparr>) ([WSema 0, ALoad] ! i) \<noteq> None"
  using wg_progress [OF _ wg_round] by (simp add: resting_def)

text \<open>C22. A WaitGroup may not be used again as soon as its Waits have returned. Two goroutines keep the rule that a
  counter of 0 is raised only while no Wait is under way. The call of Done that ended the first round
  has not yet read \<open>waiters\<close>; the Wait of the first round returns at once, the same goroutine adds 1 and waits
  again; the late Done takes it for a waiter of its own round and wakes it: the second Wait returns although
  the counter is 1 throughout it (no Add takes place between the two states).\<close>

theorem wg_reuse:
  "(wg_step reused)\<^sup>*\<^sup>* (wg_init 2 1) (wg_free 1, [WLoad, ALoad]) \<and>
   (wg_step (\<lambda>wg ps d. False))\<^sup>*\<^sup>* (wg_free 1, [WLoad, ALoad]) (wg_woken 1, [WReturned, WRest]) \<and>
   counter (wg_free 1) = 1 \<and> counter (wg_woken 1) = 1"
proof (intro conjI)
  show "(wg_step reused)\<^sup>*\<^sup>* (wg_init 2 1) (wg_free 1, [WLoad, ALoad])"
    unfolding wg_init_2
    by (rule wg_call_at [of 1 _ "AAdd (- 1)"], simp, simp, simp, simp,
      rule wg_run_at [of 1], simp, simp add: wg_simps word_sless_alt, simp add: reused_def in_range_def word_sless_alt wg_free_def, simp,
      rule wg_call_at [of 0 _ WLoad], simp, simp, simp, simp,
      rule wg_run_at [of 0], simp, simp add: wg_simps word_sless_alt, simp, simp,
      rule wg_call_at [of 0 _ "AAdd 1"], simp, simp, simp, simp,
      rule wg_run_at [of 0], simp, simp add: wg_simps word_sless_alt, simp add: reused_def in_range_def word_sless_alt wg_free_def, simp,
      rule wg_call_at [of 0 _ WLoad], simp, simp, simp, simp, simp add: wg_free_def)
  have "wg_asleep\<lparr>counter := 1\<rparr> = wg_asleep" by (simp add: wg_asleep_def)
  then show "(wg_step (\<lambda>wg ps d. False))\<^sup>*\<^sup>* (wg_free 1, [WLoad, ALoad]) (wg_woken 1, [WReturned, WRest])"
    using wg_sleeps [of "[ALoad]" "\<lambda>wg ps d. False"] wg_wakes [of "\<lambda>wg ps d. False" 1] by simp
qed (simp_all add: wg_free_def wg_woken_def)

end
