(* ===== verification/StringDefs.thy ===== *)
theory StringDefs
  imports Utf8Text
begin

text \<open>
  Package strings (strings/strings.go): searching, splitting, joining, trimming, mapping and replacing.
  A string is the list of its bytes; an \<open>int\<close> result is -1 where the code returns -1. Slices that the
  loop conditions keep in range are \<open>sub\<close>; arrays the code allocates and fills keep their length, so
  that an index out of range (None) and a copy cut short are visible.
\<close>

type_synonym gostring = "byte list"

text \<open>The slice \<open>s[a:b]\<close>, and \<open>copy(t[w:], src)\<close> with the number of bytes it copies.\<close>

definition sub :: "'a list \<Rightarrow> nat \<Rightarrow> nat \<Rightarrow> 'a list" where
  "sub s a b = take (b - a) (drop a s)"

definition copy_to :: "'a list \<Rightarrow> nat \<Rightarrow> 'a list \<Rightarrow> 'a list \<times> nat" where
  "copy_to t w src =
     (let k = min (length t - w) (length src)
      in (take w t @ take k src @ drop (w + k) t, w + k))"

section \<open>Searching\<close>

definition primeRK :: uint32 where "primeRK = 16777619"

definition hash_loop :: "uint32 \<Rightarrow> gostring \<Rightarrow> uint32" where
  "hash_loop h bs = foldl (\<lambda>h c. h * primeRK + ucast c) h bs"

function pow_loop :: "uint32 \<Rightarrow> uint32 \<Rightarrow> nat \<Rightarrow> uint32" where
  "pow_loop pow sq i =
     (if i > 0 then pow_loop (if odd i then pow * sq else pow) (sq * sq) (i div 2) else pow)"
  by pat_completeness auto
termination by (relation "measure (\<lambda>(pow, sq, i). i)") auto

declare pow_loop.simps [simp del]

definition hashstr :: "gostring \<Rightarrow> uint32 \<times> uint32" where
  "hashstr sep = (hash_loop 0 sep, pow_loop 1 primeRK (length sep))"

text \<open>One turn of the rolling hash: the byte at i enters, the byte n before it leaves.\<close>

definition roll :: "gostring \<Rightarrow> nat \<Rightarrow> uint32 \<Rightarrow> uint32 \<Rightarrow> nat \<Rightarrow> uint32" where
  "roll s n pow h i = h * primeRK + ucast (s ! i) - pow * ucast (s ! (i - n))"

text \<open>\<open>IndexByte\<close> is assembly (strings_decl.go): the first instance of c, or -1.\<close>

fun IndexByte_from :: "gostring \<Rightarrow> byte \<Rightarrow> nat \<Rightarrow> int" where
  "IndexByte_from [] c i = -1"
| "IndexByte_from (b # s) c i = (if b = c then int i else IndexByte_from s c (i + 1))"

definition IndexByte :: "gostring \<Rightarrow> byte \<Rightarrow> int" where
  "IndexByte s c = IndexByte_from s c 0"

function Count_loop :: "gostring \<Rightarrow> gostring \<Rightarrow> uint32 \<Rightarrow> uint32 \<Rightarrow> uint32 \<Rightarrow> nat \<Rightarrow> nat \<Rightarrow> nat \<Rightarrow> nat" where
  "Count_loop s sep hashsep pow h lastmatch i n =
     (if i < length s then
        let h = roll s (length sep) pow h i; i = i + 1
        in if h = hashsep \<and> lastmatch \<le> i - length sep \<and> sub s (i - length sep) i = sep
           then Count_loop s sep hashsep pow h i i (n + 1)
           else Count_loop s sep hashsep pow h lastmatch i n
      else n)"
  by pat_completeness auto
termination by (relation "measure (\<lambda>(s, _, _, _, _, _, i, _). length s - i)") auto

declare Count_loop.simps [simp del]

definition str_Count :: "gostring \<Rightarrow> gostring \<Rightarrow> nat" where
  "str_Count s sep =
     (if length sep = 0 then RuneCountInString s + 1
      else if length sep = 1 then foldl (\<lambda>n b. if b = sep ! 0 then n + 1 else n) 0 s
      else if length sep > length s then 0
      else if length sep = length s then (if sep = s then 1 else 0)
      else
        let (hashsep, pow) = hashstr sep;
            h = hash_loop 0 (take (length sep) s)
        in if h = hashsep \<and> take (length sep) s = sep
           then Count_loop s sep hashsep pow h (length sep) (length sep) 1
           else Count_loop s sep hashsep pow h 0 (length sep) 0)"

function Index_loop :: "gostring \<Rightarrow> gostring \<Rightarrow> uint32 \<Rightarrow> uint32 \<Rightarrow> uint32 \<Rightarrow> nat \<Rightarrow> int" where
  "Index_loop s sep hashsep pow h i =
     (if i < length s then
        let h = roll s (length sep) pow h i; i = i + 1
        in if h = hashsep \<and> sub s (i - length sep) i = sep then int (i - length sep)
           else Index_loop s sep hashsep pow h i
      else -1)"
  by pat_completeness auto
termination by (relation "measure (\<lambda>(s, _, _, _, _, i). length s - i)") auto

declare Index_loop.simps [simp del]

definition str_Index :: "gostring \<Rightarrow> gostring \<Rightarrow> int" where
  "str_Index s sep =
     (let n = length sep in
      if n = 0 then 0
      else if n = 1 then IndexByte s (sep ! 0)
      else if n = length s then (if sep = s then 0 else -1)
      else if n > length s then -1
      else
        let (hashsep, pow) = hashstr sep;
            h = hash_loop 0 (take n s)
        in if h = hashsep \<and> take n s = sep then 0 else Index_loop s sep hashsep pow h n)"

definition str_Contains :: "gostring \<Rightarrow> gostring \<Rightarrow> bool" where
  "str_Contains s substr \<longleftrightarrow> str_Index s substr \<ge> 0"

text \<open>The two loops of LastIndex run i down from \<open>k - 1\<close>.\<close>

fun LastIndexByte_loop :: "gostring \<Rightarrow> byte \<Rightarrow> nat \<Rightarrow> int" where
  "LastIndexByte_loop s c 0 = -1"
| "LastIndexByte_loop s c (Suc i) = (if s ! i = c then int i else LastIndexByte_loop s c i)"

fun LastIndex_loop :: "gostring \<Rightarrow> gostring \<Rightarrow> byte \<Rightarrow> nat \<Rightarrow> int" where
  "LastIndex_loop s sep c 0 = -1"
| "LastIndex_loop s sep c (Suc i) =
     (if s ! i = c \<and> sub s i (i + length sep) = sep then int i else LastIndex_loop s sep c i)"

definition str_LastIndex :: "gostring \<Rightarrow> gostring \<Rightarrow> int" where
  "str_LastIndex s sep =
     (let n = length sep in
      if n = 0 then int (length s)
      else if n = 1 then LastIndexByte_loop s (sep ! 0) (length s)
      else LastIndex_loop s sep (sep ! 0) (if n \<le> length s then length s - n + 1 else 0))"

text \<open>The range loops of IndexRune and IndexAny.\<close>

fun range_find :: "(rune \<Rightarrow> bool) \<Rightarrow> (nat \<times> rune) list \<Rightarrow> int" where
  "range_find f [] = -1"
| "range_find f ((i, c) # ps) = (if f c then int i else range_find f ps)"

definition IndexRune :: "gostring \<Rightarrow> rune \<Rightarrow> int" where
  "IndexRune s r =
     (if sint r < 0x80 then IndexByte_from s (ucast r) 0
      else range_find (\<lambda>c. c = r) (range_string s 0))"

definition ContainsRune :: "gostring \<Rightarrow> rune \<Rightarrow> bool" where
  "ContainsRune s r \<longleftrightarrow> IndexRune s r \<ge> 0"

definition IndexAny :: "gostring \<Rightarrow> gostring \<Rightarrow> int" where
  "IndexAny s chars =
     (if length chars > 0 then
        range_find (\<lambda>c. list_ex (\<lambda>(_, m). c = m) (range_string chars 0)) (range_string s 0)
      else -1)"

definition ContainsAny :: "gostring \<Rightarrow> gostring \<Rightarrow> bool" where
  "ContainsAny s chars \<longleftrightarrow> IndexAny s chars \<ge> 0"

section \<open>Splitting and joining\<close>

fun explode_loop :: "gostring \<Rightarrow> nat \<Rightarrow> nat \<Rightarrow> gostring list \<times> nat" where
  "explode_loop s 0 cur = ([], cur)"
| "explode_loop s (Suc k) cur =
     (let (ch, sz) = DecodeRuneInString (drop cur s);
          a = (if ch = RuneError then encode_bytes RuneError else sub s cur (cur + sz));
          (as, cur') = explode_loop s k (cur + sz)
      in (a # as, cur'))"

definition str_explode :: "gostring \<Rightarrow> int \<Rightarrow> gostring list" where
  "str_explode s n =
     (if n = 0 then []
      else
        let l = RuneCountInString s;
            n = (if n \<le> 0 \<or> n > int l then l else nat n);
            (a, cur) = explode_loop s (n - 1) 0
        in if n = 0 then [] else a @ [if cur < length s then drop cur s else []])"

function genSplit_loop :: "gostring \<Rightarrow> gostring \<Rightarrow> nat \<Rightarrow> int \<Rightarrow> nat \<Rightarrow> gostring list \<Rightarrow> nat \<Rightarrow> gostring list" where
  "genSplit_loop s sep sepSave n start a i =
     (if i + length sep \<le> length s \<and> int (length a) + 1 < n then
        if s ! i = sep ! 0 \<and> (length sep = 1 \<or> sub s i (i + length sep) = sep)
        then genSplit_loop s sep sepSave n (i + length sep) (a @ [sub s start (i + sepSave)])
               (i + (length sep - 1) + 1)
        else genSplit_loop s sep sepSave n start a (i + 1)
      else a @ [drop start s])"
  by pat_completeness auto
termination by (relation "measure (\<lambda>(s, sep, _, _, _, _, i). length s + 1 - i)") auto

declare genSplit_loop.simps [simp del]

definition genSplit :: "gostring \<Rightarrow> gostring \<Rightarrow> nat \<Rightarrow> int \<Rightarrow> gostring list" where
  "genSplit s sep sepSave n =
     (if n = 0 then []
      else if sep = [] then str_explode s n
      else genSplit_loop s sep sepSave (if n < 0 then int (str_Count s sep) + 1 else n) 0 [] 0)"

definition SplitN :: "gostring \<Rightarrow> gostring \<Rightarrow> int \<Rightarrow> gostring list" where
  "SplitN s sep n = genSplit s sep 0 n"

definition SplitAfterN :: "gostring \<Rightarrow> gostring \<Rightarrow> int \<Rightarrow> gostring list" where
  "SplitAfterN s sep n = genSplit s sep (length sep) n"

definition Split :: "gostring \<Rightarrow> gostring \<Rightarrow> gostring list" where
  "Split s sep = genSplit s sep 0 (-1)"

definition SplitAfter :: "gostring \<Rightarrow> gostring \<Rightarrow> gostring list" where
  "SplitAfter s sep = genSplit s sep (length sep) (-1)"

fun Join_loop :: "gostring list \<Rightarrow> gostring \<Rightarrow> gostring \<times> nat \<Rightarrow> gostring \<times> nat" where
  "Join_loop [] sep (b, bp) = (b, bp)"
| "Join_loop (s # as) sep (b, bp) =
     (let (b, bp) = copy_to b bp sep;
          (b, bp) = copy_to b bp s
      in Join_loop as sep (b, bp))"

definition Join :: "gostring list \<Rightarrow> gostring \<Rightarrow> gostring" where
  "Join a sep =
     (if length a = 0 then []
      else if length a = 1 then a ! 0
      else
        let n = foldl (\<lambda>n x. n + length x) (length sep * (length a - 1)) a;
            b = replicate n 0
        in fst (Join_loop (tl a) sep (copy_to b 0 (a ! 0))))"

section \<open>Replacing and repeating\<close>

text \<open>A slice \<open>s[start:j]\<close> with j before start panics (None).\<close>

fun Replace_loop :: "gostring \<Rightarrow> gostring \<Rightarrow> gostring \<Rightarrow> nat \<Rightarrow> bool \<Rightarrow> nat \<Rightarrow> gostring \<times> nat \<Rightarrow> (gostring \<times> nat) option" where
  "Replace_loop s old new 0 first start (t, w) =
     Some (copy_to t w (drop start s))"
| "Replace_loop s old new (Suc k) first start (t, w) =
     (let j = (if length old = 0
               then (if first then int start else int start + int (snd (DecodeRuneInString (drop start s))))
               else int start + str_Index (drop start s) old)
      in if j < int start then None
         else
           let (t, w) = copy_to t w (sub s start (nat j));
               (t, w) = copy_to t w new
           in Replace_loop s old new k False (nat j + length old) (t, w))"

definition Replace :: "gostring \<Rightarrow> gostring \<Rightarrow> gostring \<Rightarrow> int \<Rightarrow> gostring option" where
  "Replace s old new n =
     (if old = new \<or> n = 0 then Some s
      else
        let m = str_Count s old in
        if m = 0 then Some s
        else
          let n = (if n < 0 \<or> int m < n then m else nat n);
              t = replicate (nat (int (length s) + int n * (int (length new) - int (length old)))) 0
          in map_option (\<lambda>(t, w). take w t) (Replace_loop s old new n True 0 (t, 0)))"

text \<open>\<open>make\<close> panics (None) for a negative length; the product wraps around.\<close>

fun Repeat_loop :: "gostring \<Rightarrow> nat \<Rightarrow> gostring \<times> nat \<Rightarrow> gostring" where
  "Repeat_loop s 0 (b, bp) = b"
| "Repeat_loop s (Suc k) (b, bp) = Repeat_loop s k (copy_to b bp s)"

definition Repeat :: "gostring \<Rightarrow> int \<Rightarrow> gostring option" where
  "Repeat s cnt =
     (let n = sint (of_int (int (length s) * cnt) :: 64 word)
      in if n < 0 then None else Some (Repeat_loop s (nat cnt) (replicate (nat n) 0, 0)))"

definition HasPrefix :: "gostring \<Rightarrow> gostring \<Rightarrow> bool" where
  "HasPrefix s prefix \<longleftrightarrow> length s \<ge> length prefix \<and> sub s 0 (length prefix) = prefix"

definition HasSuffix :: "gostring \<Rightarrow> gostring \<Rightarrow> bool" where
  "HasSuffix s suffix \<longleftrightarrow> length s \<ge> length suffix \<and> drop (length s - length suffix) s = suffix"

definition TrimPrefix :: "gostring \<Rightarrow> gostring \<Rightarrow> gostring" where
  "TrimPrefix s prefix = (if HasPrefix s prefix then drop (length prefix) s else s)"

definition TrimSuffix :: "gostring \<Rightarrow> gostring \<Rightarrow> gostring" where
  "TrimSuffix s suffix = (if HasSuffix s suffix then take (length s - length suffix) s else s)"

end
