(* ===== verification/StringSearch.thy ===== *)
theory StringSearch
  imports StringDefs
begin

text \<open>
  The searches of package strings against their definitions: \<open>Index\<close> and \<open>Count\<close> by Rabin-Karp hashing,
  \<open>LastIndex\<close> from the end, and the searches for runes. \<open>match_at\<close> says where the separator occurs;
  \<open>occurrences\<close> counts instances from the left that do not overlap.
\<close>

section \<open>The specification\<close>

definition match_at :: "'a list \<Rightarrow> 'a list \<Rightarrow> nat \<Rightarrow> bool" where
  "match_at s sep i \<longleftrightarrow> take (length sep) (drop i s) = sep"

definition opt_int :: "nat option \<Rightarrow> int" where
  "opt_int x = (case x of None \<Rightarrow> -1 | Some i \<Rightarrow> int i)"

definition first_match :: "'a list \<Rightarrow> 'a list \<Rightarrow> nat option" where
  "first_match s sep = find (match_at s sep) [0..<length s + 1]"

definition last_match :: "'a list \<Rightarrow> 'a list \<Rightarrow> nat option" where
  "last_match s sep = find (match_at s sep) (rev [0..<length s + 1])"

function occurrences :: "'a list \<Rightarrow> 'a list \<Rightarrow> nat" where
  "occurrences s sep =
     (if s = [] \<or> sep = [] then 0
      else if match_at s sep 0 then 1 + occurrences (drop (length sep) s) sep
      else occurrences (tl s) sep)"
  by pat_completeness auto
termination
proof (relation "measure (\<lambda>(s, sep). length s)")
  fix s sep :: "'a list"
  assume "\<not> (s = [] \<or> sep = [])"
  then show "((drop (length sep) s, sep), s, sep) \<in> measure (\<lambda>(s, sep). length s)"
    by (cases s; cases sep) auto
qed auto

declare occurrences.simps [simp del]

section \<open>Matches\<close>

lemma match_at_bound: "match_at s sep i \<Longrightarrow> sep \<noteq> [] \<Longrightarrow> i + length sep \<le> length s"
proof -
  assume m: "match_at s sep i" and "sep \<noteq> []"
  have "length (take (length sep) (drop i s)) = length sep" using m by (simp add: match_at_def)
  then have "length sep \<le> length s - i" by simp
  moreover have "0 < length sep" using \<open>sep \<noteq> []\<close> by simp
  ultimately show ?thesis by linarith
qed

lemma match_at_sub: "match_at s sep i \<longleftrightarrow> sub s i (i + length sep) = sep"
  by (simp add: match_at_def sub_def)

lemma match_at_drop: "match_at (drop k s) sep i = match_at s sep (k + i)"
  by (simp add: match_at_def add.commute)

lemma match_at_single: "i < length s \<Longrightarrow> match_at s [c] i \<longleftrightarrow> s ! i = c"
  by (cases "drop i s") (auto simp: match_at_def nth_via_drop)

lemma match_at_head: "match_at s sep i \<Longrightarrow> sep \<noteq> [] \<Longrightarrow> s ! i = sep ! 0"
proof -
  assume m: "match_at s sep i" and ne: "sep \<noteq> []"
  have "sep ! 0 = take (length sep) (drop i s) ! 0" using m by (simp add: match_at_def)
  also have "\<dots> = s ! i" using match_at_bound [OF m ne] ne by simp
  finally show ?thesis by simp
qed

lemma find_upt: "a < b \<Longrightarrow> find P [a..<b] = (if P a then Some a else find P [a + 1..<b])"
  by (simp add: upt_conv_Cons)

lemma find_append: "find P (xs @ ys) = (case find P xs of None \<Rightarrow> find P ys | Some x \<Rightarrow> Some x)"
  by (induction xs) auto

lemma find_none_after:
  assumes "\<And>i. b \<le> i \<Longrightarrow> i < c \<Longrightarrow> \<not> P i"
  shows "find P [a..<c] = find P [a..<min b c]"
proof (cases "b < c \<and> a \<le> b")
  case True
  then have "[a..<c] = [a..<b] @ [b..<c]" by (metis less_imp_le upt_add_eq_append le_add_diff_inverse)
  moreover have "find P [b..<c] = None" using assms by (auto simp: find_None_iff)
  ultimately show ?thesis using True by (cases "find P [a..<b]") (simp_all add: find_append)
next
  case False
  then show ?thesis using assms by (cases "b < c") (auto simp: find_None_iff min_def)
qed

section \<open>The rolling hash\<close>

lemma hash_loop_append: "hash_loop h (xs @ [c]) = hash_loop h xs * primeRK + ucast c"
  by (simp add: hash_loop_def)

lemma hash_loop_start: "hash_loop h xs = h * primeRK ^ length xs + hash_loop 0 xs"
proof (induction xs rule: rev_induct)
  case (snoc c xs)
  then show ?case by (simp add: hash_loop_append algebra_simps)
qed (simp add: hash_loop_def)

lemma hash_loop_Cons: "hash_loop 0 (x # xs) = ucast x * primeRK ^ length xs + hash_loop 0 xs"
  using hash_loop_start [of "ucast x" xs] by (simp add: hash_loop_def)

lemma pow_loop_power: "pow_loop pow sq i = pow * sq ^ i"
proof (induction pow sq i rule: pow_loop.induct)
  case (1 pow sq i)
  have e: "sq ^ i = (sq * sq) ^ (i div 2) * (if odd i then sq else 1)"
  proof -
    have "sq ^ i = sq ^ (2 * (i div 2) + i mod 2)" by simp
    also have "\<dots> = (sq * sq) ^ (i div 2) * sq ^ (i mod 2)"
      by (simp only: power_add power_mult power2_eq_square)
    finally show ?thesis by (simp add: odd_iff_mod_2_eq_one)
  qed
  show ?case
  proof (cases "i > 0")
    case True
    with 1 show ?thesis by (subst pow_loop.simps) (simp add: e algebra_simps)
  next
    case False
    then show ?thesis by (subst pow_loop.simps) simp
  qed
qed

lemma hashstr_eq: "hashstr sep = (hash_loop 0 sep, primeRK ^ length sep)"
  by (simp add: hashstr_def pow_loop_power)

text \<open>Rolling the hash of one window gives the hash of the next.\<close>

lemma roll_window:
  assumes n: "0 < n" "n \<le> i" "i < length s"
  shows "roll s n (primeRK ^ n) (hash_loop 0 (sub s (i - n) i)) i = hash_loop 0 (sub s (i + 1 - n) (i + 1))"
proof -
  let ?w = "sub s (i + 1 - n) i"
  have in_: "sub s (i - n) i = s ! (i - n) # ?w"
  proof -
    have "drop (i - n) s = s ! (i - n) # drop (i - n + 1) s" using n by (simp add: Cons_nth_drop_Suc)
    moreover have "i - (i - n) = Suc (i - (i + 1 - n))" "i - n + 1 = i + 1 - n" using n by auto
    ultimately show ?thesis unfolding sub_def by (metis take_Suc_Cons)
  qed
  have len: "length ?w = n - 1" using n by (simp add: sub_def)
  have out: "sub s (i + 1 - n) (i + 1) = ?w @ [s ! i]"
  proof -
    have "i + 1 - (i + 1 - n) = Suc (n - 1)" "i - (i + 1 - n) = n - 1" using n by auto
    moreover have "n - 1 < length (drop (i + 1 - n) s)" "drop (i + 1 - n) s ! (n - 1) = s ! i" using n by auto
    ultimately show ?thesis unfolding sub_def by (metis take_Suc_conv_app_nth)
  qed
  have "primeRK ^ n = primeRK ^ (n - 1) * primeRK" using n by (cases n) simp_all
  then show ?thesis
    unfolding roll_def in_ out hash_loop_append hash_loop_Cons len by (simp add: algebra_simps)
qed

lemma Index_loop_find:
  assumes "sep \<noteq> []" "length sep \<le> i" "i \<le> length s" "h = hash_loop 0 (sub s (i - length sep) i)"
  shows "Index_loop s sep (hash_loop 0 sep) (primeRK ^ length sep) h i =
    opt_int (find (match_at s sep) [i + 1 - length sep..<length s + 1 - length sep])"
  using assms(2-4)
proof (induction "length s - i" arbitrary: i h)
  case 0
  then show ?case by (subst Index_loop.simps) (simp add: opt_int_def)
next
  case (Suc d)
  let ?n = "length sep" and ?k = "i + 1 - length sep"
  have n: "0 < ?n" using assms(1) by simp
  have i: "i < length s" using Suc by simp
  let ?h = "hash_loop 0 (sub s ?k (i + 1))"
  have h: "roll s ?n (primeRK ^ ?n) h i = ?h"
    unfolding Suc.prems(3) by (rule roll_window) (use n i Suc.prems in auto)
  have m: "sub s ?k (i + 1) = sep \<longleftrightarrow> match_at s sep ?k"
    using Suc.prems by (simp add: match_at_sub)
  have f: "find (match_at s sep) [?k..<length s + 1 - ?n] =
      (if match_at s sep ?k then Some ?k else find (match_at s sep) [?k + 1..<length s + 1 - ?n])"
    using i Suc.prems n by (intro find_upt) linarith
  have "Index_loop s sep (hash_loop 0 sep) (primeRK ^ ?n) ?h (i + 1) =
      opt_int (find (match_at s sep) [i + 1 + 1 - ?n..<length s + 1 - ?n])"
    using Suc by (intro Suc.hyps(1)) auto
  moreover have "i + 1 + 1 - ?n = ?k + 1" using Suc.prems by simp
  ultimately show ?case
    using i m f by (subst Index_loop.simps) (auto simp: Let_def h opt_int_def)
qed

lemma IndexByte_from_find:
  "IndexByte_from (drop k s) c k = opt_int (find (match_at s [c]) [k..<length s])"
proof (induction "length s - k" arbitrary: k)
  case 0
  then show ?case by (simp add: opt_int_def)
next
  case (Suc d)
  then have k: "k < length s" by simp
  then have "drop k s = s ! k # drop (k + 1) s" by (simp add: Cons_nth_drop_Suc)
  then show ?case using k Suc(1) [of "k + 1"] Suc(2) find_upt [OF k, of "match_at s [c]"]
    by (auto simp: match_at_single opt_int_def)
qed

lemma first_match_trim:
  "sep \<noteq> [] \<Longrightarrow> first_match s sep = find (match_at s sep) [0..<length s + 1 - length sep]"
  unfolding first_match_def
  by (subst find_none_after [of "length s + 1 - length sep"]) (auto dest: match_at_bound simp: min_def)

lemma Index_first_match: "str_Index s sep = opt_int (first_match s sep)"
proof (cases "length sep \<le> 1 \<or> length s \<le> length sep")
  case True
  consider "sep = []" | c where "sep = [c]" | "1 < length sep" "length s = length sep"
    | "1 < length sep" "length s < length sep"
    using True by (cases sep; cases "tl sep"; cases "length s = length sep") auto
  then show ?thesis
  proof cases
    case 1
    then have "first_match s sep = Some 0"
      unfolding first_match_def by (subst find_upt) (simp_all add: match_at_def)
    with 1 show ?thesis by (simp add: str_Index_def opt_int_def)
  next
    case 2
    then show ?thesis using IndexByte_from_find [of 0 s c]
      by (simp add: str_Index_def IndexByte_def first_match_trim)
  next
    case 3
    then have "sep \<noteq> []" by auto
    moreover have "match_at s sep 0 \<longleftrightarrow> s = sep" using 3 by (simp add: match_at_def)
    ultimately show ?thesis using 3 by (auto simp: str_Index_def first_match_trim find_upt opt_int_def)
  next
    case 4
    then have "sep \<noteq> []" by auto
    with 4 show ?thesis by (simp add: str_Index_def first_match_trim opt_int_def)
  qed
next
  case False
  let ?n = "length sep"
  have ne: "sep \<noteq> []" using False by auto
  have sub0: "sub s (?n - ?n) ?n = take ?n s" by (simp add: sub_def)
  have "first_match s sep = (if match_at s sep 0 then Some 0 else find (match_at s sep) [1..<length s + 1 - ?n])"
    using False ne by (simp add: first_match_trim find_upt)
  moreover have "Index_loop s sep (hash_loop 0 sep) (primeRK ^ ?n) (hash_loop 0 (take ?n s)) ?n =
      opt_int (find (match_at s sep) [?n + 1 - ?n..<length s + 1 - ?n])"
    using False ne sub0 by (intro Index_loop_find) auto
  ultimately show ?thesis using False
    by (auto simp: str_Index_def hashstr_eq Let_def match_at_def opt_int_def)
qed

section \<open>Counting\<close>

lemma occurrences_short: "length s < length sep \<Longrightarrow> occurrences s sep = 0"
proof (induction s)
  case Nil
  show ?case by (subst occurrences.simps) simp
next
  case (Cons b s)
  then have "\<not> match_at (b # s) sep 0" using match_at_bound [of "b # s" sep 0] by (cases sep) auto
  with Cons show ?case by (subst occurrences.simps) simp
qed

lemma occurrences_match:
  "match_at s sep p \<Longrightarrow> sep \<noteq> [] \<Longrightarrow> occurrences (drop p s) sep = 1 + occurrences (drop (p + length sep) s) sep"
  using match_at_bound [of s sep p] 
  by (subst occurrences.simps) (cases sep; auto simp: match_at_drop add.commute)

lemma occurrences_miss:
  "\<not> match_at s sep p \<Longrightarrow> sep \<noteq> [] \<Longrightarrow> p < length s \<Longrightarrow> occurrences (drop p s) sep = occurrences (drop (p + 1) s) sep"
  by (subst occurrences.simps) (auto simp: match_at_drop drop_Suc tl_drop)

lemma Count_loop_occurrences:
  assumes "sep \<noteq> []" "length sep \<le> i" "i \<le> length s" "h = hash_loop 0 (sub s (i - length sep) i)" "lm \<le> i"
  shows "Count_loop s sep (hash_loop 0 sep) (primeRK ^ length sep) h lm i c =
    c + occurrences (drop (max lm (i + 1 - length sep)) s) sep"
  using assms(2-5)
proof (induction "length s - i" arbitrary: i h lm c)
  case 0
  then have "occurrences (drop (max lm (i + 1 - length sep)) s) sep = 0"
    using length_greater_0_conv [of sep] assms(1) by (intro occurrences_short) (simp add: max_def; linarith)
  with 0 show ?case by (subst Count_loop.simps) simp
next
  case (Suc d)
  let ?n = "length sep" and ?k = "i + 1 - length sep"
  have n: "0 < ?n" using assms(1) by simp
  have i: "i < length s" using Suc by simp
  let ?h = "hash_loop 0 (sub s ?k (i + 1))"
  have h: "roll s ?n (primeRK ^ ?n) h i = ?h"
    unfolding Suc.prems(3) by (rule roll_window) (use n i Suc.prems in auto)
  have m: "sub s ?k (i + 1) = sep \<longleftrightarrow> match_at s sep ?k"
    using Suc.prems by (simp add: match_at_sub)
  have IH: "Count_loop s sep (hash_loop 0 sep) (primeRK ^ ?n) ?h l (i + 1) c' =
      c' + occurrences (drop (max l (?k + 1)) s) sep" if "l \<le> i + 1" for l c'
  proof -
    have "i + 1 + 1 - ?n = ?k + 1" using Suc.prems by simp
    then show ?thesis using Suc.hyps(1) [of "i + 1" ?h l c'] Suc.hyps(2) Suc.prems that i by simp
  qed
  have k: "?k < length s" using i n by linarith
  have "Count_loop s sep (hash_loop 0 sep) (primeRK ^ ?n) h lm i c =
      (if lm \<le> ?k \<and> match_at s sep ?k
       then Count_loop s sep (hash_loop 0 sep) (primeRK ^ ?n) ?h (i + 1) (i + 1) (c + 1)
       else Count_loop s sep (hash_loop 0 sep) (primeRK ^ ?n) ?h lm (i + 1) c)"
    using i m by (subst Count_loop.simps) (auto simp: Let_def h)
  also have "\<dots> = c + occurrences (drop (max lm ?k) s) sep"
  proof (cases "lm \<le> ?k \<and> match_at s sep ?k")
    case True
    moreover have "?k + ?n = i + 1" "?k + 1 \<le> i + 1" using n Suc.prems(1) by linarith+
    then have "max (i + 1) (?k + 1) = ?k + ?n" by (simp only: max_absorb1)
    ultimately show ?thesis using IH [of "i + 1" "c + 1"] occurrences_match [of s sep ?k] assms(1)
      by (simp add: max_absorb2)
  next
    case False
    then consider "lm \<le> ?k" "\<not> match_at s sep ?k" | "?k < lm" by linarith
    then have "occurrences (drop (max lm (?k + 1)) s) sep = occurrences (drop (max lm ?k) s) sep"
    proof cases
      case 1
      then show ?thesis using occurrences_miss [OF 1(2) assms(1) k] by (simp add: max_absorb2)
    next
      case 2
      then show ?thesis by (simp add: max_absorb1)
    qed
    then show ?thesis unfolding if_not_P [OF False] using IH [of lm c] Suc.prems(4) by simp
  qed
  finally show ?case .
qed

lemma occurrences_single: "foldl (\<lambda>n b. if b = c then n + 1 else n) k s = k + occurrences s [c]"
proof (induction s arbitrary: k)
  case Nil
  show ?case by (subst occurrences.simps) simp
next
  case (Cons b s)
  then show ?case by (subst occurrences.simps) (simp add: match_at_def)
qed

lemma Count_occurrences: "sep \<noteq> [] \<Longrightarrow> str_Count s sep = occurrences s sep"
proof -
  assume ne: "sep \<noteq> []"
  let ?n = "length sep"
  consider c where "sep = [c]" | "1 < ?n" "length s < ?n" | "1 < ?n" "length s = ?n" | "1 < ?n" "?n < length s"
    using ne by (cases sep; cases "tl sep"; cases "length s" ?n rule: linorder_cases) auto
  then show ?thesis
  proof cases
    case 1
    then show ?thesis by (simp add: str_Count_def occurrences_single)
  next
    case 2
    then show ?thesis using ne by (simp add: str_Count_def occurrences_short)
  next
    case 3
    then have "s \<noteq> []" and m: "match_at s sep 0 \<longleftrightarrow> sep = s" by (auto simp: match_at_def)
    have z: "occurrences (drop ?n s) sep = 0" "occurrences (drop 1 s) sep = 0"
      using 3 by (auto intro!: occurrences_short)
    have "occurrences s sep = (if sep = s then 1 else 0)"
    proof (cases "sep = s")
      case True
      then show ?thesis using occurrences_match [of s sep 0] m ne z(1) by simp
    next
      case False
      then show ?thesis using occurrences_miss [of s sep 0] m ne z(2) 3 by simp
    qed
    moreover have c: "\<not> ?n = 0" "\<not> ?n = 1" "\<not> length s < ?n" "?n = length s" using 3 by auto
    have "str_Count s sep = (if sep = s then 1 else 0)"
      unfolding str_Count_def if_not_P [OF c(1)] if_not_P [OF c(2)] if_not_P [OF c(3)] if_P [OF c(4)]
      by (rule refl)
    ultimately show ?thesis by simp
  next
    case 4
    have sub0: "sub s (?n - ?n) ?n = take ?n s" by (simp add: sub_def)
    have L: "Count_loop s sep (hash_loop 0 sep) (primeRK ^ ?n) (hash_loop 0 (take ?n s)) l ?n c =
        c + occurrences (drop (max l (?n + 1 - ?n)) s) sep" if "l \<le> ?n" for l c
      using 4 ne that sub0 by (intro Count_loop_occurrences) auto
    have L1: "Count_loop s sep (hash_loop 0 sep) (primeRK ^ ?n) (hash_loop 0 (take ?n s)) ?n ?n 1 =
        1 + occurrences (drop ?n s) sep"
      using L [of ?n 1] 4 by simp
    have L0: "Count_loop s sep (hash_loop 0 sep) (primeRK ^ ?n) (hash_loop 0 (take ?n s)) 0 ?n 0 =
        occurrences (drop 1 s) sep"
      using L [of 0 0] by simp
    have sep: "\<not> ?n = 0" "\<not> ?n = 1" "\<not> length s < ?n" "\<not> ?n = length s" using 4 by auto
    show ?thesis
    proof (cases "take ?n s = sep")
      case True
      then have m: "match_at s sep 0" by (simp add: match_at_def)
      have "str_Count s sep = 1 + occurrences (drop ?n s) sep"
        unfolding str_Count_def if_not_P [OF sep(1)] if_not_P [OF sep(2)] if_not_P [OF sep(3)] if_not_P [OF sep(4)]
        using L1 by (simp add: hashstr_eq True)
      then show ?thesis using occurrences_match [OF m ne] by simp
    next
      case False
      then have m: "\<not> match_at s sep 0" by (simp add: match_at_def)
      have "str_Count s sep = occurrences (drop 1 s) sep"
        unfolding str_Count_def if_not_P [OF sep(1)] if_not_P [OF sep(2)] if_not_P [OF sep(3)] if_not_P [OF sep(4)]
        using L0 False by (simp add: hashstr_eq Let_def)
      then show ?thesis using occurrences_miss [OF m ne] 4 by fastforce
    qed
  qed
qed

section \<open>Searching from the end\<close>

lemma LastIndex_loop_find:
  assumes "1 < length sep"
  shows "LastIndex_loop s sep (sep ! 0) k = opt_int (find (match_at s sep) (rev [0..<k]))"
proof (induction k)
  case 0
  then show ?case by (simp add: opt_int_def)
next
  case (Suc k)
  have "sep \<noteq> []" using assms by auto
  then have "s ! k = sep ! 0 \<and> sub s k (k + length sep) = sep \<longleftrightarrow> match_at s sep k"
    using match_at_head [of s sep k] by (auto simp: match_at_sub)
  with Suc show ?case by (simp add: opt_int_def)
qed

lemma LastIndexByte_loop_find:
  "k \<le> length s \<Longrightarrow> LastIndexByte_loop s c k = opt_int (find (match_at s [c]) (rev [0..<k]))"
  by (induction k) (auto simp: opt_int_def match_at_single)

lemma find_rev_none_before:
  assumes "\<And>i. b \<le> i \<Longrightarrow> i < c \<Longrightarrow> \<not> P i" "b \<le> c"
  shows "find P (rev [0..<c]) = find P (rev [0..<b])"
proof -
  have "[0..<c] = [0..<b] @ [b..<c]" using assms(2) by (metis le_add_diff_inverse upt_add_eq_append le0)
  moreover have "find P (rev [b..<c]) = None" using assms(1) by (auto simp: find_None_iff)
  ultimately show ?thesis by (simp add: find_append)
qed

lemma LastIndex_last_match: "str_LastIndex s sep = opt_int (last_match s sep)"
proof -
  let ?n = "length sep"
  have trim: "last_match s sep = find (match_at s sep) (rev [0..<length s + 1 - ?n])" if "sep \<noteq> []"
    unfolding last_match_def using that
    by (intro find_rev_none_before) (auto dest: match_at_bound)
  consider "sep = []" | c where "sep = [c]" | "1 < ?n" by (cases sep; cases "tl sep") auto
  then show ?thesis
  proof cases
    case 1
    then show ?thesis by (simp add: str_LastIndex_def last_match_def match_at_def opt_int_def)
  next
    case 2
    then show ?thesis using trim by (simp add: str_LastIndex_def LastIndexByte_loop_find)
  next
    case 3
    then have "sep \<noteq> []" by auto
    moreover have "(if ?n \<le> length s then length s - ?n + 1 else 0) = length s + 1 - ?n" by auto
    ultimately show ?thesis using 3 by (simp add: str_LastIndex_def trim LastIndex_loop_find)
  qed
qed

text \<open>
  C23. The searches find what they say. Index, by Rabin-Karp hashing with its special cases, returns the
  first position where sep occurs, LastIndex the last one, and both -1 when there is none; Contains tells
  whether there is one; Count counts the instances of a non-empty sep from the left that do not overlap,
  and one more than the runes for the empty one.
\<close>

theorem string_search:
  "str_Index s sep = opt_int (first_match s sep) \<and> str_LastIndex s sep = opt_int (last_match s sep) \<and>
   (str_Contains s sep \<longleftrightarrow> (\<exists>a b. s = a @ sep @ b)) \<and>
   str_Count s sep = (if sep = [] then length (range_string s 0) + 1 else occurrences s sep)"
proof -
  have "str_Contains s sep \<longleftrightarrow> (\<exists>i \<le> length s. match_at s sep i)"
  proof -
    have "0 \<le> opt_int x \<longleftrightarrow> x \<noteq> None" for x by (cases x) (auto simp: opt_int_def)
    then have "str_Contains s sep \<longleftrightarrow> find (match_at s sep) [0..<length s + 1] \<noteq> None"
      by (simp only: str_Contains_def Index_first_match first_match_def)
    then show ?thesis by (auto simp: find_None_iff less_Suc_eq_le simp del: upt_Suc)
  qed
  also have "\<dots> \<longleftrightarrow> (\<exists>a b. s = a @ sep @ b)"
  proof
    assume "\<exists>i \<le> length s. match_at s sep i"
    then obtain i where "take (length sep) (drop i s) = sep" by (auto simp: match_at_def)
    then have "s = take i s @ sep @ drop (length sep) (drop i s)" by (metis append_take_drop_id)
    then show "\<exists>a b. s = a @ sep @ b" by blast
  next
    assume "\<exists>a b. s = a @ sep @ b"
    then obtain a b where "s = a @ sep @ b" by blast
    then show "\<exists>i \<le> length s. match_at s sep i" by (auto simp: match_at_def intro!: exI [of _ "length a"])
  qed
  finally show ?thesis
    by (simp add: Index_first_match LastIndex_last_match Count_occurrences str_Count_def [of s "[]"]
        RuneCountInString_length)
qed

end
