(* ===== verification/StringSplit.thy ===== *)
theory StringSplit
  imports StringSearch
begin

text \<open>
  Splitting, joining and replacing. \<open>split_at_most\<close> cuts a string at the first matches of the
  separator, \<open>joined\<close> puts the pieces together again; Replace is the one after the other.
\<close>

section \<open>The specification\<close>

text \<open>At most \<open>k\<close> cuts; each piece keeps \<open>sv\<close> bytes of the separator.\<close>

fun split_at_most :: "nat \<Rightarrow> nat \<Rightarrow> 'a list \<Rightarrow> 'a list \<Rightarrow> 'a list list" where
  "split_at_most sv 0 s sep = [s]"
| "split_at_most sv (Suc k) s sep =
     (case first_match s sep of
        None \<Rightarrow> [s]
      | Some i \<Rightarrow> take (i + sv) s # split_at_most sv k (drop (i + length sep) s) sep)"

fun joined :: "'a list list \<Rightarrow> 'a list \<Rightarrow> 'a list" where
  "joined [] sep = []"
| "joined [x] sep = x"
| "joined (x # y # xs) sep = x @ sep @ joined (y # xs) sep"

lemma split_at_most_ne [simp]: "split_at_most sv k s sep \<noteq> []"
  by (cases k) (auto split: option.splits)

lemma joined_Cons: "xs \<noteq> [] \<Longrightarrow> joined (x # xs) sep = x @ sep @ joined xs sep"
  by (cases xs) auto

lemma first_match_SomeD:
  assumes "first_match s sep = Some i"
  shows "match_at s sep i" "i \<le> length s" "\<And>j. j < i \<Longrightarrow> \<not> match_at s sep j"
  using assms unfolding first_match_def
  by (auto simp: find_Some_iff less_Suc_eq_le simp del: upt_Suc)

lemma first_match_NoneD: "first_match s sep = None \<Longrightarrow> sep \<noteq> [] \<Longrightarrow> \<not> match_at s sep i"
  using match_at_bound [of s sep i]
  unfolding first_match_def by (auto simp: find_None_iff simp del: upt_Suc)

lemma first_match_SomeI:
  assumes "match_at s sep i" "i \<le> length s" "\<And>j. j < i \<Longrightarrow> \<not> match_at s sep j"
  shows "first_match s sep = Some i"
  using assms unfolding first_match_def
  by (auto simp: find_Some_iff nth_append simp del: upt_Suc intro!: exI [of _ i])

lemma first_match_NoneI: "(\<And>i. i \<le> length s \<Longrightarrow> \<not> match_at s sep i) \<Longrightarrow> first_match s sep = None"
  unfolding first_match_def by (auto simp: find_None_iff simp del: upt_Suc)

lemma match_split:
  "match_at s sep i \<Longrightarrow> s = take i s @ sep @ drop (i + length sep) s"
  by (metis append_take_drop_id drop_drop add.commute match_at_def)

lemma occurrences_first_match:
  assumes "sep \<noteq> []"
  shows "occurrences s sep =
    (case first_match s sep of None \<Rightarrow> 0 | Some i \<Rightarrow> 1 + occurrences (drop (i + length sep) s) sep)"
proof -
  have skip: "occurrences (drop i s) sep = occurrences s sep"
    if "\<And>j. j < i \<Longrightarrow> \<not> match_at s sep j" "i \<le> length s" for i
    using that
  proof (induction i)
    case (Suc i)
    then show ?case using occurrences_miss [of s sep i] assms by simp
  qed simp
  show ?thesis
  proof (cases "first_match s sep")
    case None
    then have "occurrences (drop (length s) s) sep = occurrences s sep"
      using first_match_NoneD [OF None assms] by (intro skip) auto
    moreover have "occurrences [] sep = 0" by (subst occurrences.simps) simp
    ultimately show ?thesis using None by simp
  next
    case (Some i)
    note m = first_match_SomeD [OF Some]
    show ?thesis using Some skip [OF m(3,2)] occurrences_match [OF m(1) assms] by simp
  qed
qed

lemma joined_split: "joined (split_at_most 0 k s sep) sep = s"
proof (induction k arbitrary: s)
  case (Suc k)
  show ?case
  proof (cases "first_match s sep")
    case (Some i)
    then show ?thesis using Suc match_split [OF first_match_SomeD(1) [OF Some]]
      by (simp add: joined_Cons)
  qed simp
qed simp

lemma concat_split: "concat (split_at_most (length sep) k s sep) = s"
proof (induction k arbitrary: s)
  case (Suc k)
  show ?case by (cases "first_match s sep") (simp_all add: Suc)
qed simp

lemma split_more: "sep \<noteq> [] \<Longrightarrow> occurrences s sep \<le> k \<Longrightarrow>
    split_at_most sv k s sep = split_at_most sv (occurrences s sep) s sep"
proof (induction k arbitrary: s)
  case (Suc k)
  show ?case
  proof (cases "first_match s sep")
    case None
    then show ?thesis using Suc.prems by (simp add: occurrences_first_match)
  next
    case (Some i)
    then show ?thesis using Suc occurrences_first_match [OF Suc.prems(1), of s] by simp
  qed
qed simp

lemma split_pieces_free:
  assumes "sep \<noteq> []"
  shows "list_all (\<lambda>p. first_match p sep = None) (split_at_most 0 (occurrences s sep) s sep)"
proof (induction "occurrences s sep" arbitrary: s)
  case 0
  then have "first_match s sep = None"
    using occurrences_first_match [OF assms, of s] by (auto split: option.splits)
  with 0 show ?case by simp
next
  case (Suc k)
  then obtain i where i: "first_match s sep = Some i" "k = occurrences (drop (i + length sep) s) sep"
    using occurrences_first_match [OF assms, of s] by (auto split: option.splits)
  have "first_match (take i s) sep = None"
  proof (rule first_match_NoneI)
    fix j
    show "\<not> match_at (take i s) sep j"
    proof
      assume m: "match_at (take i s) sep j"
      then have "j + length sep \<le> i" using match_at_bound [OF m assms] by simp
      moreover have "0 < length sep" using assms by simp
      ultimately have "j < i" by linarith
      have "take (length sep) (drop j s) = take (length sep) (drop j (take i s))"
        using \<open>j + length sep \<le> i\<close> by (simp add: drop_take min_def)
      then have "match_at s sep j" using m by (simp add: match_at_def)
      with first_match_SomeD(3) [OF i(1) \<open>j < i\<close>] show False by simp
    qed
  qed
  with Suc i show ?case by (simp flip: Suc.hyps(2))
qed

section \<open>genSplit\<close>

text \<open>One turn of the loop: the comparison of the first byte is a short cut.\<close>

lemma genSplit_loop_step:
  assumes ne: "sep \<noteq> []" and room: "i + length sep \<le> length s \<and> int (length a) + 1 < n"
  shows "genSplit_loop s sep sv n start a i =
    (if match_at s sep i then genSplit_loop s sep sv n (i + length sep) (a @ [sub s start (i + sv)]) (i + length sep)
     else genSplit_loop s sep sv n start a (i + 1))"
proof -
  have test: "s ! i = sep ! 0 \<and> (length sep = 1 \<or> sub s i (i + length sep) = sep) \<longleftrightarrow> match_at s sep i"
  proof (cases "length sep = 1")
    case True
    then obtain c where "sep = [c]" by (cases sep) auto
    then show ?thesis using room by (simp add: match_at_single)
  next
    case False
    then show ?thesis using match_at_head [OF _ ne] by (auto simp: match_at_sub)
  qed
  have "i + (length sep - 1) + 1 = i + length sep" using ne by (cases sep) auto
  then show ?thesis by (subst genSplit_loop.simps) (simp only: test if_P [OF room])
qed

lemma no_match_left:
  assumes ne: "sep \<noteq> []" and i: "length s < i + length sep"
    and none: "\<And>j. start \<le> j \<Longrightarrow> j < i \<Longrightarrow> \<not> match_at s sep j"
  shows "first_match (drop start s) sep = None"
proof (rule first_match_NoneI)
  fix j
  show "\<not> match_at (drop start s) sep j"
  proof
    assume "match_at (drop start s) sep j"
    then have m: "match_at s sep (start + j)" by (simp add: match_at_drop)
    then have "start + j < i" using match_at_bound [OF m ne] i by linarith
    with none [of "start + j"] m show False by simp
  qed
qed

lemma genSplit_loop_split:
  assumes ne: "sep \<noteq> []"
  shows "start \<le> i \<Longrightarrow> i \<le> length s + 1 \<Longrightarrow> start \<le> length s \<Longrightarrow>
    (\<And>j. start \<le> j \<Longrightarrow> j < i \<Longrightarrow> \<not> match_at s sep j) \<Longrightarrow> int (length a) + 1 \<le> n \<Longrightarrow>
    genSplit_loop s sep sv n start a i =
      a @ split_at_most sv (nat (n - int (length a) - 1)) (drop start s) sep"
proof (induction "length s + 1 - i" arbitrary: start a i rule: less_induct)
  case less
  let ?n = "length sep"
  have n: "0 < ?n" using ne by simp
  show ?case
  proof (cases "i + ?n \<le> length s \<and> int (length a) + 1 < n")
    case True
    note step = genSplit_loop_step [OF ne True]
    show ?thesis
    proof (cases "match_at s sep i")
      case m: True
      obtain k where k: "nat (n - int (length a) - 1) = Suc k" using True by (cases "nat (n - int (length a) - 1)") auto
      have "genSplit_loop s sep sv n (i + ?n) (a @ [sub s start (i + sv)]) (i + ?n) =
          (a @ [sub s start (i + sv)]) @
            split_at_most sv (nat (n - int (length (a @ [sub s start (i + sv)])) - 1)) (drop (i + ?n) s) sep"
      proof (rule less.hyps)
        show "length s + 1 - (i + ?n) < length s + 1 - i" using True n by linarith
      qed (use True less.prems in auto)
      moreover have "nat (n - int (length (a @ [sub s start (i + sv)])) - 1) = k" using k by auto
      moreover have "first_match (drop start s) sep = Some (i - start)"
        using m less.prems True by (intro first_match_SomeI) (auto simp: match_at_drop)
      moreover have "drop (i - start + ?n) (drop start s) = drop (i + ?n) s"
        "take (i - start + sv) (drop start s) = sub s start (i + sv)"
        using less.prems by (simp_all add: sub_def add.commute)
      ultimately show ?thesis using m k unfolding step by simp
    next
      case m: False
      have "genSplit_loop s sep sv n start a (i + 1) =
          a @ split_at_most sv (nat (n - int (length a) - 1)) (drop start s) sep"
        using less.prems True m by (intro less.hyps) (auto simp: less_Suc_eq)
      then show ?thesis using m unfolding step by simp
    qed
  next
    case False
    have out: "genSplit_loop s sep sv n start a i = a @ [drop start s]"
      by (subst genSplit_loop.simps) (simp only: if_not_P [OF False])
    show ?thesis
    proof (cases "int (length a) + 1 < n")
      case True
      then have i: "length s < i + ?n" using False by auto
      have "first_match (drop start s) sep = None"
        by (rule no_match_left [OF ne i]) (use less.prems(4) in blast)
      then show ?thesis unfolding out by (cases "nat (n - int (length a) - 1)") simp_all
    next
      case False
      then have "nat (n - int (length a) - 1) = 0" by simp
      then show ?thesis unfolding out by simp
    qed
  qed
qed

lemma genSplit_split:
  assumes "sep \<noteq> []" "n \<noteq> 0"
  shows "genSplit s sep sv n =
    split_at_most sv (if n < 0 then occurrences s sep else nat n - 1) s sep"
proof -
  let ?n = "if n < 0 then int (str_Count s sep) + 1 else n"
  have "genSplit_loop s sep sv ?n 0 [] 0 = split_at_most sv (nat (?n - 1)) s sep"
    using genSplit_loop_split [OF assms(1), of 0 0 s "[]" ?n sv] assms by simp
  moreover have "nat (?n - 1) = (if n < 0 then occurrences s sep else nat n - 1)"
    using assms by (auto simp: Count_occurrences)
  ultimately show ?thesis using assms by (simp add: genSplit_def)
qed

section \<open>Join\<close>

lemma copy_to_append:
  "length x \<le> length r \<Longrightarrow> copy_to (p @ r) (length p) x = (p @ x @ drop (length x) r, length p + length x)"
  by (simp add: copy_to_def Let_def min_def)

lemma Join_loop_joined:
  "length r = length (concat (map (\<lambda>x. sep @ x) xs)) \<Longrightarrow>
   Join_loop xs sep (p @ r, length p) = (p @ concat (map (\<lambda>x. sep @ x) xs), length p + length r)"
proof (induction xs arbitrary: p r)
  case (Cons x xs)
  let ?r = "drop (length x) (drop (length sep) r)"
  have "copy_to (p @ r) (length p) sep = (p @ sep @ drop (length sep) r, length (p @ sep))"
    using Cons.prems by (subst copy_to_append) auto
  moreover have "copy_to (p @ sep @ drop (length sep) r) (length (p @ sep)) x =
      ((p @ sep @ x) @ ?r, length (p @ sep @ x))"
    using Cons.prems copy_to_append [of x "drop (length sep) r" "p @ sep"] by simp
  moreover have "length ?r = length (concat (map (\<lambda>x. sep @ x) xs))" using Cons.prems by simp
  ultimately show ?case using Cons.IH [of ?r "p @ sep @ x"] Cons.prems by simp
qed simp

lemma joined_concat: "xs \<noteq> [] \<Longrightarrow> joined xs sep = hd xs @ concat (map (\<lambda>x. sep @ x) (tl xs))"
  by (induction xs sep rule: joined.induct) auto

lemma length_foldl_add: "foldl (\<lambda>n x. n + length x) k xs = k + length (concat xs)"
  by (induction xs arbitrary: k) auto

lemma Join_joined: "Join a sep = joined a sep"
proof -
  consider "a = []" | x where "a = [x]" | x y xs where "a = x # y # xs" by (cases a; cases "tl a") auto
  then show ?thesis
  proof cases
    case 3
    let ?ys = "y # xs"
    have len: "length (concat (map (\<lambda>x. sep @ x) zs)) = length sep * length zs + length (concat zs)" for zs :: "gostring list"
      by (induction zs) auto
    define n where "n = foldl (\<lambda>n x. n + length x) (length sep * (length a - 1)) a"
    have n: "n = length x + length (concat (map (\<lambda>x. sep @ x) ?ys))"
      unfolding n_def length_foldl_add len using 3 by simp
    have "copy_to (replicate n 0) 0 x = (x @ drop (length x) (replicate n 0), length x)"
      using copy_to_append [of x "replicate n 0" "[]"] n by simp
    moreover have "fst (Join_loop ?ys sep (x @ drop (length x) (replicate n 0), length x)) =
        x @ concat (map (\<lambda>x. sep @ x) ?ys)"
      by (subst Join_loop_joined) (simp_all add: n)
    ultimately have "Join a sep = x @ concat (map (\<lambda>x. sep @ x) ?ys)"
      unfolding Join_def n_def [symmetric] Let_def using 3 by simp
    then show ?thesis using 3 joined_concat [of a sep] by simp
  qed (simp_all add: Join_def)
qed

section \<open>Replace\<close>

lemma joined_length:
  "sep \<noteq> [] \<Longrightarrow> k \<le> occurrences s sep \<Longrightarrow>
   int (length (joined (split_at_most 0 k s sep) new)) =
     int (length s) + int k * (int (length new) - int (length sep))"
proof (induction k arbitrary: s)
  case (Suc k)
  then obtain i where i: "first_match s sep = Some i" "k \<le> occurrences (drop (i + length sep) s) sep"
    using occurrences_first_match [of sep s] by (auto split: option.splits)
  have b: "i + length sep \<le> length s" using match_at_bound [OF first_match_SomeD(1) [OF i(1)] Suc.prems(1)] .
  have "int (length (joined (split_at_most 0 k (drop (i + length sep) s) sep) new)) =
      int (length s) - int i - int (length sep) + int k * (int (length new) - int (length sep))"
    using Suc.IH [OF Suc.prems(1) i(2)] b by simp
  then show ?case using i b by (simp add: joined_Cons algebra_simps)
qed simp

lemma Replace_loop_joined:
  assumes ne: "old \<noteq> []"
  shows "k \<le> occurrences (drop start s) old \<Longrightarrow>
    length r = length (joined (split_at_most 0 k (drop start s) old) new) \<Longrightarrow>
    Replace_loop s old new k first start (p @ r, length p) =
      Some (p @ joined (split_at_most 0 k (drop start s) old) new, length p + length r)"
proof (induction k arbitrary: first start p r)
  case 0
  then show ?case using copy_to_append [of "drop start s" r p] by simp
next
  case (Suc k)
  let ?t = "drop start s"
  obtain i where i: "first_match ?t old = Some i" "k \<le> occurrences (drop (i + length old) ?t) old"
    using Suc.prems(1) occurrences_first_match [OF ne, of ?t] by (auto split: option.splits)
  have idx: "str_Index ?t old = int i" by (simp add: Index_first_match i opt_int_def)
  have b: "i \<le> length ?t" by (rule first_match_SomeD(2) [OF i(1)])
  let ?x = "take i ?t" and ?q = "drop (start + i + length old) s"
  have x: "sub s start (nat (int start + int i)) = ?x" "length ?x = i" using b by (simp_all add: sub_def nat_add_distrib)
  have q: "drop (i + length old) ?t = ?q" by (simp add: ac_simps)
  have J: "joined (split_at_most 0 (Suc k) ?t old) new = ?x @ new @ joined (split_at_most 0 k ?q old) new"
    using i q by (simp add: joined_Cons)
  have r: "length r = i + length new + length (joined (split_at_most 0 k ?q old) new)"
    using Suc.prems(2) J x(2) by simp
  let ?r = "drop (length new) (drop i r)"
  have c1: "copy_to (p @ r) (length p) ?x = ((p @ ?x) @ drop i r, length (p @ ?x))"
    using copy_to_append [of ?x r p] r x(2) by simp
  have c2: "copy_to (p @ ?x @ drop i r) (length p + i) new = ((p @ ?x @ new) @ ?r, length (p @ ?x @ new))"
    using copy_to_append [of new "drop i r" "p @ ?x"] r x(2) by simp
  have "Replace_loop s old new k False (start + i + length old) ((p @ ?x @ new) @ ?r, length (p @ ?x @ new)) =
      Some ((p @ ?x @ new) @ joined (split_at_most 0 k ?q old) new, length (p @ ?x @ new) + length ?r)"
    using i(2) q r by (intro Suc.IH) auto
  moreover have "nat (int start + int i) = start + i" by simp
  ultimately show ?case
    using ne r x unfolding J Replace_loop.simps idx by (simp add: c1 c2 Let_def add.assoc)
qed

lemma Replace_joined:
  assumes ne: "old \<noteq> []"
  shows "Replace s old new n =
    Some (joined (split_at_most 0 (if n < 0 then occurrences s old else nat n) s old) new)"
proof -
  let ?m = "occurrences s old"
  have cnt: "str_Count s old = ?m" by (rule Count_occurrences [OF ne])
  consider "old = new" | "n = 0" | "old \<noteq> new" "n \<noteq> 0" "?m = 0" | "old \<noteq> new" "n \<noteq> 0" "?m \<noteq> 0" by blast
  then show ?thesis
  proof cases
    case 1
    then show ?thesis by (simp add: Replace_def joined_split)
  next
    case 2
    then show ?thesis by (simp add: Replace_def)
  next
    case 3
    then have "split_at_most 0 k s old = [s]" for k using split_more [OF ne, of s k 0] by simp
    with 3 show ?thesis by (simp add: Replace_def cnt)
  next
    case 4
    define k where "k = (if n < 0 \<or> int ?m < n then ?m else nat n)"
    have k: "k \<le> ?m" by (auto simp: k_def)
    have J: "split_at_most 0 (if n < 0 then ?m else nat n) s old = split_at_most 0 k s old"
      using split_more [OF ne, of s "nat n" 0] by (auto simp: k_def)
    let ?J = "joined (split_at_most 0 k s old) new"
    define N where "N = nat (int (length s) + int k * (int (length new) - int (length old)))"
    have N: "N = length ?J" using joined_length [OF ne k, of new] by (simp add: N_def)
    have "Replace_loop s old new k True 0 ([] @ replicate N 0, length ([] :: gostring)) =
        Some ([] @ joined (split_at_most 0 k (drop 0 s) old) new, length ([] :: gostring) + length (replicate N (0 :: byte)))"
      using k N by (intro Replace_loop_joined [OF ne]) auto
    then have "Replace_loop s old new k True 0 (replicate N 0, 0) = Some (?J, N)" by simp
    moreover have "Replace s old new n = map_option (\<lambda>(t, w). take w t) (Replace_loop s old new k True 0 (replicate N 0, 0))"
      unfolding Replace_def using 4 by (simp add: cnt k_def N_def Let_def)
    ultimately show ?thesis unfolding J by (simp add: N)
  qed
qed

section \<open>Repeat\<close>

lemma Repeat_loop_concat:
  "length r = length (concat (replicate k s)) \<Longrightarrow> Repeat_loop s k (p @ r, length p) = p @ concat (replicate k s)"
proof (induction k arbitrary: p r)
  case (Suc k)
  have "copy_to (p @ r) (length p) s = ((p @ s) @ drop (length s) r, length (p @ s))"
    using copy_to_append [of s r p] Suc.prems by simp
  then show ?case using Suc.IH [of "drop (length s) r" "p @ s"] Suc.prems by simp
qed simp

lemma sint_small64: "\<bar>x\<bar> < 2 ^ 63 \<Longrightarrow> sint (of_int x :: 64 word) = x"
  by (simp add: signed_of_int signed_take_bit_int_eq_self abs_less_iff)

section \<open>Properties\<close>

text \<open>
  C24. Splitting can be undone. For a non-empty separator, joining the pieces of Split or SplitN with the
  separator gives the string back, and the pieces of SplitAfter and SplitAfterN concatenate to it; the
  pieces of Split do not contain the separator and are one more than Count counts; SplitN returns at most
  n pieces.
\<close>

theorem split_join:
  assumes "sep \<noteq> []"
  shows "Join (Split s sep) sep = s \<and> (n \<noteq> 0 \<longrightarrow> Join (SplitN s sep n) sep = s) \<and>
    Join (SplitAfter s sep) [] = s \<and> (n \<noteq> 0 \<longrightarrow> Join (SplitAfterN s sep n) [] = s) \<and>
    list_all (\<lambda>p. \<not> str_Contains p sep) (Split s sep) \<and>
    length (Split s sep) = str_Count s sep + 1 \<and> (0 < n \<longrightarrow> int (length (SplitN s sep n)) \<le> n)"
proof -
  have len: "length (split_at_most 0 k s sep) \<le> k + 1" for k s
    by (induction k arbitrary: s) (auto split: option.splits)
  have exact: "length (split_at_most 0 k s sep) = k + 1" if "k \<le> occurrences s sep" for k s
    using that
  proof (induction k arbitrary: s)
    case (Suc k)
    then show ?case using occurrences_first_match [OF assms, of s] by (auto split: option.splits)
  qed simp
  have J0: "joined xs [] = concat xs" for xs :: "gostring list"
    by (induction xs "[] :: gostring" rule: joined.induct) auto
  have "\<not> str_Contains p sep" if "first_match p sep = None" for p
    using that by (simp add: str_Contains_def Index_first_match opt_int_def)
  then have free: "list_all (\<lambda>p. \<not> str_Contains p sep) (Split s sep)"
    using split_pieces_free [OF assms, of s] genSplit_split [OF assms, of "-1" s 0]
    by (auto simp: Split_def list_all_iff)
  have "Join (genSplit s sep 0 n) sep = s" "Join (genSplit s sep (length sep) n) [] = s" if "n \<noteq> 0" for n
    using genSplit_split [OF assms that] by (simp_all add: Join_joined joined_split concat_split J0)
  moreover have "int (length (SplitN s sep n)) \<le> n" if "0 < n"
    using genSplit_split [OF assms, of n s 0] len [of "nat n - 1" s] that by (simp add: SplitN_def)
  moreover have "length (Split s sep) = str_Count s sep + 1"
    using genSplit_split [OF assms, of "-1" s 0] exact [of "occurrences s sep" s]
    by (simp add: Split_def Count_occurrences [OF assms])
  ultimately show ?thesis
    using free by (simp add: Split_def SplitN_def SplitAfter_def SplitAfterN_def)
qed

theorem split_join_witness:
  "Join (Split [97, 44, 98, 44, 44] [44]) [44] = [97, 44, 98, 44, 44 :: byte]"
  using split_join [of "[44]" "[97, 44, 98, 44, 44]" 2] by simp

text \<open>
  Replace never panics on a non-empty old string and is splitting followed by joining: with a limit n
  it replaces the separators of the first n cuts, without a limit all of them.
\<close>

theorem replace_split_join:
  assumes "old \<noteq> []"
  shows "Replace s old new n = Some (if n < 0 then Join (Split s old) new else Join (SplitN s old (n + 1)) new)"
proof -
  have "genSplit s old 0 (-1) = split_at_most 0 (occurrences s old) s old"
    using genSplit_split [OF assms, of "-1" s 0] by simp
  moreover have "genSplit s old 0 (n + 1) = split_at_most 0 (nat n) s old" if "0 \<le> n"
    using genSplit_split [OF assms, of "n + 1" s 0] that by (simp add: nat_add_distrib)
  ultimately show ?thesis
    by (simp add: Replace_joined [OF assms] Join_joined Split_def SplitN_def)
qed

text \<open>
  Repeat returns count copies of the string when their total length fits an int, and panics when the
  count is negative.
\<close>

lemma repeat_concat:
  assumes "s \<noteq> []" "\<bar>int (length s) * c\<bar> < 2 ^ 63"
  shows "Repeat s c = (if c < 0 then None else Some (concat (replicate (nat c) s)))"
proof (cases "c < 0")
  case True
  then have "int (length s) * c < 0" using assms(1) by (simp add: mult_pos_neg)
  moreover have "sint (of_int (int (length s) * c) :: 64 word) = int (length s) * c"
    by (rule sint_small64 [OF assms(2)])
  ultimately show ?thesis using True by (simp add: Repeat_def)
next
  case False
  then have nn: "\<not> int (length s) * c < 0" by (simp add: not_less)
  have "sint (of_int (int (length s) * c) :: 64 word) = int (length s) * c"
    by (rule sint_small64 [OF assms(2)])
  moreover have "length (replicate (nat (int (length s) * c)) (0 :: byte)) = length (concat (replicate (nat c) s))"
    using False by (simp add: length_concat sum_list_replicate nat_mult_distrib mult.commute)
  ultimately show ?thesis
    using False nn Repeat_loop_concat [of "replicate (nat (int (length s) * c)) 0" "nat c" s "[]"]
    by (simp add: Repeat_def Let_def)
qed

text \<open>When the product of length and count wraps around to 0, the result is empty.\<close>

lemma repeat_wraps: "Repeat [0, 0, 0, 0] (2 ^ 62) = Some []"
proof -
  have "Repeat_loop s k ([], 0) = []" for s k
    by (induction k) (simp_all add: copy_to_def)
  then show ?thesis by (simp add: Repeat_def)
qed

end
