(* ===== verification/StringRunes.thy ===== *)
theory StringRunes
  imports StringSplit
begin

text \<open>
  The functions of package strings that work rune by rune: trimming, fields and mapping. On text in
  UTF-8 they are the corresponding functions on lists of runes, encoded.
\<close>

section \<open>The code\<close>

function indexFunc_from :: "gostring \<Rightarrow> (rune \<Rightarrow> bool) \<Rightarrow> bool \<Rightarrow> nat \<Rightarrow> int" where
  "indexFunc_from s f truth start =
     (if start < length s then
        let (r, wid) = (if s ! start \<ge> RuneSelf then DecodeRuneInString (drop start s)
                        else (ucast (s ! start), 1))
        in if f r = truth then int start else indexFunc_from s f truth (start + wid)
      else -1)"
  by pat_completeness auto
termination
proof (relation "measure (\<lambda>(s, _, _, start). length s - start)", goal_cases)
  case (2 s f truth start p r wid)
  have "0 < snd (DecodeRune (drop start s))" using 2(1) by (intro decode_size_pos) simp
  then have "0 < wid" using 2(2) by (simp add: DecodeRuneInString_eq 2(3) [symmetric] split: if_splits)
      (metis snd_conv)
  with 2(1) show ?case by simp
qed simp

declare indexFunc_from.simps [simp del]

definition indexFunc :: "gostring \<Rightarrow> (rune \<Rightarrow> bool) \<Rightarrow> bool \<Rightarrow> int" where
  "indexFunc s f truth = indexFunc_from s f truth 0"

lemma lastRune_start_le: "lastRune_start p lim k \<le> k"
  by (induction k) auto

lemma DecodeLastRuneInString_eq: "DecodeLastRuneInString s = DecodeLastRune s"
  by (simp add: DecodeLastRuneInString_def DecodeLastRune_def DecodeRuneInString_eq Let_def)

lemma decode_last_size_pos: "p \<noteq> [] \<Longrightarrow> 0 < snd (DecodeLastRune p)"
proof -
  assume p: "p \<noteq> []"
  have "lastRune_start p (length p - UTFMax) (length p - 1) < length p"
    using lastRune_start_le [of p "length p - UTFMax" "length p - 1"] p by (cases p) auto
  then show ?thesis
    using p decode_size_pos [of "drop (lastRune_start p (length p - UTFMax) (length p - 1)) p"]
    by (auto simp: DecodeLastRune_def Let_def split: prod.splits)
qed

text \<open>The loop is only entered with i at most the length of the string.\<close>

function lastIndexFunc_from :: "gostring \<Rightarrow> (rune \<Rightarrow> bool) \<Rightarrow> bool \<Rightarrow> nat \<Rightarrow> int" where
  "lastIndexFunc_from s f truth i =
     (if 0 < i \<and> i \<le> length s then
        let (r, sz) = DecodeLastRuneInString (take i s)
        in if f r = truth then int (i - sz) else lastIndexFunc_from s f truth (i - sz)
      else -1)"
  by pat_completeness auto
termination
proof (relation "measure (\<lambda>(s, _, _, i). i)", goal_cases)
  case (2 s f truth i p r sz)
  have "0 < snd (DecodeLastRune (take i s))" using 2(1) by (intro decode_last_size_pos) auto
  then have "0 < sz" using 2(2,3) by (metis DecodeLastRuneInString_eq snd_conv)
  with 2(1) show ?case by simp
qed simp

declare lastIndexFunc_from.simps [simp del]

definition lastIndexFunc :: "gostring \<Rightarrow> (rune \<Rightarrow> bool) \<Rightarrow> bool \<Rightarrow> int" where
  "lastIndexFunc s f truth = lastIndexFunc_from s f truth (length s)"

definition IndexFunc :: "gostring \<Rightarrow> (rune \<Rightarrow> bool) \<Rightarrow> int" where
  "IndexFunc s f = indexFunc s f True"

definition LastIndexFunc :: "gostring \<Rightarrow> (rune \<Rightarrow> bool) \<Rightarrow> int" where
  "LastIndexFunc s f = lastIndexFunc s f True"

definition TrimLeftFunc :: "gostring \<Rightarrow> (rune \<Rightarrow> bool) \<Rightarrow> gostring" where
  "TrimLeftFunc s f =
     (let i = indexFunc s f False in if i = -1 then [] else drop (nat i) s)"

definition TrimRightFunc :: "gostring \<Rightarrow> (rune \<Rightarrow> bool) \<Rightarrow> gostring" where
  "TrimRightFunc s f =
     (let i = lastIndexFunc s f False;
          i = (if i \<ge> 0 \<and> s ! nat i \<ge> RuneSelf
               then i + int (snd (DecodeRuneInString (drop (nat i) s)))
               else i + 1)
      in sub s 0 (nat i))"

definition TrimFunc :: "gostring \<Rightarrow> (rune \<Rightarrow> bool) \<Rightarrow> gostring" where
  "TrimFunc s f = TrimRightFunc (TrimLeftFunc s f) f"

definition makeCutsetFunc :: "gostring \<Rightarrow> rune \<Rightarrow> bool" where
  "makeCutsetFunc cutset r \<longleftrightarrow> IndexRune cutset r \<ge> 0"

definition Trim :: "gostring \<Rightarrow> gostring \<Rightarrow> gostring" where
  "Trim s cutset = (if s = [] \<or> cutset = [] then s else TrimFunc s (makeCutsetFunc cutset))"

definition TrimLeft :: "gostring \<Rightarrow> gostring \<Rightarrow> gostring" where
  "TrimLeft s cutset = (if s = [] \<or> cutset = [] then s else TrimLeftFunc s (makeCutsetFunc cutset))"

definition TrimRight :: "gostring \<Rightarrow> gostring \<Rightarrow> gostring" where
  "TrimRight s cutset = (if s = [] \<or> cutset = [] then s else TrimRightFunc s (makeCutsetFunc cutset))"

text \<open>The two loops of FieldsFunc: count the fields, then fill an array of that many entries.\<close>

fun fields_count :: "(rune \<Rightarrow> bool) \<Rightarrow> (nat \<times> rune) list \<Rightarrow> bool \<Rightarrow> nat \<Rightarrow> nat" where
  "fields_count f [] inField n = n"
| "fields_count f ((_, r) # ps) inField n =
     fields_count f ps (\<not> f r) (if \<not> f r \<and> \<not> inField then n + 1 else n)"

definition set_field :: "gostring list \<Rightarrow> nat \<Rightarrow> gostring \<Rightarrow> gostring list option" where
  "set_field a na x = (if na < length a then Some (a[na := x]) else None)"

fun fields_fill :: "gostring \<Rightarrow> (rune \<Rightarrow> bool) \<Rightarrow> (nat \<times> rune) list \<Rightarrow> gostring list \<Rightarrow> nat \<Rightarrow> int \<Rightarrow> gostring list option" where
  "fields_fill s f [] a na fieldStart =
     (if fieldStart \<ge> 0 then set_field a na (drop (nat fieldStart) s) else Some a)"
| "fields_fill s f ((i, r) # ps) a na fieldStart =
     (if f r then
        if fieldStart \<ge> 0 then
          (case set_field a na (sub s (nat fieldStart) i) of
             None \<Rightarrow> None
           | Some a' \<Rightarrow> fields_fill s f ps a' (na + 1) (-1))
        else fields_fill s f ps a na fieldStart
      else fields_fill s f ps a na (if fieldStart = -1 then int i else fieldStart))"

definition FieldsFunc :: "gostring \<Rightarrow> (rune \<Rightarrow> bool) \<Rightarrow> gostring list option" where
  "FieldsFunc s f =
     (let ps = range_string s 0; n = fields_count f ps False 0
      in fields_fill s f ps (replicate n []) 0 (-1))"

text \<open>The loop of Map: the buffer (None while it is nil), nbytes and maxbytes; None when EncodeRune panics.\<close>

fun Map_loop :: "(rune \<Rightarrow> rune) \<Rightarrow> gostring \<Rightarrow> (nat \<times> rune) list \<Rightarrow> gostring option \<Rightarrow> nat \<Rightarrow> nat \<Rightarrow> (gostring option \<times> nat) option" where
  "Map_loop mapping s [] b nbytes maxbytes = Some (b, nbytes)"
| "Map_loop mapping s ((i, c) # ps) b nbytes maxbytes =
     (let r = mapping c in
      if b = None \<and> r = c then Map_loop mapping s ps b nbytes maxbytes
      else
        let (buf, nbytes) =
              (case b of None \<Rightarrow> copy_to (replicate maxbytes 0) 0 (take i s) | Some buf \<Rightarrow> (buf, nbytes))
        in if sint r \<ge> 0 then
             let wid = (if sint r \<ge> 0x80 then RuneLen r else 1);
                 (buf, maxbytes) =
                   (if int nbytes + wid > int maxbytes then
                      let m = maxbytes * 2 + UTFMax
                      in (fst (copy_to (replicate m 0) 0 (take nbytes buf)), m)
                    else (buf, maxbytes))
             in case EncodeRune (drop nbytes buf) r of
                  None \<Rightarrow> None
                | Some (e, k) \<Rightarrow>
                    Map_loop mapping s ps (Some (take nbytes buf @ e)) (nbytes + k) maxbytes
           else Map_loop mapping s ps (Some buf) nbytes maxbytes)"

definition str_Map :: "(rune \<Rightarrow> rune) \<Rightarrow> gostring \<Rightarrow> gostring option" where
  "str_Map mapping s =
     (case Map_loop mapping s (range_string s 0) None 0 (length s) of
        None \<Rightarrow> None
      | Some (None, _) \<Rightarrow> Some s
      | Some (Some b, nbytes) \<Rightarrow> Some (take nbytes b))"

section \<open>Trimming\<close>

lemma encode_all_simps [simp]:
  "encode_all [] = []" "encode_all (r # rs) = encode_bytes r @ encode_all rs"
  "encode_all (rs @ qs) = encode_all rs @ encode_all qs"
  by (simp_all add: encode_all_def)

lemma encode_bytes_ne [simp]: "encode_bytes r \<noteq> []"
  using encode_bytes_length(1) [of r] by auto

lemma encode_all_Nil [simp]: "encode_all rs = [] \<longleftrightarrow> rs = []"
  by (cases rs) auto

text \<open>What the loops read at the start of an encoded rune.\<close>

lemma decode_at_rune:
  assumes "ValidRune r"
  shows "(if (encode_bytes r @ q) ! 0 \<ge> RuneSelf then DecodeRuneInString (encode_bytes r @ q)
      else (ucast ((encode_bytes r @ q) ! 0), 1)) = (r, length (encode_bytes r))"
proof -
  have d: "DecodeRune (encode_bytes r @ q) = (r, length (encode_bytes r))"
    using decode_encode [of r q] assms by simp
  then show ?thesis
    using DecodeRune_ascii [of "encode_bytes r @ q"] by (auto simp: DecodeRuneInString_eq not_le)
qed

lemma indexFunc_runes:
  assumes "list_all ValidRune rs"
  shows "indexFunc_from (p @ encode_all rs) f False (length p) =
    (if dropWhile f rs = [] then -1 else int (length p + length (encode_all (takeWhile f rs))))"
  using assms
proof (induction rs arbitrary: p)
  case Nil
  then show ?case by (subst indexFunc_from.simps) simp
next
  case (Cons r rs)
  let ?s = "p @ encode_all (r # rs)"
  have v: "ValidRune r" using Cons.prems by simp
  have e: "drop (length p) ?s = encode_bytes r @ encode_all rs" "?s ! length p = (encode_bytes r @ encode_all rs) ! 0"
    by (simp_all add: nth_append)
  have d: "(if ?s ! length p \<ge> RuneSelf then DecodeRuneInString (drop (length p) ?s)
      else (ucast (?s ! length p), 1)) = (r, length (encode_bytes r))"
    unfolding e by (rule decode_at_rune [OF v])
  have len: "length p < length ?s" by simp
  have "indexFunc_from ?s f False (length p) =
      (if f r = False then int (length p) else indexFunc_from ?s f False (length p + length (encode_bytes r)))"
    using len d by (subst indexFunc_from.simps) simp
  moreover have "indexFunc_from ?s f False (length p + length (encode_bytes r)) =
      (if dropWhile f rs = [] then -1
       else int (length p + length (encode_bytes r) + length (encode_all (takeWhile f rs))))"
    using Cons.IH [of "p @ encode_bytes r"] Cons.prems by simp
  ultimately show ?case by simp
qed

lemma TrimLeftFunc_runes:
  assumes "list_all ValidRune rs"
  shows "TrimLeftFunc (encode_all rs) f = encode_all (dropWhile f rs)"
proof -
  have "encode_all rs = encode_all (takeWhile f rs) @ encode_all (dropWhile f rs)"
    by (metis encode_all_simps(3) takeWhile_dropWhile_id)
  then have "drop (length (encode_all (takeWhile f rs))) (encode_all rs) = encode_all (dropWhile f rs)"
    by (metis append_eq_conv_conj)
  then show ?thesis using indexFunc_runes [OF assms, of "[]" f]
    by (cases "dropWhile f rs = []") (simp_all add: TrimLeftFunc_def indexFunc_def Let_def del: dropWhile_eq_Nil_conv)
qed

definition dropRight :: "('a \<Rightarrow> bool) \<Rightarrow> 'a list \<Rightarrow> 'a list" where
  "dropRight f xs = rev (dropWhile f (rev xs))"

lemma dropRight_snoc [simp]: "dropRight f (xs @ [x]) = (if f x then dropRight f xs else xs @ [x])"
  by (simp add: dropRight_def)

lemma dropRight_Nil [simp]: "dropRight f [] = []"
  by (simp add: dropRight_def)

lemma lastIndexFunc_runes:
  assumes "list_all ValidRune rs"
  shows "lastIndexFunc_from (encode_all rs @ q) f False (length (encode_all rs)) =
    (if dropRight f rs = [] then -1 else int (length (encode_all (butlast (dropRight f rs)))))"
  using assms
proof (induction rs arbitrary: q rule: rev_induct)
  case Nil
  then show ?case by (subst lastIndexFunc_from.simps) simp
next
  case (snoc r rs)
  let ?s = "encode_all (rs @ [r]) @ q"
  have "DecodeLastRuneInString (take (length (encode_all (rs @ [r]))) ?s) = (r, length (encode_bytes r))"
    using DecodeLastRune_encode [of r "encode_all rs"] snoc.prems by (simp add: DecodeLastRuneInString_eq)
  then have "lastIndexFunc_from ?s f False (length (encode_all (rs @ [r]))) =
      (if f r = False then int (length (encode_all rs)) else lastIndexFunc_from ?s f False (length (encode_all rs)))"
    by (subst lastIndexFunc_from.simps) (simp add: Let_def)
  moreover have "lastIndexFunc_from ?s f False (length (encode_all rs)) =
      (if dropRight f rs = [] then -1 else int (length (encode_all (butlast (dropRight f rs)))))"
    using snoc.IH [of "encode_bytes r @ q"] snoc.prems by simp
  ultimately show ?case by simp
qed

lemma dropRight_prefix: "\<exists>ys. xs = dropRight f xs @ ys"
  unfolding dropRight_def by (metis rev_append rev_rev_ident takeWhile_dropWhile_id)

lemma TrimRightFunc_runes:
  assumes rs: "list_all ValidRune rs"
  shows "TrimRightFunc (encode_all rs) f = encode_all (dropRight f rs)"
proof (cases "dropRight f rs" rule: rev_cases)
  case Nil
  then show ?thesis using lastIndexFunc_runes [OF rs, of "[]" f]
    by (simp add: TrimRightFunc_def lastIndexFunc_def Let_def sub_def)
next
  case (snoc ys r)
  obtain zs where zs: "rs = ys @ [r] @ zs" using dropRight_prefix [of rs f] snoc by auto
  then have v: "ValidRune r" using rs by simp
  let ?s = "encode_all rs" and ?i = "length (encode_all ys)"
  have i: "lastIndexFunc ?s f False = int ?i"
    using lastIndexFunc_runes [OF rs, of "[]" f] snoc by (simp add: lastIndexFunc_def)
  have s: "?s = encode_all ys @ encode_bytes r @ encode_all zs" using zs by simp
  have "?s ! ?i = (encode_bytes r @ encode_all zs) ! 0" "drop ?i ?s = encode_bytes r @ encode_all zs"
    unfolding s by (simp_all add: nth_append)
  with decode_at_rune [OF v, of "encode_all zs"]
  have w: "(if ?s ! ?i \<ge> RuneSelf then int ?i + int (snd (DecodeRuneInString (drop ?i ?s))) else int ?i + 1) =
      int (?i + length (encode_bytes r))"
    by (auto split: if_splits)
  have "TrimRightFunc ?s f = sub ?s 0 (nat (int (?i + length (encode_bytes r))))"
    unfolding TrimRightFunc_def i Let_def using w by (simp split: if_splits)
  also have "\<dots> = encode_all (ys @ [r])" unfolding s by (simp add: sub_def)
  finally show ?thesis using snoc by simp
qed

text \<open>The test for membership in a cutset.\<close>

lemma IndexByte_from_nonneg: "0 \<le> IndexByte_from s c i \<longleftrightarrow> c \<in> set s"
  by (induction s arbitrary: i) auto

lemma range_find_nonneg: "0 \<le> range_find f ps \<longleftrightarrow> (\<exists>r \<in> set (map snd ps). f r)"
  by (induction f ps rule: range_find.induct) auto

lemma range_runes:
  assumes "list_all ValidRune rs"
  shows "map snd (range_string (encode_all rs) 0) = rs"
proof -
  have "map (\<lambda>r. if ValidRune r then r else RuneError) rs = rs"
    using assms by (induction rs) auto
  then show ?thesis using range_encode_all [of "[]" rs] by simp
qed

lemma ascii_in_encode:
  assumes "ValidRune c" "b < RuneSelf"
  shows "b \<in> set (encode_bytes c) \<longleftrightarrow> c = ucast b"
proof
  assume "b \<in> set (encode_bytes c)"
  then obtain j where j: "j < length (encode_bytes c)" "encode_bytes c ! j = b" by (auto simp: in_set_conv_nth)
  then have "length (encode_bytes c) = 1" using encode_bytes_cont(2) [OF j(1)] assms(2) by simp
  then have "encode_bytes c = [b]" using j by (cases "encode_bytes c") auto
  then show "c = ucast b"
    using decode_encode [of c "[]"] assms DecodeRune_ascii [of "[b]"] by simp
next
  assume c: "c = ucast b"
  have "unat b < 0x80" using assms(2) by (simp add: RuneSelf_def word_less_nat_alt)
  then have "unat c < 0x80" using unat_ucast_byte [of b] c by simp
  then have "encode_bytes c = [ucast c]"
    by (simp add: encode_bytes_def rune1Max_def word_le_nat_alt)
  moreover have "(ucast c :: byte) = b"
    using c unat_ucast_low [of c] unat_ucast_byte [of b] unsigned_less [of b, where 'a = nat]
    by (simp add: word_unat_eq_iff)
  ultimately show "b \<in> set (encode_bytes c)" by simp
qed

lemma valid_sint: "ValidRune r \<Longrightarrow> sint r = int (unat r)"
  by (simp add: ValidRune_iff scalar_def sint_rune)

lemma makeCutsetFunc_runes:
  assumes cs: "list_all ValidRune cs" and r: "ValidRune r"
  shows "makeCutsetFunc (encode_all cs) r \<longleftrightarrow> r \<in> set cs"
proof (cases "sint r < 0x80")
  case True
  then have u: "unat r < 0x80" using valid_sint [OF r] by (simp del: of_nat_unat)
  then have b: "(ucast r :: byte) < RuneSelf" "ucast (ucast r :: byte) = r"
    using unat_ucast_low [of r] unat_ucast_byte [of "ucast r"]
    by (simp_all add: RuneSelf_def word_less_nat_alt word_unat_eq_iff)
  have "(ucast r :: byte) \<in> set (encode_all cs) \<longleftrightarrow> r \<in> set cs"
    using cs ascii_in_encode [OF _ b(1)] b(2) by (induction cs) auto
  then show ?thesis using True by (simp add: makeCutsetFunc_def IndexRune_def IndexByte_from_nonneg)
next
  case False
  then have "makeCutsetFunc (encode_all cs) r \<longleftrightarrow> (\<exists>c \<in> set (map snd (range_string (encode_all cs) 0)). c = r)"
    by (simp only: makeCutsetFunc_def IndexRune_def range_find_nonneg if_False)
  then show ?thesis using range_runes [OF cs] by simp
qed

section \<open>Fields\<close>

fun fields_of :: "(rune \<Rightarrow> bool) \<Rightarrow> rune list \<Rightarrow> rune list \<Rightarrow> rune list list" where
  "fields_of f [] cur = (if cur = [] then [] else [cur])"
| "fields_of f (r # rs) cur =
     (if f r then (if cur = [] then fields_of f rs [] else cur # fields_of f rs [])
      else fields_of f rs (cur @ [r]))"

lemma range_step:
  assumes "ValidRune r"
  shows "range_string (p @ encode_bytes r @ encode_all rs) (length p) =
    (length p, r) # range_string (p @ encode_bytes r @ encode_all rs) (length p + length (encode_bytes r))"
  using decode_encode [of r "encode_all rs"] assms
  by (subst range_string.simps) (simp add: DecodeRuneInString_eq)

lemma range_end: "range_string p (length p) = []"
  by (subst range_string.simps) simp

lemma fields_of_length: "cur \<noteq> [] \<Longrightarrow> 0 < length (fields_of f rs cur)"
  by (induction f rs cur rule: fields_of.induct) auto

lemma fields_count_runes:
  "fields_count f ps (cur \<noteq> []) n =
    n + (if cur = [] then length (fields_of f (map snd ps) cur) else length (fields_of f (map snd ps) cur) - 1)"
proof (induction ps arbitrary: cur n)
  case Nil
  then show ?case by simp
next
  case (Cons p ps)
  obtain i r where p: "p = (i, r)" by force
  have IH: "fields_count f ps True n = n + (length (fields_of f (map snd ps) (cur @ [r])) - 1)" for n cur
    using Cons.IH [of "cur @ [r]" n] by simp
  have pos: "0 < length (fields_of f (map snd ps) (cur @ [r]))" for cur by (rule fields_of_length) simp
  show ?case
  proof (cases "cur = []")
    case True
    then show ?thesis using IH [of _ "[]"] pos [of "[]"] Cons.IH [of "[]"] by (auto simp: p)
  next
    case False
    then show ?thesis using IH [of _ cur] Cons.IH [of "[]"] by (auto simp: p)
  qed
qed

lemma fields_fill_runes:
  assumes "list_all ValidRune rs" "length q = length (fields_of f rs cur)"
    "p = p0 @ encode_all cur" "fs = (if cur = [] then -1 else int (length p0))"
  shows "fields_fill (p @ encode_all rs) f (range_string (p @ encode_all rs) (length p)) (a @ q) (length a) fs =
    Some (a @ map encode_all (fields_of f rs cur))"
  using assms
proof (induction rs arbitrary: p p0 cur q a fs)
  case Nil
  have e: "range_string (p @ encode_all []) (length p) = []" by (simp add: range_end)
  show ?case
  proof (cases "cur = []")
    case True
    then show ?thesis unfolding e using Nil by simp
  next
    case False
    then obtain x where "q = [x]" using Nil by (cases q) auto
    with False show ?thesis unfolding e using Nil by (simp add: set_field_def)
  qed
next
  case (Cons r rs)
  let ?s = "p @ encode_bytes r @ encode_all rs" and ?p = "p @ encode_bytes r"
  have v: "ValidRune r" "list_all ValidRune rs" using Cons.prems by auto
  have rg: "range_string (p @ encode_all (r # rs)) (length p) = (length p, r) # range_string (?p @ encode_all rs) (length ?p)"
    using range_step [OF v(1), of p rs] by simp
  show ?case
  proof (cases "f r")
    case fr: True
    show ?thesis
    proof (cases "cur = []")
      case True
      have "fields_fill (?p @ encode_all rs) f (range_string (?p @ encode_all rs) (length ?p)) (a @ q) (length a) (-1) =
          Some (a @ map encode_all (fields_of f rs []))"
        using Cons.prems fr True v by (intro Cons.IH [of q "[]" ?p ?p]) auto
      then show ?thesis unfolding rg using fr True Cons.prems(4) by simp
    next
      case False
      then obtain x q' where q: "q = x # q'" using Cons.prems fr by (cases q) auto
      have "sub ?s (nat fs) (length p) = encode_all cur"
        using Cons.prems(3,4) False by (simp add: sub_def)
      then have st: "set_field (a @ q) (length a) (sub ?s (nat fs) (length p)) = Some ((a @ [encode_all cur]) @ q')"
        by (simp add: set_field_def q)
      have "fields_fill (?p @ encode_all rs) f (range_string (?p @ encode_all rs) (length ?p))
            ((a @ [encode_all cur]) @ q') (length (a @ [encode_all cur])) (-1) =
          Some ((a @ [encode_all cur]) @ map encode_all (fields_of f rs []))"
        using Cons.prems fr False v q by (intro Cons.IH [of q' "[]" ?p ?p]) auto
      then show ?thesis unfolding rg using fr False Cons.prems(4) st by simp
    qed
  next
    case False
    have "fields_fill (?p @ encode_all rs) f (range_string (?p @ encode_all rs) (length ?p)) (a @ q) (length a)
          (if cur @ [r] = [] then -1 else int (length p0)) =
        Some (a @ map encode_all (fields_of f rs (cur @ [r])))"
      using Cons.prems False v by (intro Cons.IH) auto
    moreover have "(if fs = -1 then int (length p) else fs) = int (length p0)" using Cons.prems(3,4) by auto
    ultimately show ?thesis unfolding rg using False by simp
  qed
qed

lemma FieldsFunc_runes:
  assumes "list_all ValidRune rs"
  shows "FieldsFunc (encode_all rs) f = Some (map encode_all (fields_of f rs []))"
proof -
  have "fields_count f (range_string (encode_all rs) 0) False 0 = length (fields_of f rs [])"
    using fields_count_runes [of f "range_string (encode_all rs) 0" "[]" 0] range_runes [OF assms] by simp
  then show ?thesis
    using fields_fill_runes [OF assms, of "replicate (length (fields_of f rs [])) []" f "[]" "[]" "[]" "-1" "[]"]
    by (simp add: FieldsFunc_def)
qed

section \<open>Map\<close>

definition kept :: "(rune \<Rightarrow> rune) \<Rightarrow> rune list \<Rightarrow> rune list" where
  "kept mapping rs = filter (\<lambda>r. 0 \<le> sint r) (map mapping rs)"

definition maps_valid :: "(rune \<Rightarrow> rune) \<Rightarrow> rune list \<Rightarrow> bool" where
  "maps_valid mapping rs \<longleftrightarrow> list_all (\<lambda>r. sint (mapping r) < 0 \<or> ValidRune (mapping r)) rs"

lemma kept_simps [simp]:
  "kept mapping [] = []"
  "kept mapping (r # rs) = (if 0 \<le> sint (mapping r) then mapping r # kept mapping rs else kept mapping rs)"
  by (simp_all add: kept_def)

text \<open>The width of a valid rune and the growth of the buffer.\<close>

lemma map_width: "ValidRune r \<Longrightarrow> (if sint r \<ge> 0x80 then RuneLen r else 1) = int (length (encode_bytes r))"
proof -
  assume r: "ValidRune r"
  have "encode_bytes r = [ucast r]" if "\<not> sint r \<ge> 0x80"
    using that valid_sint [OF r]
    by (simp add: encode_bytes_def rune1Max_def word_le_nat_alt del: of_nat_unat)
  then show ?thesis using RuneLen_encode [OF r] by auto
qed

lemma map_grow:
  fixes buf :: gostring
  assumes "n \<le> length buf" "length buf = maxb" "k \<le> UTFMax"
  shows "\<exists>buf' maxb'. (if int n + int k > int maxb
      then let m = maxb * 2 + UTFMax in (fst (copy_to (replicate m 0) 0 (take n buf)), m)
      else (buf, maxb)) = (buf', maxb') \<and> length buf' = maxb' \<and> n + k \<le> maxb' \<and> take n buf' = take n buf"
proof (cases "int n + int k > int maxb")
  case True
  let ?m = "maxb * 2 + UTFMax"
  have c: "copy_to (replicate ?m (0::byte)) 0 (take n buf) = (take n buf @ drop n (replicate ?m 0), n)"
    using copy_to_append [of "take n buf" "replicate ?m 0" "[]"] assms by (simp add: min_def)
  show ?thesis using True assms by (auto simp: c Let_def min_def)
next
  case False
  then show ?thesis using assms by auto
qed

lemma Map_loop_keep:
  assumes "ValidRune (mapping c)"
  shows "Map_loop mapping s ((i, c) # ps) (Some buf) n maxb =
    (case (if int n + int (length (encode_bytes (mapping c))) > int maxb
        then let m = maxb * 2 + UTFMax in (fst (copy_to (replicate m 0) 0 (take n buf)), m)
        else (buf, maxb)) of (buf, maxb) \<Rightarrow>
      (case EncodeRune (drop n buf) (mapping c) of
         None \<Rightarrow> None
       | Some (e, k) \<Rightarrow> Map_loop mapping s ps (Some (take n buf @ e)) (n + k) maxb))"
proof -
  have "0 \<le> sint (mapping c)" using valid_sint [OF assms] by simp
  then show ?thesis unfolding map_width [OF assms, symmetric] by (simp add: Let_def)
qed

lemma Map_loop_Some:
  assumes "list_all ValidRune rs" "maps_valid mapping rs" "length buf = maxb" "n \<le> maxb"
  shows "\<exists>buf' n'. Map_loop mapping s (range_string (p @ encode_all rs) (length p)) (Some buf) n maxb =
      Some (Some buf', n') \<and> n' \<le> length buf' \<and> take n' buf' = take n buf @ encode_all (kept mapping rs)"
  using assms
proof (induction rs arbitrary: p buf n maxb)
  case Nil
  have e: "range_string (p @ encode_all []) (length p) = []" by (simp add: range_end)
  show ?case unfolding e using Nil by simp
next
  case (Cons r rs)
  let ?p = "p @ encode_bytes r" and ?q = "mapping r"
  have v: "ValidRune r" "list_all ValidRune rs" "maps_valid mapping rs" "sint ?q < 0 \<or> ValidRune ?q"
    using Cons.prems by (auto simp: maps_valid_def)
  have rg: "range_string (p @ encode_all (r # rs)) (length p) = (length p, r) # range_string (?p @ encode_all rs) (length ?p)"
    using range_step [OF v(1), of p rs] by simp
  show ?case
  proof (cases "0 \<le> sint ?q")
    case True
    then have q: "ValidRune ?q" using v(4) by auto
    let ?k = "length (encode_bytes ?q)"
    obtain b1 m1 where g: "(if int n + int ?k > int maxb
        then let m = maxb * 2 + UTFMax in (fst (copy_to (replicate m 0) 0 (take n buf)), m)
        else (buf, maxb)) = (b1, m1)" and b1: "length b1 = m1" "n + ?k \<le> m1" "take n b1 = take n buf"
      using map_grow [of n buf maxb ?k] Cons.prems encode_bytes_length(2) [of ?q] by auto
    let ?b = "take n b1 @ encode_bytes ?q @ drop ?k (drop n b1)"
    have e: "EncodeRune (drop n b1) ?q = Some (encode_bytes ?q @ drop ?k (drop n b1), ?k)"
      using b1 by (simp add: EncodeRune_def Let_def)
    have "Map_loop mapping s (range_string (p @ encode_all (r # rs)) (length p)) (Some buf) n maxb =
        Map_loop mapping s (range_string (?p @ encode_all rs) (length ?p)) (Some ?b) (n + ?k) m1"
      unfolding rg Map_loop_keep [of mapping, OF q] g prod.case e option.case by (rule refl)
    moreover have "\<exists>buf' n'. Map_loop mapping s (range_string (?p @ encode_all rs) (length ?p)) (Some ?b) (n + ?k) m1 =
        Some (Some buf', n') \<and> n' \<le> length buf' \<and> take n' buf' = take (n + ?k) ?b @ encode_all (kept mapping rs)"
    proof (rule Cons.IH)
      show "length ?b = m1" unfolding b1(3) using b1(1,2) Cons.prems(3,4) by simp
    qed (use v b1 in auto)
    moreover have "take (n + ?k) ?b = take n buf @ encode_bytes ?q" using b1 Cons.prems by (simp add: min_def)
    ultimately show ?thesis using True by auto
  next
    case False
    have "Map_loop mapping s (range_string (p @ encode_all (r # rs)) (length p)) (Some buf) n maxb =
        Map_loop mapping s (range_string (?p @ encode_all rs) (length ?p)) (Some buf) n maxb"
      unfolding rg using False by (simp add: Let_def)
    then show ?thesis using Cons.IH [of buf maxb n ?p] v False Cons.prems by simp
  qed
qed

lemma Map_loop_None:
  assumes "list_all ValidRune rs" "maps_valid mapping rs" "s = p @ encode_all rs"
  shows "\<exists>b n. Map_loop mapping s (range_string s (length p)) None 0 (length s) = Some (b, n) \<and>
    (case b of None \<Rightarrow> kept mapping rs = rs
     | Some buf \<Rightarrow> n \<le> length buf \<and> take n buf = p @ encode_all (kept mapping rs))"
  using assms
proof (induction rs arbitrary: p)
  case Nil
  then have e: "range_string s (length p) = []" by (simp add: range_end)
  show ?case unfolding e by simp
next
  case (Cons r rs)
  let ?p = "p @ encode_bytes r"
  have v: "ValidRune r" "list_all ValidRune rs" "maps_valid mapping rs" using Cons.prems by (auto simp: maps_valid_def)
  have s: "s = ?p @ encode_all rs" using Cons.prems(3) by simp
  have rg: "range_string s (length p) = (length p, r) # range_string s (length ?p)"
    using range_step [OF v(1), of p rs] s by simp
  show ?case
  proof (cases "mapping r = r")
    case True
    then have "Map_loop mapping s (range_string s (length p)) None 0 (length s) =
        Map_loop mapping s (range_string s (length ?p)) None 0 (length s)"
      unfolding rg by simp
    moreover have "0 \<le> sint r" using valid_sint [OF v(1)] by simp
    moreover obtain b n where "Map_loop mapping s (range_string s (length ?p)) None 0 (length s) = Some (b, n)"
      "case b of None \<Rightarrow> kept mapping rs = rs
       | Some buf \<Rightarrow> n \<le> length buf \<and> take n buf = ?p @ encode_all (kept mapping rs)"
      using Cons.IH [OF v(2,3) s] by blast
    ultimately show ?thesis using True
      by (intro exI [of _ b] exI [of _ n]) (auto split: option.splits)
  next
    case False
    let ?buf = "p @ drop (length p) (replicate (length s) 0)"
    have t: "take (length p) s = p" "length p \<le> length s" using Cons.prems(3) by auto
    have c: "copy_to (replicate (length s) 0) 0 (take (length p) s) = (?buf, length p)"
      using copy_to_append [of p "replicate (length s) 0" "[]"] t by simp
    have "Map_loop mapping s (range_string s (length p)) None 0 (length s) =
        Map_loop mapping s (range_string s (length p)) (Some ?buf) (length p) (length s)"
      unfolding rg Map_loop.simps using False c by (simp add: Let_def)
    moreover have "\<exists>buf' n'. Map_loop mapping s (range_string (p @ encode_all (r # rs)) (length p)) (Some ?buf) (length p) (length s) =
        Some (Some buf', n') \<and> n' \<le> length buf' \<and>
        take n' buf' = take (length p) ?buf @ encode_all (kept mapping (r # rs))"
      using Cons.prems t by (intro Map_loop_Some) auto
    ultimately show ?thesis using Cons.prems(3) by auto
  qed
qed

lemma str_Map_runes:
  assumes "list_all ValidRune rs" "maps_valid mapping rs"
  shows "str_Map mapping (encode_all rs) = Some (encode_all (kept mapping rs))"
proof -
  obtain b n where "Map_loop mapping (encode_all rs) (range_string (encode_all rs) 0) None 0 (length (encode_all rs)) = Some (b, n)"
    "case b of None \<Rightarrow> kept mapping rs = rs | Some buf \<Rightarrow> take n buf = encode_all (kept mapping rs)"
    using Map_loop_None [OF assms, of "encode_all rs" "[]"] by (fastforce split: option.splits)
  then show ?thesis by (cases b) (simp_all add: str_Map_def)
qed

section \<open>Properties\<close>

text \<open>
  Trimming works on runes. On UTF-8 text, TrimLeft, TrimRight and Trim remove exactly the leading and
  trailing runes that the cutset contains, whatever their width, and so do the functions that take a
  predicate; TrimPrefix and TrimSuffix remove the given string if it is there.
\<close>

theorem trim_runes:
  assumes "list_all ValidRune rs" "list_all ValidRune cs"
  shows "TrimLeft (encode_all rs) (encode_all cs) = encode_all (dropWhile (\<lambda>r. r \<in> set cs) rs) \<and>
    TrimRight (encode_all rs) (encode_all cs) = encode_all (dropRight (\<lambda>r. r \<in> set cs) rs) \<and>
    Trim (encode_all rs) (encode_all cs) = encode_all (dropRight (\<lambda>r. r \<in> set cs) (dropWhile (\<lambda>r. r \<in> set cs) rs)) \<and>
    TrimFunc (encode_all rs) f = encode_all (dropRight f (dropWhile f rs)) \<and>
    TrimPrefix (s @ t) s = t \<and> TrimSuffix (t @ s) s = t"
proof -
  let ?f = "makeCutsetFunc (encode_all cs)" and ?g = "\<lambda>r. r \<in> set cs"
  have eq: "dropWhile ?f xs = dropWhile ?g xs" "dropRight ?f xs = dropRight ?g xs" if "list_all ValidRune xs" for xs
    unfolding dropRight_def
    by (auto intro!: dropWhile_cong simp: makeCutsetFunc_runes [OF assms(2)] list_all_iff that [unfolded list_all_iff])
  have sub_: "list_all ValidRune (dropWhile h rs)" for h
    using assms(1) set_dropWhileD by (fastforce simp: list_all_iff)
  note R = TrimLeftFunc_runes [OF assms(1)] TrimRightFunc_runes [OF assms(1)]
  have id: "dropWhile ?g xs = xs" "dropRight ?g xs = xs" if "cs = []" for xs
    using that by (simp_all add: dropRight_def)
  have "TrimFunc (encode_all rs) h = encode_all (dropRight h (dropWhile h rs))" for h
    by (simp add: TrimFunc_def R TrimRightFunc_runes [OF sub_])
  then show ?thesis
    using R eq [OF assms(1)] eq(2) [OF sub_] id
    by (auto simp: Trim_def TrimLeft_def TrimRight_def TrimPrefix_def TrimSuffix_def HasPrefix_def HasSuffix_def sub_def)
qed

text \<open>
  FieldsFunc splits UTF-8 text at the runes that satisfy the predicate, without index errors, and
  returns the maximal runs of the others in order. Map encodes the mapped runes, leaving out those mapped
  to a negative value, whatever the growth of the text, as long as the mapping yields negative values and
  Unicode scalar values only; with a surrogate, whose RuneLen is -1, the buffer is not grown and Map
  panics.
\<close>

theorem fields_map_runes:
  assumes "list_all ValidRune rs" "maps_valid mapping rs"
  shows "FieldsFunc (encode_all rs) f = Some (map encode_all (fields_of f rs [])) \<and>
    str_Map mapping (encode_all rs) = Some (encode_all (kept mapping rs)) \<and>
    str_Map (\<lambda>_. 0xD800) [0x61] = None"
proof -
  have "range_string [0x61] 0 = [(0, 0x61)]"
    using range_step [of "0x61" "[]" "[]"] range_end [of "[0x61]"]
    by (simp add: ValidRune_def utf8_consts encode_bytes_def)
  then have "str_Map (\<lambda>_. 0xD800) [0x61] = None"
    by (simp add: str_Map_def copy_to_def Let_def RuneLen_def EncodeRune_def encode_bytes_def utf8_consts)
  then show ?thesis using FieldsFunc_runes [OF assms(1)] str_Map_runes [OF assms] by simp
qed

end
