(* ===== verification/BufferDefs.thy ===== *)
theory BufferDefs
  imports StringRunes "HOL-Library.Monad_Syntax"
begin

text \<open>
  Package bytes' \<open>Buffer\<close> (bytes/buffer.go). The slice \<open>b.buf\<close> is its backing array from the slice's
  start to its capacity (\<open>mem\<close>, so \<open>cap(b.buf)\<close> is its length) with the slice's length; \<open>isnil\<close> marks
  the nil slice. None is a panic: a slice or an index out of range, or an explicit one. Allocation
  (\<open>makeSlice\<close>) is taken to succeed.
\<close>

datatype readOp = opInvalid | opReadRune | opRead

record Buffer =
  mem :: "byte list"
  blen :: nat
  off :: nat
  lastRead :: readOp
  isnil :: bool

datatype io_err = EOF | ErrShortWrite | NotRead | NotReadRune | Other nat

definition bootstrap_size :: nat where "bootstrap_size = 64"

definition MinRead :: nat where "MinRead = 512"

definition zero_Buffer :: Buffer where
  "zero_Buffer = \<lparr>mem = [], blen = 0, off = 0, lastRead = opInvalid, isnil = True\<rparr>"

text \<open>The slice \<open>buf\<close> of NewBuffer: its elements and the unused rest of its array.\<close>

definition NewBuffer :: "byte list \<Rightarrow> byte list \<Rightarrow> Buffer" where
  "NewBuffer buf spare = \<lparr>mem = buf @ spare, blen = length buf, off = 0, lastRead = opInvalid, isnil = False\<rparr>"

definition NewBufferString :: "byte list \<Rightarrow> Buffer" where
  "NewBufferString s = NewBuffer s []"

definition Bytes :: "Buffer \<Rightarrow> byte list" where
  "Bytes b = sub (mem b) (off b) (blen b)"

definition Buffer_String :: "Buffer option \<Rightarrow> byte list" where
  "Buffer_String b = (case b of None \<Rightarrow> [0x3C, 0x6E, 0x69, 0x6C, 0x3E] | Some b \<Rightarrow> Bytes b)"

definition Buffer_Len :: "Buffer \<Rightarrow> int" where
  "Buffer_Len b = int (blen b) - int (off b)"

text \<open>\<open>b.buf = b.buf[0:k]\<close>.\<close>

definition reslice :: "nat \<Rightarrow> Buffer \<Rightarrow> Buffer option" where
  "reslice k b = (if k \<le> length (mem b) then Some (b\<lparr>blen := k\<rparr>) else None)"

definition Truncate :: "Buffer \<Rightarrow> int \<Rightarrow> Buffer option" where
  "Truncate b n =
     (let b = b\<lparr>lastRead := opInvalid\<rparr> in
      if n < 0 \<or> n > Buffer_Len b then None
      else let b = (if n = 0 then b\<lparr>off := 0\<rparr> else b) in reslice (off b + nat n) b)"

definition Buffer_Reset :: "Buffer \<Rightarrow> Buffer option" where
  "Buffer_Reset b = Truncate b 0"

definition grow :: "Buffer \<Rightarrow> nat \<Rightarrow> (Buffer \<times> nat) option" where
  "grow b n = do {
     let m = nat (Buffer_Len b);
     b \<leftarrow> (if m = 0 \<and> off b \<noteq> 0 then Truncate b 0 else Some b);
     let b = (if blen b + n > length (mem b) then
                if isnil b \<and> n \<le> bootstrap_size then
                  b\<lparr>mem := replicate bootstrap_size 0, blen := bootstrap_size, isnil := False, off := 0\<rparr>
                else if m + n \<le> length (mem b) div 2 then
                  b\<lparr>mem := fst (copy_to (mem b) 0 (Bytes b)), blen := m, off := 0\<rparr>
                else
                  (let k = 2 * length (mem b) + n
                   in b\<lparr>mem := fst (copy_to (replicate k 0) 0 (Bytes b)), blen := k, isnil := False, off := 0\<rparr>)
              else b);
     b \<leftarrow> reslice (off b + m + n) b;
     Some (b, off b + m)
   }"

definition Grow :: "Buffer \<Rightarrow> int \<Rightarrow> Buffer option" where
  "Grow b n =
     (if n < 0 then None
      else do { (b, m) \<leftarrow> grow b (nat n); reslice m b })"

text \<open>\<open>copy(b.buf[m:], p)\<close> writes into the slice, not beyond its length.\<close>

definition copy_in :: "Buffer \<Rightarrow> nat \<Rightarrow> byte list \<Rightarrow> Buffer \<times> nat" where
  "copy_in b m p =
     (let (s, e) = copy_to (take (blen b) (mem b)) m p
      in (b\<lparr>mem := s @ drop (blen b) (mem b)\<rparr>, e - m))"

definition Write :: "Buffer \<Rightarrow> byte list \<Rightarrow> (Buffer \<times> nat) option" where
  "Write b p = do {
     (b, m) \<leftarrow> grow (b\<lparr>lastRead := opInvalid\<rparr>) (length p);
     Some (copy_in b m p)
   }"

definition WriteString :: "Buffer \<Rightarrow> byte list \<Rightarrow> (Buffer \<times> nat) option" where
  "WriteString b s = do {
     (b, m) \<leftarrow> grow (b\<lparr>lastRead := opInvalid\<rparr>) (length s);
     Some (copy_in b m s)
   }"

text \<open>
  The reader of ReadFrom is a script: the pieces it has, each with the error it returns at the end of
  the piece. A call with room for a part of a piece gives that part; after the last piece every call
  gives (0, io.EOF). So it keeps the contract of io.Reader, which stores no more than fits.
\<close>

type_synonym script = "(byte list \<times> io_err option) list"

fun read_script :: "nat \<Rightarrow> script \<Rightarrow> (byte list \<times> io_err option) \<times> script" where
  "read_script room [] = (([], Some EOF), [])"
| "read_script room ((data, e) # r) =
     (if length data \<le> room then ((data, e), r) else ((take room data, None), (drop room data, e) # r))"

text \<open>The loop has no bound of its own: None is a panic, or that it does not return.\<close>

partial_function (option) ReadFrom_loop :: "Buffer \<Rightarrow> script \<Rightarrow> nat \<Rightarrow> (Buffer \<times> nat \<times> io_err option) option" where
  "ReadFrom_loop b r n = do {
     let free = length (mem b) - blen b;
     b \<leftarrow> (if free < MinRead then
            if off b > blen b then None
            else
              let newBuf = (if off b + free < MinRead then replicate (2 * length (mem b) + MinRead) 0
                            else mem b)
              in Some (b\<lparr>mem := fst (copy_to newBuf 0 (Bytes b)), blen := blen b - off b, off := 0, isnil := False\<rparr>)
          else Some b);
     let ((data, e), r) = read_script (length (mem b) - blen b) r;
     let b = b\<lparr>mem := take (blen b) (mem b) @ data @ drop (blen b + length data) (mem b)\<rparr>;
     b \<leftarrow> reslice (blen b + length data) b;
     let n = n + length data;
     if e = Some EOF then Some (b, n, None)
     else if e \<noteq> None then Some (b, n, e)
     else ReadFrom_loop b r n
   }"

definition ReadFrom :: "Buffer \<Rightarrow> script \<Rightarrow> (Buffer \<times> nat \<times> io_err option) option" where
  "ReadFrom b r = do {
     let b = b\<lparr>lastRead := opInvalid\<rparr>;
     b \<leftarrow> (if off b \<ge> blen b then Truncate b 0 else Some b);
     ReadFrom_loop b r 0
   }"

text \<open>The writer of WriteTo maps the bytes it is given to its result, a count and an error.\<close>

definition WriteTo :: "Buffer \<Rightarrow> (byte list \<Rightarrow> nat \<times> io_err option) \<Rightarrow> (Buffer \<times> nat \<times> io_err option) option" where
  "WriteTo b w = (
     let b = b\<lparr>lastRead := opInvalid\<rparr> in
     if off b < blen b then
       let nBytes = nat (Buffer_Len b); (m, e) = w (Bytes b) in
       if m > nBytes then None
       else
         let b = b\<lparr>off := off b + m\<rparr> in
         (case e of
            Some err \<Rightarrow> Some (b, m, Some err)
          | None \<Rightarrow> if m \<noteq> nBytes then Some (b, m, Some ErrShortWrite)
                    else map_option (\<lambda>b. (b, m, None)) (Truncate b 0))
     else map_option (\<lambda>b. (b, 0, None)) (Truncate b 0))"

definition WriteByte :: "Buffer \<Rightarrow> byte \<Rightarrow> Buffer option" where
  "WriteByte b c = do {
     (b, m) \<leftarrow> grow (b\<lparr>lastRead := opInvalid\<rparr>) 1;
     (if m < blen b then Some (b\<lparr>mem := (mem b)[m := c]\<rparr>) else None)
   }"

definition WriteRune :: "Buffer \<Rightarrow> rune \<Rightarrow> (Buffer \<times> nat) option" where
  "WriteRune b r =
     (if sint r < 0x80 then do { b \<leftarrow> WriteByte b (ucast r); Some (b, 1) }
      else do {
        (rb, n) \<leftarrow> EncodeRune (replicate UTFMax 0) r;
        (b, _) \<leftarrow> Write b (take n rb);
        Some (b, n)
      })"

definition Buffer_Read :: "Buffer \<Rightarrow> nat \<Rightarrow> (Buffer \<times> byte list \<times> io_err option) option" where
  "Buffer_Read b k = do {
     let b = b\<lparr>lastRead := opInvalid\<rparr>;
     if off b \<ge> blen b then do {
       b \<leftarrow> Truncate b 0;
       if k = 0 then Some (b, [], None) else Some (b, [], Some EOF)
     } else do {
       let data = take k (Bytes b);
       let n = length data;
       let b = b\<lparr>off := off b + n\<rparr>;
       Some (if n > 0 then b\<lparr>lastRead := opRead\<rparr> else b, data, None)
     }
   }"

definition Buffer_Next :: "Buffer \<Rightarrow> int \<Rightarrow> (Buffer \<times> byte list) option" where
  "Buffer_Next b n =
     (let b = b\<lparr>lastRead := opInvalid\<rparr>;
          m = Buffer_Len b;
          n = (if n > m then m else n)
      in if n < 0 then None
         else
           let data = sub (mem b) (off b) (off b + nat n);
               b = b\<lparr>off := off b + nat n\<rparr>
           in Some (if n > 0 then b\<lparr>lastRead := opRead\<rparr> else b, data))"

definition ReadByte :: "Buffer \<Rightarrow> (Buffer \<times> byte \<times> io_err option) option" where
  "ReadByte b = do {
     let b = b\<lparr>lastRead := opInvalid\<rparr>;
     if off b \<ge> blen b then do { b \<leftarrow> Truncate b 0; Some (b, 0, Some EOF) }
     else Some (b\<lparr>off := off b + 1, lastRead := opRead\<rparr>, mem b ! off b, None)
   }"

definition ReadRune :: "Buffer \<Rightarrow> (Buffer \<times> rune \<times> nat \<times> io_err option) option" where
  "ReadRune b = do {
     let b = b\<lparr>lastRead := opInvalid\<rparr>;
     if off b \<ge> blen b then do { b \<leftarrow> Truncate b 0; Some (b, 0, 0, Some EOF) }
     else
       let b = b\<lparr>lastRead := opReadRune\<rparr>; c = mem b ! off b in
       if c < RuneSelf then Some (b\<lparr>off := off b + 1\<rparr>, ucast c, 1, None)
       else let (r, n) = DecodeRune (Bytes b) in Some (b\<lparr>off := off b + n\<rparr>, r, n, None)
   }"

definition UnreadRune :: "Buffer \<Rightarrow> Buffer \<times> io_err option" where
  "UnreadRune b =
     (if lastRead b \<noteq> opReadRune then (b, Some NotReadRune)
      else
        let b = b\<lparr>lastRead := opInvalid\<rparr> in
        (if off b > 0 then b\<lparr>off := off b - snd (DecodeLastRune (take (off b) (mem b)))\<rparr> else b, None))"

definition UnreadByte :: "Buffer \<Rightarrow> Buffer \<times> io_err option" where
  "UnreadByte b =
     (if lastRead b \<noteq> opReadRune \<and> lastRead b \<noteq> opRead then (b, Some NotRead)
      else
        let b = b\<lparr>lastRead := opInvalid\<rparr> in
        (if off b > 0 then b\<lparr>off := off b - 1\<rparr> else b, None))"

definition readSlice :: "Buffer \<Rightarrow> byte \<Rightarrow> Buffer \<times> byte list \<times> io_err option" where
  "readSlice b delim =
     (let i = IndexByte (Bytes b) delim;
          (e, err) = (if i < 0 then (blen b, Some EOF) else (off b + nat i + 1, None));
          line = sub (mem b) (off b) e
      in (b\<lparr>off := e, lastRead := opRead\<rparr>, line, err))"

definition ReadBytes :: "Buffer \<Rightarrow> byte \<Rightarrow> Buffer \<times> byte list \<times> io_err option" where
  "ReadBytes b delim = readSlice b delim"

definition ReadString :: "Buffer \<Rightarrow> byte \<Rightarrow> Buffer \<times> byte list \<times> io_err option" where
  "ReadString b delim = readSlice b delim"

end
