(* ===== verification/BytesDefs.thy ===== *)
theory BytesDefs
  imports StringRunes
begin

text \<open>
  The functions of package bytes (bytes/bytes.go). A nil and an empty slice are both the empty list, and
  a slice of the argument is its list of bytes. \<open>Equal\<close> and \<open>IndexByte\<close> are assembly (bytes_decl.go):
  equality of lists and \<open>IndexByte\<close>; their portable versions are modelled.
\<close>

lemma decode_size_le: "snd (DecodeRune p) \<le> length p"
proof -
  obtain r n where d: "DecodeRune p = (r, n)" by force
  show ?thesis
  proof (cases "r = RuneError \<and> n \<le> 1")
    case True
    then show ?thesis using d by (cases p) (auto simp: DecodeRune_def decodeRuneInternal_def)
  next
    case False
    then have "n \<le> length p" using encode_decode [OF d] by auto
    then show ?thesis using d by simp
  qed
qed

lemma decode_step:
  assumes "(r, wid) = DecodeRune (drop i s)"
  shows "i < length s \<Longrightarrow> length s - (i + wid) < length s - i"
  using decode_size_pos [of "drop i s"] assms by (metis add_gr_0 diff_less_mono2 drop_eq_Nil less_add_same_cancel1 not_le snd_conv)

lemma decode_last_step:
  assumes "(r, wid) = DecodeLastRune (take i s)"
  shows "0 < i \<Longrightarrow> i \<le> length s \<Longrightarrow> i - wid < i"
proof -
  assume "0 < i" "i \<le> length s"
  then have "take i s \<noteq> []" by auto
  then show "i - wid < i" using decode_last_size_pos [of "take i s"] assms \<open>0 < i\<close> by (metis diff_less snd_conv)
qed

section \<open>Searching\<close>

function equal_from :: "byte list \<Rightarrow> byte list \<Rightarrow> nat \<Rightarrow> bool" where
  "equal_from a b i =
     (if i < length a then if a ! i \<noteq> b ! i then False else equal_from a b (i + 1) else True)"
  by pat_completeness auto
termination by (relation "measure (\<lambda>(a, b, i). length a - i)") auto

declare equal_from.simps [simp del]

definition equalPortable :: "byte list \<Rightarrow> byte list \<Rightarrow> bool" where
  "equalPortable a b = (if length a \<noteq> length b then False else equal_from a b 0)"

fun indexByte_range :: "byte list \<Rightarrow> byte \<Rightarrow> nat \<Rightarrow> int" where
  "indexByte_range [] c i = -1"
| "indexByte_range (b # s) c i = (if b = c then int i else indexByte_range s c (i + 1))"

definition indexBytePortable :: "byte list \<Rightarrow> byte \<Rightarrow> int" where
  "indexBytePortable s c = indexByte_range s c 0"

text \<open>In Count and Index: go on from i to the next byte c of t; None where the loop is left.\<close>

definition skip_to :: "byte list \<Rightarrow> byte \<Rightarrow> nat \<Rightarrow> nat option" where
  "skip_to t c i =
     (if t ! i \<noteq> c then
        let j = IndexByte (drop i t) c in if j < 0 then None else Some (i + nat j)
      else Some i)"

lemma skip_to_ge: "skip_to t c i = Some k \<Longrightarrow> i \<le> k"
  by (auto simp: skip_to_def Let_def split: if_splits)

lemma skip_step: "skip_to t c i = Some k \<Longrightarrow> i < length t \<Longrightarrow> m \<noteq> [] \<Longrightarrow> length t - (k + length m) < length t - i"
  by (drule skip_to_ge) (cases m; simp)

text \<open>The separator is not empty in these loops.\<close>

function bytes_Count_loop :: "byte list \<Rightarrow> byte list \<Rightarrow> byte list \<Rightarrow> nat \<Rightarrow> nat \<Rightarrow> nat" where
  "bytes_Count_loop s sep t i cnt =
     (if i < length t \<and> sep \<noteq> [] then
        case skip_to t (sep ! 0) i of
          None \<Rightarrow> cnt
        | Some i \<Rightarrow>
            if length sep = 1 \<or> sub s i (i + length sep) = sep
            then bytes_Count_loop s sep t (i + length sep) (cnt + 1)
            else bytes_Count_loop s sep t (i + 1) cnt
      else cnt)"
  by pat_completeness auto
termination
  by (relation "measure (\<lambda>(s, sep, t, i, cnt). length t - i)")
    (auto intro: skip_step dest: skip_to_ge)

declare bytes_Count_loop.simps [simp del]

definition bytes_Count :: "byte list \<Rightarrow> byte list \<Rightarrow> nat" where
  "bytes_Count s sep =
     (let n = length sep in
      if n = 0 then RuneCount s + 1
      else if n > length s then 0
      else bytes_Count_loop s sep (take (length s - n + 1) s) 0 0)"

function bytes_Index_loop :: "byte list \<Rightarrow> byte list \<Rightarrow> byte list \<Rightarrow> nat \<Rightarrow> int" where
  "bytes_Index_loop s sep t i =
     (if i < length t then
        case skip_to t (sep ! 0) i of
          None \<Rightarrow> -1
        | Some i \<Rightarrow>
            if sub s i (i + length sep) = sep then int i else bytes_Index_loop s sep t (i + 1)
      else -1)"
  by pat_completeness auto
termination
  by (relation "measure (\<lambda>(s, sep, t, i). length t - i)") (auto dest!: skip_to_ge)

declare bytes_Index_loop.simps [simp del]

definition bytes_Index :: "byte list \<Rightarrow> byte list \<Rightarrow> int" where
  "bytes_Index s sep =
     (let n = length sep in
      if n = 0 then 0
      else if n > length s then -1
      else if n = 1 then IndexByte s (sep ! 0)
      else bytes_Index_loop s sep (take (length s - n + 1) s) 0)"

definition bytes_Contains :: "byte list \<Rightarrow> byte list \<Rightarrow> bool" where
  "bytes_Contains b subslice \<longleftrightarrow> bytes_Index b subslice \<noteq> -1"

text \<open>The loop of LastIndex runs i down from \<open>k - 1\<close>.\<close>

fun bytes_LastIndex_loop :: "byte list \<Rightarrow> byte list \<Rightarrow> nat \<Rightarrow> int" where
  "bytes_LastIndex_loop s sep 0 = -1"
| "bytes_LastIndex_loop s sep (Suc i) =
     (if s ! i = sep ! 0 \<and> (length sep = 1 \<or> sub s i (i + length sep) = sep) then int i
      else bytes_LastIndex_loop s sep i)"

definition bytes_LastIndex :: "byte list \<Rightarrow> byte list \<Rightarrow> int" where
  "bytes_LastIndex s sep =
     (let n = length sep in
      if n = 0 then int (length s)
      else bytes_LastIndex_loop s sep (if n \<le> length s then length s - n + 1 else 0))"

function bytes_IndexRune_from :: "byte list \<Rightarrow> rune \<Rightarrow> nat \<Rightarrow> int" where
  "bytes_IndexRune_from s r i =
     (if i < length s then
        let (r1, sz) = DecodeRune (drop i s)
        in if r = r1 then int i else bytes_IndexRune_from s r (i + sz)
      else -1)"
  by pat_completeness auto
termination
  by (relation "measure (\<lambda>(s, r, i). length s - i)") (auto dest!: decode_step)

definition bytes_IndexRune :: "byte list \<Rightarrow> rune \<Rightarrow> int" where
  "bytes_IndexRune s r = bytes_IndexRune_from s r 0"

text \<open>The inner loop \<open>for _, ch := range chars\<close>.\<close>

definition in_chars :: "gostring \<Rightarrow> rune \<Rightarrow> bool" where
  "in_chars chars r \<longleftrightarrow> list_ex (\<lambda>(_, ch). r = ch) (range_string chars 0)"

function bytes_IndexAny_from :: "byte list \<Rightarrow> gostring \<Rightarrow> nat \<Rightarrow> int" where
  "bytes_IndexAny_from s chars i =
     (if i < length s then
        let (r, width) = (if s ! i < RuneSelf then (ucast (s ! i), 1) else DecodeRune (drop i s))
        in if in_chars chars r then int i else bytes_IndexAny_from s chars (i + width)
      else -1)"
  by pat_completeness auto
termination
  by (relation "measure (\<lambda>(s, chars, i). length s - i)") (auto dest!: decode_step split: if_splits)

definition bytes_IndexAny :: "byte list \<Rightarrow> gostring \<Rightarrow> int" where
  "bytes_IndexAny s chars = (if length chars > 0 then bytes_IndexAny_from s chars 0 else -1)"

function bytes_LastIndexAny_from :: "byte list \<Rightarrow> gostring \<Rightarrow> nat \<Rightarrow> int" where
  "bytes_LastIndexAny_from s chars i =
     (if 0 < i \<and> i \<le> length s then
        let (r, sz) = DecodeLastRune (take i s)
        in if in_chars chars r then int (i - sz) else bytes_LastIndexAny_from s chars (i - sz)
      else -1)"
  by pat_completeness auto
termination
  by (relation "measure (\<lambda>(s, chars, i). i)") (auto dest!: decode_last_step)

definition bytes_LastIndexAny :: "byte list \<Rightarrow> gostring \<Rightarrow> int" where
  "bytes_LastIndexAny s chars = (if length chars > 0 then bytes_LastIndexAny_from s chars (length s) else -1)"

declare bytes_IndexRune_from.simps [simp del] bytes_IndexAny_from.simps [simp del] bytes_LastIndexAny_from.simps [simp del]

section \<open>Splitting, joining and fields\<close>

function bytes_explode_loop :: "byte list \<Rightarrow> int \<Rightarrow> byte list list \<Rightarrow> byte list list" where
  "bytes_explode_loop s n a =
     (if length s > 0 then
        if int (length a) + 1 \<ge> n then a @ [s]
        else let sz = snd (DecodeRune s) in bytes_explode_loop (drop sz s) n (a @ [take sz s])
      else a)"
  by pat_completeness auto
termination
  by (relation "measure (\<lambda>(s, n, a). length s)") (auto simp: decode_size_pos)

declare bytes_explode_loop.simps [simp del]

definition bytes_explode :: "byte list \<Rightarrow> int \<Rightarrow> byte list list" where
  "bytes_explode s n = bytes_explode_loop s (if n \<le> 0 then int (length s) else n) []"

function bytes_genSplit_loop :: "byte list \<Rightarrow> byte list \<Rightarrow> nat \<Rightarrow> int \<Rightarrow> nat \<Rightarrow> byte list list \<Rightarrow> nat \<Rightarrow> byte list list" where
  "bytes_genSplit_loop s sep sepSave n start a i =
     (if i + length sep \<le> length s \<and> int (length a) + 1 < n then
        if s ! i = sep ! 0 \<and> (length sep = 1 \<or> sub s i (i + length sep) = sep)
        then bytes_genSplit_loop s sep sepSave n (i + length sep) (a @ [sub s start (i + sepSave)])
               (i + (length sep - 1) + 1)
        else bytes_genSplit_loop s sep sepSave n start a (i + 1)
      else a @ [drop start s])"
  by pat_completeness auto
termination by (relation "measure (\<lambda>(s, sep, _, _, _, _, i). length s + 1 - i)") auto

declare bytes_genSplit_loop.simps [simp del]

definition bytes_genSplit :: "byte list \<Rightarrow> byte list \<Rightarrow> nat \<Rightarrow> int \<Rightarrow> byte list list" where
  "bytes_genSplit s sep sepSave n =
     (if n = 0 then []
      else if length sep = 0 then bytes_explode s n
      else
        let n = (if n < 0 then int (bytes_Count s sep) + 1 else n)
        in bytes_genSplit_loop s sep sepSave n 0 [] 0)"

definition bytes_SplitN :: "byte list \<Rightarrow> byte list \<Rightarrow> int \<Rightarrow> byte list list" where
  "bytes_SplitN s sep n = bytes_genSplit s sep 0 n"

definition bytes_SplitAfterN :: "byte list \<Rightarrow> byte list \<Rightarrow> int \<Rightarrow> byte list list" where
  "bytes_SplitAfterN s sep n = bytes_genSplit s sep (length sep) n"

definition bytes_Split :: "byte list \<Rightarrow> byte list \<Rightarrow> byte list list" where
  "bytes_Split s sep = bytes_genSplit s sep 0 (-1)"

definition bytes_SplitAfter :: "byte list \<Rightarrow> byte list \<Rightarrow> byte list list" where
  "bytes_SplitAfter s sep = bytes_genSplit s sep (length sep) (-1)"

text \<open>The two loops of FieldsFunc. In the second one a is the part \<open>a[0:na]\<close> of an array of n slices.\<close>

function bytes_fields_count :: "byte list \<Rightarrow> (rune \<Rightarrow> bool) \<Rightarrow> nat \<Rightarrow> bool \<Rightarrow> nat \<Rightarrow> nat" where
  "bytes_fields_count s f i inField n =
     (if i < length s then
        let (r, sz) = DecodeRune (drop i s);
            wasInField = inField; inField = (\<not> f r)
        in bytes_fields_count s f (i + sz) inField (if inField \<and> \<not> wasInField then n + 1 else n)
      else n)"
  by pat_completeness auto
termination
  by (relation "measure (\<lambda>(s, f, i, inField, n). length s - i)") (auto dest!: decode_step)

function bytes_fields_fill :: "byte list \<Rightarrow> (rune \<Rightarrow> bool) \<Rightarrow> nat \<Rightarrow> byte list list \<Rightarrow> nat \<Rightarrow> int \<Rightarrow> byte list list" where
  "bytes_fields_fill s f n a i fieldStart =
     (if i \<le> length s \<and> length a < n then
        let (r, sz) = DecodeRune (drop i s)
        in if fieldStart < 0 \<and> sz > 0 \<and> \<not> f r then bytes_fields_fill s f n a (i + sz) (int i)
           else
             let (a, fieldStart) =
                   (if fieldStart \<ge> 0 \<and> (sz = 0 \<or> f r) then (a @ [sub s (nat fieldStart) i], -1)
                    else (a, fieldStart))
             in if sz = 0 then a else bytes_fields_fill s f n a (i + sz) fieldStart
      else a)"
  by pat_completeness auto
termination
  by (relation "measure (\<lambda>(s, f, n, a, i, fieldStart). Suc (length s) - i)") auto

declare bytes_fields_count.simps [simp del] bytes_fields_fill.simps [simp del]

definition bytes_FieldsFunc :: "byte list \<Rightarrow> (rune \<Rightarrow> bool) \<Rightarrow> byte list list" where
  "bytes_FieldsFunc s f = bytes_fields_fill s f (bytes_fields_count s f 0 False 0) [] 0 (-1)"

fun bytes_Join_loop :: "byte list list \<Rightarrow> byte list \<Rightarrow> byte list \<Rightarrow> nat \<Rightarrow> byte list" where
  "bytes_Join_loop [] sep b bp = b"
| "bytes_Join_loop (v # vs) sep b bp =
     (let (b, bp) = copy_to b bp sep;
          (b, bp) = copy_to b bp v
      in bytes_Join_loop vs sep b bp)"

definition bytes_Join :: "byte list list \<Rightarrow> byte list \<Rightarrow> byte list" where
  "bytes_Join s sep =
     (if length s = 0 then []
      else if length s = 1 then s ! 0
      else
        let n = foldl (\<lambda>n v. n + length v) (length sep * (length s - 1)) s;
            (b, bp) = copy_to (replicate n 0) 0 (s ! 0)
        in bytes_Join_loop (tl s) sep b bp)"

definition bytes_HasPrefix :: "byte list \<Rightarrow> byte list \<Rightarrow> bool" where
  "bytes_HasPrefix s prefix \<longleftrightarrow> length s \<ge> length prefix \<and> sub s 0 (length prefix) = prefix"

definition bytes_HasSuffix :: "byte list \<Rightarrow> byte list \<Rightarrow> bool" where
  "bytes_HasSuffix s suffix \<longleftrightarrow> length s \<ge> length suffix \<and> drop (length s - length suffix) s = suffix"

section \<open>Mapping, repeating and replacing\<close>

function bytes_Map_loop :: "(rune \<Rightarrow> rune) \<Rightarrow> byte list \<Rightarrow> nat \<Rightarrow> byte list \<Rightarrow> nat \<Rightarrow> nat \<Rightarrow> byte list option" where
  "bytes_Map_loop mapping s i b nbytes maxbytes =
     (if i < length s then
        let (r, wid) = (if s ! i \<ge> RuneSelf then DecodeRune (drop i s) else (ucast (s ! i), 1));
            r = mapping r
        in if sint r \<ge> 0 then
             let (b, maxbytes) =
                   (if int nbytes + RuneLen r > int maxbytes then
                      let m = maxbytes * 2 + UTFMax
                      in (fst (copy_to (replicate m 0) 0 (take nbytes b)), m)
                    else (b, maxbytes))
             in case EncodeRune (sub b nbytes maxbytes) r of
                  None \<Rightarrow> None
                | Some (e, k) \<Rightarrow>
                    bytes_Map_loop mapping s (i + wid) (take nbytes b @ e @ drop maxbytes b) (nbytes + k) maxbytes
           else bytes_Map_loop mapping s (i + wid) b nbytes maxbytes
      else Some (take nbytes b))"
  by pat_completeness auto
termination
  by (relation "measure (\<lambda>(mapping, s, i, b, nbytes, maxbytes). length s - i)")
    (auto split: if_splits dest!: decode_step)

declare bytes_Map_loop.simps [simp del]

definition bytes_Map :: "(rune \<Rightarrow> rune) \<Rightarrow> byte list \<Rightarrow> byte list option" where
  "bytes_Map mapping s = bytes_Map_loop mapping s 0 (replicate (length s) 0) 0 (length s)"

text \<open>\<open>make\<close> panics (None) for a negative length; the product wraps around.\<close>

fun bytes_Repeat_loop :: "byte list \<Rightarrow> nat \<Rightarrow> byte list \<Rightarrow> nat \<Rightarrow> byte list" where
  "bytes_Repeat_loop b 0 nb bp = nb"
| "bytes_Repeat_loop b (Suc k) nb bp = (let (nb, bp) = copy_to nb bp b in bytes_Repeat_loop b k nb bp)"

definition bytes_Repeat :: "byte list \<Rightarrow> int \<Rightarrow> byte list option" where
  "bytes_Repeat b cnt =
     (let n = sint (of_int (int (length b) * cnt) :: 64 word)
      in if n < 0 then None else Some (bytes_Repeat_loop b (nat cnt) (replicate (nat n) 0) 0))"

text \<open>The argument k counts the replacements left; a slice \<open>s[start:j]\<close> with j before start panics (None).\<close>

fun bytes_Replace_loop :: "byte list \<Rightarrow> byte list \<Rightarrow> byte list \<Rightarrow> nat \<Rightarrow> bool \<Rightarrow> nat \<Rightarrow> byte list \<Rightarrow> nat \<Rightarrow> byte list option" where
  "bytes_Replace_loop s old new 0 first start t w =
     (let (t, w) = copy_to t w (drop start s) in Some (take w t))"
| "bytes_Replace_loop s old new (Suc k) first start t w =
     (let j = (if length old = 0
               then (if first then int start else int start + int (snd (DecodeRune (drop start s))))
               else int start + bytes_Index (drop start s) old)
      in if j < int start then None
         else
           let (t, w) = copy_to t w (sub s start (nat j));
               (t, w) = copy_to t w new
           in bytes_Replace_loop s old new k False (nat j + length old) t w)"

definition bytes_Replace :: "byte list \<Rightarrow> byte list \<Rightarrow> byte list \<Rightarrow> int \<Rightarrow> byte list option" where
  "bytes_Replace s old new n =
     (let m = (if n \<noteq> 0 then bytes_Count s old else 0) in
      if m = 0 then Some s
      else
        let n = (if n < 0 \<or> int m < n then m else nat n);
            t = replicate (nat (int (length s) + int n * (int (length new) - int (length old)))) 0
        in bytes_Replace_loop s old new n True 0 t 0)"

section \<open>Trimming and runes\<close>

function bytes_indexFunc_from :: "byte list \<Rightarrow> (rune \<Rightarrow> bool) \<Rightarrow> bool \<Rightarrow> nat \<Rightarrow> int" where
  "bytes_indexFunc_from s f truth start =
     (if start < length s then
        let (r, wid) = (if s ! start \<ge> RuneSelf then DecodeRune (drop start s) else (ucast (s ! start), 1))
        in if f r = truth then int start else bytes_indexFunc_from s f truth (start + wid)
      else -1)"
  by pat_completeness auto
termination
  by (relation "measure (\<lambda>(s, f, truth, start). length s - start)") (auto dest!: decode_step split: if_splits)

definition bytes_indexFunc :: "byte list \<Rightarrow> (rune \<Rightarrow> bool) \<Rightarrow> bool \<Rightarrow> int" where
  "bytes_indexFunc s f truth = bytes_indexFunc_from s f truth 0"

function bytes_lastIndexFunc_from :: "byte list \<Rightarrow> (rune \<Rightarrow> bool) \<Rightarrow> bool \<Rightarrow> nat \<Rightarrow> int" where
  "bytes_lastIndexFunc_from s f truth i =
     (if 0 < i \<and> i \<le> length s then
        let (r, sz) = (if s ! (i - 1) \<ge> RuneSelf then DecodeLastRune (take i s) else (ucast (s ! (i - 1)), 1))
        in if f r = truth then int (i - sz) else bytes_lastIndexFunc_from s f truth (i - sz)
      else -1)"
  by pat_completeness auto
termination
  by (relation "measure (\<lambda>(s, f, truth, i). i)") (auto dest!: decode_last_step split: if_splits)

declare bytes_indexFunc_from.simps [simp del] bytes_lastIndexFunc_from.simps [simp del]

definition bytes_lastIndexFunc :: "byte list \<Rightarrow> (rune \<Rightarrow> bool) \<Rightarrow> bool \<Rightarrow> int" where
  "bytes_lastIndexFunc s f truth = bytes_lastIndexFunc_from s f truth (length s)"

definition bytes_IndexFunc :: "byte list \<Rightarrow> (rune \<Rightarrow> bool) \<Rightarrow> int" where
  "bytes_IndexFunc s f = bytes_indexFunc s f True"

definition bytes_LastIndexFunc :: "byte list \<Rightarrow> (rune \<Rightarrow> bool) \<Rightarrow> int" where
  "bytes_LastIndexFunc s f = bytes_lastIndexFunc s f True"

definition bytes_TrimLeftFunc :: "byte list \<Rightarrow> (rune \<Rightarrow> bool) \<Rightarrow> byte list" where
  "bytes_TrimLeftFunc s f =
     (let i = bytes_indexFunc s f False in if i = -1 then [] else drop (nat i) s)"

definition bytes_TrimRightFunc :: "byte list \<Rightarrow> (rune \<Rightarrow> bool) \<Rightarrow> byte list" where
  "bytes_TrimRightFunc s f =
     (let i = bytes_lastIndexFunc s f False;
          i = (if i \<ge> 0 \<and> s ! nat i \<ge> RuneSelf then i + int (snd (DecodeRune (drop (nat i) s))) else i + 1)
      in sub s 0 (nat i))"

definition bytes_TrimFunc :: "byte list \<Rightarrow> (rune \<Rightarrow> bool) \<Rightarrow> byte list" where
  "bytes_TrimFunc s f = bytes_TrimRightFunc (bytes_TrimLeftFunc s f) f"

definition bytes_TrimPrefix :: "byte list \<Rightarrow> byte list \<Rightarrow> byte list" where
  "bytes_TrimPrefix s prefix = (if bytes_HasPrefix s prefix then drop (length prefix) s else s)"

definition bytes_TrimSuffix :: "byte list \<Rightarrow> byte list \<Rightarrow> byte list" where
  "bytes_TrimSuffix s suffix = (if bytes_HasSuffix s suffix then take (length s - length suffix) s else s)"

definition bytes_makeCutsetFunc :: "gostring \<Rightarrow> rune \<Rightarrow> bool" where
  "bytes_makeCutsetFunc cutset r \<longleftrightarrow> list_ex (\<lambda>(_, c). c = r) (range_string cutset 0)"

definition bytes_Trim :: "byte list \<Rightarrow> gostring \<Rightarrow> byte list" where
  "bytes_Trim s cutset = bytes_TrimFunc s (bytes_makeCutsetFunc cutset)"

definition bytes_TrimLeft :: "byte list \<Rightarrow> gostring \<Rightarrow> byte list" where
  "bytes_TrimLeft s cutset = bytes_TrimLeftFunc s (bytes_makeCutsetFunc cutset)"

definition bytes_TrimRight :: "byte list \<Rightarrow> gostring \<Rightarrow> byte list" where
  "bytes_TrimRight s cutset = bytes_TrimRightFunc s (bytes_makeCutsetFunc cutset)"

text \<open>Runes stores into an array of RuneCount(s) runes; an index out of range is None.\<close>

function Runes_loop :: "byte list \<Rightarrow> rune list \<Rightarrow> nat \<Rightarrow> rune list option" where
  "Runes_loop s t i =
     (if length s > 0 then
        let (r, l) = DecodeRune s
        in if i < length t then Runes_loop (drop l s) (t[i := r]) (i + 1) else None
      else Some t)"
  by pat_completeness auto
termination
proof (relation "measure (\<lambda>(s, t, i). length s)", goal_cases)
  case (2 s t i x r l)
  then have "0 < l" using decode_size_pos [of s] by (metis length_greater_0_conv snd_conv)
  with 2(1) show ?case by simp
qed simp

declare Runes_loop.simps [simp del]

definition Runes :: "byte list \<Rightarrow> rune list option" where
  "Runes s = Runes_loop s (replicate (RuneCount s) 0) 0"

end
