(* ===== verification/Buffer.thy ===== *)
theory Buffer
  imports BufferDefs BytesDefs
begin

text \<open>
  \<open>bytes.Buffer\<close> is a queue of bytes: its contents are the unread bytes, writes append to them, reads
  take from their front, and an unread operation puts back what the last read took.
\<close>

section \<open>The invariant\<close>

definition buf_inv :: "Buffer \<Rightarrow> bool" where
  "buf_inv b \<longleftrightarrow> off b \<le> blen b \<and> blen b \<le> length (mem b) \<and> (isnil b \<longrightarrow> mem b = [])"

lemma Bytes_length: "buf_inv b \<Longrightarrow> length (Bytes b) = blen b - off b"
  by (auto simp: buf_inv_def Bytes_def sub_def min_def)

lemma Buffer_Len_Bytes: "buf_inv b \<Longrightarrow> Buffer_Len b = int (length (Bytes b))"
  by (simp add: Bytes_length) (simp add: buf_inv_def Buffer_Len_def)

lemma Bytes_lastRead [simp]: "Bytes (b\<lparr>lastRead := x\<rparr>) = Bytes b" "buf_inv (b\<lparr>lastRead := x\<rparr>) = buf_inv b"
  "Buffer_Len (b\<lparr>lastRead := x\<rparr>) = Buffer_Len b"
  "Bytes (b\<lparr>lastRead := x, off := n\<rparr>) = Bytes (b\<lparr>off := n\<rparr>)"
  "buf_inv (b\<lparr>lastRead := x, off := n\<rparr>) = buf_inv (b\<lparr>off := n\<rparr>)"
  by (simp_all add: Bytes_def buf_inv_def Buffer_Len_def)

lemma Truncate_spec:
  assumes "buf_inv b" "0 \<le> n" "n \<le> int (length (Bytes b))"
  shows "\<exists>b'. Truncate b n = Some b' \<and> buf_inv b' \<and> Bytes b' = take (nat n) (Bytes b) \<and> lastRead b' = opInvalid"
proof -
  have l: "off b + nat n \<le> blen b" using assms Bytes_length [of b] by (auto simp: buf_inv_def)
  have c: "\<not> (n < 0 \<or> Buffer_Len b < n)" using assms Buffer_Len_Bytes [OF assms(1)] by simp
  have i: "blen b \<le> length (mem b)" "isnil b \<longrightarrow> mem b = []" using assms(1) by (auto simp: buf_inv_def)
  show ?thesis
  proof (cases "n = 0")
    case True
    then show ?thesis using c i by (auto simp: Truncate_def reslice_def buf_inv_def Bytes_def sub_def)
  next
    case False
    moreover have "Bytes (b\<lparr>lastRead := opInvalid, blen := off b + nat n\<rparr>) = take (nat n) (Bytes b)"
      using l by (simp add: Bytes_def sub_def min_def)
    ultimately show ?thesis using c i l by (auto simp: Truncate_def Let_def reslice_def buf_inv_def)
  qed
qed

lemma Truncate_panics: "buf_inv b \<Longrightarrow> n < 0 \<or> int (length (Bytes b)) < n \<Longrightarrow> Truncate b n = None"
  using Buffer_Len_Bytes [of b] by (auto simp: Truncate_def)

text \<open>
  After \<open>grow\<close> the slice ends with the unread bytes followed by n bytes to be written, and the result is
  the index of the first of them.
\<close>

lemma grow_spec:
  assumes inv: "buf_inv b"
  shows "\<exists>b' k. grow b n = Some (b', k) \<and> buf_inv b' \<and> k = off b' + length (Bytes b) \<and> blen b' = k + n \<and>
    take (length (Bytes b)) (drop (off b') (mem b')) = Bytes b \<and> (lastRead b = opInvalid \<longrightarrow> lastRead b' = opInvalid)"
proof -
  let ?m = "length (Bytes b)"
  have m: "nat (Buffer_Len b) = ?m" using Buffer_Len_Bytes [OF inv] by simp
  obtain b1 where b1: "(if ?m = 0 \<and> off b \<noteq> 0 then Truncate b 0 else Some b) = Some b1" "buf_inv b1"
      "Bytes b1 = Bytes b" "lastRead b = opInvalid \<longrightarrow> lastRead b1 = opInvalid"
    using Truncate_spec [OF inv, of 0] inv by (cases "?m = 0 \<and> off b \<noteq> 0") auto
  have l1: "?m = blen b1 - off b1" using Bytes_length [OF b1(2)] b1(3) by simp
  have i1: "off b1 \<le> blen b1" "blen b1 \<le> length (mem b1)" "isnil b1 \<Longrightarrow> mem b1 = []"
    using b1(2) by (auto simp: buf_inv_def)
  have copy: "length (Bytes b) \<le> length t \<Longrightarrow> fst (copy_to t 0 (Bytes b)) = Bytes b @ drop ?m t" for t
    using copy_to_append [of "Bytes b" t "[]"] by simp
  define b2 where "b2 = (if blen b1 + n > length (mem b1) then
                if isnil b1 \<and> n \<le> bootstrap_size then
                  b1\<lparr>mem := replicate bootstrap_size 0, blen := bootstrap_size, isnil := False, off := 0\<rparr>
                else if ?m + n \<le> length (mem b1) div 2 then
                  b1\<lparr>mem := fst (copy_to (mem b1) 0 (Bytes b1)), blen := ?m, off := 0\<rparr>
                else
                  (let k = 2 * length (mem b1) + n
                   in b1\<lparr>mem := fst (copy_to (replicate k 0) 0 (Bytes b1)), blen := k, isnil := False, off := 0\<rparr>)
              else b1)"
  have b2: "off b2 + ?m + n \<le> length (mem b2) \<and> take ?m (drop (off b2) (mem b2)) = Bytes b \<and> (isnil b2 \<longrightarrow> mem b2 = [])"
  proof -
    consider "\<not> blen b1 + n > length (mem b1)"
      | "blen b1 + n > length (mem b1)" "isnil b1 \<and> n \<le> bootstrap_size"
      | "blen b1 + n > length (mem b1)" "\<not> (isnil b1 \<and> n \<le> bootstrap_size)" "?m + n \<le> length (mem b1) div 2"
      | "blen b1 + n > length (mem b1)" "\<not> (isnil b1 \<and> n \<le> bootstrap_size)" "\<not> ?m + n \<le> length (mem b1) div 2"
      by blast
    then show ?thesis
    proof cases
      case 1
      then show ?thesis using l1 i1 b1(3) by (auto simp: b2_def Bytes_def sub_def)
    next
      case 2
      then have "Bytes b = []" using i1 l1 b1(3) by (simp add: Bytes_def sub_def flip: b1(3))
      then show ?thesis using 2 by (simp add: b2_def)
    next
      case 3
      then show ?thesis using i1 l1 by (auto simp: b2_def copy b1(3))
    next
      case 4
      have "?m \<le> length (mem b1)" using l1 i1 by simp
      then show ?thesis using 4 by (auto simp: b2_def copy b1(3) Let_def)
    qed
  qed
  have "lastRead b2 = lastRead b1" by (simp add: b2_def Let_def)
  moreover have "grow b n = Some (b2\<lparr>blen := off b2 + ?m + n\<rparr>, off b2 + ?m)"
    unfolding grow_def m Let_def b1(1) using b2 by (simp add: b2_def [unfolded Let_def, symmetric] reslice_def)
  ultimately show ?thesis using b2 b1(4) by (auto simp: buf_inv_def)
qed

lemma copy_in_spec:
  assumes "buf_inv b" "k = off b + m" "blen b = k + length p"
  shows "\<exists>b'. copy_in b k p = (b', length p) \<and> buf_inv b' \<and> Bytes b' = take m (drop (off b) (mem b)) @ p \<and>
    lastRead b' = lastRead b"
proof -
  let ?s = "take k (mem b)"
  have l: "length ?s = k" "blen b \<le> length (mem b)" using assms by (auto simp: buf_inv_def)
  have t: "take (blen b) (mem b) = ?s @ sub (mem b) k (blen b)" "length (sub (mem b) k (blen b)) = length p"
    using assms l by (auto simp: sub_def take_add)
  then have c: "copy_to (take (blen b) (mem b)) k p = (?s @ p, k + length p)"
    using copy_to_append [of p "sub (mem b) k (blen b)" ?s] l by simp
  have "take (blen b - off b) (drop (off b) (?s @ p @ drop (blen b) (mem b))) = take m (drop (off b) (mem b)) @ p"
    using l assms(2,3) by (simp add: drop_take)
  moreover have "copy_in b k p = (b\<lparr>mem := (?s @ p) @ drop (blen b) (mem b)\<rparr>, length p)"
    by (simp add: copy_in_def c)
  ultimately show ?thesis using assms l by (auto simp: buf_inv_def Bytes_def sub_def)
qed

lemma Write_spec:
  assumes "buf_inv b"
  shows "\<exists>b'. Write b p = Some (b', length p) \<and> buf_inv b' \<and> Bytes b' = Bytes b @ p \<and> lastRead b' = opInvalid"
proof -
  let ?b = "b\<lparr>lastRead := opInvalid\<rparr>"
  obtain b' k where g: "grow ?b (length p) = Some (b', k)" "buf_inv b'" "k = off b' + length (Bytes b)"
      "blen b' = k + length p" "take (length (Bytes b)) (drop (off b') (mem b')) = Bytes b" "lastRead b' = opInvalid"
    using grow_spec [of ?b "length p"] assms by auto
  then show ?thesis using copy_in_spec [OF g(2,3,4)] g(6) by (auto simp: Write_def)
qed

lemma WriteString_Write: "WriteString b s = Write b s"
  by (simp add: WriteString_def Write_def)

lemma WriteByte_Write:
  "buf_inv b \<Longrightarrow> \<exists>b'. WriteByte b c = Some b' \<and> buf_inv b' \<and> Bytes b' = Bytes b @ [c] \<and> lastRead b' = opInvalid"
proof -
  assume inv: "buf_inv b"
  let ?b = "b\<lparr>lastRead := opInvalid\<rparr>" and ?m = "length (Bytes b)"
  obtain b' k where g: "grow ?b 1 = Some (b', k)" "buf_inv b'" "k = off b' + ?m"
      "blen b' = k + 1" "take ?m (drop (off b') (mem b')) = Bytes b" "lastRead b' = opInvalid"
    using grow_spec [of ?b 1] inv by auto
  have k: "k < length (mem b')" "blen b' - off b' = ?m + 1" using g by (auto simp: buf_inv_def)
  have "drop (off b') ((mem b')[k := c]) = (drop (off b') (mem b'))[?m := c]"
    using g(3) by (simp add: drop_update_swap)
  then have "take (?m + 1) (drop (off b') ((mem b')[k := c])) = take ?m (drop (off b') (mem b')) @ [c]"
    using k g(3) by (simp add: take_Suc_conv_app_nth)
  then have "Bytes (b'\<lparr>mem := (mem b')[k := c]\<rparr>) = Bytes b @ [c]"
    using g(5) k(2) by (simp add: Bytes_def sub_def)
  then show ?thesis using g by (auto simp: WriteByte_def buf_inv_def)
qed

text \<open>What WriteRune appends: the encoding, but of a negative rune its low byte.\<close>

definition written_rune :: "rune \<Rightarrow> byte list" where
  "written_rune r = (if sint r < 0 then [ucast r] else encode_bytes r)"

lemma WriteRune_spec:
  assumes inv: "buf_inv b"
  shows "\<exists>b'. WriteRune b r = Some (b', length (written_rune r)) \<and> buf_inv b' \<and> Bytes b' = Bytes b @ written_rune r \<and>
    lastRead b' = opInvalid"
proof (cases "sint r < 0x80")
  case True
  have "unat r < 0x80" if r: "0 \<le> sint r"
  proof -
    have "unat (of_int x :: rune) < 0x80" if "0 \<le> x" "x < 0x80" for x
    proof -
      have "uint (of_int x :: rune) = x"
        using that by (simp add: unsigned_of_int take_bit_int_eq_self_iff)
      then show ?thesis using that by (simp add: unat_eq_nat_uint)
    qed
    from this [OF r True] show ?thesis by simp
  qed
  then have "written_rune r = [ucast r]" by (cases "0 \<le> sint r") (simp_all add: written_rune_def encode_bytes_def rune1Max_def word_le_nat_alt)
  then show ?thesis using True WriteByte_Write [OF inv, of "ucast r"] by (auto simp: WriteRune_def)
next
  case False
  have "EncodeRune (replicate UTFMax 0) r =
      Some (encode_bytes r @ drop (length (encode_bytes r)) (replicate UTFMax 0), length (encode_bytes r))"
    using encode_bytes_length(2) [of r] by (simp add: EncodeRune_def Let_def)
  then show ?thesis using False Write_spec [OF inv, of "encode_bytes r"] by (auto simp: WriteRune_def written_rune_def)
qed

section \<open>Unreading\<close>

text \<open>
  What an unread operation can put back: nothing, the last byte of a read, the bytes of a rune (or the
  byte of an encoding error, \<open>UndoBadRune\<close>), or, in \<open>UndoUnclear\<close>, what happens to stand before the read
  position.
\<close>

datatype undo = NoUndo | UndoRead byte | UndoRune "byte list" | UndoBadRune byte | UndoUnclear

definition undo_rel :: "Buffer \<Rightarrow> undo \<Rightarrow> bool" where
  "undo_rel b u =
     (case u of
        NoUndo \<Rightarrow> lastRead b = opInvalid
      | UndoRead c \<Rightarrow> lastRead b = opRead \<and> (\<exists>p. take (off b) (mem b) = p @ [c])
      | UndoRune bs \<Rightarrow> lastRead b = opReadRune \<and> (\<exists>p r. take (off b) (mem b) = p @ bs \<and> ValidRune r \<and> bs = encode_bytes r)
      | UndoBadRune c \<Rightarrow> lastRead b = opReadRune \<and> (\<exists>p. take (off b) (mem b) = p @ [c])
      | UndoUnclear \<Rightarrow> True)"

definition after_read :: "byte list \<Rightarrow> undo" where
  "after_read d = (if d = [] then NoUndo else UndoRead (last d))"

definition after_rune :: "byte list \<Rightarrow> undo" where
  "after_rune q = (case DecodeRune q of (r, n) \<Rightarrow> if r = RuneError \<and> n \<le> 1 then UndoBadRune (hd q) else UndoRune (take n q))"

lemma undo_rel_invalid: "lastRead b = opInvalid \<Longrightarrow> undo_rel b NoUndo"
  by (simp add: undo_rel_def)

lemma taken:
  assumes "buf_inv b" "n \<le> length (Bytes b)"
  shows "take (off b + n) (mem b) = take (off b) (mem b) @ take n (Bytes b)"
  using assms Bytes_length [OF assms(1)] by (simp add: Bytes_def sub_def take_add min_def)

lemma undo_after_read:
  assumes "buf_inv b" "n \<le> length (Bytes b)" "0 < n"
  shows "undo_rel (b\<lparr>lastRead := opRead, off := off b + n\<rparr>) (after_read (take n (Bytes b)))"
proof -
  have "take n (Bytes b) \<noteq> []" using assms by auto
  then have "\<exists>p. take (off b + n) (mem b) = p @ [last (take n (Bytes b))]"
    unfolding taken [OF assms(1,2)] by (metis append.assoc append_butlast_last_id)
  then show ?thesis using \<open>take n (Bytes b) \<noteq> []\<close> by (simp add: undo_rel_def after_read_def)
qed

lemma undo_after_rune:
  assumes "buf_inv b" "Bytes b \<noteq> []" "DecodeRune (Bytes b) = (r, n)"
  shows "undo_rel (b\<lparr>lastRead := opReadRune, off := off b + n\<rparr>) (after_rune (Bytes b))"
proof (cases "r = RuneError \<and> n \<le> 1")
  case True
  have "n = 1" using True decode_size_pos [OF assms(2)] assms(3) by simp
  moreover have "take 1 (Bytes b) = [hd (Bytes b)]" using assms(2) by (cases "Bytes b") auto
  ultimately show ?thesis
    using True assms taken [OF assms(1), of 1] by (cases "Bytes b") (auto simp: undo_rel_def after_rune_def)
next
  case False
  note e = encode_decode [OF assms(3) False]
  then show ?thesis using False assms taken [OF assms(1), of n] by (auto simp: undo_rel_def after_rune_def)
qed

lemma Bytes_back:
  assumes "buf_inv b" "take (off b) (mem b) = p @ w"
  shows "buf_inv (b\<lparr>off := off b - length w\<rparr>)" "Bytes (b\<lparr>off := off b - length w\<rparr>) = w @ Bytes b"
proof -
  have i: "off b \<le> blen b" "blen b \<le> length (mem b)" using assms(1) by (auto simp: buf_inv_def)
  have l: "off b = length p + length w" using arg_cong [OF assms(2), of length] i by simp
  show "buf_inv (b\<lparr>off := off b - length w\<rparr>)" using assms(1) by (auto simp: buf_inv_def)
  have "sub (mem b) (off b - length w) (off b) = w"
    using arg_cong [OF assms(2), of "drop (length p)"] l by (simp add: sub_def drop_take)
  moreover have "sub (mem b) (off b - length w) (blen b) = sub (mem b) (off b - length w) (off b) @ sub (mem b) (off b) (blen b)"
    using i l take_add [of "length w" "blen b - off b" "drop (length p) (mem b)"] by (simp add: sub_def add.commute)
  ultimately show "Bytes (b\<lparr>off := off b - length w\<rparr>) = w @ Bytes b" by (simp add: Bytes_def)
qed

section \<open>Reading\<close>

lemma Bytes_skip:
  assumes "buf_inv b" "n \<le> length (Bytes b)"
  shows "buf_inv (b\<lparr>off := off b + n\<rparr>)" "Bytes (b\<lparr>off := off b + n\<rparr>) = drop n (Bytes b)"
  using assms Bytes_length [OF assms(1)]
  by (auto simp: buf_inv_def Bytes_def sub_def drop_take add.commute)

lemma Bytes_empty_iff: "buf_inv b \<Longrightarrow> off b \<ge> blen b \<longleftrightarrow> Bytes b = []"
  using Bytes_length [of b] by auto

lemma empty_truncated:
  assumes inv: "buf_inv b" and e: "Bytes b = []"
  shows "\<exists>b'. Truncate (b\<lparr>lastRead := opInvalid\<rparr>) 0 = Some b' \<and> buf_inv b' \<and> Bytes b' = [] \<and> undo_rel b' NoUndo"
  using Truncate_spec [of "b\<lparr>lastRead := opInvalid\<rparr>" 0] assms undo_rel_invalid by auto

lemma undo_rel_order [simp]: "undo_rel (b\<lparr>off := x, lastRead := y\<rparr>) u = undo_rel (b\<lparr>lastRead := y, off := x\<rparr>) u"
  by (simp add: undo_rel_def split: undo.split)

lemma undo_rel_nothing: "undo_rel (b\<lparr>lastRead := opInvalid, off := n\<rparr>) (after_read [])" "undo_rel (b\<lparr>lastRead := opInvalid\<rparr>) (after_read [])"
  by (simp_all add: undo_rel_def after_read_def)

lemma Buffer_Read_spec:
  assumes inv: "buf_inv b"
  shows "\<exists>b'. Buffer_Read b k = Some (b', take k (Bytes b), if Bytes b = [] \<and> 0 < k then Some EOF else None) \<and>
    buf_inv b' \<and> Bytes b' = drop k (Bytes b) \<and> undo_rel b' (after_read (take k (Bytes b)))"
proof (cases "Bytes b = []")
  case True
  have e: "blen b \<le> off b" using True Bytes_empty_iff [OF inv] by simp
  obtain b' where "Truncate (b\<lparr>lastRead := opInvalid\<rparr>) 0 = Some b'" "buf_inv b'" "Bytes b' = []" "undo_rel b' NoUndo"
    using empty_truncated [OF inv True] by blast
  then show ?thesis using True e by (cases "k = 0") (auto simp: Buffer_Read_def Let_def after_read_def)
next
  case False
  then have e: "\<not> blen b \<le> off b" using Bytes_empty_iff [OF inv] by simp
  let ?n = "min (length (Bytes b)) k"
  have s: "buf_inv (b\<lparr>off := off b + ?n\<rparr>)" "Bytes (b\<lparr>off := off b + ?n\<rparr>) = drop k (Bytes b)"
    using Bytes_skip [OF inv, of ?n] by (auto simp: min_def)
  have u: "undo_rel (b\<lparr>lastRead := if 0 < ?n then opRead else opInvalid, off := off b + ?n\<rparr>) (after_read (take k (Bytes b)))"
    using undo_after_read [OF inv, of ?n] undo_rel_nothing [where b = b] False by (cases "k = 0") (auto simp: min_def)
  show ?thesis using False e s u
    by (cases "k = 0") (auto simp: Buffer_Read_def Let_def)
qed

lemma Buffer_Next_spec:
  assumes inv: "buf_inv b" and k: "0 \<le> k"
  shows "\<exists>b'. Buffer_Next b k = Some (b', take (nat k) (Bytes b)) \<and> buf_inv b' \<and> Bytes b' = drop (nat k) (Bytes b) \<and>
    undo_rel b' (after_read (take (nat k) (Bytes b)))"
proof -
  define n where "n = min (length (Bytes b)) (nat k)"
  have n: "(if Buffer_Len b < k then Buffer_Len b else k) = int n"
    using Buffer_Len_Bytes [OF inv] k by (simp add: n_def)
  have le: "n \<le> length (Bytes b)" and t: "take n (Bytes b) = take (nat k) (Bytes b)" "drop n (Bytes b) = drop (nat k) (Bytes b)"
    by (auto simp: n_def min_def)
  have d: "sub (mem b) (off b) (off b + n) = take (nat k) (Bytes b)"
    using Bytes_length [OF inv] le unfolding t(1) [symmetric] by (simp add: sub_def Bytes_def min_def)
  have "Buffer_Next b k = Some (if 0 < n then b\<lparr>lastRead := opRead, off := off b + n\<rparr> else b\<lparr>lastRead := opInvalid\<rparr>, take (nat k) (Bytes b))"
    unfolding Buffer_Next_def Let_def Bytes_lastRead n using d by simp
  moreover have "undo_rel (if 0 < n then b\<lparr>lastRead := opRead, off := off b + n\<rparr> else b\<lparr>lastRead := opInvalid\<rparr>)
      (after_read (take (nat k) (Bytes b)))"
    using undo_after_read [OF inv le] undo_rel_nothing(2) [of b] unfolding t(1) [symmetric] by simp
  moreover have "buf_inv (b\<lparr>off := off b + n\<rparr>)" "Bytes (b\<lparr>off := off b + n\<rparr>) = drop (nat k) (Bytes b)"
    using Bytes_skip [OF inv le] t(2) by simp_all
  ultimately show ?thesis by (cases "n = 0") (simp_all add: inv)
qed

lemma Buffer_Next_panics: "buf_inv b \<Longrightarrow> k < 0 \<Longrightarrow> Buffer_Next b k = None"
  using Buffer_Len_Bytes [of b] by (simp add: Buffer_Next_def Let_def)

lemma Bytes_nth: "buf_inv b \<Longrightarrow> k < length (Bytes b) \<Longrightarrow> Bytes b ! k = mem b ! (off b + k)"
  using Bytes_length [of b] by (simp add: Bytes_def sub_def buf_inv_def)

lemma ReadByte_spec:
  assumes inv: "buf_inv b"
  shows "\<exists>b' c e. ReadByte b = Some (b', c, e) \<and> buf_inv b' \<and>
    (case Bytes b of [] \<Rightarrow> Bytes b' = [] \<and> c = 0 \<and> e = Some EOF \<and> undo_rel b' NoUndo
     | x # q \<Rightarrow> Bytes b' = q \<and> c = x \<and> e = None \<and> undo_rel b' (UndoRead x))"
proof (cases "Bytes b")
  case Nil
  then show ?thesis
    using empty_truncated [OF inv Nil] Bytes_empty_iff [OF inv] by (auto simp: ReadByte_def Let_def)
next
  case (Cons x q)
  then have "\<not> blen b \<le> off b" "mem b ! off b = x"
    using Bytes_empty_iff [OF inv] Bytes_nth [OF inv, of 0] by auto
  then show ?thesis using Cons Bytes_skip [OF inv, of 1] undo_after_read [OF inv, of 1]
    by (auto simp: ReadByte_def Let_def after_read_def)
qed

lemma ReadRune_spec:
  assumes inv: "buf_inv b"
  shows "\<exists>b' r n e. ReadRune b = Some (b', r, n, e) \<and> buf_inv b' \<and>
    (if Bytes b = [] then Bytes b' = [] \<and> (r, n, e) = (0, 0, Some EOF) \<and> undo_rel b' NoUndo
     else (r, n) = DecodeRune (Bytes b) \<and> e = None \<and> Bytes b' = drop n (Bytes b) \<and> undo_rel b' (after_rune (Bytes b)))"
proof (cases "Bytes b = []")
  case True
  then show ?thesis
    using empty_truncated [OF inv True] Bytes_empty_iff [OF inv] by (auto simp: ReadRune_def Let_def)
next
  case False
  obtain r n where d: "DecodeRune (Bytes b) = (r, n)" by force
  have le: "n \<le> length (Bytes b)"
    using d decode_size_le [of "Bytes b"] by simp
  have c: "mem b ! off b = Bytes b ! 0" "\<not> blen b \<le> off b"
    using False Bytes_empty_iff [OF inv] Bytes_nth [OF inv, of 0] by auto
  have "Bytes b ! 0 < RuneSelf \<Longrightarrow> (r, n) = (ucast (Bytes b ! 0), 1)"
    using DecodeRune_ascii [OF False] d by simp
  then show ?thesis using False d c Bytes_skip [OF inv le] undo_after_rune [OF inv False d]
    by (auto simp: ReadRune_def Let_def)
qed

lemma IndexByte_split:
  "IndexByte s c = (if c \<in> set s then int (length (takeWhile (\<lambda>x. x \<noteq> c) s)) else -1)"
proof -
  have "IndexByte_from s c i = (if c \<in> set s then int (i + length (takeWhile (\<lambda>x. x \<noteq> c) s)) else -1)" for i
    by (induction s arbitrary: i) auto
  then show ?thesis by (simp add: IndexByte_def)
qed

definition line_of :: "byte \<Rightarrow> byte list \<Rightarrow> byte list \<times> io_err option" where
  "line_of c q = (if c \<in> set q then (takeWhile (\<lambda>x. x \<noteq> c) q @ [c], None) else (q, Some EOF))"

definition after_line :: "byte list \<Rightarrow> undo" where
  "after_line d = (if d = [] then UndoUnclear else UndoRead (last d))"

lemma readSlice_spec:
  assumes inv: "buf_inv b"
  shows "\<exists>b'. readSlice b c = (b', line_of c (Bytes b)) \<and> buf_inv b' \<and>
    Bytes b' = drop (length (fst (line_of c (Bytes b)))) (Bytes b) \<and> undo_rel b' (after_line (fst (line_of c (Bytes b))))"
proof -
  let ?d = "fst (line_of c (Bytes b))"
  have le: "length ?d \<le> length (Bytes b)" and pre: "take (length ?d) (Bytes b) = ?d"
    and res: "(if IndexByte (Bytes b) c < 0 then (blen b, Some EOF) else (off b + nat (IndexByte (Bytes b) c) + 1, None)) =
      (off b + length ?d, snd (line_of c (Bytes b)))"
  proof -
    have "length ?d \<le> length (Bytes b) \<and> take (length ?d) (Bytes b) = ?d \<and>
      (if IndexByte (Bytes b) c < 0 then (blen b, Some EOF) else (off b + nat (IndexByte (Bytes b) c) + 1, None)) =
      (off b + length ?d, snd (line_of c (Bytes b)))"
    proof (cases "c \<in> set (Bytes b)")
      case True
      then obtain ys zs where split: "Bytes b = ys @ c # zs" "c \<notin> set ys" by (meson split_list_first)
      then have tw: "takeWhile (\<lambda>x. x \<noteq> c) (Bytes b) = ys" unfolding split(1) by (subst takeWhile_append2) auto
      have "line_of c (Bytes b) = (ys @ [c], None)" using True tw by (simp add: line_of_def)
      moreover have "IndexByte (Bytes b) c = int (length ys)" using True tw by (simp add: IndexByte_split)
      ultimately show ?thesis by (simp add: split)
    next
      case False
      have "blen b = off b + length (Bytes b)" using Bytes_length [OF inv] inv by (simp add: buf_inv_def)
      then show ?thesis using False by (simp add: IndexByte_split line_of_def)
    qed
    then show "length ?d \<le> length (Bytes b)" "take (length ?d) (Bytes b) = ?d"
      "(if IndexByte (Bytes b) c < 0 then (blen b, Some EOF) else (off b + nat (IndexByte (Bytes b) c) + 1, None)) =
        (off b + length ?d, snd (line_of c (Bytes b)))" by blast+
  qed
  have line: "sub (mem b) (off b) (off b + length ?d) = ?d"
    using le pre Bytes_length [OF inv] by (simp add: sub_def Bytes_def min_def)
  have "undo_rel (b\<lparr>lastRead := opRead, off := off b + length ?d\<rparr>) (after_line ?d)"
    using undo_after_read [OF inv le] pre by (cases "?d = []") (simp_all add: after_line_def after_read_def undo_rel_def)
  moreover have "readSlice b c = (b\<lparr>lastRead := opRead, off := off b + length ?d\<rparr>, line_of c (Bytes b))"
    unfolding readSlice_def Let_def res by (simp add: line)
  ultimately show ?thesis using Bytes_skip [OF inv le] by simp
qed

definition after_grow :: "undo \<Rightarrow> undo" where
  "after_grow u = (if u = NoUndo then NoUndo else UndoUnclear)"

lemma Grow_spec:
  assumes inv: "buf_inv b" and n: "0 \<le> n" and u: "undo_rel b u"
  shows "\<exists>b'. Grow b n = Some b' \<and> buf_inv b' \<and> Bytes b' = Bytes b \<and> undo_rel b' (after_grow u)"
proof -
  obtain b' k where g: "grow b (nat n) = Some (b', k)" "buf_inv b'" "k = off b' + length (Bytes b)"
      "blen b' = k + nat n" "take (length (Bytes b)) (drop (off b') (mem b')) = Bytes b"
      "lastRead b = opInvalid \<longrightarrow> lastRead b' = opInvalid"
    using grow_spec [OF inv, of "nat n"] by auto
  then show ?thesis using n u by (auto simp: Grow_def reslice_def buf_inv_def Bytes_def sub_def undo_rel_def after_grow_def)
qed

text \<open>UnreadByte puts back one byte, also of a rune; UnreadRune puts back what ReadRune took.\<close>

lemma UnreadByte_back:
  assumes inv: "buf_inv b" and l: "lastRead b \<noteq> opInvalid" and t: "take (off b) (mem b) = p @ [c]"
  shows "\<exists>b'. UnreadByte b = (b', None) \<and> buf_inv b' \<and> Bytes b' = c # Bytes b \<and> undo_rel b' NoUndo"
proof -
  have "0 < off b" using t by (cases "off b") auto
  then show ?thesis using l Bytes_back [OF inv t]
    by (cases "lastRead b") (auto simp: UnreadByte_def Let_def undo_rel_def)
qed

lemma UnreadRune_back:
  assumes inv: "buf_inv b" and l: "lastRead b = opReadRune" and t: "take (off b) (mem b) = p @ encode_bytes r" and v: "ValidRune r"
  shows "\<exists>b'. UnreadRune b = (b', None) \<and> buf_inv b' \<and> Bytes b' = encode_bytes r @ Bytes b \<and> undo_rel b' NoUndo"
proof -
  have "0 < off b" using t encode_bytes_ne [of r] by (cases "off b") auto
  then show ?thesis using l Bytes_back [OF inv t] DecodeLastRune_encode [OF v, of p] t
    by (auto simp: UnreadRune_def Let_def undo_rel_def)
qed

section \<open>ReadFrom and WriteTo\<close>

text \<open>What a script delivers up to its end or its first error, and the error unless it is io.EOF.\<close>

fun delivered :: "script \<Rightarrow> byte list \<times> io_err option" where
  "delivered [] = ([], None)"
| "delivered ((data, e) # r) =
     (if e = Some EOF then (data, None) else if e \<noteq> None then (data, e) else apfst (\<lambda>d. data @ d) (delivered r))"

fun script_size :: "script \<Rightarrow> nat" where
  "script_size [] = 0"
| "script_size ((data, e) # r) = Suc (length data) + script_size r"

lemma read_script_delivers:
  assumes "read_script room r = ((data, e), r')"
  shows "delivered r = (if e = Some EOF then (data, None) else if e \<noteq> None then (data, e) else apfst (\<lambda>d. data @ d) (delivered r'))"
    and "length data \<le> room" and "0 < room \<Longrightarrow> e = None \<Longrightarrow> script_size r' < script_size r"
proof -
  have "delivered r = (if e = Some EOF then (data, None) else if e \<noteq> None then (data, e) else apfst (\<lambda>d. data @ d) (delivered r')) \<and>
    length data \<le> room \<and> (0 < room \<longrightarrow> e = None \<longrightarrow> script_size r' < script_size r)"
  proof (cases r)
    case (Cons x r1)
    obtain d x' where x: "x = (d, x')" by force
    show ?thesis
    proof (cases "length d \<le> room")
      case True
      then show ?thesis using assms Cons x by auto
    next
      case False
      have "take room d @ drop room d @ y = d @ y" for y by (metis append.assoc append_take_drop_id)
      then show ?thesis using assms Cons x False by (auto simp: apfst_def map_prod_def split: prod.splits)
    qed
  qed (use assms in auto)
  then show "delivered r = (if e = Some EOF then (data, None) else if e \<noteq> None then (data, e) else apfst (\<lambda>d. data @ d) (delivered r'))"
    "length data \<le> room" "0 < room \<Longrightarrow> e = None \<Longrightarrow> script_size r' < script_size r" by blast+
qed

lemma reading_space:
  assumes inv: "buf_inv b"
  defines "b1 \<equiv> (if length (mem b) - blen b < MinRead then
      let newBuf = (if off b + (length (mem b) - blen b) < MinRead then replicate (2 * length (mem b) + MinRead) 0 else mem b)
      in b\<lparr>mem := fst (copy_to newBuf 0 (Bytes b)), blen := blen b - off b, off := 0, isnil := False\<rparr> else b)"
  shows "buf_inv b1" "Bytes b1 = Bytes b" "blen b1 + MinRead \<le> length (mem b1)" "lastRead b1 = lastRead b"
proof -
  have i: "off b \<le> blen b" "blen b \<le> length (mem b)" using inv by (auto simp: buf_inv_def)
  have l: "length (Bytes b) = blen b - off b" by (rule Bytes_length [OF inv])
  have copy: "length (Bytes b) \<le> length t \<Longrightarrow> fst (copy_to t 0 (Bytes b)) = Bytes b @ drop (length (Bytes b)) t" for t
    using copy_to_append [of "Bytes b" t "[]"] by simp
  have "buf_inv b1 \<and> Bytes b1 = Bytes b \<and> blen b1 + MinRead \<le> length (mem b1)"
  proof (cases "length (mem b) - blen b < MinRead")
    case True
    define t where "t = (if off b + (length (mem b) - blen b) < MinRead then replicate (2 * length (mem b) + MinRead) 0 else mem b)"
    have t: "length (Bytes b) \<le> length t" "blen b - off b + MinRead \<le> length t" using i l by (auto simp: t_def)
    have "b1 = b\<lparr>mem := Bytes b @ drop (length (Bytes b)) t, blen := blen b - off b, off := 0, isnil := False\<rparr>"
      using True by (simp add: b1_def t_def [symmetric] copy [OF t(1)])
    then show ?thesis using t l by (simp add: buf_inv_def Bytes_def [of "b\<lparr>mem := x, blen := y, off := z, isnil := w\<rparr>" for x y z w] sub_def)
  next
    case False
    then show ?thesis using inv i by (simp add: b1_def)
  qed
  then show "buf_inv b1" "Bytes b1 = Bytes b" "blen b1 + MinRead \<le> length (mem b1)" by auto
  show "lastRead b1 = lastRead b" by (simp add: b1_def Let_def)
qed

lemma reading_stores:
  assumes inv: "buf_inv b" and d: "length data \<le> length (mem b) - blen b"
  defines "b' \<equiv> b\<lparr>mem := take (blen b) (mem b) @ data @ drop (blen b + length data) (mem b), blen := blen b + length data\<rparr>"
  shows "buf_inv b'" "Bytes b' = Bytes b @ data" "lastRead b' = lastRead b"
  using assms by (auto simp: buf_inv_def Bytes_def sub_def take_add drop_take)

lemma ReadFrom_loop_step:
  assumes inv: "buf_inv b" and rd: "\<And>room. MinRead \<le> room \<Longrightarrow> \<exists>data e r'. read_script room r = ((data, e), r') \<and> P data e r'"
  shows "\<exists>b' data e r'. P data e r' \<and> buf_inv b' \<and> Bytes b' = Bytes b @ data \<and> lastRead b' = lastRead b \<and>
    ReadFrom_loop b r n =
      (if e = Some EOF then Some (b', n + length data, None) else if e \<noteq> None then Some (b', n + length data, e)
       else ReadFrom_loop b' r' (n + length data))"
proof -
  define b1 where "b1 = (if length (mem b) - blen b < MinRead then
      let newBuf = (if off b + (length (mem b) - blen b) < MinRead then replicate (2 * length (mem b) + MinRead) 0 else mem b)
      in b\<lparr>mem := fst (copy_to newBuf 0 (Bytes b)), blen := blen b - off b, off := 0, isnil := False\<rparr> else b)"
  note b1 = reading_space [OF inv, folded b1_def]
  have "MinRead \<le> length (mem b1) - blen b1" using b1(3) by simp
  then obtain data e r' where r: "read_script (length (mem b1) - blen b1) r = ((data, e), r')" "P data e r'"
    using rd by blast
  define b2 where "b2 = b1\<lparr>mem := take (blen b1) (mem b1) @ data @ drop (blen b1 + length data) (mem b1), blen := blen b1 + length data\<rparr>"
  have d: "length data \<le> length (mem b1) - blen b1" by (rule read_script_delivers(2) [OF r(1)])
  note b2 = reading_stores [OF b1(1) d, folded b2_def]
  have sp: "(if length (mem b) - blen b < MinRead then
            if off b > blen b then None
            else
              let newBuf = (if off b + (length (mem b) - blen b) < MinRead then replicate (2 * length (mem b) + MinRead) 0
                            else mem b)
              in Some (b\<lparr>mem := fst (copy_to newBuf 0 (Bytes b)), blen := blen b - off b, off := 0, isnil := False\<rparr>)
          else Some b) = Some b1"
    using inv by (simp add: b1_def Let_def buf_inv_def)
  have rs: "reslice (blen b1 + length data) (b1\<lparr>mem := take (blen b1) (mem b1) @ data @ drop (blen b1 + length data) (mem b1)\<rparr>) = Some b2"
    using d b1(1) by (simp add: reslice_def b2_def buf_inv_def)
  have "ReadFrom_loop b r n =
      (if e = Some EOF then Some (b2, n + length data, None) else if e \<noteq> None then Some (b2, n + length data, e)
       else ReadFrom_loop b2 r' (n + length data))"
    unfolding ReadFrom_loop.simps [of b r n] Let_def sp [unfolded Let_def] by (simp add: r(1) rs)
  moreover have "Bytes b2 = Bytes b @ data" "lastRead b2 = lastRead b" using b1 b2 by simp_all
  ultimately show ?thesis using b2(1) r(2) by blast
qed

lemma ReadFrom_loop_spec:
  "buf_inv b \<Longrightarrow> \<exists>b'. ReadFrom_loop b r n = Some (b', n + length (fst (delivered r)), snd (delivered r)) \<and>
     buf_inv b' \<and> Bytes b' = Bytes b @ fst (delivered r) \<and> lastRead b' = lastRead b"
proof (induction "script_size r" arbitrary: b r n rule: less_induct)
  case less
  let ?P = "\<lambda>data e r'. delivered r = (if e = Some EOF then (data, None) else if e \<noteq> None then (data, e) else apfst (\<lambda>d. data @ d) (delivered r')) \<and>
    (e = None \<longrightarrow> script_size r' < script_size r)"
  have "\<exists>data e r'. read_script room r = ((data, e), r') \<and> ?P data e r'" if "MinRead \<le> room" for room
  proof -
    obtain data e r' where r: "read_script room r = ((data, e), r')" by (metis surj_pair)
    have "0 < room" using that by (simp add: MinRead_def)
    then show ?thesis using read_script_delivers(1,3) [OF r] r by blast
  qed
  then obtain b' data e r' where s: "?P data e r'" "buf_inv b'" "Bytes b' = Bytes b @ data" "lastRead b' = lastRead b"
    "ReadFrom_loop b r n =
      (if e = Some EOF then Some (b', n + length data, None) else if e \<noteq> None then Some (b', n + length data, e)
       else ReadFrom_loop b' r' (n + length data))"
    using ReadFrom_loop_step [OF less.prems, of r ?P n] by blast
  show ?case
  proof (cases e)
    case None
    then obtain b'' where "ReadFrom_loop b' r' (n + length data) =
        Some (b'', n + length data + length (fst (delivered r')), snd (delivered r'))" "buf_inv b''"
        "Bytes b'' = Bytes b' @ fst (delivered r')" "lastRead b'' = lastRead b'"
      using less.hyps [of r' b' "n + length data"] s(1,2) by blast
    then show ?thesis using s None by simp
  next
    case (Some x)
    then show ?thesis using s by (cases "x = EOF") auto
  qed
qed

lemma ReadFrom_spec:
  assumes inv: "buf_inv b"
  shows "\<exists>b'. ReadFrom b r = Some (b', length (fst (delivered r)), snd (delivered r)) \<and> buf_inv b' \<and>
    Bytes b' = Bytes b @ fst (delivered r) \<and> lastRead b' = opInvalid"
proof -
  let ?b = "b\<lparr>lastRead := opInvalid\<rparr>"
  obtain b1 where b1: "(if off ?b \<ge> blen ?b then Truncate ?b 0 else Some ?b) = Some b1" "buf_inv b1" "Bytes b1 = Bytes b"
      "lastRead b1 = opInvalid"
    using Truncate_spec [of ?b 0] inv Bytes_empty_iff [OF inv] by (cases "off b \<ge> blen b") auto
  then show ?thesis using ReadFrom_loop_spec [OF b1(2), of r 0] by (auto simp: ReadFrom_def Let_def)
qed

lemma WriteTo_spec:
  assumes inv: "buf_inv b"
  shows "if Bytes b = [] then \<exists>b'. WriteTo b w = Some (b', 0, None) \<and> buf_inv b' \<and> Bytes b' = [] \<and> lastRead b' = opInvalid
    else (case w (Bytes b) of (m, e) \<Rightarrow>
      if length (Bytes b) < m then WriteTo b w = None
      else \<exists>b'. WriteTo b w = Some (b', m, if e = None \<and> m \<noteq> length (Bytes b) then Some ErrShortWrite else e) \<and>
        buf_inv b' \<and> Bytes b' = drop m (Bytes b) \<and> lastRead b' = opInvalid)"
proof (cases "Bytes b = []")
  case True
  then show ?thesis
    using Truncate_spec [of "b\<lparr>lastRead := opInvalid\<rparr>" 0] inv Bytes_empty_iff [OF inv] by (auto simp: WriteTo_def Let_def)
next
  case False
  obtain m e where w: "w (Bytes b) = (m, e)" by force
  have c: "off b < blen b" "nat (Buffer_Len b) = length (Bytes b)"
    using False Bytes_empty_iff [OF inv] Buffer_Len_Bytes [OF inv] by auto
  let ?b = "b\<lparr>lastRead := opInvalid, off := off b + m\<rparr>"
  have s: "buf_inv ?b" "Bytes ?b = drop m (Bytes b)" if "m \<le> length (Bytes b)"
    using Bytes_skip [OF inv that] by auto
  have t: "\<exists>b'. Truncate ?b 0 = Some b' \<and> buf_inv b' \<and> Bytes b' = [] \<and> lastRead b' = opInvalid" if "m \<le> length (Bytes b)"
    using Truncate_spec [OF s(1) [OF that], of 0] by auto
  show ?thesis
  proof (cases "length (Bytes b) < m")
    case True
    then show ?thesis using False c w by (simp add: WriteTo_def Let_def)
  next
    case le: False
    then show ?thesis using False c w s t by (cases e) (auto simp: WriteTo_def Let_def)
  qed
qed

section \<open>The operations together\<close>

datatype buf_op =
    BWrite "byte list" | BWriteString "byte list" | BWriteByte byte | BWriteRune rune
  | BRead nat | BNext int | BReadByte | BReadRune | BReadBytes byte | BReadString byte
  | BUnreadByte | BUnreadRune | BBytes | BString | BLen
  | BTruncate int | BReset | BGrow int
  | BReadFrom script | BWriteTo "byte list \<Rightarrow> nat \<times> io_err option"

text \<open>An operation's results: bytes, a rune, a count and an error, as far as it has them.\<close>

type_synonym buf_out = "byte list \<times> rune \<times> int \<times> io_err option"

fun buf_exec :: "buf_op \<Rightarrow> Buffer \<Rightarrow> (Buffer \<times> buf_out) option" where
  "buf_exec (BWrite p) b = map_option (\<lambda>(b, n). (b, [], 0, int n, None)) (Write b p)"
| "buf_exec (BWriteString p) b = map_option (\<lambda>(b, n). (b, [], 0, int n, None)) (WriteString b p)"
| "buf_exec (BWriteByte c) b = map_option (\<lambda>b. (b, [], 0, 0, None)) (WriteByte b c)"
| "buf_exec (BWriteRune r) b = map_option (\<lambda>(b, n). (b, [], 0, int n, None)) (WriteRune b r)"
| "buf_exec (BRead k) b = map_option (\<lambda>(b, d, e). (b, d, 0, int (length d), e)) (Buffer_Read b k)"
| "buf_exec (BNext k) b = map_option (\<lambda>(b, d). (b, d, 0, 0, None)) (Buffer_Next b k)"
| "buf_exec BReadByte b = map_option (\<lambda>(b, c, e). (b, [c], 0, 0, e)) (ReadByte b)"
| "buf_exec BReadRune b = map_option (\<lambda>(b, r, n, e). (b, [], r, int n, e)) (ReadRune b)"
| "buf_exec (BReadBytes c) b = (case ReadBytes b c of (b, d, e) \<Rightarrow> Some (b, d, 0, 0, e))"
| "buf_exec (BReadString c) b = (case ReadString b c of (b, d, e) \<Rightarrow> Some (b, d, 0, 0, e))"
| "buf_exec BUnreadByte b = (case UnreadByte b of (b, e) \<Rightarrow> Some (b, [], 0, 0, e))"
| "buf_exec BUnreadRune b = (case UnreadRune b of (b, e) \<Rightarrow> Some (b, [], 0, 0, e))"
| "buf_exec BBytes b = Some (b, Bytes b, 0, 0, None)"
| "buf_exec BString b = Some (b, Buffer_String (Some b), 0, 0, None)"
| "buf_exec BLen b = Some (b, [], 0, Buffer_Len b, None)"
| "buf_exec (BTruncate n) b = map_option (\<lambda>b. (b, [], 0, 0, None)) (Truncate b n)"
| "buf_exec BReset b = map_option (\<lambda>b. (b, [], 0, 0, None)) (Buffer_Reset b)"
| "buf_exec (BGrow n) b = map_option (\<lambda>b. (b, [], 0, 0, None)) (Grow b n)"
| "buf_exec (BReadFrom r) b = map_option (\<lambda>(b, n, e). (b, [], 0, int n, e)) (ReadFrom b r)"
| "buf_exec (BWriteTo w) b = map_option (\<lambda>(b, n, e). (b, [], 0, int n, e)) (WriteTo b w)"

text \<open>
  The same operations on the queue of unread bytes, with what an unread operation would put back; None
  is a panic.
\<close>

type_synonym queue = "byte list \<times> undo"

definition wrote :: "byte list \<Rightarrow> int \<Rightarrow> io_err option \<Rightarrow> (queue \<times> buf_out) option" where
  "wrote q n e = Some ((q, NoUndo), [], 0, n, e)"

fun queue_exec :: "buf_op \<Rightarrow> queue \<Rightarrow> (queue \<times> buf_out) option" where
  "queue_exec (BWrite p) (q, u) = wrote (q @ p) (int (length p)) None"
| "queue_exec (BWriteString p) (q, u) = wrote (q @ p) (int (length p)) None"
| "queue_exec (BWriteByte c) (q, u) = wrote (q @ [c]) 0 None"
| "queue_exec (BWriteRune r) (q, u) = wrote (q @ written_rune r) (int (length (written_rune r))) None"
| "queue_exec (BRead k) (q, u) =
     Some ((drop k q, after_read (take k q)), take k q, 0, int (length (take k q)), if q = [] \<and> 0 < k then Some EOF else None)"
| "queue_exec (BNext k) (q, u) =
     (if k < 0 then None else Some ((drop (nat k) q, after_read (take (nat k) q)), take (nat k) q, 0, 0, None))"
| "queue_exec BReadByte (q, u) =
     (case q of [] \<Rightarrow> Some (([], NoUndo), [0], 0, 0, Some EOF) | x # q \<Rightarrow> Some ((q, UndoRead x), [x], 0, 0, None))"
| "queue_exec BReadRune (q, u) =
     (if q = [] then Some (([], NoUndo), [], 0, 0, Some EOF)
      else (case DecodeRune q of (r, n) \<Rightarrow> Some ((drop n q, after_rune q), [], r, int n, None)))"
| "queue_exec (BReadBytes c) (q, u) =
     (case line_of c q of (d, e) \<Rightarrow> Some ((drop (length d) q, after_line d), d, 0, 0, e))"
| "queue_exec (BReadString c) (q, u) =
     (case line_of c q of (d, e) \<Rightarrow> Some ((drop (length d) q, after_line d), d, 0, 0, e))"
| "queue_exec BUnreadByte (q, u) =
     (case u of
        UndoRead c \<Rightarrow> wrote (c # q) 0 None
      | UndoRune bs \<Rightarrow> wrote (last bs # q) 0 None
      | UndoBadRune c \<Rightarrow> wrote (c # q) 0 None
      | _ \<Rightarrow> wrote q 0 (Some NotRead))"
| "queue_exec BUnreadRune (q, u) =
     (case u of
        UndoRune bs \<Rightarrow> wrote (bs @ q) 0 None
      | UndoBadRune c \<Rightarrow> wrote (c # q) 0 None
      | _ \<Rightarrow> Some ((q, u), [], 0, 0, Some NotReadRune))"
| "queue_exec BBytes (q, u) = Some ((q, u), q, 0, 0, None)"
| "queue_exec BString (q, u) = Some ((q, u), q, 0, 0, None)"
| "queue_exec BLen (q, u) = Some ((q, u), [], 0, int (length q), None)"
| "queue_exec (BTruncate n) (q, u) =
     (if n < 0 \<or> int (length q) < n then None else wrote (take (nat n) q) 0 None)"
| "queue_exec BReset (q, u) = wrote [] 0 None"
| "queue_exec (BGrow n) (q, u) = (if n < 0 then None else Some ((q, after_grow u), [], 0, 0, None))"
| "queue_exec (BReadFrom r) (q, u) = (case delivered r of (d, e) \<Rightarrow> wrote (q @ d) (int (length d)) e)"
| "queue_exec (BWriteTo w) (q, u) =
     (if q = [] then wrote [] 0 None
      else (case w q of (m, e) \<Rightarrow>
        if length q < m then None
        else wrote (drop m q) (int m) (if e = None \<and> m \<noteq> length q then Some ErrShortWrite else e)))"

text \<open>
  The uses the queue does not answer for: an unread operation in the state \<open>UndoUnclear\<close> (after
  ReadBytes or ReadString found the buffer empty, and after a read followed by Grow), and UnreadRune
  after ReadRune returned an encoding error.
\<close>

fun buf_op_ok :: "undo \<Rightarrow> buf_op \<Rightarrow> bool" where
  "buf_op_ok u BUnreadByte = (u \<noteq> UndoUnclear)"
| "buf_op_ok u BUnreadRune = (case u of UndoUnclear \<Rightarrow> False | UndoBadRune c \<Rightarrow> False | _ \<Rightarrow> True)"
| "buf_op_ok u _ = True"

definition buf_rel :: "Buffer \<Rightarrow> queue \<Rightarrow> bool" where
  "buf_rel b s \<longleftrightarrow> buf_inv b \<and> Bytes b = fst s \<and> undo_rel b (snd s)"

definition refines_queue :: "(Buffer \<times> buf_out) option \<Rightarrow> (queue \<times> buf_out) option \<Rightarrow> bool" where
  "refines_queue x y \<longleftrightarrow>
     (case (x, y) of
        (Some (b, o1), Some (s, o2)) \<Rightarrow> buf_rel b s \<and> o1 = o2
      | (None, None) \<Rightarrow> True
      | _ \<Rightarrow> False)"

lemma refines_wrote:
  "buf_inv b \<Longrightarrow> Bytes b = q \<Longrightarrow> lastRead b = opInvalid \<Longrightarrow> refines_queue (Some (b, [], 0, n, e)) (wrote q n e)"
  by (simp add: refines_queue_def wrote_def buf_rel_def undo_rel_def)

lemma refines_Some: "buf_inv b \<Longrightarrow> Bytes b = q \<Longrightarrow> undo_rel b u \<Longrightarrow> refines_queue (Some (b, y)) (Some ((q, u), y))"
  by (simp add: refines_queue_def buf_rel_def)

lemma refines_panic: "refines_queue None None"
  by (simp add: refines_queue_def)

lemma UnreadByte_refines:
  assumes inv: "buf_inv b" and u: "undo_rel b u" and ok: "u \<noteq> UndoUnclear"
  shows "refines_queue (buf_exec BUnreadByte b) (queue_exec BUnreadByte (Bytes b, u))"
proof -
  have put: "refines_queue (buf_exec BUnreadByte b) (wrote (c # Bytes b) 0 None)"
    if "lastRead b \<noteq> opInvalid" "take (off b) (mem b) = p @ [c]" for p c
    using UnreadByte_back [OF inv that] by (auto simp: refines_queue_def wrote_def buf_rel_def)
  show ?thesis
  proof (cases u)
    case NoUndo
    then show ?thesis using u inv
      by (simp add: undo_rel_def UnreadByte_def refines_queue_def buf_rel_def wrote_def)
  next
    case (UndoRead c)
    then show ?thesis using u put [of _ c] by (auto simp: undo_rel_def simp del: buf_exec.simps)
  next
    case (UndoRune bs)
    then obtain p r where "lastRead b = opReadRune" "take (off b) (mem b) = p @ bs" "bs \<noteq> []"
      using u by (auto simp: undo_rel_def)
    then show ?thesis using UndoRune put [of "p @ butlast bs" "last bs"] by (simp del: buf_exec.simps)
  next
    case (UndoBadRune c)
    then show ?thesis using u put [of _ c] by (auto simp: undo_rel_def simp del: buf_exec.simps)
  qed (use ok in simp)
qed

lemma UnreadRune_refines:
  assumes inv: "buf_inv b" and u: "undo_rel b u" and ok: "buf_op_ok u BUnreadRune"
  shows "refines_queue (buf_exec BUnreadRune b) (queue_exec BUnreadRune (Bytes b, u))"
proof (cases u)
  case (UndoRune bs)
  then obtain p r where t: "lastRead b = opReadRune" "take (off b) (mem b) = p @ encode_bytes r" "ValidRune r" "bs = encode_bytes r"
    using u by (auto simp: undo_rel_def)
  then show ?thesis using UndoRune UnreadRune_back [OF inv t(1-3)]
    by (auto simp: refines_queue_def wrote_def buf_rel_def)
qed (use u ok inv in \<open>auto simp: undo_rel_def UnreadRune_def refines_queue_def buf_rel_def\<close>)

lemma buf_exec_refines:
  assumes rel: "buf_rel b (q, u)" and ok: "buf_op_ok u x"
  shows "refines_queue (buf_exec x b) (queue_exec x (q, u))"
proof -
  have inv: "buf_inv b" and q: "Bytes b = q" and u: "undo_rel b u" using rel by (auto simp: buf_rel_def)
  show ?thesis
  proof (cases x)
    case (BWrite p)
    then show ?thesis using Write_spec [OF inv, of p] q by (auto intro: refines_wrote)
  next
    case (BWriteString p)
    then show ?thesis using Write_spec [OF inv, of p] q by (auto simp: WriteString_Write intro: refines_wrote)
  next
    case (BWriteByte c)
    then show ?thesis using WriteByte_Write [OF inv, of c] q by (auto intro: refines_wrote)
  next
    case (BWriteRune r)
    then show ?thesis using WriteRune_spec [OF inv, of r] q by (auto intro: refines_wrote)
  next
    case (BRead k)
    then show ?thesis using Buffer_Read_spec [OF inv, of k] q by (auto intro: refines_Some)
  next
    case (BNext k)
    then show ?thesis using Buffer_Next_spec [OF inv, of k] Buffer_Next_panics [OF inv, of k] q
      by (cases "k < 0") (auto intro: refines_Some refines_panic)
  next
    case BReadByte
    then show ?thesis using ReadByte_spec [OF inv] q by (cases q) (auto intro: refines_Some)
  next
    case BReadRune
    then show ?thesis using ReadRune_spec [OF inv] q
      by (cases "DecodeRune q"; cases "q = []") (auto intro: refines_Some)
  next
    case (BReadBytes c)
    then show ?thesis using readSlice_spec [OF inv, of c] q
      by (cases "line_of c q") (auto simp: ReadBytes_def intro: refines_Some)
  next
    case (BReadString c)
    then show ?thesis using readSlice_spec [OF inv, of c] q
      by (cases "line_of c q") (auto simp: ReadString_def intro: refines_Some)
  next
    case BUnreadByte
    then show ?thesis using UnreadByte_refines [OF inv u] ok q by simp
  next
    case BUnreadRune
    then show ?thesis using UnreadRune_refines [OF inv u] ok q by simp
  next
    case (BTruncate n)
    then show ?thesis using Truncate_spec [OF inv, of n] Truncate_panics [OF inv, of n] q
      by (cases "n < 0 \<or> int (length q) < n") (auto intro: refines_wrote refines_panic)
  next
    case BReset
    then show ?thesis using Truncate_spec [OF inv, of 0] by (auto simp: Buffer_Reset_def intro: refines_wrote)
  next
    case (BGrow n)
    then show ?thesis using Grow_spec [OF inv _ u, of n] q
      by (cases "n < 0") (auto simp: Grow_def [of b n] intro: refines_Some refines_panic)
  next
    case (BReadFrom r)
    then show ?thesis using ReadFrom_spec [OF inv, of r] q by (cases "delivered r") (auto intro: refines_wrote)
  next
    case (BWriteTo w)
    then show ?thesis using WriteTo_spec [OF inv, of w] q
      by (cases "w q"; cases "q = []") (auto intro: refines_wrote refines_panic split: if_splits)
  qed (use inv q u in \<open>auto simp: Buffer_String_def Buffer_Len_Bytes intro: refines_Some\<close>)
qed

text \<open>A run of operations, with the outputs in order; it ends at a panic.\<close>

fun buf_run :: "buf_op list \<Rightarrow> Buffer \<Rightarrow> (Buffer \<times> buf_out list) option" where
  "buf_run [] b = Some (b, [])"
| "buf_run (x # xs) b =
     (case buf_exec x b of
        None \<Rightarrow> None
      | Some (b, y) \<Rightarrow> map_option (\<lambda>(b, ys). (b, y # ys)) (buf_run xs b))"

fun queue_run :: "buf_op list \<Rightarrow> queue \<Rightarrow> (queue \<times> buf_out list) option" where
  "queue_run [] s = Some (s, [])"
| "queue_run (x # xs) s =
     (case queue_exec x s of
        None \<Rightarrow> None
      | Some (s, y) \<Rightarrow> map_option (\<lambda>(s, ys). (s, y # ys)) (queue_run xs s))"

fun buf_run_ok :: "buf_op list \<Rightarrow> queue \<Rightarrow> bool" where
  "buf_run_ok [] s = True"
| "buf_run_ok (x # xs) s =
     (buf_op_ok (snd s) x \<and> (case queue_exec x s of None \<Rightarrow> True | Some (s, y) \<Rightarrow> buf_run_ok xs s))"

lemma buf_run_refines:
  "buf_rel b s \<Longrightarrow> buf_run_ok xs s \<Longrightarrow>
   map_option (\<lambda>(b, ys). (Bytes b, ys)) (buf_run xs b) = map_option (\<lambda>(s, ys). (fst s, ys)) (queue_run xs s)"
proof (induction xs arbitrary: b s)
  case (Cons x xs)
  have r: "refines_queue (buf_exec x b) (queue_exec x s)"
    using Cons.prems buf_exec_refines [of b "fst s" "snd s" x] by simp
  show ?case
  proof (cases "buf_exec x b")
    case None
    then show ?thesis using r by (cases "queue_exec x s") (auto simp: refines_queue_def)
  next
    case (Some p)
    obtain b' y where p: "p = (b', y)" by (cases p)
    then obtain s' where s': "buf_rel b' s'" "queue_exec x s = Some (s', y)"
      using r Some by (cases "queue_exec x s") (auto simp: refines_queue_def)
    have "map_option (\<lambda>(b, ys). (Bytes b, ys)) (buf_run xs b') = map_option (\<lambda>(s, ys). (fst s, ys)) (queue_run xs s')"
      using Cons.prems(2) s'(2) by (intro Cons.IH [OF s'(1)]) simp
    then show ?thesis using Some p s' by (cases "buf_run xs b'"; cases "queue_run xs s'") auto
  qed
qed (simp add: buf_rel_def)

section \<open>Properties\<close>



text \<open>
  Deviations. When a byte of an encoding has been read by ReadByte and ReadRune then returned U+FFFD
  for the rest, UnreadRune decodes backwards from the read position and puts both bytes back, not the
  one that ReadRune took. WriteRune treats every rune below 0x80 as one byte, negative ones included:
  for -1 it writes the byte 0xFF and not an encoding. ReadBytes of a buffer that is empty counts as a
  read of something: UnreadByte then puts back a byte that an earlier Read returned and reports no
  error. Grow moves the contents to the front and leaves the record of the last read as it was:
  UnreadByte then reports success and puts nothing back.
\<close>

theorem buffer_deviations:
  "(do { (b, c, _) \<leftarrow> ReadByte (NewBuffer [0xC3, 0xA9] []);
         (b, r, n, _) \<leftarrow> ReadRune b;
         Some (c, r, n, Bytes (fst (UnreadRune b))) }) = Some (0xC3, RuneError, 1, [0xC3, 0xA9]) \<and>
   map_option (\<lambda>(b, n). (Bytes b, n)) (WriteRune zero_Buffer (- 1)) = Some ([0xFF], 1) \<and>
   encode_bytes (- 1) = encode_bytes RuneError \<and>
   (do { (b, d, _) \<leftarrow> Buffer_Read (NewBuffer [7] []) 1;
         let (b, line, e) = ReadBytes b 0;
         let (b, err) = UnreadByte b;
         Some (d, line, e, err, Bytes b) }) = Some ([7], [], Some EOF, None, [7]) \<and>
   (do { (b, c, _) \<leftarrow> ReadByte (NewBuffer [7, 8] []);
         b \<leftarrow> Grow b 4;
         let (b, err) = UnreadByte b;
         Some (c, err, Bytes b) }) = Some (7, None, [8])"
proof -
  have d: "DecodeRune [0xA9] = (RuneError, 1)"
    by (simp add: DecodeRune_def decodeRuneInternal_def utf8_consts Let_def)
  have e: "encode_bytes 0xE9 = [0xC3, 0xA9]"
    by (simp add: encode_bytes_def utf8_consts maskx_def)
  have l: "DecodeLastRune [0xC3, 0xA9] = (0xE9, 2)"
    using DecodeLastRune_encode [of "0xE9" "[]"] e by (simp add: ValidRune_def utf8_consts)
  have 1: "(do { (b, c, _) \<leftarrow> ReadByte (NewBuffer [0xC3, 0xA9] []);
         (b, r, n, _) \<leftarrow> ReadRune b;
         Some (c, r, n, Bytes (fst (UnreadRune b))) }) = Some (0xC3, RuneError, 1, [0xC3, 0xA9])"
    by (simp add: ReadByte_def ReadRune_def UnreadRune_def NewBuffer_def Bytes_def sub_def RuneSelf_def d l Let_def)
  have u: "(ucast (- 1 :: rune) :: byte) = 0xFF"
    by (simp add: word_unat_eq_iff unat_ucast_low unsigned_minus_1_eq_mask mask_eq_exp_minus_1)
  have "buf_inv zero_Buffer" "Bytes zero_Buffer = []"
    by (simp_all add: buf_inv_def zero_Buffer_def Bytes_def sub_def)
  then obtain b' where "WriteByte zero_Buffer (ucast (- 1 :: rune)) = Some b'" "Bytes b' = [0xFF]"
    unfolding u using WriteByte_Write [of zero_Buffer "0xFF"] by auto
  then have 2: "map_option (\<lambda>(b, n). (Bytes b, n)) (WriteRune zero_Buffer (- 1)) = Some ([0xFF], 1)"
    by (simp add: WriteRune_def)
  have 3: "encode_bytes (- 1) = encode_bytes RuneError"
    by (rule encode_bytes_invalid) (simp add: scalar_def unsigned_minus_1_eq_mask mask_eq_exp_minus_1)
  have 4: "(do { (b, d, _) \<leftarrow> Buffer_Read (NewBuffer [7] []) 1;
         let (b, line, e) = ReadBytes b 0;
         let (b, err) = UnreadByte b;
         Some (d, line, e, err, Bytes b) }) = Some ([7], [], Some EOF, None, [7])"
    by (simp add: Buffer_Read_def ReadBytes_def readSlice_def UnreadByte_def NewBuffer_def Bytes_def sub_def IndexByte_split Let_def)
  have c: "copy_to [0, 0, 0, 0, 0, 0, 0, 0] 0 [8 :: byte] = ([8, 0, 0, 0, 0, 0, 0, 0], 1)"
    by (simp add: copy_to_append [of "[8]" "[0, 0, 0, 0, 0, 0, 0, 0]" "[]", simplified])
  have 5: "(do { (b, c, _) \<leftarrow> ReadByte (NewBuffer [7, 8] []);
         b \<leftarrow> Grow b 4;
         let (b, err) = UnreadByte b;
         Some (c, err, Bytes b) }) = Some (7, None, [8])"
    by (simp add: ReadByte_def Grow_def grow_def reslice_def Buffer_Len_def UnreadByte_def NewBuffer_def Bytes_def sub_def c Let_def
        copy_to_def numeral_eq_Suc)
  show ?thesis using 1 2 3 4 5 by simp
qed

end
