(* ===== verification/BytesEquiv.thy ===== *)
theory BytesEquiv
  imports BytesDefs
begin

text \<open>
  Package bytes computes what package strings computes: the searches, which scan for the first byte of
  the separator where strings uses Rabin-Karp hashes, and the splitting, joining, replacing and trimming
  built on them.
\<close>

section \<open>Searching\<close>

lemma equal_from_iff:
  "length a = length b \<Longrightarrow> equal_from a b i \<longleftrightarrow> (\<forall>k. i \<le> k \<and> k < length a \<longrightarrow> a ! k = b ! k)"
proof (induction "length a - i" arbitrary: i)
  case (Suc m)
  then have "equal_from a b i \<longleftrightarrow> a ! i = b ! i \<and> (\<forall>k. Suc i \<le> k \<and> k < length a \<longrightarrow> a ! k = b ! k)"
    by (subst equal_from.simps) auto
  moreover have "i < length a" using Suc(2) by simp
  ultimately show ?case by (auto simp: Suc_le_eq) (metis le_neq_implies_less)
qed (auto simp: equal_from.simps)

lemma equalPortable_iff: "equalPortable a b \<longleftrightarrow> a = b"
  using equal_from_iff [of a b 0] by (auto simp: equalPortable_def list_eq_iff_nth_eq)

lemma indexBytePortable_eq: "indexBytePortable s c = IndexByte s c"
proof -
  have "indexByte_range s c i = IndexByte_from s c i" for i by (induction s c i rule: indexByte_range.induct) auto
  then show ?thesis by (simp add: indexBytePortable_def IndexByte_def)
qed

lemma IndexByte_from_shift:
  "IndexByte_from s c (i + k) = (if IndexByte_from s c i < 0 then -1 else IndexByte_from s c i + int k)"
  by (induction s c i arbitrary: k rule: IndexByte_from.induct) auto

lemma skip_to_find:
  assumes "i < length t"
  shows "skip_to t c i = find (\<lambda>k. t ! k = c) [i..<length t]"
proof -
  have "find (match_at t [c]) [i..<length t] = find (\<lambda>k. t ! k = c) [i..<length t]"
    by (intro find_cong) (auto simp: match_at_single)
  then have f: "IndexByte_from (drop i t) c i = opt_int (find (\<lambda>k. t ! k = c) [i..<length t])"
    using IndexByte_from_find [of i t c] by simp
  show ?thesis
  proof (cases "t ! i = c")
    case True
    then show ?thesis using assms by (simp add: skip_to_def find_upt)
  next
    case False
    define x where "x = IndexByte_from (drop i t) c 0"
    have "(if x < 0 then -1 else x + int i) = opt_int (find (\<lambda>k. t ! k = c) [i..<length t])"
      using f IndexByte_from_shift [of "drop i t" c 0 i] by (simp add: x_def)
    then show ?thesis using False
      by (cases "find (\<lambda>k. t ! k = c) [i..<length t]"; cases "x < 0")
        (auto simp: skip_to_def IndexByte_def opt_int_def Let_def x_def [symmetric])
  qed
qed

lemma find_skip: "(\<And>j. i \<le> j \<Longrightarrow> j < k \<Longrightarrow> \<not> P j) \<Longrightarrow> i \<le> k \<Longrightarrow> k \<le> (l :: nat) \<Longrightarrow> find P [i..<l] = find P [k..<l]"
proof -
  assume a: "\<And>j. i \<le> j \<Longrightarrow> j < k \<Longrightarrow> \<not> P j" "i \<le> k" "k \<le> l"
  then have "[i..<l] = [i..<k] @ [k..<l]" by (metis le_add_diff_inverse upt_add_eq_append)
  moreover have "find P [i..<k] = None" using a(1) by (auto simp: find_None_iff)
  ultimately show ?thesis by (simp add: find_append)
qed

text \<open>Where the scan stops, and that it passes over no match.\<close>

lemma skip_to_cases:
  assumes "i < length t" "t = take (length s + 1 - length sep) s" "sep \<noteq> []"
  shows "case skip_to t (sep ! 0) i of
      None \<Rightarrow> \<forall>j \<ge> i. \<not> match_at s sep j
    | Some k \<Rightarrow> i \<le> k \<and> k < length t \<and> s ! k = sep ! 0 \<and> (\<forall>j. i \<le> j \<longrightarrow> j < k \<longrightarrow> \<not> match_at s sep j)"
proof -
  have m: "j < length t \<and> t ! j = sep ! 0" if "match_at s sep j" for j
    using match_at_bound [OF that assms(3)] match_at_head [OF that assms(3)] assms(2,3) by (cases sep) auto
  show ?thesis
  proof (cases "skip_to t (sep ! 0) i")
    case None
    then have "\<forall>j \<in> set [i..<length t]. t ! j \<noteq> sep ! 0" by (simp add: skip_to_find [OF assms(1)] find_None_iff)
    then have "\<not> match_at s sep j" if "i \<le> j" for j using m [of j] that by auto
    then show ?thesis using None by simp
  next
    case (Some k)
    then obtain n where n: "n < length [i..<length t]" "t ! ([i..<length t] ! n) = sep ! 0" "k = [i..<length t] ! n"
      "\<forall>j<n. t ! ([i..<length t] ! j) \<noteq> sep ! 0"
      unfolding skip_to_find [OF assms(1)] find_Some_iff by blast
    then have k: "k = i + n" "k < length t" "t ! k = sep ! 0" by auto
    moreover have "\<not> match_at s sep j" if "i \<le> j" "j < k" for j
      using n(4) m [of j] that k(1,2) by (auto dest!: spec [of _ "j - i"])
    ultimately show ?thesis using Some assms(2) by simp
  qed
qed

lemma bytes_Index_loop_find:
  assumes t: "t = take (length s + 1 - length sep) s" and sep: "sep \<noteq> []"
  shows "i \<le> length t \<Longrightarrow> bytes_Index_loop s sep t i = opt_int (find (match_at s sep) [i..<length t])"
proof (induction "length t - i" arbitrary: i rule: less_induct)
  case less
  show ?case
  proof (cases "i < length t")
    case False
    then show ?thesis by (simp add: bytes_Index_loop.simps opt_int_def)
  next
    case True
    note c = skip_to_cases [OF True t sep]
    show ?thesis
    proof (cases "skip_to t (sep ! 0) i")
      case None
      then have "find (match_at s sep) [i..<length t] = None" using c by (auto simp: find_None_iff)
      then show ?thesis using True None by (simp add: bytes_Index_loop.simps [of s sep t i] opt_int_def)
    next
      case (Some k)
      then have k: "i \<le> k" "k < length t" "\<And>j. i \<le> j \<Longrightarrow> j < k \<Longrightarrow> \<not> match_at s sep j" using c by auto
      have "find (match_at s sep) [i..<length t] = (if match_at s sep k then Some k else find (match_at s sep) [Suc k..<length t])"
        using find_skip [of i k "match_at s sep" "length t"] k by (simp add: find_upt)
      then show ?thesis using True Some k(1,2) less.hyps [of "Suc k"]
        by (simp add: bytes_Index_loop.simps [of s sep t i] match_at_sub [symmetric] opt_int_def)
    qed
  qed
qed

lemma bytes_Index_eq: "bytes_Index s sep = str_Index s sep"
proof (cases "sep = [] \<or> length s < length sep \<or> length sep = 1")
  case True
  have none: "first_match s sep = None" if "length s < length sep" "sep \<noteq> []"
    using match_at_bound [of s sep] that by (fastforce simp: first_match_def find_None_iff)
  consider "sep = []" | "sep \<noteq> []" "length s < length sep" | "length sep = 1" "\<not> length s < length sep" using True by blast
  then show ?thesis
  proof cases
    case 2
    then show ?thesis using Index_first_match [of s sep] none by (simp add: bytes_Index_def opt_int_def)
  qed (simp_all add: bytes_Index_def str_Index_def Let_def)
next
  case False
  then have "length s - length sep + 1 = length s + 1 - length sep" by auto
  then have "bytes_Index s sep = opt_int (find (match_at s sep) [0..<length s + 1 - length sep])"
    using False bytes_Index_loop_find [OF refl, of sep 0 s] by (cases sep) (auto simp: bytes_Index_def)
  then show ?thesis using False by (simp add: Index_first_match first_match_trim)
qed

lemma occurrences_skip:
  "(\<And>j. i \<le> j \<Longrightarrow> j < k \<Longrightarrow> \<not> match_at s sep j) \<Longrightarrow> i \<le> k \<Longrightarrow> k \<le> length s \<Longrightarrow> sep \<noteq> [] \<Longrightarrow>
   occurrences (drop i s) sep = occurrences (drop k s) sep"
proof (induction "k - i" arbitrary: i)
  case (Suc m)
  then have "occurrences (drop i s) sep = occurrences (drop (Suc i) s) sep" by (simp add: occurrences_miss)
  then show ?case using Suc.hyps(1) [of "Suc i"] Suc by simp
qed simp

lemma bytes_Count_loop_occurrences:
  assumes t: "t = take (length s + 1 - length sep) s" and sep: "sep \<noteq> []" "length sep \<le> length s"
  shows "bytes_Count_loop s sep t i cnt = cnt + occurrences (drop i s) sep"
proof (induction "length t - i" arbitrary: i cnt rule: less_induct)
  case less
  have lt: "length t = length s + 1 - length sep" using t sep by (cases sep) auto
  show ?case
  proof (cases "i < length t")
    case False
    moreover have "0 < length sep" using sep(1) by simp
    ultimately have "length (drop i s) < length sep" unfolding lt length_drop using sep(2) by linarith
    then show ?thesis using False by (simp add: bytes_Count_loop.simps occurrences_short)
  next
    case True
    note c = skip_to_cases [OF True t sep(1)]
    show ?thesis
    proof (cases "skip_to t (sep ! 0) i")
      case None
      then have "occurrences (drop i s) sep = occurrences (drop (length s) s) sep"
        using c True lt sep by (intro occurrences_skip) auto
      also have "\<dots> = 0" using sep by (intro occurrences_short) auto
      finally show ?thesis using True None by (simp add: bytes_Count_loop.simps [of s sep t i])
    next
      case (Some k)
      then have k: "i \<le> k" "k < length t" "s ! k = sep ! 0" "\<And>j. i \<le> j \<Longrightarrow> j < k \<Longrightarrow> \<not> match_at s sep j" using c by auto
      have o: "occurrences (drop i s) sep = occurrences (drop k s) sep" using k lt sep by (intro occurrences_skip) auto
      have ks: "k < length s" using k(2) lt sep by (cases sep) auto
      have one: "length sep = 1 \<Longrightarrow> match_at s sep k"
        using k(3) ks match_at_single [of k s "sep ! 0"] by (cases sep) auto
      show ?thesis
      proof (cases "match_at s sep k")
        case m: True
        have "length t - (k + length sep) < length t - i" using k(1,2) sep by (cases sep) auto
        then have "bytes_Count_loop s sep t (k + length sep) (cnt + 1) = cnt + 1 + occurrences (drop (k + length sep) s) sep" by (rule less)
        then show ?thesis using True Some m o occurrences_match [OF m sep(1)] sep(1)
          by (simp add: bytes_Count_loop.simps [of s sep t i] match_at_sub [symmetric])
      next
        case m: False
        have "bytes_Count_loop s sep t (k + 1) cnt = cnt + occurrences (drop (k + 1) s) sep" using k(1,2) by (intro less) simp
        then show ?thesis using True Some m one o occurrences_miss [OF m sep(1) ks] sep(1)
          by (auto simp: bytes_Count_loop.simps [of s sep t i] match_at_sub [symmetric])
      qed
    qed
  qed
qed

lemma bytes_Count_eq: "bytes_Count s sep = str_Count s sep"
proof (cases "sep = []")
  case True
  then show ?thesis by (simp add: bytes_Count_def str_Count_def RuneCountInString_length RuneCount_def RuneCount_loop_range)
next
  case False
  show ?thesis
  proof (cases "length s < length sep")
    case True
    then show ?thesis using False by (simp add: bytes_Count_def Count_occurrences occurrences_short)
  next
    case f: False
    then have "length s - length sep + 1 = length s + 1 - length sep" by auto
    then show ?thesis using False f bytes_Count_loop_occurrences [OF refl False, of s 0 0]
      by (simp add: bytes_Count_def Count_occurrences)
  qed
qed

lemma bytes_LastIndex_eq: "bytes_LastIndex s sep = str_LastIndex s sep"
proof -
  have "bytes_LastIndex_loop s sep k = (if length sep = 1 then LastIndexByte_loop s (sep ! 0) k else LastIndex_loop s sep (sep ! 0) k)" for k
    by (induction k) auto
  then show ?thesis by (cases "length sep = 1"; cases s) (auto simp: bytes_LastIndex_def str_LastIndex_def Let_def)
qed

text \<open>The loops over the runes of a slice are searches in its range.\<close>

lemma bytes_IndexRune_range: "bytes_IndexRune_from s r i = range_find (\<lambda>c. c = r) (range_string s i)"
  by (induction s r i rule: bytes_IndexRune_from.induct)
    (subst bytes_IndexRune_from.simps, subst range_string.simps, auto simp: DecodeRuneInString_eq split: prod.splits)

lemma ascii_shortcut:
  "i < length s \<Longrightarrow> (if s ! i < RuneSelf then (ucast (s ! i), 1) else DecodeRune (drop i s)) = DecodeRune (drop i s)"
  "i < length s \<Longrightarrow> (if s ! i \<ge> RuneSelf then DecodeRune (drop i s) else (ucast (s ! i), 1)) = DecodeRune (drop i s)"
  using DecodeRune_ascii [of "drop i s"] by (auto simp: not_le)

lemma bytes_IndexAny_eq: "bytes_IndexAny s chars = IndexAny s chars"
proof -
  have "bytes_IndexAny_from s chars i = range_find (in_chars chars) (range_string s i)" for i
  proof (induction "length s - i" arbitrary: i rule: less_induct)
    case less
    show ?case
    proof (cases "i < length s")
      case True
      have "length s - (i + snd (DecodeRune (drop i s))) < length s - i"
        using decode_step [of "fst (DecodeRune (drop i s))" "snd (DecodeRune (drop i s))" i s] True by simp
      then show ?thesis using True less
        by (subst bytes_IndexAny_from.simps, subst range_string.simps)
          (simp add: ascii_shortcut DecodeRuneInString_eq case_prod_beta')
    qed (simp add: bytes_IndexAny_from.simps range_string.simps)
  qed
  then show ?thesis by (simp add: bytes_IndexAny_def IndexAny_def in_chars_def [abs_def])
qed

section \<open>Splitting, joining and replacing\<close>

lemma bytes_genSplit_eq: "sep \<noteq> [] \<Longrightarrow> bytes_genSplit s sep sepSave n = genSplit s sep sepSave n"
proof -
  assume "sep \<noteq> []"
  moreover have "bytes_genSplit_loop s sep sepSave n start a i = genSplit_loop s sep sepSave n start a i" for n start a i
  proof (induction s sep sepSave n start a i rule: genSplit_loop.induct)
    case (1 s sep sepSave n start a i)
    show ?case unfolding bytes_genSplit_loop.simps [of s sep sepSave n start a i] genSplit_loop.simps [of s sep sepSave n start a i]
      using 1 by (intro if_cong refl) auto
  qed
  ultimately show ?thesis by (simp add: bytes_genSplit_def genSplit_def bytes_Count_eq)
qed

lemma bytes_Join_eq: "bytes_Join a sep = Join a sep"
proof -
  have "bytes_Join_loop vs sep b bp = fst (Join_loop vs sep (b, bp))" for vs b bp
    by (induction vs arbitrary: b bp) (simp_all add: case_prod_beta' Let_def)
  then show ?thesis by (simp add: bytes_Join_def Join_def case_prod_beta')
qed

lemma bytes_Repeat_eq: "bytes_Repeat b cnt = Repeat b cnt"
proof -
  have "bytes_Repeat_loop b k nb bp = Repeat_loop b k (nb, bp)" for k nb bp
    by (induction k arbitrary: nb bp) (simp_all add: case_prod_beta' Let_def)
  then show ?thesis by (simp add: bytes_Repeat_def Repeat_def Let_def)
qed

lemma bytes_Replace_loop_eq:
  "bytes_Replace_loop s old new k first start t w = map_option (\<lambda>(t, w). take w t) (Replace_loop s old new k first start (t, w))"
  by (induction k arbitrary: first start t w)
    (simp_all add: case_prod_beta' bytes_Index_eq DecodeRuneInString_eq Let_def)

text \<open>Replacing nothing by nothing copies the text, piece by piece.\<close>

lemma Replace_loop_nothing:
  "start \<le> length s \<Longrightarrow> length t = length s \<Longrightarrow> take start t = take start s \<Longrightarrow>
   Replace_loop s [] [] k first start (t, start) = Some (s, length s)"
proof (induction k arbitrary: first start t)
  case 0
  have "copy_to (take start t @ drop start t) (length (take start t)) (drop start s) = (take start t @ drop start s, length s)"
    using 0 by (subst copy_to_append) simp_all
  moreover have "t = take start s @ drop start t" using 0(3) append_take_drop_id [of start t] by simp
  ultimately show ?case using 0 by simp
next
  case (Suc k)
  define j where "j = start + (if first then 0 else snd (DecodeRune (drop start s)))"
  have j: "start \<le> j" "j \<le> length s" using decode_size_le [of "drop start s"] Suc.prems(1) by (auto simp: j_def)
  let ?x = "sub s start j"
  have x: "length ?x = j - start" "take start s @ ?x = take j s" "j - start \<le> length (drop start t)"
    using j Suc.prems take_add [of start "j - start" s] by (auto simp: sub_def)
  have c: "copy_to t start ?x = (take j s @ drop j t, j)"
  proof -
    have t: "take start s @ drop start t = t" using Suc.prems(3) append_take_drop_id [of start t] by simp
    have cc: "copy_to (take start s @ drop start t) (length (take start s)) ?x =
        ((take start s @ ?x) @ drop (length ?x) (drop start t), length (take start s) + length ?x)"
      using copy_to_append [of ?x "drop start t" "take start s"] x by simp
    have l: "length (take start s) = start" "start + length ?x = j" "drop (length ?x) (drop start t) = drop j t"
      using x(1) j Suc.prems(1) by simp_all
    show ?thesis by (rule cc [unfolded x(2) l(3) l(1) l(2) t])
  qed
  have "copy_to (take j s @ drop j t) j [] = (take j s @ drop j t, j)"
    using copy_to_append [of "[]" "drop j t" "take j s"] j by (simp add: min_absorb2)
  then have "Replace_loop s [] [] (Suc k) first start (t, start) = Replace_loop s [] [] k False j (take j s @ drop j t, j)"
    using c j by (cases first) (simp_all add: DecodeRuneInString_eq j_def nat_int_add Let_def)
  also have "\<dots> = Some (s, length s)" using j Suc.prems by (intro Suc.IH) simp_all
  finally show ?case .
qed

lemma bytes_Replace_eq: "bytes_Replace s old new n = Replace s old new n"
proof (cases "old = new")
  case False
  then show ?thesis by (simp add: bytes_Replace_def Replace_def bytes_Replace_loop_eq bytes_Count_eq Let_def)
next
  case True
  define k where "k = (if n < 0 \<or> int (str_Count s old) < n then str_Count s old else nat n)"
  have "Replace_loop s old old k True 0 (replicate (length s) 0, 0) = Some (s, length s)"
  proof (cases "old = []")
    case True
    then show ?thesis using Replace_loop_nothing [of 0 s "replicate (length s) 0" k True] by simp
  next
    case ne: False
    have k: "k \<le> occurrences (drop 0 s) old" using Count_occurrences [OF ne, of s] by (auto simp: k_def)
    show ?thesis
      using Replace_loop_joined [OF ne k, of "replicate (length s) 0" old True "[]"] by (simp add: joined_split)
  qed
  then show ?thesis using True
    by (auto simp: bytes_Replace_def Replace_def bytes_Replace_loop_eq bytes_Count_eq k_def Let_def split: if_splits)
qed

section \<open>Trimming\<close>

lemma bytes_indexFunc_eq: "bytes_indexFunc s f truth = indexFunc s f truth"
proof -
  have "bytes_indexFunc_from s f truth i = indexFunc_from s f truth i" for i
  proof (induction s f truth i rule: indexFunc_from.induct)
    case (1 s f truth i)
    show ?case unfolding bytes_indexFunc_from.simps [of s f truth i] indexFunc_from.simps [of s f truth i]
      using 1 by (auto simp: DecodeRuneInString_eq split: prod.splits if_splits)
  qed
  then show ?thesis by (simp add: bytes_indexFunc_def indexFunc_def)
qed

lemma last_shortcut:
  assumes "0 < i" "i \<le> length s" "\<not> RuneSelf \<le> s ! (i - 1)"
  shows "DecodeLastRune (take i s) = (ucast (s ! (i - 1)), 1)"
  using assms by (auto simp: DecodeLastRune_def Let_def)

lemma bytes_lastIndexFunc_eq: "bytes_lastIndexFunc s f truth = lastIndexFunc s f truth"
proof -
  have "bytes_lastIndexFunc_from s f truth i = lastIndexFunc_from s f truth i" for i
  proof (induction s f truth i rule: lastIndexFunc_from.induct)
    case (1 s f truth i)
    show ?case unfolding bytes_lastIndexFunc_from.simps [of s f truth i] lastIndexFunc_from.simps [of s f truth i]
      using 1 by (auto simp: DecodeLastRuneInString_eq last_shortcut split: prod.splits if_splits)
  qed
  then show ?thesis by (simp add: bytes_lastIndexFunc_def lastIndexFunc_def)
qed

lemma bytes_trim_eq:
  "bytes_TrimLeftFunc s f = TrimLeftFunc s f" "bytes_TrimRightFunc s f = TrimRightFunc s f" "bytes_TrimFunc s f = TrimFunc s f"
  "bytes_TrimPrefix s p = TrimPrefix s p" "bytes_TrimSuffix s p = TrimSuffix s p"
proof -
  show l: "bytes_TrimLeftFunc s f = TrimLeftFunc s f" "bytes_TrimRightFunc s f = TrimRightFunc s f" for s
    by (simp_all add: bytes_TrimLeftFunc_def TrimLeftFunc_def bytes_TrimRightFunc_def TrimRightFunc_def
        bytes_indexFunc_eq bytes_lastIndexFunc_eq DecodeRuneInString_eq Let_def)
  show "bytes_TrimFunc s f = TrimFunc s f" by (simp add: bytes_TrimFunc_def TrimFunc_def l)
  show "bytes_TrimPrefix s p = TrimPrefix s p" "bytes_TrimSuffix s p = TrimSuffix s p"
    by (simp_all add: bytes_TrimPrefix_def TrimPrefix_def bytes_HasPrefix_def HasPrefix_def
        bytes_TrimSuffix_def TrimSuffix_def bytes_HasSuffix_def HasSuffix_def)
qed

lemma bytes_makeCutsetFunc_runes:
  "list_all ValidRune cs \<Longrightarrow> bytes_makeCutsetFunc (encode_all cs) = (\<lambda>r. r \<in> set cs)"
proof
  fix r assume "list_all ValidRune cs"
  then have "set cs = snd ` set (range_string (encode_all cs) 0)" using range_runes [of cs] by (metis list.set_map)
  then show "bytes_makeCutsetFunc (encode_all cs) r = (r \<in> set cs)"
    by (force simp: bytes_makeCutsetFunc_def list_ex_iff)
qed

lemma bytes_LastIndexAny_eq: "bytes_LastIndexAny s chars = (if chars = [] then -1 else bytes_LastIndexFunc s (bytes_makeCutsetFunc chars))"
proof -
  have "in_chars chars = bytes_makeCutsetFunc chars" by (auto simp: in_chars_def bytes_makeCutsetFunc_def list_ex_iff fun_eq_iff)
  moreover have "bytes_LastIndexAny_from s chars i = bytes_lastIndexFunc_from s (in_chars chars) True i" for i
  proof (induction s chars i rule: bytes_LastIndexAny_from.induct)
    case (1 s chars i)
    show ?case unfolding bytes_LastIndexAny_from.simps [of s chars i] bytes_lastIndexFunc_from.simps [of s _ _ i]
      using 1 by (auto simp: last_shortcut split: prod.splits if_splits)
  qed
  ultimately show ?thesis by (simp add: bytes_LastIndexAny_def bytes_LastIndexFunc_def bytes_lastIndexFunc_def)
qed

section \<open>Runes and explode\<close>

lemma Runes_loop_range:
  "Runes_loop (drop i s) (map snd ps @ replicate (length (range_string s i)) 0) (length ps) = Some (map snd (ps @ range_string s i))"
proof (induction "length s - i" arbitrary: i ps rule: less_induct)
  case less
  show ?case
  proof (cases "i < length s")
    case True
    let ?r = "fst (DecodeRune (drop i s))" and ?k = "snd (DecodeRune (drop i s))"
    have st: "range_string s i = (i, ?r) # range_string s (i + ?k)"
      using True by (subst range_string.simps) (simp add: DecodeRuneInString_eq)
    have "length s - (i + ?k) < length s - i" using decode_step [of ?r ?k i s] True by simp
    from less [OF this, of "ps @ [(i, ?r)]"] show ?thesis using True
      by (subst Runes_loop.simps) (simp add: st case_prod_beta' add.commute list_update_append Let_def)
  next
    case False
    then have "range_string s i = []" by (subst range_string.simps) simp
    then show ?thesis using False by (simp add: Runes_loop.simps)
  qed
qed

lemma Runes_range: "Runes s = Some (map snd (range_string s 0))"
  using Runes_loop_range [of 0 s "[]"] by (simp add: Runes_def RuneCount_def RuneCount_loop_range)

lemma bytes_explode_concat: "concat (bytes_explode_loop s n a) = concat a @ s"
proof (induction s n a rule: bytes_explode_loop.induct)
  case (1 s n a)
  then show ?case by (subst bytes_explode_loop.simps) (auto simp: Let_def)
qed

lemma bytes_explode_runes:
  "list_all ValidRune rs \<Longrightarrow> int (length a) + int (length rs) \<le> n \<Longrightarrow> bytes_explode_loop (encode_all rs) n a = a @ map encode_bytes rs"
proof (induction rs arbitrary: a)
  case Nil
  then show ?case by (simp add: bytes_explode_loop.simps)
next
  case (Cons r rs)
  have d: "DecodeRune (encode_bytes r @ encode_all rs) = (r, length (encode_bytes r))"
    using decode_encode [of r "encode_all rs"] Cons.prems(1) by simp
  have "encode_bytes r \<noteq> []" by (rule encode_bytes_ne)
  moreover have "rs = []" if "int (length a) + 1 \<ge> n" using that Cons.prems(2) by (cases rs) auto
  ultimately show ?case using Cons.IH [of "a @ [encode_bytes r]"] Cons.prems d
    by (subst bytes_explode_loop.simps) (auto simp: Let_def)
qed

section \<open>The empty separator\<close>

text \<open>The encodings of the first \<open>n - 1\<close> runes, and the text of the others.\<close>

definition rune_pieces :: "nat \<Rightarrow> rune list \<Rightarrow> byte list list" where
  "rune_pieces n rs = map encode_bytes (take (n - 1) rs) @ [encode_all (drop (n - 1) rs)]"

definition piece_limit :: "int \<Rightarrow> nat \<Rightarrow> nat" where
  "piece_limit n l = (if n \<le> 0 \<or> n > int l then l else nat n)"

lemma rune_pieces_all: "rs \<noteq> [] \<Longrightarrow> rune_pieces (length rs) rs = map encode_bytes rs"
  by (cases rs rule: rev_cases) (simp_all add: rune_pieces_def)

lemma rune_pieces_Cons: "2 \<le> n \<Longrightarrow> rune_pieces n (r # rs) = encode_bytes r # rune_pieces (n - 1) rs"
  by (cases n; cases "n - 1") (auto simp: rune_pieces_def)

lemma bytes_explode_pieces:
  "list_all ValidRune rs \<Longrightarrow> 0 < n \<Longrightarrow> n \<le> length rs \<Longrightarrow>
   bytes_explode_loop (encode_all rs) (int (length a + n)) a = a @ rune_pieces n rs"
proof (induction rs arbitrary: a n)
  case (Cons r rs)
  have d: "DecodeRune (encode_bytes r @ encode_all rs) = (r, length (encode_bytes r))"
    using decode_encode [of r "encode_all rs"] Cons.prems(1) by simp
  show ?case
  proof (cases "n = 1")
    case True
    then show ?thesis by (subst bytes_explode_loop.simps) (simp add: rune_pieces_def)
  next
    case False
    then have n: "2 \<le> n" using Cons.prems by simp
    have "bytes_explode_loop (encode_all rs) (int (length (a @ [encode_bytes r]) + (n - 1))) (a @ [encode_bytes r]) =
        (a @ [encode_bytes r]) @ rune_pieces (n - 1) rs"
      using Cons.prems n by (intro Cons.IH) simp_all
    then have "bytes_explode_loop (encode_all rs) (int (length a + n)) (a @ [encode_bytes r]) = a @ rune_pieces n (r # rs)"
      using n rune_pieces_Cons [OF n] by simp
    then show ?thesis using n d by (subst bytes_explode_loop.simps) (simp add: Let_def)
  qed
qed simp

lemma encode_all_length: "length rs \<le> length (encode_all rs)"
proof (induction rs)
  case (Cons r rs)
  then show ?case using encode_bytes_ne [of r] by (cases "encode_bytes r") auto
qed simp

lemma bytes_explode_valid:
  assumes v: "list_all ValidRune rs"
  shows "bytes_explode (encode_all rs) n = (if rs = [] then [] else rune_pieces (piece_limit n (length rs)) rs)"
proof (cases "rs = [] \<or> n \<le> 0 \<or> n > int (length rs)")
  case True
  have "bytes_explode (encode_all rs) n = map encode_bytes rs"
    using True encode_all_length [of rs] bytes_explode_runes [OF v, of "[]"]
    by (auto simp: bytes_explode_def bytes_explode_loop.simps [of "[]"])
  then show ?thesis using True rune_pieces_all [of rs] by (auto simp: piece_limit_def)
next
  case False
  then have "nat n \<le> length rs" "0 < nat n" by linarith+
  then show ?thesis using False bytes_explode_pieces [OF v, of "nat n" "[]"]
    by (simp add: bytes_explode_def piece_limit_def)
qed

lemma explode_loop_runes:
  "list_all ValidRune rs \<Longrightarrow> k \<le> length rs \<Longrightarrow>
   explode_loop (q @ encode_all rs) k (length q) = (map encode_bytes (take k rs), length q + length (encode_all (take k rs)))"
proof (induction k arbitrary: rs q)
  case (Suc k)
  then obtain r rs' where rs: "rs = r # rs'" by (cases rs) auto
  have d: "DecodeRune (encode_bytes r @ encode_all rs') = (r, length (encode_bytes r))"
    using decode_encode [of r "encode_all rs'"] Suc.prems(1) rs by simp
  have "explode_loop ((q @ encode_bytes r) @ encode_all rs') k (length (q @ encode_bytes r)) =
      (map encode_bytes (take k rs'), length (q @ encode_bytes r) + length (encode_all (take k rs')))"
    using Suc.prems rs by (intro Suc.IH) simp_all
  then show ?case using d rs by (simp add: DecodeRuneInString_eq sub_def Let_def)
qed simp

lemma str_explode_valid:
  assumes v: "list_all ValidRune rs" and n: "n \<noteq> 0"
  shows "str_explode (encode_all rs) n = (if rs = [] then [] else rune_pieces (piece_limit n (length rs)) rs)"
proof (cases "rs = []")
  case False
  define k where "k = piece_limit n (length rs)"
  have l: "RuneCountInString (encode_all rs) = length rs"
    using range_runes [OF v] by (simp add: RuneCountInString_length) (metis length_map)
  have k: "0 < k" "k \<le> length rs" using False n by (auto simp: k_def piece_limit_def)
  then have e: "explode_loop (encode_all rs) (k - 1) 0 = (map encode_bytes (take (k - 1) rs), length (encode_all (take (k - 1) rs)))"
    using explode_loop_runes [OF v, of "k - 1" "[]"] by simp
  have s: "encode_all rs = encode_all (take (k - 1) rs) @ encode_all (drop (k - 1) rs)"
    using encode_all_simps(3) [of "take (k - 1) rs" "drop (k - 1) rs"] by simp
  have "drop (length (encode_all (take (k - 1) rs))) (encode_all rs) = encode_all (drop (k - 1) rs)"
    using arg_cong [OF s, of "drop (length (encode_all (take (k - 1) rs)))"] by simp
  moreover have "encode_all (drop (k - 1) rs) \<noteq> []" using k by simp
  then have "length (encode_all (take (k - 1) rs)) < length (encode_all rs)"
    using arg_cong [OF s, of length] by simp
  moreover have "(if n \<le> 0 \<or> n > int (length rs) then length rs else nat n) = k" by (simp add: k_def piece_limit_def)
  ultimately show ?thesis using False k(1) n e
    by (simp add: str_explode_def l rune_pieces_def k_def [symmetric] Let_def)
qed (use n in \<open>auto simp: str_explode_def RuneCountInString_length range_string.simps\<close>)

lemma genSplit_empty:
  assumes "list_all ValidRune rs"
  shows "bytes_genSplit (encode_all rs) [] k n = genSplit (encode_all rs) [] k n"
  using bytes_explode_valid [OF assms] str_explode_valid [OF assms] by (simp add: bytes_genSplit_def genSplit_def)

section \<open>Cutsets\<close>

lemma DecodeRune_valid: "ValidRune (fst (DecodeRune p))"
proof -
  obtain r n where d: "DecodeRune p = (r, n)" by force
  have "ValidRune RuneError" by (simp add: ValidRune_def utf8_consts)
  then show ?thesis using encode_decode [OF d] d by (cases "r = RuneError \<and> n \<le> 1") auto
qed

lemma DecodeLastRune_valid: "ValidRune (fst (DecodeLastRune p))"
proof -
  obtain r n where d: "DecodeLastRune p = (r, n)" by force
  have "ValidRune RuneError" by (simp add: ValidRune_def utf8_consts)
  then show ?thesis using DecodeLastRune_sound [OF d] d by (cases "r = RuneError \<and> n \<le> 1") auto
qed

lemma ascii_valid: "(c :: byte) < RuneSelf \<Longrightarrow> ValidRune (ucast c)"
  using DecodeRune_valid [of "[c]"] DecodeRune_ascii [of "[c]"] by simp

text \<open>The predicates of the trimming functions are only asked about valid runes.\<close>

lemma indexFunc_cong:
  assumes agree: "\<And>r. ValidRune r \<Longrightarrow> f r = g r"
  shows "indexFunc_from s f truth i = indexFunc_from s g truth i"
proof (induction "length s - i" arbitrary: i rule: less_induct)
  case less
  define r where "r = fst (DecodeRune (drop i s))"
  define k where "k = snd (DecodeRune (drop i s))"
  show ?case
  proof (cases "i < length s")
    case True
    have k: "0 < k" using True by (simp add: k_def decode_size_pos)
    have d: "(if s ! i \<ge> RuneSelf then DecodeRuneInString (drop i s) else (ucast (s ! i), 1)) = (r, k)"
      using DecodeRune_ascii [of "drop i s"] True by (simp add: r_def k_def DecodeRuneInString_eq not_le)
    have "indexFunc_from s f truth (i + k) = indexFunc_from s g truth (i + k)" using True k by (intro less.hyps) simp
    then show ?thesis unfolding indexFunc_from.simps [of s _ truth i] d
      using True agree [of r] DecodeRune_valid [of "drop i s"] by (simp add: r_def [symmetric])
  next
    case False
    then show ?thesis by (simp add: indexFunc_from.simps [of s _ truth i])
  qed
qed

lemma lastIndexFunc_cong:
  assumes agree: "\<And>r. ValidRune r \<Longrightarrow> f r = g r"
  shows "lastIndexFunc_from s f truth i = lastIndexFunc_from s g truth i"
proof (induction i rule: less_induct)
  case (less i)
  define r where "r = fst (DecodeLastRune (take i s))"
  define k where "k = snd (DecodeLastRune (take i s))"
  show ?case
  proof (cases "0 < i \<and> i \<le> length s")
    case True
    then have "take i s \<noteq> []" by auto
    then have k: "0 < k" using decode_last_size_pos by (simp add: k_def)
    have d: "DecodeLastRuneInString (take i s) = (r, k)" by (simp add: r_def k_def DecodeLastRuneInString_eq)
    have "lastIndexFunc_from s f truth (i - k) = lastIndexFunc_from s g truth (i - k)" using True k by (intro less.IH) simp
    then show ?thesis unfolding lastIndexFunc_from.simps [of s _ truth i] d
      using True agree [of r] DecodeLastRune_valid [of "take i s"] by (simp add: r_def [symmetric])
  next
    case False
    then show ?thesis by (auto simp: lastIndexFunc_from.simps [of s _ truth i])
  qed
qed

lemma trim_cong:
  assumes agree: "\<And>r. ValidRune r \<Longrightarrow> f r = g r"
  shows "TrimLeftFunc s f = TrimLeftFunc s g" "TrimRightFunc s f = TrimRightFunc s g" "TrimFunc s f = TrimFunc s g"
  using indexFunc_cong [of f g, OF agree] lastIndexFunc_cong [of f g, OF agree]
  by (simp_all add: TrimFunc_def TrimLeftFunc_def TrimRightFunc_def indexFunc_def lastIndexFunc_def)

text \<open>An ASCII byte of any text is one of its runes, and the other way round.\<close>

lemma ascii_in_range:
  assumes b: "b < RuneSelf"
  shows "ucast b \<in> snd ` set (range_string s i) \<longleftrightarrow> b \<in> set (drop i s)"
proof (induction "length s - i" arbitrary: i rule: less_induct)
  case less
  show ?case
  proof (cases "i < length s")
    case True
    define r where "r = fst (DecodeRune (drop i s))"
    define k where "k = snd (DecodeRune (drop i s))"
    have d: "DecodeRune (drop i s) = (r, k)" by (simp add: r_def k_def)
    have k: "0 < k" "drop i s \<noteq> []" using True by (simp_all add: k_def decode_size_pos)
    have IH: "ucast b \<in> snd ` set (range_string s (i + k)) \<longleftrightarrow> b \<in> set (drop (i + k) s)"
      using True k by (intro less.hyps) simp
    have head: "ucast b = r \<longleftrightarrow> b \<in> set (take k (drop i s))"
    proof (cases "r = RuneError \<and> k \<le> 1")
      case bad: True
      then have k1: "k = 1" using k by simp
      have "\<not> drop i s ! 0 < RuneSelf"
      proof
        assume a: "drop i s ! 0 < RuneSelf"
        show False using DecodeRune_ascii [OF k(2) a] ascii_not_error [OF a] d bad by simp
      qed
      then have "b \<noteq> drop i s ! 0" using b by auto
      moreover have "take 1 (drop i s) = [drop i s ! 0]" using k(2) by (cases "drop i s") auto
      ultimately show ?thesis using bad k1 ascii_not_error [OF b] by simp
    next
      case False
      then show ?thesis using encode_decode [OF d False] ascii_in_encode [of r b] b by auto
    qed
    have "set (drop i s) = set (take k (drop i s)) \<union> set (drop (i + k) s)"
      by (metis add.commute append_take_drop_id drop_drop set_append)
    then show ?thesis using True IH head d by (subst range_string.simps) (auto simp: DecodeRuneInString_eq)
  qed (simp add: range_string.simps)
qed

lemma cutset_eq:
  assumes "ValidRune r"
  shows "bytes_makeCutsetFunc cutset r = makeCutsetFunc cutset r"
proof (cases "sint r < 0x80")
  case True
  then have u: "unat r < 0x80" using valid_sint [OF assms] by (simp del: of_nat_unat)
  then have b: "(ucast r :: byte) < RuneSelf" "ucast (ucast r :: byte) = r"
    using unat_ucast_low [of r] unat_ucast_byte [of "ucast r"]
    by (simp_all add: RuneSelf_def word_less_nat_alt word_unat_eq_iff)
  show ?thesis using True ascii_in_range [OF b(1), of cutset 0] b(2)
    by (force simp: bytes_makeCutsetFunc_def makeCutsetFunc_def IndexRune_def IndexByte_from_nonneg list_ex_iff)
next
  case False
  have "makeCutsetFunc cutset r \<longleftrightarrow> (\<exists>c \<in> set (map snd (range_string cutset 0)). c = r)"
    using False by (simp only: makeCutsetFunc_def IndexRune_def range_find_nonneg if_False)
  then show ?thesis by (force simp: bytes_makeCutsetFunc_def list_ex_iff)
qed

lemma last_rune_reaches:
  assumes "p \<noteq> []"
  shows "snd (DecodeLastRune p) \<le> length p" "RuneSelf \<le> p ! (length p - snd (DecodeLastRune p)) \<Longrightarrow>
    snd (DecodeRune (drop (length p - snd (DecodeLastRune p)) p)) = snd (DecodeLastRune p)"
    "\<not> RuneSelf \<le> p ! (length p - snd (DecodeLastRune p)) \<Longrightarrow> snd (DecodeLastRune p) = 1"
proof -
  obtain r n where d: "DecodeLastRune p = (r, n)" by force
  have n: "0 < n" using decode_last_size_pos [OF assms] d by simp
  have "n \<le> length p \<and> (RuneSelf \<le> p ! (length p - n) \<longrightarrow> snd (DecodeRune (drop (length p - n) p)) = n) \<and>
    (\<not> RuneSelf \<le> p ! (length p - n) \<longrightarrow> n = 1)"
  proof (cases "r = RuneError \<and> n \<le> 1")
    case True
    then have n1: "n = 1" using n by simp
    have "drop (length p - 1) p \<noteq> []" "length (drop (length p - 1) p) = 1" using assms by (cases p; simp)+
    then have "snd (DecodeRune (drop (length p - 1) p)) = 1"
      using decode_size_pos [of "drop (length p - 1) p"] decode_size_le [of "drop (length p - 1) p"] by linarith
    then show ?thesis using n1 assms by (cases p) auto
  next
    case False
    note s = DecodeLastRune_sound [OF d False]
    have e: "drop (length p - n) p = encode_bytes r"
      using s by (metis append_take_drop_id same_append_eq)
    have "DecodeRune (encode_bytes r) = (r, length (encode_bytes r))" using decode_encode [of r "[]"] s by simp
    moreover have "length (encode_bytes r) = n" using arg_cong [OF e, of length] s by simp
    moreover have "n = 1" if "\<not> RuneSelf \<le> p ! (length p - n)"
    proof -
      have "encode_bytes r ! 0 = p ! (length p - n)" using arg_cong [OF e, of "\<lambda>x. x ! 0"] s n by simp
      then have "DecodeRune (encode_bytes r) = (ucast (p ! (length p - n)), 1)"
        using DecodeRune_ascii [of "encode_bytes r"] that by simp
      then show "n = 1" using calculation by simp
    qed
    ultimately show ?thesis using s e by simp
  qed
  then show "snd (DecodeLastRune p) \<le> length p" "RuneSelf \<le> p ! (length p - snd (DecodeLastRune p)) \<Longrightarrow>
    snd (DecodeRune (drop (length p - snd (DecodeLastRune p)) p)) = snd (DecodeLastRune p)"
    "\<not> RuneSelf \<le> p ! (length p - snd (DecodeLastRune p)) \<Longrightarrow> snd (DecodeLastRune p) = 1"
    using d by auto
qed

lemma trim_nothing: "TrimLeftFunc s (\<lambda>r. False) = s" "TrimRightFunc s (\<lambda>r. False) = s"
proof -
  show "TrimLeftFunc s (\<lambda>r. False) = s"
    by (cases "s = []") (simp_all add: TrimLeftFunc_def indexFunc_def indexFunc_from.simps Let_def split_beta)
  show "TrimRightFunc s (\<lambda>r. False) = s"
  proof (cases "s = []")
    case False
    have "lastIndexFunc s (\<lambda>r. False) False = int (length s - snd (DecodeLastRune s))"
      using False by (simp add: lastIndexFunc_def lastIndexFunc_from.simps DecodeLastRuneInString_eq Let_def split_beta)
    then show ?thesis using last_rune_reaches [OF False]
      by (cases "RuneSelf \<le> s ! (length s - snd (DecodeLastRune s))")
        (simp_all add: TrimRightFunc_def DecodeRuneInString_eq Let_def sub_def del: of_nat_diff)
  qed (simp add: TrimRightFunc_def lastIndexFunc_def lastIndexFunc_from.simps sub_def)
qed

lemma bytes_cutset_trim:
  "bytes_Trim s cutset = Trim s cutset" "bytes_TrimLeft s cutset = TrimLeft s cutset" "bytes_TrimRight s cutset = TrimRight s cutset"
proof -
  have c: "TrimLeftFunc s (bytes_makeCutsetFunc cutset) = TrimLeftFunc s (makeCutsetFunc cutset)"
    "TrimRightFunc s (bytes_makeCutsetFunc cutset) = TrimRightFunc s (makeCutsetFunc cutset)"
    "TrimFunc s (bytes_makeCutsetFunc cutset) = TrimFunc s (makeCutsetFunc cutset)" for s
    by (rule trim_cong, erule cutset_eq)+
  have e: "bytes_makeCutsetFunc [] = (\<lambda>r. False)" by (simp add: bytes_makeCutsetFunc_def range_string.simps fun_eq_iff)
  have n: "TrimLeftFunc [] f = []" "TrimRightFunc [] f = []" for f
    by (simp_all add: TrimLeftFunc_def indexFunc_def indexFunc_from.simps TrimRightFunc_def lastIndexFunc_def lastIndexFunc_from.simps sub_def)
  show "bytes_Trim s cutset = Trim s cutset" "bytes_TrimLeft s cutset = TrimLeft s cutset" "bytes_TrimRight s cutset = TrimRight s cutset"
    using c [of s] e n trim_nothing
    by (auto simp: bytes_Trim_def Trim_def bytes_TrimLeft_def TrimLeft_def bytes_TrimRight_def TrimRight_def bytes_trim_eq TrimFunc_def)
qed

section \<open>Fields\<close>

lemma bytes_fields_count_eq: "bytes_fields_count s f i b n = fields_count f (range_string s i) b n"
proof (induction "length s - i" arbitrary: i b n rule: less_induct)
  case less
  show ?case
  proof (cases "i < length s")
    case True
    define r where "r = fst (DecodeRune (drop i s))"
    define k where "k = snd (DecodeRune (drop i s))"
    have d: "DecodeRune (drop i s) = (r, k)" by (simp add: r_def k_def)
    have "range_string s i = (i, r) # range_string s (i + k)"
      using True by (subst range_string.simps) (simp add: DecodeRuneInString_eq r_def k_def)
    moreover have "length s - (i + k) < length s - i" using decode_step [OF d [symmetric] True] .
    ultimately show ?thesis using True less by (subst bytes_fields_count.simps) (simp add: d Let_def)
  next
    case False
    then show ?thesis by (subst bytes_fields_count.simps, subst range_string.simps) simp
  qed
qed

lemma fields_count_acc: "fields_count f ps b (n + k) = fields_count f ps b n + k"
  by (induction f ps b n arbitrary: k rule: fields_count.induct) (auto simp: add.commute add.left_commute)

lemma fields_fill_full:
  "fields_count f ps False 0 = 0 \<Longrightarrow> fields_fill s f ps A na (-1) = Some A"
proof (induction ps)
  case (Cons p ps)
  obtain i r where p: "p = (i, r)" by (cases p)
  have "f r" using Cons.prems fields_count_acc [of f ps True 0 1] by (cases "f r") (auto simp: p)
  then show ?case using Cons by (simp add: p)
qed simp

text \<open>
  The array of strings and the slice of bytes agree as long as the fields still to come, with the one
  that is open, fill the array.
\<close>

lemma bytes_fields_fill_eq:
  assumes "i \<le> length s" "fs = -1 \<or> 0 \<le> fs"
    "na + (if fs \<ge> 0 then 1 else 0) + fields_count f (range_string s i) (fs \<ge> 0) 0 = length A"
  shows "fields_fill s f (range_string s i) A na fs = Some (bytes_fields_fill s f (length A) (take na A) i fs)"
  using assms
proof (induction "length s - i" arbitrary: i fs na A rule: less_induct)
  case less
  show ?case
  proof (cases "i < length s")
    case False
    then have e: "range_string s i = []" "i = length s" "DecodeRune (drop i s) = (RuneError, 0)"
      using less.prems(1) by (subst range_string.simps, auto simp: DecodeRune_def decodeRuneInternal_def)
    then show ?thesis using less.prems
      by (subst bytes_fields_fill.simps) (auto simp: set_field_def sub_def take_Suc_conv_app_nth [symmetric] upd_conv_take_nth_drop)
  next
    case True
    define r where "r = fst (DecodeRune (drop i s))"
    define k where "k = snd (DecodeRune (drop i s))"
    have d: "DecodeRune (drop i s) = (r, k)" by (simp add: r_def k_def)
    have st: "range_string s i = (i, r) # range_string s (i + k)"
      using True by (subst range_string.simps) (simp add: DecodeRuneInString_eq r_def k_def)
    have k: "0 < k" "i + k \<le> length s" using decode_size_pos [of "drop i s"] decode_size_le [of "drop i s"] True by (auto simp: k_def)
    have lt: "length s - (i + k) < length s - i" using k True by simp
    note IH = less.hyps [OF lt k(2)] and acc = fields_count_acc [of f "range_string s (i + k)" _ 0 1]
    have "na \<le> length A" using less.prems(3) by simp
    then consider "fs = -1" "\<not> f r" | "fs = -1" "f r" "na < length A" | "fs = -1" "f r" "na = length A" | "fs \<ge> 0" "f r" | "fs \<ge> 0" "\<not> f r"
      using less.prems(2) le_neq_implies_less by blast
    then show ?thesis
    proof cases
      case 1
      then show ?thesis using IH [of "int i" na A] less.prems(3) acc [of True] k(1) True
        by (simp add: st bytes_fields_fill.simps [of s f _ _ i] d)
    next
      case 2
      then show ?thesis using IH [of "-1" na A] less.prems(3) k(1) True
        by (simp add: st bytes_fields_fill.simps [of s f _ _ i] d)
    next
      case 3
      then show ?thesis using fields_fill_full [of f "range_string s i" s A na] less.prems(3)
        by (simp add: bytes_fields_fill.simps [of s f _ _ i])
    next
      case 4
      let ?A = "A[na := sub s (nat fs) i]"
      have na: "na < length A" "take (Suc na) ?A = take na A @ [sub s (nat fs) i]"
        using 4 less.prems(3) by (auto simp: take_Suc_conv_app_nth)
      then show ?thesis using 4 IH [of "-1" "Suc na" ?A] less.prems(3) k(1) True
        by (simp add: st bytes_fields_fill.simps [of s f _ _ i] d set_field_def)
    next
      case 5
      then show ?thesis using IH [of fs na A] less.prems(3) k(1) True
        by (simp add: st bytes_fields_fill.simps [of s f _ _ i] d)
    qed
  qed
qed

lemma bytes_FieldsFunc_eq: "FieldsFunc s f = Some (bytes_FieldsFunc s f)"
  using bytes_fields_fill_eq [of 0 s "-1" 0 f "replicate (fields_count f (range_string s 0) False 0) []"]
  by (simp add: FieldsFunc_def bytes_FieldsFunc_def bytes_fields_count_eq Let_def)

section \<open>Properties\<close>

text \<open>
  C26. The searches of package bytes agree with those of package strings on all arguments: Index, Count,
  LastIndex and Contains, which skip to the next byte that can begin a match where strings rolls a hash,
  IndexAny, and the portable versions of IndexByte and Equal with what the assembly computes. LastIndexAny
  is LastIndexFunc of the characters, and IndexRune finds the first such rune of the range.
\<close>

theorem bytes_search:
  "bytes_Index s sep = str_Index s sep \<and> bytes_Count s sep = str_Count s sep \<and> bytes_LastIndex s sep = str_LastIndex s sep \<and>
   (bytes_Contains s sep \<longleftrightarrow> str_Contains s sep) \<and> bytes_IndexAny s chars = IndexAny s chars \<and>
   bytes_LastIndexAny s chars = (if chars = [] then -1 else LastIndexFunc s (bytes_makeCutsetFunc chars)) \<and>
   bytes_IndexRune s r = range_find (\<lambda>c. c = r) (range_string s 0) \<and>
   indexBytePortable s b = IndexByte s b \<and> (equalPortable s sep \<longleftrightarrow> s = sep)"
proof -
  have "str_Index s sep \<ge> -1" by (simp add: Index_first_match opt_int_def split: option.splits)
  then have "bytes_Contains s sep \<longleftrightarrow> str_Contains s sep" by (auto simp: bytes_Contains_def str_Contains_def bytes_Index_eq)
  then show ?thesis
    by (simp add: bytes_Index_eq bytes_Count_eq bytes_LastIndex_eq bytes_IndexAny_eq bytes_LastIndexAny_eq
        bytes_LastIndexFunc_def LastIndexFunc_def bytes_lastIndexFunc_eq bytes_IndexRune_def bytes_IndexRune_range
        indexBytePortable_eq equalPortable_iff)
qed



text \<open>
  The difference at the empty separator: bytes keeps the bytes of an invalid encoding, strings writes U+FFFD,
  except in the last piece, which it leaves as it is.
\<close>

theorem bytes_explode_differs:
  "bytes_Split [0xFF, 0xFF] [] = [[0xFF], [0xFF]] \<and> Split [0xFF, 0xFF] [] = [[0xEF, 0xBF, 0xBD], [0xFF]]"
  by (intro conjI; code_simp)

text \<open>
  On UTF-8 text Runes returns the runes, splitting at the empty separator the encodings of the runes one
  by one, and Trim, TrimLeft and TrimRight remove exactly the leading and trailing runes of the cutset; on
  any bytes Runes returns the runes of the range without an index error.
\<close>

theorem bytes_runes:
  assumes "list_all ValidRune rs" "list_all ValidRune cs"
  shows "Runes (encode_all rs) = Some rs \<and> bytes_Split (encode_all rs) [] = map encode_bytes rs \<and>
    bytes_TrimLeft (encode_all rs) (encode_all cs) = encode_all (dropWhile (\<lambda>r. r \<in> set cs) rs) \<and>
    bytes_TrimRight (encode_all rs) (encode_all cs) = encode_all (dropRight (\<lambda>r. r \<in> set cs) rs) \<and>
    bytes_Trim (encode_all rs) (encode_all cs) = encode_all (dropRight (\<lambda>r. r \<in> set cs) (dropWhile (\<lambda>r. r \<in> set cs) rs)) \<and>
    Runes s = Some (map snd (range_string s 0))"
proof -
  have "length rs \<le> length (encode_all rs)" by (rule encode_all_length)
  then have "bytes_Split (encode_all rs) [] = map encode_bytes rs"
    using bytes_explode_runes [OF assms(1), of "[]"] by (simp add: bytes_Split_def bytes_genSplit_def bytes_explode_def)
  moreover have "list_all ValidRune (dropWhile h rs)" for h
    using assms(1) set_dropWhileD by (fastforce simp: list_all_iff)
  ultimately show ?thesis
    by (simp add: Runes_range range_runes [OF assms(1)] bytes_TrimLeft_def bytes_TrimRight_def bytes_Trim_def bytes_trim_eq TrimFunc_def
        bytes_makeCutsetFunc_runes [OF assms(2)] TrimLeftFunc_runes [OF assms(1)] TrimRightFunc_runes [OF assms(1)] TrimRightFunc_runes)
qed

end
