(* ===== verification/Base64Defs.thy ===== *)
theory Base64Defs
  imports BufferDefs BytesDefs
begin

text \<open>
  Package encoding/base64 (base64.go, base64_compatible.go).
  A slice that is written to is passed in and returned with its new contents; None is a panic (an index
  or a slice out of range). An \<open>io.Writer\<close> is the list of the byte slices it has been given together
  with the errors its next calls return; an \<open>io.Reader\<close> is the list of results its next calls return.
\<close>

unbundle bit_operations_syntax

section \<open>Encodings\<close>

record Encoding =
  encode :: gostring
  decodeMap :: "byte list"
  padChar :: rune

definition encodeStd :: gostring where
  "encodeStd = map (\<lambda>i. of_nat (65 + i)) [0..<26] @ map (\<lambda>i. of_nat (97 + i)) [0..<26] @
     map (\<lambda>i. of_nat (48 + i)) [0..<10] @ [0x2B, 0x2F]"

definition encodeURL :: gostring where
  "encodeURL = map (\<lambda>i. of_nat (65 + i)) [0..<26] @ map (\<lambda>i. of_nat (97 + i)) [0..<26] @
     map (\<lambda>i. of_nat (48 + i)) [0..<10] @ [0x2D, 0x5F]"

fun NewEncoding_loop :: "gostring \<Rightarrow> nat \<Rightarrow> byte list \<Rightarrow> byte list" where
  "NewEncoding_loop [] i dm = dm"
| "NewEncoding_loop (c # cs) i dm = NewEncoding_loop cs (Suc i) (dm[unat c := of_nat i])"

definition NewEncoding :: "gostring \<Rightarrow> Encoding" where
  "NewEncoding encoder =
     \<lparr>encode = encoder, decodeMap = NewEncoding_loop encoder 0 (replicate 256 0xFF), padChar = 0\<rparr>"

definition StdEncoding :: Encoding where "StdEncoding = NewEncoding encodeStd"

definition URLEncoding :: Encoding where "URLEncoding = NewEncoding encodeURL"

definition NoPadding :: rune where "NoPadding = - 1"

definition WithPadding :: "Encoding \<Rightarrow> rune \<Rightarrow> Encoding" where
  "WithPadding enc padding = enc\<lparr>padChar := padding\<rparr>"

definition RawStdEncoding :: Encoding where "RawStdEncoding = WithPadding StdEncoding NoPadding"

definition RawURLEncoding :: Encoding where "RawURLEncoding = WithPadding URLEncoding NoPadding"

definition removeNewlinesMapper :: "rune \<Rightarrow> rune" where
  "removeNewlinesMapper r = (if r = 0x0D \<or> r = 0x0A then - 1 else r)"

section \<open>Encoding\<close>

definition EncodedLen :: "nat \<Rightarrow> nat" where "EncodedLen n = (n + 2) div 3 * 4"

definition DecodedLen :: "nat \<Rightarrow> nat" where "DecodedLen n = n div 4 * 3"

text \<open>The switch of Encode: the 6-bit blocks of the next one, two or three bytes of src.\<close>

definition unpack :: "byte list \<Rightarrow> byte list" where
  "unpack src =
     (let dst = [0, 0, 0, 0];
          dst = (if length src \<ge> 3 then
                   let dst = dst[3 := dst ! 3 OR (src ! 2 AND 0x3F)]
                   in dst[2 := dst ! 2 OR drop_bit 6 (src ! 2)]
                 else dst);
          dst = (if length src \<ge> 2 then
                   let dst = dst[2 := dst ! 2 OR (push_bit 2 (src ! 1) AND 0x3F)]
                   in dst[1 := dst ! 1 OR drop_bit 4 (src ! 1)]
                 else dst);
          dst = dst[1 := dst ! 1 OR (push_bit 4 (src ! 0) AND 0x3F)]
      in dst[0 := dst ! 0 OR drop_bit 2 (src ! 0)])"

definition alphabet :: "Encoding \<Rightarrow> byte \<Rightarrow> byte option" where
  "alphabet enc v = (if unat v < length (encode enc) then Some (encode enc ! unat v) else None)"

fun Encode :: "Encoding \<Rightarrow> byte list \<Rightarrow> byte list \<Rightarrow> byte list option" where
  "Encode enc dst src =
     (if length src > 0 then
        if length dst < 4 then None
        else do {
          q \<leftarrow> those (map (alphabet enc) (unpack src));
          if length src < 3 then
            (let q = q[3 := 0x3D];
                 q = (if length src < 2 then q[2 := 0x3D] else q)
             in Some (q @ drop 4 dst))
          else do {
            rest \<leftarrow> Encode enc (drop 4 dst) (drop 3 src);
            Some (q @ rest)
          }
        }
      else Some dst)"

declare Encode.simps [simp del]

definition EncodeToString :: "Encoding \<Rightarrow> byte list \<Rightarrow> gostring option" where
  "EncodeToString enc src = Encode enc (replicate (EncodedLen (length src)) 0) src"

section \<open>The stream encoder\<close>

record writer =
  sent :: "byte list list"
  fails :: "io_err option list"

definition w_Write :: "writer \<Rightarrow> byte list \<Rightarrow> writer \<times> io_err option" where
  "w_Write w p =
     (w\<lparr>sent := sent w @ [p], fails := tl (fails w)\<rparr>, case fails w of [] \<Rightarrow> None | e # _ \<Rightarrow> e)"

record encoder =
  e_err :: "io_err option"
  e_enc :: Encoding
  e_w :: writer
  e_buf :: "byte list"
  e_nbuf :: nat
  e_out :: "byte list"

definition NewEncoder :: "Encoding \<Rightarrow> writer \<Rightarrow> encoder" where
  "NewEncoder enc w =
     \<lparr>e_err = None, e_enc = enc, e_w = w, e_buf = replicate 3 0, e_nbuf = 0, e_out = replicate 1024 0\<rparr>"

text \<open>\<open>e.enc.Encode(e.out[0:], src)\<close> followed by \<open>e.w.Write(e.out[0:k])\<close>.\<close>

definition flush :: "encoder \<Rightarrow> byte list \<Rightarrow> nat \<Rightarrow> encoder option" where
  "flush e src k = do {
     out \<leftarrow> Encode (e_enc e) (e_out e) src;
     let (w, err) = w_Write (e_w e) (take k out);
     Some (e\<lparr>e_out := out, e_w := w, e_err := err\<rparr>)
   }"

function fringe :: "encoder \<Rightarrow> byte list \<Rightarrow> nat \<Rightarrow> encoder \<times> nat" where
  "fringe e p i =
     (if i < length p \<and> e_nbuf e < 3
      then fringe (e\<lparr>e_buf := (e_buf e)[e_nbuf e := p ! i], e_nbuf := e_nbuf e + 1\<rparr>) p (Suc i)
      else (e, i))"
  by pat_completeness auto
termination by (relation "measure (\<lambda>(e, p, i). length p - i)") auto

declare fringe.simps [simp del]

function chunks :: "encoder \<Rightarrow> byte list \<Rightarrow> nat \<Rightarrow> (encoder \<times> byte list \<times> nat) option" where
  "chunks e p n =
     (if length p \<ge> 3 then
        let nn = length (e_out e) div 4 * 3;
            nn = (if nn > length p then length p else nn);
            nn = nn - nn mod 3
        in if nn > 0 then
             case flush e (take nn p) (nn div 3 * 4) of
               None \<Rightarrow> None
             | Some e \<Rightarrow>
                 if e_err e \<noteq> None then Some (e, p, n)
                 else chunks e (drop nn p) (n + nn)
           else None
      else Some (e, p, n))"
  by pat_completeness auto
termination by (relation "measure (\<lambda>(e, p, n). length p)") auto

declare chunks.simps [simp del]

definition encoder_Write :: "encoder \<Rightarrow> byte list \<Rightarrow> (encoder \<times> nat \<times> io_err option) option" where
  "encoder_Write e p =
     (if e_err e \<noteq> None then Some (e, 0, e_err e)
      else
        let (e, i) = (if e_nbuf e > 0 then fringe e p 0 else (e, 0));
            p = drop i p
        in if e_nbuf e > 0 \<and> e_nbuf e < 3 then Some (e, i, None)
           else do {
             e \<leftarrow> (if e_nbuf e > 0 then flush e (e_buf e) 4 else Some e);
             if e_err e \<noteq> None then Some (e, i, e_err e)
             else do {
               (e, p, n) \<leftarrow> chunks (e\<lparr>e_nbuf := 0\<rparr>) p i;
               if e_err e \<noteq> None then Some (e, n, e_err e)
               else Some (e\<lparr>e_buf := p @ drop (length p) (e_buf e), e_nbuf := length p\<rparr>, n + length p, None)
             }
           })"

definition encoder_Close :: "encoder \<Rightarrow> (encoder \<times> io_err option) option" where
  "encoder_Close e =
     (if e_err e = None \<and> e_nbuf e > 0 then do {
        e \<leftarrow> flush (e\<lparr>e_nbuf := 0\<rparr>) (take (e_nbuf e) (e_buf e)) 4;
        Some (e, e_err e)
      } else Some (e, e_err e))"

section \<open>Decoding\<close>

text \<open>The inner loop of decode: a corrupt input's offset, or the quantum, its length, end and the rest.\<close>

fun decode_quantum :: "Encoding \<Rightarrow> nat \<Rightarrow> byte list \<Rightarrow> nat \<Rightarrow> byte list \<Rightarrow> int + (byte list \<times> nat \<times> bool \<times> byte list)" where
  "decode_quantum enc olen [] j dbuf =
     (if j < 4 then Inl (int olen - int j) else Inr (dbuf, 4, False, []))"
| "decode_quantum enc olen (c # src) j dbuf =
     (if j < 4 then
        if c = 0x3D \<and> j \<ge> 2 \<and> length src < 4 then
          if length src + j < 4 - 1 then Inl (int olen)
          else if length src > 0 \<and> src ! 0 \<noteq> 0x3D then Inl (int olen - int (length src) - 1)
          else Inr (dbuf, j, True, src)
        else
          let dbuf = dbuf[j := decodeMap enc ! unat c]
          in if dbuf ! j = 0xFF then Inl (int olen - int (length src) - 1)
             else decode_quantum enc olen src (j + 1) dbuf
      else Inr (dbuf, 4, False, c # src))"

definition pack :: "nat \<Rightarrow> byte list \<Rightarrow> byte list \<Rightarrow> byte list" where
  "pack dlen dbuf dst =
     (let dst = (if dlen = 4 then dst[2 := push_bit 6 (dbuf ! 2) OR dbuf ! 3] else dst);
          dst = (if dlen = 4 \<or> dlen = 3 then dst[1 := push_bit 4 (dbuf ! 1) OR drop_bit 2 (dbuf ! 2)] else dst)
      in if dlen = 4 \<or> dlen = 3 \<or> dlen = 2 then dst[0 := push_bit 2 (dbuf ! 0) OR drop_bit 4 (dbuf ! 1)] else dst)"

lemma decode_quantum_le:
  "decode_quantum enc olen src j dbuf = Inr (d, l, e, rest) \<Longrightarrow> length rest \<le> length src"
  by (induction enc olen src j dbuf rule: decode_quantum.induct) (auto simp: Let_def split: if_splits)

lemma decode_quantum_less:
  assumes "decode_quantum enc olen src 0 dbuf = Inr (d, l, e, rest)"
  shows "length rest < length src"
proof (cases src)
  case (Cons c cs)
  then have "\<exists>b. decode_quantum enc olen cs 1 b = Inr (d, l, e, rest)"
    using assms by (auto simp: Let_def split: if_splits)
  then show ?thesis using Cons decode_quantum_le by fastforce
qed (use assms in simp)

text \<open>
  The outer loop of decode. With fewer than three bytes left in dst one of its stores or the slice
  \<open>dst[3:]\<close> panics. The result is dst, n, end and the error.
\<close>

function decode_loop :: "Encoding \<Rightarrow> nat \<Rightarrow> byte list \<Rightarrow> byte list \<Rightarrow> nat \<Rightarrow> bool \<Rightarrow> (byte list \<times> nat \<times> bool \<times> int option) option" where
  "decode_loop enc olen dst src n e =
     (if length src > 0 \<and> \<not> e then
        case decode_quantum enc olen src 0 [0, 0, 0, 0] of
          Inl at \<Rightarrow> Some (dst, n, False, Some at)
        | Inr (dbuf, dlen, e, src) \<Rightarrow>
            if length dst < 3 then None
            else do {
              let dst = pack dlen dbuf dst;
              (rest, n, e, err) \<leftarrow> decode_loop enc olen (drop 3 dst) src (n + dlen - 1) e;
              Some (take 3 dst @ rest, n, e, err)
            }
      else Some (dst, n, e, None))"
  by pat_completeness auto
termination
  by (relation "measure (\<lambda>(enc, olen, dst, src, n, e). length src)") (auto dest: decode_quantum_less)

declare decode_loop.simps [simp del]

definition decode :: "Encoding \<Rightarrow> byte list \<Rightarrow> byte list \<Rightarrow> (byte list \<times> nat \<times> bool \<times> int option) option" where
  "decode enc dst src = decode_loop enc (length src) dst src 0 False"

definition Decode :: "Encoding \<Rightarrow> byte list \<Rightarrow> byte list \<Rightarrow> (byte list \<times> nat \<times> int option) option" where
  "Decode enc dst src = do {
     src \<leftarrow> bytes_Map removeNewlinesMapper src;
     (dst, n, e, err) \<leftarrow> decode enc dst src;
     Some (dst, n, err)
   }"

definition DecodeString :: "Encoding \<Rightarrow> gostring \<Rightarrow> (byte list \<times> int option) option" where
  "DecodeString enc s = do {
     s \<leftarrow> str_Map removeNewlinesMapper s;
     let dbuf = replicate (DecodedLen (length s)) 0;
     (dbuf, n, err) \<leftarrow> Decode enc dbuf s;
     Some (take n dbuf, err)
   }"

section \<open>The stream decoder\<close>

datatype b64_err = CorruptInputError int | ErrUnexpectedEOF | ErrShortBuffer | IO io_err

text \<open>
  A reader holds the results of its next calls, bytes with an error; what does not fit into the buffer
  of a call is left for the next one. A reader with no results left is at its end.
\<close>

type_synonym reader = "(byte list \<times> io_err option) list"

fun r_Read :: "reader \<Rightarrow> nat \<Rightarrow> reader \<times> byte list \<times> io_err option" where
  "r_Read [] k = ([], [], Some EOF)"
| "r_Read ((data, e) # r) k =
     (if length data \<le> k then (r, data, e) else ((drop k data, e) # r, take k data, None))"

definition reader_size :: "reader \<Rightarrow> nat" where
  "reader_size r = sum_list (map (\<lambda>d. Suc (length (fst d))) r)"

lemma r_Read_size:
  "r_Read r k = (r', data, e) \<Longrightarrow> data \<noteq> [] \<or> k > 0 \<and> r \<noteq> [] \<Longrightarrow> reader_size r' < reader_size r"
  by (cases "(r, k)" rule: r_Read.cases) (auto simp: reader_size_def split: if_splits)

lemma r_Read_size_le: "r_Read r k = (r', data, e) \<Longrightarrow> reader_size r' \<le> reader_size r"
  by (cases "(r, k)" rule: r_Read.cases) (auto simp: reader_size_def split: if_splits)

text \<open>The compaction of newlineFilteringReader: the bytes of \<open>p[0:n]\<close> that are not newlines.\<close>

fun squeeze :: "byte list \<Rightarrow> byte list" where
  "squeeze [] = []"
| "squeeze (b # bs) = (if b \<noteq> 0x0D \<and> b \<noteq> 0x0A then b # squeeze bs else squeeze bs)"

function filter_Read :: "reader \<Rightarrow> nat \<Rightarrow> reader \<times> byte list \<times> io_err option" where
  "filter_Read r k =
     (case r_Read r k of (r', data, e) \<Rightarrow>
        if length data > 0 then
          let p = squeeze data
          in if length p > 0 then (r', p, e) else filter_Read r' k
        else (r', data, e))"
  by pat_completeness auto
termination
  by (relation "measure (\<lambda>(r, k). reader_size r)") (auto dest!: r_Read_size [OF sym])

declare filter_Read.simps [simp del]

text \<open>
  \<open>io.ReadAtLeast\<close> on the filtered reader, with a buffer of k bytes and the bytes read so far. The guard
  \<open>lo \<le> k\<close> of the caller holds throughout the loop.
\<close>

lemma filter_Read_size:
  "filter_Read r k = (r', data, e) \<Longrightarrow> k > 0 \<Longrightarrow> e = None \<Longrightarrow> reader_size r' < reader_size r"
proof (induction r k rule: filter_Read.induct)
  case (1 r k)
  obtain r1 d1 e1 where q: "r_Read r k = (r1, d1, e1)" by (cases "r_Read r k")
  have ne: "r \<noteq> []" if "e1 = None" using q that by (cases r) auto
  show ?case
  proof (cases "length d1 > 0 \<and> squeeze d1 = []")
    case True
    then have "filter_Read r1 k = (r', data, e)" using 1(2) q by (subst (asm) filter_Read.simps) simp
    then have "reader_size r' < reader_size r1" using 1 q True by simp
    then show ?thesis using r_Read_size_le [OF q] by simp
  next
    case False
    then have "r' = r1" "e = e1" using 1(2) q by (auto simp: filter_Read.simps [of r] Let_def split: if_splits)
    then show ?thesis using r_Read_size [OF q] ne 1(3,4) by blast
  qed
qed

function ReadAtLeast_loop :: "reader \<Rightarrow> nat \<Rightarrow> nat \<Rightarrow> byte list \<Rightarrow> io_err option \<Rightarrow> reader \<times> byte list \<times> io_err option" where
  "ReadAtLeast_loop r k lo acc err =
     (if length acc < lo \<and> err = None \<and> lo \<le> k then
        case filter_Read r (k - length acc) of (r', data, e) \<Rightarrow> ReadAtLeast_loop r' k lo (acc @ data) e
      else (r, acc, err))"
  by pat_completeness auto
termination
  by (relation "measures [\<lambda>(r, k, lo, acc, err). (if err = None then 1 else 0), \<lambda>(r, k, lo, acc, err). reader_size r]")
    (auto dest!: filter_Read_size [OF sym])

declare ReadAtLeast_loop.simps [simp del]

definition ReadAtLeast :: "reader \<Rightarrow> nat \<Rightarrow> nat \<Rightarrow> reader \<times> byte list \<times> b64_err option" where
  "ReadAtLeast r k lo =
     (if k < lo then (r, [], Some ErrShortBuffer)
      else case ReadAtLeast_loop r k lo [] None of (r, data, err) \<Rightarrow>
        (r, data,
         if length data \<ge> lo then None
         else if length data > 0 \<and> err = Some EOF then Some ErrUnexpectedEOF
         else map_option IO err))"

record decoder =
  d_err :: "b64_err option"
  d_enc :: Encoding
  d_r :: reader
  d_end :: bool
  d_buf :: "byte list"
  d_nbuf :: nat
  d_out :: "byte list"

definition NewDecoder :: "Encoding \<Rightarrow> reader \<Rightarrow> decoder" where
  "NewDecoder enc r =
     \<lparr>d_err = None, d_enc = enc, d_r = r, d_end = False, d_buf = replicate 1024 0, d_nbuf = 0, d_out = []\<rparr>"

text \<open>
  \<open>Read\<close> returns the decoder, the buffer p with its new contents, n and the error. \<open>outbuf\<close> is only
  read through \<open>out\<close>, so it is not kept.
\<close>

definition decoder_Read :: "decoder \<Rightarrow> byte list \<Rightarrow> (decoder \<times> byte list \<times> nat \<times> b64_err option) option" where
  "decoder_Read d p =
     (if d_err d \<noteq> None then Some (d, p, 0, d_err d)
      else if length (d_out d) > 0 then
        let (p, n) = copy_to p 0 (d_out d)
        in Some (d\<lparr>d_out := drop n (d_out d)\<rparr>, p, n, None)
      else
        let nn = length p div 3 * 4;
            nn = (if nn < 4 then 4 else nn);
            nn = (if nn > length (d_buf d) then length (d_buf d) else nn);
            (r, data, err) = ReadAtLeast (d_r d) (nn - d_nbuf d) (4 - d_nbuf d);
            d = d\<lparr>d_r := r, d_err := err, d_buf := fst (copy_to (d_buf d) (d_nbuf d) data),
                  d_nbuf := d_nbuf d + length data\<rparr>
        in if d_err d \<noteq> None \<or> d_nbuf d < 4 then Some (d, p, 0, d_err d)
           else do {
             let nr = d_nbuf d div 4 * 4;
             let nw = d_nbuf d div 4 * 3;
             (d, p, n) \<leftarrow>
               (if nw > length p then do {
                  (out, nw, e, err) \<leftarrow> decode (d_enc d) (replicate (1024 div 4 * 3) 0) (take nr (d_buf d));
                  let out = take nw out;
                  let (p, n) = copy_to p 0 out;
                  Some (d\<lparr>d_end := e, d_err := map_option CorruptInputError err, d_out := drop n out\<rparr>, p, n)
                } else do {
                  (p, n, e, err) \<leftarrow> decode (d_enc d) p (take nr (d_buf d));
                  Some (d\<lparr>d_end := e, d_err := map_option CorruptInputError err\<rparr>, p, n)
                });
             let k = d_nbuf d - nr;
             let d = d\<lparr>d_nbuf := k, d_buf := sub (d_buf d) nr (nr + k) @ drop k (d_buf d)\<rparr>;
             Some (d, p, n, d_err d)
           })"

end
