(* ===== verification/HexDefs.thy ===== *)
theory HexDefs
  imports Base64Defs
begin

text \<open>
  Package encoding/hex (hex.go). A slice that is written to is passed in and returned with its new
  contents; None is a panic. The Dumper is given its writer as a state with a Write function, so that Dump
  can pass it a bytes.Buffer.
\<close>

unbundle bit_operations_syntax

section \<open>Encoding and decoding\<close>

definition hextable :: gostring where
  "hextable = [0x30, 0x31, 0x32, 0x33, 0x34, 0x35, 0x36, 0x37, 0x38, 0x39, 0x61, 0x62, 0x63, 0x64, 0x65, 0x66]"

definition hex_EncodedLen :: "nat \<Rightarrow> nat" where "hex_EncodedLen n = n * 2"

definition hex_DecodedLen :: "nat \<Rightarrow> nat" where "hex_DecodedLen x = x div 2"

function hex_Encode_loop :: "byte list \<Rightarrow> byte list \<Rightarrow> nat \<Rightarrow> byte list option" where
  "hex_Encode_loop dst src i =
     (if i < length src then
        let v = src ! i
        in if i * 2 + 1 < length dst then
             hex_Encode_loop
               (dst[i * 2 := hextable ! unat (drop_bit 4 v), i * 2 + 1 := hextable ! unat (v AND 0x0F)]) src (i + 1)
           else None
      else Some dst)"
  by pat_completeness auto
termination by (relation "measure (\<lambda>(dst, src, i). length src - i)") auto

declare hex_Encode_loop.simps [simp del]

definition hex_Encode :: "byte list \<Rightarrow> byte list \<Rightarrow> (byte list \<times> nat) option" where
  "hex_Encode dst src = map_option (\<lambda>dst. (dst, length src * 2)) (hex_Encode_loop dst src 0)"

datatype hex_err = ErrLength | InvalidByteError byte

definition fromHexChar :: "byte \<Rightarrow> byte \<times> bool" where
  "fromHexChar c =
     (if 0x30 \<le> c \<and> c \<le> 0x39 then (c - 0x30, True)
      else if 0x61 \<le> c \<and> c \<le> 0x66 then (c - 0x61 + 10, True)
      else if 0x41 \<le> c \<and> c \<le> 0x46 then (c - 0x41 + 10, True)
      else (0, False))"

function hex_Decode_loop :: "byte list \<Rightarrow> byte list \<Rightarrow> nat \<Rightarrow> (byte list \<times> nat \<times> hex_err option) option" where
  "hex_Decode_loop dst src i =
     (if i < length src div 2 then
        let (a, ok) = fromHexChar (src ! (i * 2))
        in if \<not> ok then Some (dst, 0, Some (InvalidByteError (src ! (i * 2))))
           else
             let (b, ok) = fromHexChar (src ! (i * 2 + 1))
             in if \<not> ok then Some (dst, 0, Some (InvalidByteError (src ! (i * 2 + 1))))
                else if i < length dst then hex_Decode_loop (dst[i := push_bit 4 a OR b]) src (i + 1)
                else None
      else Some (dst, length src div 2, None))"
  by pat_completeness auto
termination by (relation "measure (\<lambda>(dst, src, i). length src div 2 - i)") auto

declare hex_Decode_loop.simps [simp del]

definition hex_Decode :: "byte list \<Rightarrow> byte list \<Rightarrow> (byte list \<times> nat \<times> hex_err option) option" where
  "hex_Decode dst src =
     (if length src mod 2 = 1 then Some (dst, 0, Some ErrLength) else hex_Decode_loop dst src 0)"

definition hex_EncodeToString :: "byte list \<Rightarrow> gostring option" where
  "hex_EncodeToString src = map_option fst (hex_Encode (replicate (hex_EncodedLen (length src)) 0) src)"

definition hex_DecodeString :: "gostring \<Rightarrow> (byte list \<times> hex_err option) option" where
  "hex_DecodeString s = do {
     let src = s;
     (dst, _, err) \<leftarrow> hex_Decode (replicate (hex_DecodedLen (length src)) 0) src;
     Some (if err \<noteq> None then ([], err) else (dst, None))
   }"

section \<open>The dumper\<close>

type_synonym 'w write_fn = "'w \<Rightarrow> byte list \<Rightarrow> ('w \<times> io_err option) option"

record 'w dumper =
  h_w :: 'w
  rightChars :: "byte list"
  h_buf :: "byte list"
  used :: nat
  h_n :: "64 word"

definition Dumper :: "'w \<Rightarrow> 'w dumper" where
  "Dumper w = \<lparr>h_w = w, rightChars = replicate 18 0, h_buf = replicate 14 0, used = 0, h_n = 0\<rparr>"

definition toChar :: "byte \<Rightarrow> byte" where
  "toChar b = (if b < 32 \<or> b > 126 then 0x2E else b)"

text \<open>\<open>_, err = h.w.Write(p)\<close>\<close>

definition h_write :: "'w write_fn \<Rightarrow> 'w dumper \<Rightarrow> byte list \<Rightarrow> ('w dumper \<times> io_err option) option" where
  "h_write write h p = do {
     (w, err) \<leftarrow> write (h_w h) p;
     Some (h\<lparr>h_w := w\<rparr>, err)
   }"

text \<open>The offset at the beginning of a line; the error of this write is overwritten by the next one.\<close>

definition write_offset :: "'w write_fn \<Rightarrow> 'w dumper \<Rightarrow> 'w dumper option" where
  "write_offset write h = do {
     let b = (h_buf h)[0 := ucast (drop_bit 24 (h_n h)), 1 := ucast (drop_bit 16 (h_n h)),
                       2 := ucast (drop_bit 8 (h_n h)), 3 := ucast (h_n h)];
     (e, _) \<leftarrow> hex_Encode (drop 4 b) (take 4 b);
     let b = (take 4 b @ e)[12 := 0x20, 13 := 0x20];
     (h, err) \<leftarrow> h_write write (h\<lparr>h_buf := b\<rparr>) (drop 4 b);
     Some h
   }"

text \<open>The columns of one byte: the buffer and how much of it is written.\<close>

definition columns :: "nat \<Rightarrow> byte list \<Rightarrow> byte list \<times> nat" where
  "columns u b =
     (if u = 7 then (b[3 := 0x20], 4)
      else if u = 15 then (b[3 := 0x20, 4 := 0x7C], 5)
      else (b, 3))"

fun dumper_Write_loop :: "'w write_fn \<Rightarrow> 'w dumper \<Rightarrow> byte list \<Rightarrow> nat \<Rightarrow> ('w dumper \<times> nat \<times> io_err option) option" where
  "dumper_Write_loop write h [] n = Some (h, n, None)"
| "dumper_Write_loop write h (c # data) n = do {
     h \<leftarrow> (if used h = 0 then write_offset write h else Some h);
     (b, _) \<leftarrow> hex_Encode (h_buf h) [c];
     let (b, l) = columns (used h) (b[2 := 0x20]);
     (h, err) \<leftarrow> h_write write (h\<lparr>h_buf := b\<rparr>) (take l b);
     if err \<noteq> None then Some (h, n, err)
     else if length (rightChars h) \<le> used h then None
     else do {
       let n = n + 1;
       let h = h\<lparr>rightChars := (rightChars h)[used h := toChar c], used := used h + 1, h_n := h_n h + 1\<rparr>;
       if used h = 16 then do {
         let h = h\<lparr>rightChars := (rightChars h)[16 := 0x7C, 17 := 0x0A]\<rparr>;
         (h, err) \<leftarrow> h_write write h (rightChars h);
         if err \<noteq> None then Some (h, n, err)
         else dumper_Write_loop write (h\<lparr>used := 0\<rparr>) data n
       } else dumper_Write_loop write h data n
     }
   }"

definition dumper_Write :: "'w write_fn \<Rightarrow> 'w dumper \<Rightarrow> byte list \<Rightarrow> ('w dumper \<times> nat \<times> io_err option) option" where
  "dumper_Write write h data = dumper_Write_loop write h data 0"

text \<open>The loop of Close that pads the columns of the last line.\<close>

function Close_loop :: "'w write_fn \<Rightarrow> 'w dumper \<Rightarrow> ('w dumper \<times> io_err option) option" where
  "Close_loop write h =
     (if used h < 16 then
        let l = (if used h = 7 then 4 else if used h = 15 then 5 else 3)
        in case h_write write h (take l (h_buf h)) of
             None \<Rightarrow> None
           | Some (h', err) \<Rightarrow>
               if err \<noteq> None then Some (h', err) else Close_loop write (h'\<lparr>used := used h + 1\<rparr>)
      else Some (h, None))"
  by pat_completeness auto
termination by (relation "measure (\<lambda>(write, h). 16 - used h)") auto

declare Close_loop.simps [simp del]

definition dumper_Close :: "'w write_fn \<Rightarrow> 'w dumper \<Rightarrow> ('w dumper \<times> io_err option) option" where
  "dumper_Close write h =
     (if used h = 0 then Some (h, None)
      else do {
        let h = h\<lparr>h_buf := (h_buf h)[0 := 0x20, 1 := 0x20, 2 := 0x20, 3 := 0x20, 4 := 0x7C]\<rparr>;
        let nBytes = used h;
        (h, err) \<leftarrow> Close_loop write h;
        if err \<noteq> None then Some (h, err)
        else if length (rightChars h) \<le> nBytes + 1 then None
        else do {
          let h = h\<lparr>rightChars := (rightChars h)[nBytes := 0x7C, nBytes + 1 := 0x0A]\<rparr>;
          h_write write h (take (nBytes + 2) (rightChars h))
        }
      })"

text \<open>A bytes.Buffer as the writer of the dumper.\<close>

definition buffer_write :: "Buffer write_fn" where
  "buffer_write b p = map_option (\<lambda>(b, n). (b, None)) (Write b p)"

definition Dump :: "byte list \<Rightarrow> gostring option" where
  "Dump data = do {
     (h, _, _) \<leftarrow> dumper_Write buffer_write (Dumper zero_Buffer) data;
     (h, _) \<leftarrow> dumper_Close buffer_write h;
     Some (Bytes (h_w h))
   }"

end
