(* ===== verification/Base64.thy ===== *)
theory Base64
  imports Base64Defs
begin

text \<open>
  Correctness of encoding/base64. \<open>rfc4648\<close> is the encoding as the RFC describes it, on 24-bit groups
  read as numbers. The locale \<open>base64_encoding\<close> states what encoder and decoder need of an \<open>Encoding\<close>:
  64 ASCII characters none of which is padding or a newline, and a decoding table that inverts them and
  marks every other byte.
\<close>

unbundle bit_operations_syntax

section \<open>Bit fields\<close>

lemma unat_shl8: "unat (push_bit k w :: byte) = unat w * 2 ^ k mod 256"
  by (simp only: unsigned_push_bit_eq) (simp add: push_bit_eq_mult take_bit_eq_mod)

lemma unat_join8:
  fixes a b :: byte
  assumes "unat b < 2 ^ k" "k \<le> 8"
  shows "unat (push_bit k a OR b) = unat a * 2 ^ k mod 256 + unat b"
proof -
  have "unat a * 2 ^ k mod 2 ^ 8 = unat a mod 2 ^ (8 - k) * 2 ^ k"
    using mult_mod_left [of "unat a" "2 ^ (8 - k)" "2 ^ k"] assms(2) by (simp flip: power_add)
  moreover have "unat a mod 2 ^ (8 - k) + 1 \<le> (2 :: nat) ^ (8 - k)" by (simp add: Suc_le_eq)
  then have "(unat a mod 2 ^ (8 - k) + 1) * 2 ^ k \<le> (2 :: nat) ^ (8 - k) * 2 ^ k" by (rule mult_le_mono1)
  then have "unat a mod 2 ^ (8 - k) * 2 ^ k + 2 ^ k \<le> (2 :: nat) ^ 8" using assms(2) by (simp flip: power_add)
  ultimately have "unat (push_bit k a) + unat b < 2 ^ LENGTH(8)" using assms(1) by (simp add: unat_shl8)
  then have "unat (push_bit k a OR b) = unat (push_bit k a) + unat b"
    by (intro unat_join [of k]) (simp_all add: assms take_bit_push_bit_zero)
  then show ?thesis by (simp add: unat_shl8)
qed

lemma mask6: "(0x3F :: byte) = mask 6" by (simp add: mask_eq_exp_minus_1)

lemma unat_low6: "unat (w AND 0x3F) = unat w mod 64" for w :: byte
  by (simp add: mask6 unat_and_mask)

lemma unat_field6:
  fixes a b :: byte
  assumes "unat b < 2 ^ k" "k \<le> 6"
  shows "unat ((push_bit k a AND 0x3F) OR b) = unat a * 2 ^ k mod 64 + unat b"
proof -
  have "(push_bit k a AND mask 6) OR b = push_bit k (a AND mask (6 - k)) OR b"
    by (rule bit_word_eqI) (auto simp: bit_simps)
  moreover have "unat (a AND mask (6 - k)) * 2 ^ k = unat a * 2 ^ k mod 64"
    using mult_mod_left [of "unat a" "2 ^ (6 - k)" "2 ^ k"] assms(2) by (simp add: unat_and_mask flip: power_add)
  moreover have "unat a * 2 ^ k mod 64 mod 256 = unat a * 2 ^ k mod (64 :: nat)" by (simp add: mod_less)
  ultimately show ?thesis using unat_join8 [OF assms(1), of "a AND mask (6 - k)"] assms(2) by (simp add: mask6)
qed

section \<open>The encoding of RFC 4648\<close>

text \<open>Digit k of a 24-bit group, and the encoding: three bytes are four digits, a shorter last group is padded.\<close>

definition digit :: "nat \<Rightarrow> nat \<Rightarrow> nat" where
  "digit n k = n div 64 ^ k mod 64"

fun rfc4648 :: "gostring \<Rightarrow> byte list \<Rightarrow> gostring" where
  "rfc4648 al [] = []"
| "rfc4648 al [a] = (let n = unat a * 65536 in [al ! digit n 3, al ! digit n 2, 0x3D, 0x3D])"
| "rfc4648 al [a, b] =
     (let n = unat a * 65536 + unat b * 256 in [al ! digit n 3, al ! digit n 2, al ! digit n 1, 0x3D])"
| "rfc4648 al (a # b # c # s) =
     (let n = unat a * 65536 + unat b * 256 + unat c
      in [al ! digit n 3, al ! digit n 2, al ! digit n 1, al ! digit n 0] @ rfc4648 al s)"

lemma byte_bound: "unat (b :: byte) < 256" using unsigned_less [of b] by simp

lemma digit_bound: "digit n k < 64" by (simp add: digit_def)

lemma length_rfc4648: "length (rfc4648 al s) = EncodedLen (length s)"
proof (induction al s rule: rfc4648.induct)
  case (4 al a b c s)
  have "(length s + 5) div 3 = Suc ((length s + 2) div 3)" by presburger
  then show ?case using 4 by (simp add: EncodedLen_def Let_def add.commute)
qed (auto simp: EncodedLen_def Let_def)

lemma rfc4648_append: "3 dvd length xs \<Longrightarrow> rfc4648 al (xs @ ys) = rfc4648 al xs @ rfc4648 al ys"
proof (induction al xs rule: rfc4648.induct)
  case (4 al a b c s)
  then have "3 dvd length s" using dvd_diff_nat [of 3 "length (a # b # c # s)" 3] by simp
  then show ?case using 4(1) [OF refl] by (simp add: Let_def)
qed (auto dest: dvd_imp_le)

lemma digit_radix:
  assumes "d0 < 64" "d1 < 64" "d2 < 64" "d3 < 64"
  shows "digit (d0 + 64 * (d1 + 64 * (d2 + 64 * d3))) 0 = d0" "digit (d0 + 64 * (d1 + 64 * (d2 + 64 * d3))) 1 = d1"
    "digit (d0 + 64 * (d1 + 64 * (d2 + 64 * d3))) 2 = d2" "digit (d0 + 64 * (d1 + 64 * (d2 + 64 * d3))) 3 = d3"
proof -
  have step: "(x + 64 * y) div 64 = y" if "x < 64" for x y :: nat using that by simp
  show "digit (d0 + 64 * (d1 + 64 * (d2 + 64 * d3))) 0 = d0" "digit (d0 + 64 * (d1 + 64 * (d2 + 64 * d3))) 1 = d1"
    unfolding digit_def power_0 power_one_right div_by_1
    using assms by (simp_all only: step mod_less mod_mult_self2)
  show "digit (d0 + 64 * (d1 + 64 * (d2 + 64 * d3))) 2 = d2" "digit (d0 + 64 * (d1 + 64 * (d2 + 64 * d3))) 3 = d3"
    unfolding digit_def numeral_2_eq_2 numeral_3_eq_3 power_Suc power_0 mult_1_right div_mult2_eq
    using assms by (simp_all only: step mod_less mod_mult_self2)
qed

lemma digits3:
  fixes a b c :: nat
  assumes "a < 256" "b < 256" "c < 256"
  shows "digit (a * 65536 + b * 256 + c) 0 = c mod 64"
    "digit (a * 65536 + b * 256 + c) 1 = b * 4 mod 64 + c div 64"
    "digit (a * 65536 + b * 256 + c) 2 = a * 16 mod 64 + b div 16"
    "digit (a * 65536 + b * 256 + c) 3 = a div 4"
proof -
  have "a * 65536 + b * 256 + c =
      c mod 64 + 64 * ((b mod 16 * 4 + c div 64) + 64 * ((a mod 4 * 16 + b div 16) + 64 * (a div 4)))"
  proof -
    have "x1 * 65536 + y1 * 256 + z1 = z0 + 64 * ((y0 * 4 + w) + 64 * ((x0 * 16 + v) + 64 * u))"
      if "x1 = u * 4 + x0" "y1 = v * 16 + y0" "z1 = w * 64 + z0" for x1 y1 z1 z0 y0 w x0 v u :: nat
      unfolding that by simp
    from this [of a "a div 4" "a mod 4" b "b div 16" "b mod 16" c "c div 64" "c mod 64"] show ?thesis by simp
  qed
  note eq = this
  have b: "c mod 64 < 64" "b mod 16 * 4 + c div 64 < 64" "a mod 4 * 16 + b div 16 < 64" "a div 4 < 64"
    using assms mod_less_divisor [of 16 b] mod_less_divisor [of 4 a] by linarith+
  show "digit (a * 65536 + b * 256 + c) 0 = c mod 64"
    "digit (a * 65536 + b * 256 + c) 1 = b * 4 mod 64 + c div 64"
    "digit (a * 65536 + b * 256 + c) 2 = a * 16 mod 64 + b div 16"
    "digit (a * 65536 + b * 256 + c) 3 = a div 4"
    unfolding eq digit_radix [OF b] using mult_mod_left [of a 4 16] mult_mod_left [of b 16 4] by simp_all
qed

lemma unpack_digits:
  "map unat (unpack [a]) = map (digit (unat a * 65536)) [3, 2, 1, 0]"
  "map unat (unpack [a, b]) = map (digit (unat a * 65536 + unat b * 256)) [3, 2, 1, 0]"
  "map unat (unpack (a # b # c # s)) = map (digit (unat a * 65536 + unat b * 256 + unat c)) [3, 2, 1, 0]"
proof -
  have hi: "unat (drop_bit 4 x) < 2 ^ 4" "unat (drop_bit 6 x) < 2 ^ 2" for x :: byte
    using byte_bound [of x] by (auto simp: unat_drop_bit)
  have f: "unat (drop_bit 4 y OR push_bit 4 x AND 0x3F) = unat x * 16 mod 64 + unat y div 16"
    "unat (drop_bit 6 y OR push_bit 2 x AND 0x3F) = unat x * 4 mod 64 + unat y div 64" for x y :: byte
    using unat_field6 [OF hi(1), of x y] unat_field6 [OF hi(2), of x y]
    by (simp_all add: or.commute unat_drop_bit)
  have z: "unat (push_bit 4 x AND 0x3F) = unat x * 16 mod 64" "unat (push_bit 2 x AND 0x3F) = unat x * 4 mod 64" for x :: byte
    using f(1) [of 0 x] f(2) [of 0 x] by simp_all
  note d = digits3 [OF byte_bound byte_bound byte_bound]
  show "map unat (unpack [a]) = map (digit (unat a * 65536)) [3, 2, 1, 0]"
    using d [of a 0 0] unfolding unpack_def by (simp add: z unat_drop_bit del: push_bit_numeral)
  show "map unat (unpack [a, b]) = map (digit (unat a * 65536 + unat b * 256)) [3, 2, 1, 0]"
    using d [of a b 0] unfolding unpack_def by (simp add: z f unat_drop_bit)
  show "map unat (unpack (a # b # c # s)) = map (digit (unat a * 65536 + unat b * 256 + unat c)) [3, 2, 1, 0]"
    using d [of a b c] unfolding unpack_def by (simp add: z f unat_drop_bit unat_low6)
qed

section \<open>Encoding\<close>

lemma quad_update: "[w, x, y, z][3 := p] = [w, x, y, p]" "[w, x, y, z][2 := p] = [w, x, p, z]"
  by (simp_all add: eval_nat_numeral)

locale base64_encoding =
  fixes enc :: Encoding
  assumes alphabet_length: "length (encode enc) = 64"
    and alphabet_plain: "c \<in> set (encode enc) \<Longrightarrow> c < 0x80 \<and> c \<noteq> 0x3D \<and> c \<noteq> 0x0D \<and> c \<noteq> 0x0A"
    and decodes: "i < 64 \<Longrightarrow> decodeMap enc ! unat (encode enc ! i) = of_nat i"
    and rejects: "c \<notin> set (encode enc) \<Longrightarrow> decodeMap enc ! unat c = 0xFF"
begin

lemma those_alphabet:
  assumes "map unat vs = map (digit n) ks"
  shows "those (map (alphabet enc) vs) = Some (map (\<lambda>k. encode enc ! digit n k) ks)"
  using assms by (induction vs arbitrary: ks) (auto simp: alphabet_def alphabet_length digit_bound Cons_eq_map_conv)

lemma Encode_rfc4648:
  "EncodedLen (length src) \<le> length dst \<Longrightarrow>
   Encode enc dst src = Some (rfc4648 (encode enc) src @ drop (EncodedLen (length src)) dst)"
proof (induction "encode enc" src arbitrary: dst rule: rfc4648.induct)
  case 1
  then show ?case by (simp add: Encode.simps EncodedLen_def)
next
  case (2 a)
  then show ?case using those_alphabet [OF unpack_digits(1)]
    by (simp add: Encode.simps [of _ _ "[a]"] EncodedLen_def Let_def quad_update)
next
  case (3 a b)
  then show ?case using those_alphabet [OF unpack_digits(2)]
    by (simp add: Encode.simps [of _ _ "[a, b]"] EncodedLen_def Let_def quad_update)
next
  case (4 a b c s)
  have len: "EncodedLen (length (a # b # c # s)) = 4 + EncodedLen (length s)"
    using length_rfc4648 [of "encode enc" "a # b # c # s"] length_rfc4648 [of "encode enc" s] by (simp add: Let_def)
  then have "Encode enc (drop 4 dst) s = Some (rfc4648 (encode enc) s @ drop (EncodedLen (length s)) (drop 4 dst))"
    using 4 by (intro 4(1)) auto
  then show ?case using 4(2) len those_alphabet [OF unpack_digits(3) [of a b c s]]
    by (simp add: Encode.simps [of _ _ "a # b # c # s"] Let_def add.commute)
qed

lemma EncodeToString_rfc4648: "EncodeToString enc src = Some (rfc4648 (encode enc) src)"
  by (simp add: EncodeToString_def Encode_rfc4648)

end

section \<open>The encodings of the package\<close>

definition good_alphabet :: "gostring \<Rightarrow> bool" where
  "good_alphabet al = (length al = 64 \<and> distinct al \<and> list_all (\<lambda>c. c < 0x80 \<and> c \<noteq> 0x3D \<and> c \<noteq> 0x0D \<and> c \<noteq> 0x0A) al)"

lemma NewEncoding_loop_other: "c \<notin> set cs \<Longrightarrow> NewEncoding_loop cs i dm ! unat c = dm ! unat c"
  by (induction cs i dm rule: NewEncoding_loop.induct) (auto simp: nth_list_update word_unat_eq_iff)

lemma NewEncoding_loop_nth:
  "distinct cs \<Longrightarrow> length dm = 256 \<Longrightarrow> k < length cs \<Longrightarrow> NewEncoding_loop cs i dm ! unat (cs ! k) = of_nat (i + k)"
proof (induction cs i dm arbitrary: k rule: NewEncoding_loop.induct)
  case (2 c cs i dm)
  show ?case
  proof (cases k)
    case 0
    then show ?thesis using 2(2,3) byte_bound [of c] by (simp add: NewEncoding_loop_other)
  next
    case (Suc j)
    then show ?thesis using 2(1) [of j] 2(2-4) by simp
  qed
qed simp

lemma NewEncoding_contract: "good_alphabet al \<Longrightarrow> base64_encoding (WithPadding (NewEncoding al) c)"
  by unfold_locales
    (auto simp: good_alphabet_def WithPadding_def NewEncoding_def NewEncoding_loop_nth NewEncoding_loop_other
       list_all_iff byte_bound)

lemma good_alphabet_unat:
  assumes "map unat al = ns" "length ns = 64" "distinct ns" "list_all (\<lambda>n. n < 128 \<and> n \<noteq> 61 \<and> n \<noteq> 13 \<and> n \<noteq> 10) ns"
  shows "good_alphabet al"
proof -
  have "list_all (\<lambda>c. c < 0x80 \<and> c \<noteq> 0x3D \<and> c \<noteq> 0x0D \<and> c \<noteq> 0x0A) al"
    using assms(4) unfolding assms(1) [symmetric] by (auto simp: list_all_iff word_less_nat_alt)
  then show ?thesis using assms distinct_map [of unat al] by (auto simp: good_alphabet_def)
qed

lemma alphabet_codes:
  "map unat encodeStd = [65..<91] @ [97..<123] @ [48..<58] @ [43, 47]"
  "map unat encodeURL = [65..<91] @ [97..<123] @ [48..<58] @ [45, 95]"
  unfolding encodeStd_def encodeURL_def by (simp_all add: upt_rec)

lemma good_alphabets: "good_alphabet encodeStd" "good_alphabet encodeURL"
  by (rule good_alphabet_unat [OF alphabet_codes(1)]; simp add: list_all_iff)
    (rule good_alphabet_unat [OF alphabet_codes(2)]; simp add: list_all_iff)

lemma WithPadding_none: "WithPadding (NewEncoding al) 0 = NewEncoding al"
  by (simp add: WithPadding_def NewEncoding_def)

interpretation std: base64_encoding StdEncoding
  using NewEncoding_contract [OF good_alphabets(1), of 0] unfolding WithPadding_none StdEncoding_def .

interpretation url: base64_encoding URLEncoding
  using NewEncoding_contract [OF good_alphabets(2), of 0] unfolding WithPadding_none URLEncoding_def .

interpretation raw_std: base64_encoding RawStdEncoding
  unfolding RawStdEncoding_def StdEncoding_def by (rule NewEncoding_contract [OF good_alphabets(1)])

interpretation raw_url: base64_encoding RawURLEncoding
  unfolding RawURLEncoding_def URLEncoding_def by (rule NewEncoding_contract [OF good_alphabets(2)])

end
