(* ===== verification/Base64Decode.thy ===== *)
theory Base64Decode
  imports Base64
begin

text \<open>
  Decoding of encoding/base64: what decode does to a quantum, that it inverts \<open>rfc4648\<close>, and that Decode
  and DecodeString drop newlines first.
\<close>

unbundle bit_operations_syntax

section \<open>Packing\<close>

lemma unat_of_digit: "unat (of_nat (digit n k) :: byte) = digit n k"
  using digit_bound [of n k] by (simp add: unat_of_nat)

lemma pack_unat:
  fixes d0 d1 d2 d3 :: byte
  assumes "unat d1 < 64" "unat d2 < 64" "unat d3 < 64"
  shows "unat (push_bit 2 d0 OR drop_bit 4 d1) = unat d0 * 4 mod 256 + unat d1 div 16"
    "unat (push_bit 4 d1 OR drop_bit 2 d2) = unat d1 * 16 mod 256 + unat d2 div 4"
    "unat (push_bit 6 d2 OR d3) = unat d2 * 64 mod 256 + unat d3"
  using unat_join8 [of "drop_bit 4 d1" 2 d0] unat_join8 [of "drop_bit 2 d2" 4 d1] unat_join8 [of d3 6 d2] assms
  by (simp_all add: unat_drop_bit less_mult_imp_div_less)

lemma pack_arith:
  fixes a b c :: nat
  assumes "a < 256" "b < 256" "c < 256"
  shows "a div 4 * 4 mod 256 + (a * 16 mod 64 + b div 16) div 16 = a"
    "(a * 16 mod 64 + b div 16) * 16 mod 256 + (b * 4 mod 64 + c div 64) div 4 = b"
    "(b * 4 mod 64 + c div 64) * 64 mod 256 + c mod 64 = c"
proof -
  have m: "a * 16 mod 64 = a mod 4 * 16" "b * 4 mod 64 = b mod 16 * 4"
    using mult_mod_left [of a 4 16] mult_mod_left [of b 16 4] by simp_all
  have s: "b div 16 < 16" "c div 64 < 4" using assms by auto
  show "a div 4 * 4 mod 256 + (a * 16 mod 64 + b div 16) div 16 = a" using s(1) assms(1) unfolding m by auto
  have "(a mod 4 * 16 + b div 16) * 16 = b div 16 * 16 + 256 * (a mod 4)" by simp
  then have "(a mod 4 * 16 + b div 16) * 16 mod 256 = b div 16 * 16" using s(1) by simp
  then show "(a * 16 mod 64 + b div 16) * 16 mod 256 + (b * 4 mod 64 + c div 64) div 4 = b"
    using s(2) unfolding m by simp
  have "(b mod 16 * 4 + c div 64) * 64 = c div 64 * 64 + 256 * (b mod 16)" by simp
  then have "(b mod 16 * 4 + c div 64) * 64 mod 256 = c div 64 * 64" using s(2) by simp
  then show "(b * 4 mod 64 + c div 64) * 64 mod 256 + c mod 64 = c" unfolding m by simp
qed

lemma pack_digits:
  fixes a b c :: byte
  defines "n \<equiv> unat a * 65536 + unat b * 256 + unat c"
  defines "d \<equiv> (\<lambda>k. of_nat (digit n k) :: byte)"
  shows "push_bit 2 (d 3) OR drop_bit 4 (d 2) = a" "push_bit 4 (d 2) OR drop_bit 2 (d 1) = b" "push_bit 6 (d 1) OR d 0 = c"
proof -
  have u: "unat (d k) = digit n k" for k unfolding d_def by (rule unat_of_digit)
  note v = digits3 [OF byte_bound byte_bound byte_bound, of a b c, folded n_def]
  have lt: "unat (d k) < 64" for k unfolding u by (rule digit_bound)
  note p = pack_unat [OF lt lt lt] and q = pack_arith [OF byte_bound byte_bound byte_bound]
  show "push_bit 2 (d 3) OR drop_bit 4 (d 2) = a"
    by (rule word_unat_eq_iff [THEN iffD2], unfold p u v) (rule q)
  show "push_bit 4 (d 2) OR drop_bit 2 (d 1) = b"
    by (rule word_unat_eq_iff [THEN iffD2], unfold p u v) (rule q)
  show "push_bit 6 (d 1) OR d 0 = c"
    by (rule word_unat_eq_iff [THEN iffD2], unfold p u v) (rule q)
qed

lemma pack_quads:
  "length dst \<ge> 3 \<Longrightarrow> pack 4 [w, x, y, z] dst =
     [push_bit 2 w OR drop_bit 4 x, push_bit 4 x OR drop_bit 2 y, push_bit 6 y OR z] @ drop 3 dst"
  "length dst \<ge> 3 \<Longrightarrow> pack 3 [w, x, y, z] dst =
     [push_bit 2 w OR drop_bit 4 x, push_bit 4 x OR drop_bit 2 y] @ drop 2 dst"
  "length dst \<ge> 3 \<Longrightarrow> pack 2 [w, x, y, z] dst = [push_bit 2 w OR drop_bit 4 x] @ drop 1 dst"
  by (cases dst; cases "tl dst"; cases "tl (tl dst)"; simp add: pack_def eval_nat_numeral)+

section \<open>Newlines\<close>

abbreviation ascii :: "byte list \<Rightarrow> bool" where
  "ascii t \<equiv> list_all (\<lambda>c. c < 0x80) t"

lemma ascii_rune:
  assumes "c < 0x80"
  shows "encode_bytes (ucast c) = [c]" "ValidRune (ucast c)" "sint (ucast c :: rune) = int (unat c)" "RuneLen (ucast c) = 1"
proof -
  have u: "unat (ucast c :: rune) = unat c" "unat c < 128" using assms by (simp_all add: unat_ucast_byte word_less_nat_alt)
  then show v: "ValidRune (ucast c)" by (simp add: ValidRune_iff scalar_def)
  have "unat rune1Max = 127" by (simp add: rune1Max_def)
  then have "ucast c \<le> rune1Max" using u by (simp add: word_le_nat_alt)
  then show e: "encode_bytes (ucast c) = [c]"
    by (simp add: encode_bytes_def) (rule bit_word_eqI, auto simp: bit_simps)
  show "sint (ucast c :: rune) = int (unat c)" using sint_nonneg_eq [of "ucast c :: rune"] u by simp
  show "RuneLen (ucast c) = 1" using RuneLen_encode [OF v] e by simp
qed

lemma removeNewlines_rune:
  "removeNewlinesMapper (ucast c) = (if c \<noteq> 0x0D \<and> c \<noteq> 0x0A then ucast c else - 1)" for c :: byte
proof -
  have "(ucast c :: rune) = 0x0D \<longleftrightarrow> c = 0x0D" "(ucast c :: rune) = 0x0A \<longleftrightarrow> c = 0x0A"
    by (auto simp: word_unat_eq_iff unat_ucast_byte)
  then show ?thesis by (simp add: removeNewlinesMapper_def)
qed

lemma str_Map_newlines:
  assumes "ascii t"
  shows "str_Map removeNewlinesMapper t = Some (squeeze t)"
proof -
  have e: "encode_all (map ucast t) = t" if "ascii t" for t
    using that by (induction t) (auto simp: ascii_rune)
  have sq: "ascii (squeeze t)" using assms by (induction t) auto
  have "kept removeNewlinesMapper (map ucast t) = map ucast (squeeze t)"
    using assms by (induction t) (auto simp: removeNewlines_rune ascii_rune)
  moreover have "list_all ValidRune (map ucast t)" "maps_valid removeNewlinesMapper (map ucast t)"
    using assms by (auto simp: maps_valid_def list_all_iff removeNewlines_rune ascii_rune)
  ultimately show ?thesis using str_Map_runes [of "map ucast t" removeNewlinesMapper] e [OF assms] e [OF sq] by simp
qed

lemma length_squeeze: "length (squeeze t) \<le> length t"
  by (induction t) auto

lemma squeeze_append: "squeeze (xs @ ys) = squeeze xs @ squeeze ys"
  by (induction xs) auto

lemma bytes_Map_newlines_loop:
  "ascii t \<Longrightarrow> i \<le> length t \<Longrightarrow> length b = length t \<Longrightarrow> nb = length (squeeze (take i t)) \<Longrightarrow> take nb b = squeeze (take i t) \<Longrightarrow>
   bytes_Map_loop removeNewlinesMapper t i b nb (length t) = Some (squeeze t)"
proof (induction "length t - i" arbitrary: i b nb)
  case 0
  then show ?case by (simp add: bytes_Map_loop.simps)
next
  case (Suc m)
  let ?c = "t ! i"
  have i: "i < length t" using Suc(2) by simp
  have c: "?c < 0x80" "\<not> 0x80 \<le> ?c" using Suc(3) i by (simp_all add: list_all_length not_le)
  have tk: "squeeze (take (Suc i) t) = squeeze (take i t) @ squeeze [?c]"
    using i by (simp add: take_Suc_conv_app_nth squeeze_append)
  have nb: "nb \<le> i" using length_squeeze [of "take i t"] Suc(6) i by simp
  have st: "bytes_Map_loop removeNewlinesMapper t (Suc i) b' nb' (length t) = Some (squeeze t)"
    if "length b' = length t" "nb' = length (squeeze (take (Suc i) t))" "take nb' b' = squeeze (take (Suc i) t)" for b' nb'
    using that Suc(2,3) i by (intro Suc(1)) auto
  show ?case
  proof (cases "?c \<noteq> 0x0D \<and> ?c \<noteq> 0x0A")
    case True
    let ?b = "take nb b @ [?c] @ drop (Suc nb) b"
    have "EncodeRune (sub b nb (length t)) (ucast ?c) = Some (?c # drop (Suc nb) b, 1)"
      using c i nb Suc(5) by (simp add: EncodeRune_def ascii_rune sub_def Let_def)
    then have "bytes_Map_loop removeNewlinesMapper t i b nb (length t) = bytes_Map_loop removeNewlinesMapper t (Suc i) ?b (Suc nb) (length t)"
      using i c True nb Suc(5) by (simp add: bytes_Map_loop.simps [of _ _ i] RuneSelf_def removeNewlines_rune ascii_rune)
    moreover have "take (Suc nb) ?b = squeeze (take i t) @ [?c]" using Suc(5-7) nb i by simp
    ultimately show ?thesis using st [of ?b "Suc nb"] tk True Suc(5,6) nb i by simp
  next
    case False
    then have "removeNewlinesMapper (ucast ?c) = - 1" "squeeze [?c] = []" by (auto simp: removeNewlines_rune)
    then show ?thesis using st [of b nb] tk Suc(5-7) i c
      by (simp add: bytes_Map_loop.simps [of _ _ i] RuneSelf_def del: squeeze.simps)
  qed
qed

lemma bytes_Map_newlines: "ascii t \<Longrightarrow> bytes_Map removeNewlinesMapper t = Some (squeeze t)"
  by (simp add: bytes_Map_def bytes_Map_newlines_loop)

section \<open>Decoding an encoded text\<close>

context base64_encoding
begin

lemma quantum_step:
  assumes "c \<in> set (encode enc)" "j < 4" "length dbuf = 4"
  shows "\<exists>i<64. c = encode enc ! i \<and>
    decode_quantum enc olen (c # src) j dbuf = decode_quantum enc olen src (Suc j) (dbuf[j := of_nat i])"
proof -
  obtain i where i: "i < 64" "c = encode enc ! i" using assms(1) by (auto simp: in_set_conv_nth alphabet_length)
  have "unat (of_nat i :: byte) = i" using i(1) by (simp add: unat_of_nat)
  then have "(of_nat i :: byte) \<noteq> 0xFF" using i(1) by auto
  moreover have "c \<noteq> 0x3D" using alphabet_plain [OF assms(1)] by simp
  ultimately show ?thesis using i decodes [OF i(1)] assms(2,3) by (intro exI [of _ i]) simp
qed

lemma quantum_digit:
  assumes "j < 4" "length dbuf = 4"
  shows "decode_quantum enc olen (encode enc ! digit n k # src) j dbuf =
    decode_quantum enc olen src (Suc j) (dbuf[j := of_nat (digit n k)])"
proof -
  have "unat (of_nat (digit n k) :: byte) < 64" using digit_bound [of n k] by (simp add: unat_of_digit)
  then have "(of_nat (digit n k) :: byte) \<noteq> 0xFF" by auto
  moreover have "encode enc ! digit n k \<noteq> 0x3D"
    using alphabet_plain [of "encode enc ! digit n k"] digit_bound [of n k] by (simp add: alphabet_length)
  ultimately show ?thesis using decodes [OF digit_bound] assms by simp
qed

lemma quantum_full:
  "decode_quantum enc olen (encode enc ! digit n 3 # encode enc ! digit n 2 # encode enc ! digit n 1 # encode enc ! digit n 0 # src) 0 [0, 0, 0, 0] =
     Inr ([of_nat (digit n 3), of_nat (digit n 2), of_nat (digit n 1), of_nat (digit n 0)], 4, False, src)"
  by (simp add: quantum_digit eval_nat_numeral(2,3) del: decode_quantum.simps(2)) (cases src; simp)

lemma quantum_padded:
  "decode_quantum enc olen [encode enc ! digit n 3, encode enc ! digit n 2, 0x3D, 0x3D] 0 [0, 0, 0, 0] =
     Inr ([of_nat (digit n 3), of_nat (digit n 2), 0, 0], 2, True, [0x3D])"
  "decode_quantum enc olen [encode enc ! digit n 3, encode enc ! digit n 2, encode enc ! digit n 1, 0x3D] 0 [0, 0, 0, 0] =
     Inr ([of_nat (digit n 3), of_nat (digit n 2), of_nat (digit n 1), 0], 3, True, [])"
  by (simp_all add: quantum_digit eval_nat_numeral(2,3) del: decode_quantum.simps(2)) simp_all

lemma decode_loop_rfc4648:
  "DecodedLen (EncodedLen (length s)) \<le> length dst \<Longrightarrow>
   \<exists>dst'. decode_loop enc olen dst (rfc4648 (encode enc) s) n False =
        Some (dst', n + length s, length s mod 3 \<noteq> 0, None) \<and>
      length dst' = length dst \<and> take (length s) dst' = s"
proof (induction "encode enc" s arbitrary: dst n rule: rfc4648.induct)
  case 1
  then show ?case by (simp add: decode_loop.simps)
next
  case (2 a)
  then have "length dst \<ge> 3" by (simp add: EncodedLen_def DecodedLen_def)
  then show ?case using pack_digits(1) [of a 0 0]
    by (simp add: decode_loop.simps Let_def quantum_padded [unfolded One_nat_def] pack_quads del: decode_quantum.simps)
next
  case (3 a b)
  then have "length dst \<ge> 3" by (simp add: EncodedLen_def DecodedLen_def)
  then show ?case using pack_digits(1,2) [of a b 0]
    by (simp add: decode_loop.simps Let_def quantum_padded [unfolded One_nat_def] pack_quads del: decode_quantum.simps)
next
  case (4 a b c s)
  have len: "EncodedLen (length (a # b # c # s)) = 4 + EncodedLen (length s)"
    using length_rfc4648 [of "encode enc" "a # b # c # s"] length_rfc4648 [of "encode enc" s] by (simp add: Let_def)
  have l3: "length dst \<ge> 3" "DecodedLen (EncodedLen (length s)) \<le> length (drop 3 dst)"
    using 4(2) unfolding len DecodedLen_def by (auto simp: div_add_self1 [of 4])
  obtain dst' where d: "decode_loop enc olen (drop 3 dst) (rfc4648 (encode enc) s) (3 + n) False =
        Some (dst', 3 + n + length s, length s mod 3 \<noteq> 0, None)"
      "length dst' = length dst - 3" "take (length s) dst' = s"
    using 4(1) [OF refl l3(2), of "3 + n"] by auto
  let ?n = "unat a * 65536 + unat b * 256 + unat c"
  have "decode_loop enc olen dst (rfc4648 (encode enc) (a # b # c # s)) n False =
      Some (a # b # c # dst', 3 + n + length s, length s mod 3 \<noteq> 0, None)"
    unfolding decode_loop.simps [of enc olen dst] rfc4648.simps(4) Let_def append.simps quantum_full
    using l3(1) by (simp add: pack_quads pack_digits [unfolded One_nat_def] d(1))
  moreover have "n + length (a # b # c # s) = 3 + n + length s" "length (a # b # c # s) mod 3 = length s mod 3" by simp_all
  moreover have "length (a # b # c # dst') = length dst" "take (length (a # b # c # s)) (a # b # c # dst') = a # b # c # s"
    using d(2,3) l3(1) by simp_all
  ultimately show ?case by metis
qed

lemma decode_rfc4648:
  "DecodedLen (EncodedLen (length s)) \<le> length dst \<Longrightarrow>
   \<exists>dst'. decode enc dst (rfc4648 (encode enc) s) = Some (dst', length s, length s mod 3 \<noteq> 0, None) \<and>
      length dst' = length dst \<and> take (length s) dst' = s"
  using decode_loop_rfc4648 [of s dst _ 0] by (simp add: decode_def)

lemma rfc4648_plain: "ascii (rfc4648 (encode enc) s)" "squeeze (rfc4648 (encode enc) s) = rfc4648 (encode enc) s"
proof -
  have p: "encode enc ! digit n k < 0x80" "encode enc ! digit n k \<noteq> 0x0D" "encode enc ! digit n k \<noteq> 0x0A" for n k
    using alphabet_plain [of "encode enc ! digit n k"] digit_bound [of n k] by (simp_all add: alphabet_length)
  show "ascii (rfc4648 (encode enc) s)" "squeeze (rfc4648 (encode enc) s) = rfc4648 (encode enc) s"
    by (induction "encode enc" s rule: rfc4648.induct) (simp_all add: p Let_def)
qed

lemma Decode_rfc4648:
  assumes "ascii t" "squeeze t = rfc4648 (encode enc) s" "DecodedLen (EncodedLen (length s)) \<le> length dst"
  shows "\<exists>dst'. Decode enc dst t = Some (dst', length s, None) \<and> length dst' = length dst \<and> take (length s) dst' = s"
  using decode_rfc4648 [OF assms(3)] by (auto simp: Decode_def bytes_Map_newlines [OF assms(1)] assms(2))

lemma DecodeString_rfc4648:
  assumes "ascii t" "squeeze t = rfc4648 (encode enc) s"
  shows "DecodeString enc t = Some (s, None)"
proof -
  have "\<exists>dst'. Decode enc (replicate (DecodedLen (EncodedLen (length s))) 0) (rfc4648 (encode enc) s) =
      Some (dst', length s, None) \<and> take (length s) dst' = s"
    using Decode_rfc4648 [OF rfc4648_plain, of s "replicate (DecodedLen (EncodedLen (length s))) 0"] by auto
  then show ?thesis by (auto simp: DecodeString_def str_Map_newlines [OF assms(1)] assms(2) length_rfc4648)
qed

text \<open>Input that is not an encoding: what precedes the fault is decoded quantum by quantum.\<close>

lemma quantum_run:
  "set xs \<subseteq> set (encode enc) \<Longrightarrow> length xs + j = 4 \<Longrightarrow> length dbuf = 4 \<Longrightarrow>
   \<exists>d. decode_quantum enc olen (xs @ ys) j dbuf = Inr (d, 4, False, ys) \<and> length d = 4"
proof (induction xs arbitrary: j dbuf)
  case Nil
  then show ?case by (cases ys) auto
next
  case (Cons c xs)
  then obtain i where "decode_quantum enc olen (c # (xs @ ys)) j dbuf = decode_quantum enc olen (xs @ ys) (Suc j) (dbuf[j := of_nat i])"
    using quantum_step [of c j dbuf olen "xs @ ys"] by auto
  then show ?case using Cons.IH [of "Suc j" "dbuf[j := of_nat i]"] Cons.prems by simp
qed

lemma quantum_short:
  assumes "set xs \<subseteq> set (encode enc)" "length xs + j < 4" "length dbuf = 4"
  shows "decode_quantum enc olen xs j dbuf = Inl (int olen - int (length xs + j))"
    "c \<notin> set (encode enc) \<Longrightarrow> c \<noteq> 0x3D \<Longrightarrow> decode_quantum enc olen (xs @ c # rest) j dbuf = Inl (int olen - int (length rest) - 1)"
proof -
  have "decode_quantum enc olen xs j dbuf = Inl (int olen - int (length xs + j)) \<and>
    (c \<notin> set (encode enc) \<longrightarrow> c \<noteq> 0x3D \<longrightarrow> decode_quantum enc olen (xs @ c # rest) j dbuf = Inl (int olen - int (length rest) - 1))"
    using assms
  proof (induction xs arbitrary: j dbuf)
    case Nil
    then show ?case by (simp add: rejects)
  next
    case (Cons x xs)
    have x: "x \<in> set (encode enc)" "j < 4" using Cons.prems by auto
    obtain i where "decode_quantum enc olen (x # xs) j dbuf = decode_quantum enc olen xs (Suc j) (dbuf[j := of_nat i])"
      using quantum_step [OF x Cons.prems(3)] by blast
    moreover obtain k where "decode_quantum enc olen (x # xs @ c # rest) j dbuf = decode_quantum enc olen (xs @ c # rest) (Suc j) (dbuf[j := of_nat k])"
      using quantum_step [OF x Cons.prems(3)] by blast
    ultimately show ?case using Cons.IH [of "Suc j"] Cons.prems by (simp del: decode_quantum.simps)
  qed
  then show "decode_quantum enc olen xs j dbuf = Inl (int olen - int (length xs + j))"
    "c \<notin> set (encode enc) \<Longrightarrow> c \<noteq> 0x3D \<Longrightarrow> decode_quantum enc olen (xs @ c # rest) j dbuf = Inl (int olen - int (length rest) - 1)"
    by blast+
qed

lemma decode_loop_quanta:
  "set xs \<subseteq> set (encode enc) \<Longrightarrow> length xs = 4 * m \<Longrightarrow> 3 * m \<le> length dst \<Longrightarrow>
   \<exists>h. length h = 3 * m \<and> decode_loop enc olen dst (xs @ ys) n False =
     map_option (\<lambda>(r, k). (h @ r, k)) (decode_loop enc olen (drop (3 * m) dst) ys (n + 3 * m) False)"
proof (induction m arbitrary: xs dst n)
  case 0
  then show ?case by (simp add: case_prod_beta' option.map_ident)
next
  case (Suc m)
  have l: "length dst \<ge> 3" using Suc.prems(3) by simp
  have "set (take 4 xs) \<subseteq> set (encode enc)" "length (take 4 xs) + 0 = 4"
    using Suc.prems set_take_subset [of 4 xs] by auto
  from quantum_run [OF this, of "[0, 0, 0, 0]" olen "drop 4 xs @ ys"] obtain d where d: "decode_quantum enc olen (xs @ ys) 0 [0, 0, 0, 0] = Inr (d, 4, False, drop 4 xs @ ys)" "length d = 4"
    by (auto simp flip: append.assoc)
  define q where "q = pack 4 d dst"
  have q: "length q = length dst" "drop 3 q = drop 3 dst"
    unfolding q_def pack_def by (simp_all add: Let_def)
  have "set (drop 4 xs) \<subseteq> set (encode enc)" "length (drop 4 xs) = 4 * m" "3 * m \<le> length (drop 3 dst)"
    using Suc.prems set_drop_subset [of 4 xs] by auto
  from Suc.IH [OF this, of "3 + n"]
  obtain h where h: "length h = 3 * m" "decode_loop enc olen (drop 3 dst) (drop 4 xs @ ys) (3 + n) False =
     map_option (\<lambda>(r, k). (h @ r, k)) (decode_loop enc olen (drop (3 * m) (drop 3 dst)) ys (3 + n + 3 * m) False)"
    by blast
  have "xs @ ys \<noteq> []" using Suc.prems(2) by auto
  then have "decode_loop enc olen dst (xs @ ys) n False =
      map_option (\<lambda>(r, k). (take 3 q @ r, k)) (decode_loop enc olen (drop 3 dst) (drop 4 xs @ ys) (3 + n) False)"
    using l d unfolding decode_loop.simps [of enc olen dst]
    by (auto simp: q_def [symmetric] q(2) Let_def split: option.splits bind_splits)
  then have "decode_loop enc olen dst (xs @ ys) n False =
      map_option (\<lambda>(r, k). ((take 3 q @ h) @ r, k)) (decode_loop enc olen (drop (3 * Suc m) dst) ys (n + 3 * Suc m) False)"
    unfolding h(2) by (simp add: option.map_comp comp_def case_prod_beta' ac_simps)
  moreover have "length (take 3 q @ h) = 3 * Suc m" using l q(1) h(1) by simp
  ultimately show ?case by blast
qed

lemma decode_faults:
  assumes "set xs \<subseteq> set (encode enc)" "3 * (length xs div 4) \<le> length dst"
  shows "length xs mod 4 \<noteq> 0 \<Longrightarrow> \<exists>dst'. length dst' = length dst \<and>
      decode enc dst xs = Some (dst', 3 * (length xs div 4), False, Some (int (length xs - length xs mod 4)))"
    "c \<notin> set (encode enc) \<Longrightarrow> c \<noteq> 0x3D \<Longrightarrow> \<exists>dst'. length dst' = length dst \<and>
      decode enc dst (xs @ c # rest) = Some (dst', 3 * (length xs div 4), False, Some (int (length xs)))"
proof -
  define m where "m = length xs div 4"
  define us where "us = take (4 * m) xs"
  define vs where "vs = drop (4 * m) xs"
  have xs: "xs = us @ vs" by (simp add: us_def vs_def)
  have us: "set us \<subseteq> set (encode enc)" "length us = 4 * m" "3 * m \<le> length dst"
    using assms set_take_subset [of "4 * m" xs] by (auto simp: us_def m_def)
  have vs: "set vs \<subseteq> set (encode enc)" "length vs + 0 < 4" "length vs = length xs mod 4"
    using assms set_drop_subset [of "4 * m" xs] by (auto simp: vs_def m_def minus_mult_div_eq_mod)
  have fault: "\<exists>dst'. length dst' = length dst \<and> decode enc dst (us @ ys) = Some (dst', 3 * m, False, Some p)"
    if "decode_quantum enc (length (us @ ys)) ys 0 [0, 0, 0, 0] = Inl p" "ys \<noteq> []" for ys p
  proof -
    obtain h where h: "length h = 3 * m" "decode enc dst (us @ ys) =
        map_option (\<lambda>(r, k). (h @ r, k)) (decode_loop enc (length (us @ ys)) (drop (3 * m) dst) ys (3 * m) False)"
      using decode_loop_quanta [OF us, of "length (us @ ys)" ys 0] by (auto simp: decode_def)
    then show ?thesis using that us(3) by (simp add: decode_loop.simps [of _ _ "drop (3 * m) dst"])
  qed
  show "\<exists>dst'. length dst' = length dst \<and>
      decode enc dst xs = Some (dst', 3 * (length xs div 4), False, Some (int (length xs - length xs mod 4)))" if "length xs mod 4 \<noteq> 0"
  proof -
    have "vs \<noteq> []" using that vs(3) by auto
    moreover have "int (length (us @ vs)) - int (length vs + 0) = int (length xs - length xs mod 4)"
      using vs(3) us(2) by (simp add: xs)
    ultimately show ?thesis using fault [of vs, OF quantum_short(1) [OF vs(1,2)]] unfolding m_def [symmetric] by (simp flip: xs)
  qed
  show "\<exists>dst'. length dst' = length dst \<and>
      decode enc dst (xs @ c # rest) = Some (dst', 3 * (length xs div 4), False, Some (int (length xs)))"
    if "c \<notin> set (encode enc)" "c \<noteq> 0x3D"
    using fault [of "vs @ c # rest", OF quantum_short(2) [OF vs(1,2) _ that]] xs unfolding m_def [symmetric] by simp
qed

end

end
