(* ===== verification/Base64Stream.thy ===== *)
theory Base64Stream
  imports Base64Decode
begin

text \<open>
  The stream encoder and decoder of encoding/base64: whatever the sizes of the pieces they are given,
  they write and read what EncodeToString and DecodeString compute at once.
\<close>

section \<open>The stream encoder\<close>

text \<open>The encoder has been given the bytes D: its output is the encoding of all but the buffered ones.\<close>

definition enc_inv :: "Encoding \<Rightarrow> encoder \<Rightarrow> byte list \<Rightarrow> bool" where
  "enc_inv enc e D \<longleftrightarrow> e_err e = None \<and> e_enc e = enc \<and> length (e_buf e) = 3 \<and> e_nbuf e < 3 \<and>
     length (e_out e) = 1024 \<and> fails (e_w e) = [] \<and>
     (\<exists>A. D = A @ take (e_nbuf e) (e_buf e) \<and> 3 dvd length A \<and> concat (sent (e_w e)) = rfc4648 (encode enc) A)"

lemma enc_inv_New: "enc_inv enc (NewEncoder enc \<lparr>sent = [], fails = []\<rparr>) []"
  by (simp add: enc_inv_def NewEncoder_def)

lemma fringe_fills:
  assumes "i \<le> length p" "k = e_nbuf e" "k \<le> 3" "length (e_buf e) = 3"
  shows "fringe e p i = (let j = min (3 - k) (length p - i) in
    (e\<lparr>e_buf := take k (e_buf e) @ sub p i (i + j) @ drop (k + j) (e_buf e), e_nbuf := k + j\<rparr>, i + j))"
  using assms
proof (induction "length p - i" arbitrary: i k e)
  case 0
  then show ?case by (simp add: fringe.simps sub_def)
next
  case (Suc m)
  show ?case
  proof (cases "k < 3")
    case False
    then show ?thesis using Suc.prems by (simp add: fringe.simps sub_def)
  next
    case True
    let ?e = "e\<lparr>e_buf := (e_buf e)[k := p ! i], e_nbuf := Suc k\<rparr>"
    define j where "j = min (3 - Suc k) (length p - Suc i)"
    have i: "i < length p" using Suc(2) by simp
    have j: "min (3 - k) (length p - i) = Suc j" using True i by (auto simp: j_def)
    have "fringe e p i = fringe ?e p (Suc i)" using True i Suc.prems by (subst fringe.simps) simp
    also have "\<dots> = (?e\<lparr>e_buf := take (Suc k) (e_buf ?e) @ sub p (Suc i) (Suc i + j) @ drop (Suc k + j) (e_buf ?e), e_nbuf := Suc k + j\<rparr>, Suc i + j)"
      using Suc.hyps(1) [of "Suc i" "Suc k" ?e] Suc.hyps(2) Suc.prems True i by (simp add: Let_def j_def)
    also have "take (Suc k) (e_buf ?e) @ sub p (Suc i) (Suc i + j) @ drop (Suc k + j) (e_buf ?e) =
        take k (e_buf e) @ sub p i (i + Suc j) @ drop (k + Suc j) (e_buf e)"
      using True Suc.prems(3,4) i by (simp add: take_Suc_conv_app_nth sub_def Cons_nth_drop_Suc [symmetric])
    finally show ?thesis by (simp add: Let_def j)
  qed
qed

lemma EncodedLen_3: "EncodedLen (3 * k) = k * 4"
  unfolding EncodedLen_def by presburger

context base64_encoding
begin

lemma flush_sends:
  assumes "e_enc e = enc" "fails (e_w e) = []" "length (e_out e) = 1024" "k = EncodedLen (length src)" "k \<le> 1024"
  shows "\<exists>out. length out = 1024 \<and> flush e src k =
    Some (e\<lparr>e_out := out, e_w := (e_w e)\<lparr>sent := sent (e_w e) @ [rfc4648 (encode enc) src]\<rparr>, e_err := None\<rparr>)"
  using assms Encode_rfc4648 [of src "e_out e"] length_rfc4648 [of "encode enc" src]
  by (intro exI [of _ "rfc4648 (encode enc) src @ drop (EncodedLen (length src)) (e_out e)"])
    (simp add: flush_def w_Write_def)

lemma chunks_sends:
  "e_enc e = enc \<Longrightarrow> fails (e_w e) = [] \<Longrightarrow> length (e_out e) = 1024 \<Longrightarrow> e_err e = None \<Longrightarrow>
   \<exists>out ws. length out = 1024 \<and> concat ws = rfc4648 (encode enc) (take (length p div 3 * 3) p) \<and>
     chunks e p n = Some (e\<lparr>e_out := out, e_w := (e_w e)\<lparr>sent := sent (e_w e) @ ws\<rparr>\<rparr>,
       drop (length p div 3 * 3) p, n + length p div 3 * 3)"
proof (induction "length p" arbitrary: p e n rule: less_induct)
  case less
  show ?case
  proof (cases "length p \<ge> 3")
    case False
    then show ?thesis using less.prems
      by (intro exI [of _ "e_out e"] exI [of _ "[]"]) (simp add: chunks.simps)
  next
    case True
    define k where "k = min (length p div 3) 256"
    have nn: "(let nn = length (e_out e) div 4 * 3; nn = (if nn > length p then length p else nn) in nn - nn mod 3) = 3 * k"
      using less.prems(3) by (auto simp: k_def minus_mod_eq_mult_div min_def)
    have k: "0 < k" "3 * k \<le> length p" "k \<le> 256" using True by (auto simp: k_def min_def)
    obtain out where out: "length out = 1024" "flush e (take (3 * k) p) (3 * k div 3 * 4) =
        Some (e\<lparr>e_out := out, e_w := (e_w e)\<lparr>sent := sent (e_w e) @ [rfc4648 (encode enc) (take (3 * k) p)]\<rparr>, e_err := None\<rparr>)"
      using flush_sends [OF less.prems(1-3), of "3 * k div 3 * 4" "take (3 * k) p"] k by (auto simp: EncodedLen_3)
    let ?e = "e\<lparr>e_out := out, e_w := (e_w e)\<lparr>sent := sent (e_w e) @ [rfc4648 (encode enc) (take (3 * k) p)]\<rparr>, e_err := None\<rparr>"
    have "chunks e p n = chunks ?e (drop (3 * k) p) (n + 3 * k)"
      unfolding chunks.simps [of e p n] Let_def nn [unfolded Let_def] using True k out(2) by simp
    moreover have lt: "length (drop (3 * k) p) < length p" using k by simp
    moreover have e: "e_enc ?e = enc" "fails (e_w ?e) = []" "length (e_out ?e) = 1024" "e_err ?e = None"
      using less.prems out(1) by simp_all
    moreover obtain out' ws where "length out' = 1024" "concat ws = rfc4648 (encode enc) (take (length (drop (3 * k) p) div 3 * 3) (drop (3 * k) p))"
      "chunks ?e (drop (3 * k) p) (n + 3 * k) = Some (?e\<lparr>e_out := out', e_w := (e_w ?e)\<lparr>sent := sent (e_w ?e) @ ws\<rparr>\<rparr>,
         drop (length (drop (3 * k) p) div 3 * 3) (drop (3 * k) p), n + 3 * k + length (drop (3 * k) p) div 3 * 3)"
      using less.hyps [OF lt e(1-4), of "n + 3 * k"] by blast
    moreover have m: "3 * k + length (drop (3 * k) p) div 3 * 3 = length p div 3 * 3"
    proof -
      obtain r where "length p = 3 * k + r" using k(2) le_Suc_ex by blast
      then show ?thesis by simp
    qed
    moreover have "take (3 * k) p @ take (length (drop (3 * k) p) div 3 * 3) (drop (3 * k) p) = take (length p div 3 * 3) p"
      by (metis m take_add)
    ultimately show ?thesis using less.prems(4) k
      rfc4648_append [of "take (3 * k) p" "encode enc" "take (length (drop (3 * k) p) div 3 * 3) (drop (3 * k) p)"]
      by (intro exI [of _ out'] exI [of _ "rfc4648 (encode enc) (take (3 * k) p) # ws"]) (simp add: add.commute add.left_commute)
  qed
qed

text \<open>The part of Write after the leading fringe: the interior chunks and the trailing fringe.\<close>

lemma interior:
  assumes "e_enc e = enc" "fails (e_w e) = []" "length (e_out e) = 1024" "e_err e = None" "length (e_buf e) = 3"
    "concat (sent (e_w e)) = rfc4648 (encode enc) A" "3 dvd length A"
  shows "\<exists>e'. (do {
      (e, p, n) \<leftarrow> chunks (e\<lparr>e_nbuf := 0\<rparr>) p i;
      if e_err e \<noteq> None then Some (e, n, e_err e)
      else Some (e\<lparr>e_buf := p @ drop (length p) (e_buf e), e_nbuf := length p\<rparr>, n + length p, None)
    }) = Some (e', i + length p, None) \<and> enc_inv enc e' (A @ p)"
proof -
  let ?m = "length p div 3 * 3" and ?e = "e\<lparr>e_nbuf := 0\<rparr>"
  obtain out ws where c: "length out = 1024" "concat ws = rfc4648 (encode enc) (take ?m p)"
    "chunks ?e p i = Some (?e\<lparr>e_out := out, e_w := (e_w ?e)\<lparr>sent := sent (e_w ?e) @ ws\<rparr>\<rparr>, drop ?m p, i + ?m)"
    using chunks_sends [of ?e p i] assms by auto
  let ?q = "drop ?m p"
  have q: "length ?q = length p mod 3" by (simp add: minus_div_mult_eq_mod)
  have "\<exists>B. A @ p = B @ ?q \<and> 3 dvd length B \<and> concat (sent (e_w e) @ ws) = rfc4648 (encode enc) B"
    using assms(6,7) c(2) by (intro exI [of _ "A @ take ?m p"]) (auto simp: rfc4648_append)
  moreover have "length ?q < 3" using q by simp
  moreover have "i + ?m + length ?q = i + length p" by (simp add: q)
  ultimately show ?thesis
    using c(1,3) assms(1-5) by (auto simp: enc_inv_def)
qed

lemma encoder_Write_inv:
  assumes "enc_inv enc e D"
  shows "\<exists>e'. encoder_Write e p = Some (e', length p, None) \<and> enc_inv enc e' (D @ p)"
proof -
  let ?k = "e_nbuf e"
  have e: "e_err e = None" "e_enc e = enc" "length (e_buf e) = 3" "?k < 3" "length (e_out e) = 1024" "fails (e_w e) = []"
    using assms by (auto simp: enc_inv_def)
  obtain A where A: "D = A @ take ?k (e_buf e)" "3 dvd length A" "concat (sent (e_w e)) = rfc4648 (encode enc) A"
    using assms by (auto simp: enc_inv_def)
  show ?thesis
  proof (cases "?k = 0")
    case True
    then show ?thesis using interior [OF e(2,6,5,1,3) A(3,2), of p 0] e(1) A(1) by (simp add: encoder_Write_def)
  next
    case False
    define j where "j = min (3 - ?k) (length p)"
    define e1 where "e1 = e\<lparr>e_buf := take ?k (e_buf e) @ take j p @ drop (?k + j) (e_buf e), e_nbuf := ?k + j\<rparr>"
    have fr: "fringe e p 0 = (e1, j)"
      using fringe_fills [of 0 p ?k e] e(3,4) by (simp add: Let_def e1_def j_def sub_def)
    show ?thesis
    proof (cases "?k + j < 3")
      case True
      then have j: "j = length p" by (auto simp: j_def)
      have "encoder_Write e p = Some (e1, j, None)"
        using False True e(1) fr by (simp add: encoder_Write_def e1_def)
      moreover have "enc_inv enc e1 (D @ p)" using e True A j False by (auto simp: enc_inv_def e1_def)
      ultimately show ?thesis using j by auto
    next
      case f: False
      have j: "j \<le> length p" "?k + j = 3" using f e(4) by (auto simp: j_def)
      let ?b = "take ?k (e_buf e) @ take j p"
      have e1: "e_buf e1 = ?b" "length ?b = 3" "e_nbuf e1 = 3" using j e(3) by (auto simp: e1_def)
      obtain out where out: "length out = 1024" "flush e1 ?b 4 =
          Some (e1\<lparr>e_out := out, e_w := (e_w e1)\<lparr>sent := sent (e_w e1) @ [rfc4648 (encode enc) ?b]\<rparr>, e_err := None\<rparr>)"
        using flush_sends [of e1 4 ?b] e e1(2) EncodedLen_3 [of 1] by (auto simp: e1_def)
      define e2 where "e2 = e1\<lparr>e_out := out, e_w := (e_w e1)\<lparr>sent := sent (e_w e1) @ [rfc4648 (encode enc) ?b]\<rparr>, e_err := None\<rparr>"
      have e2: "e_enc e2 = enc" "fails (e_w e2) = []" "length (e_out e2) = 1024" "e_err e2 = None" "length (e_buf e2) = 3"
        "concat (sent (e_w e2)) = rfc4648 (encode enc) (A @ ?b)" "3 dvd length (A @ ?b)"
        using e e1 out(1) A rfc4648_append [OF A(2)] by (simp_all add: e2_def e1_def)
      have "encoder_Write e p = (do {
          (e, p, n) \<leftarrow> chunks (e2\<lparr>e_nbuf := 0\<rparr>) (drop j p) j;
          if e_err e \<noteq> None then Some (e, n, e_err e)
          else Some (e\<lparr>e_buf := p @ drop (length p) (e_buf e), e_nbuf := length p\<rparr>, n + length p, None)
        })"
        using False e(1) fr e1(1,3) out(2) e2(4) by (simp add: encoder_Write_def e2_def [symmetric])
      moreover have "j + length (drop j p) = length p" "(A @ ?b) @ drop j p = D @ p" using j A(1) by simp_all
      ultimately show ?thesis using interior [OF e2, of "drop j p" j] by (simp only:)
    qed
  qed
qed

lemma encoder_Close_inv:
  assumes "enc_inv enc e D"
  shows "\<exists>e'. encoder_Close e = Some (e', None) \<and> concat (sent (e_w e')) = rfc4648 (encode enc) D"
proof -
  let ?k = "e_nbuf e" and ?b = "take (e_nbuf e) (e_buf e)"
  have e: "e_err e = None" "e_enc e = enc" "length (e_buf e) = 3" "?k < 3" "length (e_out e) = 1024" "fails (e_w e) = []"
    using assms by (auto simp: enc_inv_def)
  obtain A where A: "D = A @ ?b" "3 dvd length A" "concat (sent (e_w e)) = rfc4648 (encode enc) A"
    using assms by (auto simp: enc_inv_def)
  show ?thesis
  proof (cases "?k = 0")
    case True
    then show ?thesis using e(1) A by (simp add: encoder_Close_def)
  next
    case False
    then have "EncodedLen (length ?b) = 4" using e(3,4) by (auto simp: EncodedLen_def min_def)
    then obtain out where "flush (e\<lparr>e_nbuf := 0\<rparr>) ?b 4 =
        Some (e\<lparr>e_nbuf := 0, e_out := out, e_w := (e_w e)\<lparr>sent := sent (e_w e) @ [rfc4648 (encode enc) ?b]\<rparr>, e_err := None\<rparr>)"
      using flush_sends [of "e\<lparr>e_nbuf := 0\<rparr>" 4 ?b] e by auto
    then show ?thesis using False e(1) A rfc4648_append [OF A(2)] by (simp add: encoder_Close_def)
  qed
qed

end

text \<open>Writing a sequence of slices.\<close>

fun encoder_writes :: "encoder \<Rightarrow> byte list list \<Rightarrow> (encoder \<times> nat list) option" where
  "encoder_writes e [] = Some (e, [])"
| "encoder_writes e (p # ps) = do {
     (e, n, err) \<leftarrow> encoder_Write e p;
     (e, ns) \<leftarrow> encoder_writes e ps;
     Some (e, n # ns)
   }"

lemma encoder_writes_inv:
  assumes "base64_encoding enc"
  shows "enc_inv enc e D \<Longrightarrow> \<exists>e'. encoder_writes e ps = Some (e', map length ps) \<and> enc_inv enc e' (D @ concat ps)"
proof (induction ps arbitrary: e D)
  case (Cons p ps)
  obtain e1 where "encoder_Write e p = Some (e1, length p, None)" "enc_inv enc e1 (D @ p)"
    using base64_encoding.encoder_Write_inv [OF assms Cons.prems, of p] by auto
  then show ?case using Cons.IH [of e1 "D @ p"] by auto
qed simp

end
