(* ===== verification/Base64Reader.thy ===== *)
theory Base64Reader
  imports Base64Stream
begin

text \<open>
  The stream decoder of encoding/base64 on a reader that delivers an encoded text, with newlines anywhere,
  in pieces of any size.
\<close>

section \<open>Readers\<close>

text \<open>A reader that ends without an error of its own, and what it will deliver less the newlines.\<close>

abbreviation quiet :: "reader \<Rightarrow> bool" where
  "quiet r \<equiv> list_all (\<lambda>x. snd x = None) r"

definition content :: "reader \<Rightarrow> byte list" where
  "content r = squeeze (concat (map fst r))"

lemma content_Nil [simp]: "content [] = []"
  by (simp add: content_def)

lemma r_Read_content:
  "quiet r \<Longrightarrow> r_Read r k = (r', data, e) \<Longrightarrow>
   quiet r' \<and> concat (map fst r) = data @ concat (map fst r') \<and> length data \<le> k \<and> (e = None \<or> e = Some EOF \<and> r = [])"
  by (cases "(r, k)" rule: r_Read.cases) (auto split: if_splits)

lemma filter_Read_content:
  "quiet r \<Longrightarrow> filter_Read r k = (r', data, e) \<Longrightarrow>
   quiet r' \<and> content r = data @ content r' \<and> length data \<le> k \<and> (e = None \<or> e = Some EOF \<and> data = [] \<and> content r' = [])"
proof (induction r k rule: filter_Read.induct)
  case (1 r k)
  obtain r1 d1 e1 where q: "r_Read r k = (r1, d1, e1)" by (cases "r_Read r k")
  note c = r_Read_content [OF 1(2) q]
  show ?case
  proof (cases "length d1 > 0 \<and> squeeze d1 = []")
    case True
    then have f: "filter_Read r1 k = (r', data, e)" using 1(3) q by (subst (asm) filter_Read.simps) simp
    have "content r = content r1" using c True by (simp add: content_def squeeze_append)
    then show ?thesis using 1(1) [OF q [symmetric] refl _ refl _ _ f] True c by auto
  next
    case False
    then have "r' = r1" "e = e1" "data = squeeze d1"
      using 1(3) q by (auto simp: filter_Read.simps [of r] Let_def split: if_splits)
    moreover have "content r = squeeze d1 @ content r1" using c by (simp add: content_def squeeze_append)
    moreover have "r1 = []" "d1 = []" if "r = []" using q that by auto
    ultimately show ?thesis using c length_squeeze [of d1] by auto
  qed
qed

lemma ReadAtLeast_loop_content:
  "quiet r \<Longrightarrow> lo \<le> k \<Longrightarrow> length acc \<le> k \<Longrightarrow> ReadAtLeast_loop r k lo acc None = (r', data, e) \<Longrightarrow>
   quiet r' \<and> acc @ content r = data @ content r' \<and> length data \<le> k \<and>
   (lo \<le> length data \<or> e = Some EOF \<and> content r' = [])"
proof (induction "reader_size r" arbitrary: r acc rule: less_induct)
  case less
  show ?case
  proof (cases "length acc < lo")
    case False
    then show ?thesis using less.prems by (simp add: ReadAtLeast_loop.simps)
  next
    case True
    obtain r1 d1 e1 where q: "filter_Read r (k - length acc) = (r1, d1, e1)" by (cases "filter_Read r (k - length acc)")
    note c = filter_Read_content [OF less.prems(1) q]
    have l: "ReadAtLeast_loop r1 k lo (acc @ d1) e1 = (r', data, e)"
      using less.prems(2,4) True q by (subst (asm) ReadAtLeast_loop.simps) simp
    show ?thesis
    proof (cases e1)
      case None
      have "reader_size r1 < reader_size r" using filter_Read_size [OF q] None True less.prems(2) by simp
      then show ?thesis using less.hyps [of r1 "acc @ d1"] c l None less.prems(2,3) True by auto
    next
      case (Some x)
      then show ?thesis using c l less.prems(3) by (auto simp: ReadAtLeast_loop.simps)
    qed
  qed
qed

lemma ReadAtLeast_content:
  assumes "quiet r" "lo \<le> k" "ReadAtLeast r k lo = (r', data, err)"
  shows "quiet r' \<and> content r = data @ content r' \<and> length data \<le> k \<and>
    (if lo \<le> length (content r) then err = None \<and> lo \<le> length data
     else data = content r \<and> err = Some (if content r = [] then IO EOF else ErrUnexpectedEOF))"
proof -
  obtain e where q: "ReadAtLeast_loop r k lo [] None = (r', data, e)"
    and e: "err = (if length data \<ge> lo then None else if length data > 0 \<and> e = Some EOF then Some ErrUnexpectedEOF else map_option IO e)"
    using assms(2,3) by (auto simp: ReadAtLeast_def split: prod.splits if_splits)
  then show ?thesis using ReadAtLeast_loop_content [OF assms(1,2) _ q] by (auto split: if_splits)
qed

section \<open>The decoder\<close>

text \<open>The decoder still has to return the bytes s.\<close>

definition dec_inv :: "Encoding \<Rightarrow> decoder \<Rightarrow> byte list \<Rightarrow> bool" where
  "dec_inv enc d s \<longleftrightarrow> d_err d = None \<and> d_enc d = enc \<and> length (d_buf d) = 1024 \<and> d_nbuf d < 4 \<and> quiet (d_r d) \<and>
     (\<exists>u. s = d_out d @ u \<and> take (d_nbuf d) (d_buf d) @ content (d_r d) = rfc4648 (encode enc) u)"

lemma dec_inv_New:
  "quiet r \<Longrightarrow> content r = rfc4648 (encode enc) s \<Longrightarrow> dec_inv enc (NewDecoder enc r) s"
  by (simp add: dec_inv_def NewDecoder_def)

lemma rfc4648_take_drop:
  "4 * m \<le> length (rfc4648 al u) \<Longrightarrow>
   take (4 * m) (rfc4648 al u) = rfc4648 al (take (3 * m) u) \<and> drop (4 * m) (rfc4648 al u) = rfc4648 al (drop (3 * m) u)"
proof -
  assume m: "4 * m \<le> length (rfc4648 al u)"
  show ?thesis
  proof (cases "3 * m \<le> length u")
    case True
    then have l: "length (take (3 * m) u) = 3 * m" by simp
    then have "length (rfc4648 al (take (3 * m) u)) = 4 * m" by (simp add: length_rfc4648 EncodedLen_3 del: length_take)
    moreover have "rfc4648 al u = rfc4648 al (take (3 * m) u) @ rfc4648 al (drop (3 * m) u)"
      using rfc4648_append [of "take (3 * m) u" al "drop (3 * m) u"] l by (simp del: length_take)
    ultimately show ?thesis by simp
  next
    case False
    then have "length (rfc4648 al u) = 4 * m" using m by (simp add: length_rfc4648 EncodedLen_def)
    then show ?thesis using False by simp
  qed
qed

context base64_encoding
begin

text \<open>What follows the reading of a chunk: the quanta it completes are decoded into p, or by way of out.\<close>

lemma decode_chunk:
  assumes "take (4 * m) T = take (4 * m) (rfc4648 (encode enc) u)" "4 * m \<le> length (rfc4648 (encode enc) u)" "3 * m \<le> length dst"
  shows "\<exists>dst'. decode enc dst (take (4 * m) T) = Some (dst', length (take (3 * m) u), length (take (3 * m) u) mod 3 \<noteq> 0, None) \<and>
    length dst' = length dst \<and> take (length (take (3 * m) u)) dst' = take (3 * m) u"
proof -
  have t: "take (4 * m) T = rfc4648 (encode enc) (take (3 * m) u)" using assms(1) rfc4648_take_drop [OF assms(2)] by simp
  have "length (take (4 * m) (rfc4648 (encode enc) u)) = 4 * m" using assms(2) by simp
  then have "EncodedLen (length (take (3 * m) u)) = 4 * m" using assms(1) t length_rfc4648 by metis
  then show ?thesis using decode_rfc4648 [of "take (3 * m) u" dst] assms(3) t by (simp add: DecodedLen_def)
qed

lemma copy_to_start: "copy_to p 0 out = (take (length p) out @ drop (length out) p, min (length p) (length out))"
  by (simp add: copy_to_def Let_def min_def)

lemma read_chunk:
  fixes p :: "byte list"
  assumes inv: "dec_inv enc d s" and out: "d_out d = []" and s: "s \<noteq> []"
  defines "nn \<equiv> min 1024 (max 4 (length p div 3 * 4))"
  shows "\<exists>r data. ReadAtLeast (d_r d) (nn - d_nbuf d) (4 - d_nbuf d) = (r, data, None) \<and> quiet r \<and>
    4 \<le> d_nbuf d + length data \<and> d_nbuf d + length data \<le> nn \<and>
    take (d_nbuf d) (d_buf d) @ data @ content r = rfc4648 (encode enc) s"
proof -
  have d: "d_nbuf d < 4" "quiet (d_r d)" "length (d_buf d) = 1024"
      "take (d_nbuf d) (d_buf d) @ content (d_r d) = rfc4648 (encode enc) s"
    using inv out by (auto simp: dec_inv_def)
  have nn: "4 \<le> nn" by (simp add: nn_def)
  have "4 \<le> length (rfc4648 (encode enc) s)" using s by (cases s) (auto simp: length_rfc4648 EncodedLen_def)
  then have "4 - d_nbuf d \<le> length (content (d_r d))" using d(1,3) arg_cong [OF d(4), of length] by simp
  moreover obtain r data err where q: "ReadAtLeast (d_r d) (nn - d_nbuf d) (4 - d_nbuf d) = (r, data, err)"
    by (cases "ReadAtLeast (d_r d) (nn - d_nbuf d) (4 - d_nbuf d)")
  moreover have "4 - d_nbuf d \<le> nn - d_nbuf d" using nn by simp
  ultimately have "quiet r" "content (d_r d) = data @ content r" "length data \<le> nn - d_nbuf d" "err = None" "4 - d_nbuf d \<le> length data"
    using ReadAtLeast_content [OF d(2) _ q] by auto
  then show ?thesis using q d(1,4) nn by (intro exI [of _ r] exI [of _ data]) auto
qed

text \<open>
  A Read with nothing left to give out: the decoder \<open>d1\<close> with the text it has read in its buffer, of which
  \<open>m\<close> quanta are complete, what remains to be done, and the decoder after it.
\<close>

lemma read_step:
  fixes p :: "byte list"
  assumes inv: "dec_inv enc d s" and out: "d_out d = []" and s: "s \<noteq> []"
  obtains m d1 where "0 < m" "m * 3 \<le> 768" "d_out d1 = []" "4 * m \<le> length (rfc4648 (encode enc) s)"
    "take (4 * m) (d_buf d1) = take (4 * m) (rfc4648 (encode enc) s)"
    "decoder_Read d p = do {
      (d, p, n) \<leftarrow>
        (if m * 3 > length p then do {
           (out, nw, e, err) \<leftarrow> decode enc (replicate (1024 div 4 * 3) 0) (take (m * 4) (d_buf d1));
           let out = take nw out;
           let (p, n) = copy_to p 0 out;
           Some (d1\<lparr>d_end := e, d_err := map_option CorruptInputError err, d_out := drop n out\<rparr>, p, n)
         } else do {
           (p, n, e, err) \<leftarrow> decode enc p (take (m * 4) (d_buf d1));
           Some (d1\<lparr>d_end := e, d_err := map_option CorruptInputError err\<rparr>, p, n)
         });
      let k = d_nbuf d - m * 4;
      let d = d\<lparr>d_nbuf := k, d_buf := sub (d_buf d) (m * 4) (m * 4 + k) @ drop k (d_buf d)\<rparr>;
      Some (d, p, n, d_err d)
    }"
    "\<forall>e q k. k = d_nbuf d1 - m * 4 \<longrightarrow> dec_inv enc (d1\<lparr>d_end := e, d_err := None, d_out := q, d_nbuf := k,
       d_buf := sub (d_buf d1) (m * 4) (m * 4 + k) @ drop k (d_buf d1)\<rparr>) (q @ drop (3 * m) s)"
proof -
  define nn where "nn = min 1024 (max 4 (length p div 3 * 4))"
  obtain r data where rd: "ReadAtLeast (d_r d) (nn - d_nbuf d) (4 - d_nbuf d) = (r, data, None)" "quiet r"
    "4 \<le> d_nbuf d + length data" "d_nbuf d + length data \<le> nn"
    "take (d_nbuf d) (d_buf d) @ data @ content r = rfc4648 (encode enc) s"
    using read_chunk [OF inv out s, of p] unfolding nn_def by blast
  have d: "d_err d = None" "d_enc d = enc" "length (d_buf d) = 1024" "d_nbuf d < 4" using inv by (auto simp: dec_inv_def)
  define t where "t = d_nbuf d + length data"
  define m where "m = t div 4"
  define buf where "buf = fst (copy_to (d_buf d) (d_nbuf d) data)"
  have t: "4 \<le> t" "t \<le> nn" "nn \<le> 1024" "4 * m \<le> t" "t - 4 * m < 4" "0 < m" using rd(3,4) by (auto simp: t_def nn_def m_def)
  have buf: "length buf = 1024" "take t buf = take (d_nbuf d) (d_buf d) @ data"
    using d(3,4) t unfolding buf_def t_def copy_to_def by (auto simp: Let_def)
  have whole: "take t buf @ content r = rfc4648 (encode enc) s" using buf(2) rd(5) by simp
  have m: "4 * m \<le> length (rfc4648 (encode enc) s)" "take (4 * m) buf = take (4 * m) (rfc4648 (encode enc) s)"
    unfolding whole [symmetric] using t buf(1) by simp_all
  define d1 where "d1 = d\<lparr>d_r := r, d_err := None, d_buf := buf, d_nbuf := t\<rparr>"
  define nbuf where "nbuf = sub buf (m * 4) t @ drop (t - m * 4) buf"
  have "take (t - m * 4) nbuf = drop (4 * m) (take t buf)"
    using t(2-4) buf(1) by (simp add: nbuf_def sub_def drop_take mult.commute)
  moreover have "drop (4 * m) (take t buf) @ content r = drop (4 * m) (take t buf @ content r)" using t(2-4) buf(1) by simp
  ultimately have rest: "take (t - m * 4) nbuf @ content r = rfc4648 (encode enc) (drop (3 * m) s)"
    using whole rfc4648_take_drop [OF m(1)] by simp
  have nbuf: "length nbuf = 1024" using t(2-4) buf(1) by (simp add: nbuf_def sub_def)
  have n: "(let nn = length p div 3 * 4; nn = (if nn < 4 then 4 else nn) in if nn > length (d_buf d) then length (d_buf d) else nn) = nn"
    by (auto simp: nn_def d(3) Let_def)
  have d1: "d_err d1 = None" "d_nbuf d1 = t" "d_buf d1 = buf" "d_enc d1 = enc" "d_out d1 = []" "\<not> t < 4"
    "d1 = d\<lparr>d_r := r, d_err := None, d_buf := fst (copy_to (d_buf d) (d_nbuf d) data), d_nbuf := d_nbuf d + length data\<rparr>"
    using t(1) out by (simp_all add: d1_def d buf_def t_def)
  show thesis
  proof (rule that [of m d1])
    show "decoder_Read d p = do {
        (d, p, n) \<leftarrow>
          (if m * 3 > length p then do {
             (out, nw, e, err) \<leftarrow> decode enc (replicate (1024 div 4 * 3) 0) (take (m * 4) (d_buf d1));
             let out = take nw out;
             let (p, n) = copy_to p 0 out;
             Some (d1\<lparr>d_end := e, d_err := map_option CorruptInputError err, d_out := drop n out\<rparr>, p, n)
           } else do {
             (p, n, e, err) \<leftarrow> decode enc p (take (m * 4) (d_buf d1));
             Some (d1\<lparr>d_end := e, d_err := map_option CorruptInputError err\<rparr>, p, n)
           });
        let k = d_nbuf d - m * 4;
        let d = d\<lparr>d_nbuf := k, d_buf := sub (d_buf d) (m * 4) (m * 4 + k) @ drop k (d_buf d)\<rparr>;
        Some (d, p, n, d_err d)
      }"
      unfolding decoder_Read_def using out d(1) rd(1) n d1 by (simp add: Let_def m_def)
    show "\<forall>e q k. k = d_nbuf d1 - m * 4 \<longrightarrow> dec_inv enc (d1\<lparr>d_end := e, d_err := None, d_out := q, d_nbuf := k,
       d_buf := sub (d_buf d1) (m * 4) (m * 4 + k) @ drop k (d_buf d1)\<rparr>) (q @ drop (3 * m) s)"
      using rest d t(4,5) rd(2) nbuf d1(2,3) by (auto simp: dec_inv_def d1_def nbuf_def mult.commute)
  qed (use t m d1(3,5) in simp_all)
qed

lemma decoder_Read_inv:
  assumes inv: "dec_inv enc d s" and s: "s \<noteq> []"
  shows "\<exists>d' p' n. decoder_Read d p = Some (d', p', n, None) \<and> length p' = length p \<and> n \<le> length s \<and>
    take n p' = take n s \<and> dec_inv enc d' (drop n s) \<and> (p \<noteq> [] \<longrightarrow> n > 0)"
proof (cases "d_out d = []")
  case False
  have "take (min (length p) (length (d_out d))) (take (length p) (d_out d) @ drop (length (d_out d)) p) = take (min (length p) (length (d_out d))) s"
    using inv by (auto simp: dec_inv_def min_def)
  then show ?thesis using inv False
    by (auto simp: decoder_Read_def copy_to_start dec_inv_def min_def)
next
  case True
  obtain m d1 where m: "0 < m" "m * 3 \<le> 768" "d_out d1 = []"
    "4 * m \<le> length (rfc4648 (encode enc) s)" "take (4 * m) (d_buf d1) = take (4 * m) (rfc4648 (encode enc) s)"
    and step: "decoder_Read d p = do {
      (d, p, n) \<leftarrow>
        (if m * 3 > length p then do {
           (out, nw, e, err) \<leftarrow> decode enc (replicate (1024 div 4 * 3) 0) (take (m * 4) (d_buf d1));
           let out = take nw out;
           let (p, n) = copy_to p 0 out;
           Some (d1\<lparr>d_end := e, d_err := map_option CorruptInputError err, d_out := drop n out\<rparr>, p, n)
         } else do {
           (p, n, e, err) \<leftarrow> decode enc p (take (m * 4) (d_buf d1));
           Some (d1\<lparr>d_end := e, d_err := map_option CorruptInputError err\<rparr>, p, n)
         });
      let k = d_nbuf d - m * 4;
      let d = d\<lparr>d_nbuf := k, d_buf := sub (d_buf d) (m * 4) (m * 4 + k) @ drop k (d_buf d)\<rparr>;
      Some (d, p, n, d_err d)
    }"
    and nx: "\<forall>e q k. k = d_nbuf d1 - m * 4 \<longrightarrow> dec_inv enc (d1\<lparr>d_end := e, d_err := None, d_out := q, d_nbuf := k,
       d_buf := sub (d_buf d1) (m * 4) (m * 4 + k) @ drop k (d_buf d1)\<rparr>) (q @ drop (3 * m) s)"
    by (rule read_step [OF inv True s, where p = p], rule that)
  define v where "v = take (3 * m) s"
  have v: "s = v @ drop (3 * m) s" "v \<noteq> []" "length v \<le> 3 * m" using s m(1) by (auto simp: v_def)
  show ?thesis
  proof (cases "m * 3 > length p")
    case small: True
    have "3 * m \<le> length (replicate (1024 div 4 * 3) (0 :: byte))" using m(2) by simp
    from decode_chunk [OF m(5,4) this] obtain out where out: "decode enc (replicate (1024 div 4 * 3) 0) (take (m * 4) (d_buf d1)) = Some (out, length v, length v mod 3 \<noteq> 0, None)"
      "take (length v) out = v" unfolding v_def by (auto simp: mult.commute)
    have "min (length out) (length v) = length v" "take (min (length p) (length v)) out = take (length p) v"
      using out(2) by (metis length_take, metis take_take)
    then have "decoder_Read d p = Some (d1\<lparr>d_end := length v mod 3 \<noteq> 0, d_err := None, d_out := drop (min (length p) (length v)) v, d_nbuf := d_nbuf d1 - m * 4, d_buf := sub (d_buf d1) (m * 4) (m * 4 + (d_nbuf d1 - m * 4)) @ drop (d_nbuf d1 - m * 4) (d_buf d1)\<rparr>,
        take (length p) v @ drop (length v) p, min (length p) (length v), None)"
      unfolding step using small out by (simp add: copy_to_start Let_def)
    moreover have "drop (min (length p) (length v)) s = drop (min (length p) (length v)) v @ drop (3 * m) s"
      "take (min (length p) (length v)) s = take (min (length p) (length v)) v" "min (length p) (length v) \<le> length s"
      using v(1) by (metis append_Nil2 drop_append min.cobounded2 diff_is_0_eq drop0, metis v(1) append_Nil2 take_append min.cobounded2 diff_is_0_eq take0, simp add: min.coboundedI2 v_def)
    ultimately show ?thesis using nx [rule_format, OF refl, of "drop (min (length p) (length v)) v" "length v mod 3 \<noteq> 0"] v(2) by (auto simp: min_def)
  next
    case large: False
    then have "3 * m \<le> length p" by simp
    from decode_chunk [OF m(5,4) this] obtain p' where p': "decode enc p (take (m * 4) (d_buf d1)) = Some (p', length v, length v mod 3 \<noteq> 0, None)"
      "take (length v) p' = v" "length p' = length p" unfolding v_def by (auto simp: mult.commute)
    then have "decoder_Read d p = Some (d1\<lparr>d_end := length v mod 3 \<noteq> 0, d_err := None, d_nbuf := d_nbuf d1 - m * 4, d_buf := sub (d_buf d1) (m * 4) (m * 4 + (d_nbuf d1 - m * 4)) @ drop (d_nbuf d1 - m * 4) (d_buf d1)\<rparr>, p', length v, None)"
      unfolding step using large by (simp add: Let_def)
    moreover have "d1\<lparr>d_end := length v mod 3 \<noteq> 0, d_err := None, d_nbuf := d_nbuf d1 - m * 4, d_buf := sub (d_buf d1) (m * 4) (m * 4 + (d_nbuf d1 - m * 4)) @ drop (d_nbuf d1 - m * 4) (d_buf d1)\<rparr> =
        d1\<lparr>d_end := length v mod 3 \<noteq> 0, d_err := None, d_out := [], d_nbuf := d_nbuf d1 - m * 4, d_buf := sub (d_buf d1) (m * 4) (m * 4 + (d_nbuf d1 - m * 4)) @ drop (d_nbuf d1 - m * 4) (d_buf d1)\<rparr>"
      using m(3) by simp
    moreover have "drop (length v) s = drop (3 * m) s" "take (length v) s = v" "length v \<le> length s" by (auto simp: v_def min_def)
    ultimately show ?thesis using nx [rule_format, OF refl, of "[]" "length v mod 3 \<noteq> 0"] v(2) p' by auto
  qed
qed

lemma decoder_Read_end:
  assumes "dec_inv enc d []"
  shows "\<exists>d'. decoder_Read d p = Some (d', p, 0, Some (IO EOF))"
proof -
  have d: "d_err d = None" "d_out d = []" "length (d_buf d) = 1024" "quiet (d_r d)" "d_nbuf d = 0" "content (d_r d) = []"
    using assms by (auto simp: dec_inv_def)
  define nn where "nn = (let nn = length p div 3 * 4; nn = (if nn < 4 then 4 else nn) in if nn > length (d_buf d) then length (d_buf d) else nn)"
  have "4 \<le> nn" by (simp add: nn_def d(3) Let_def)
  moreover obtain r data err where q: "ReadAtLeast (d_r d) nn 4 = (r, data, err)" by (cases "ReadAtLeast (d_r d) nn 4")
  ultimately have "data = []" "err = Some (IO EOF)" using ReadAtLeast_content [OF d(4) _ q] d(6) by auto
  then show ?thesis using d q by (simp add: decoder_Read_def Let_def nn_def)
qed

end

text \<open>Reading with buffers of the given sizes until an error.\<close>

fun decoder_reads :: "decoder \<Rightarrow> nat list \<Rightarrow> (byte list \<times> b64_err option) option" where
  "decoder_reads d [] = Some ([], None)"
| "decoder_reads d (k # ks) = do {
     (d, p, n, err) \<leftarrow> decoder_Read d (replicate k 0);
     if err \<noteq> None then Some (take n p, err)
     else do {
       (rest, err) \<leftarrow> decoder_reads d ks;
       Some (take n p @ rest, err)
     }
   }"

lemma decoder_reads_inv:
  assumes "base64_encoding enc"
  shows "dec_inv enc d s \<Longrightarrow> list_all (\<lambda>k. 0 < k) ks \<Longrightarrow> length s < length ks \<Longrightarrow> decoder_reads d ks = Some (s, Some (IO EOF))"
proof (induction ks arbitrary: d s)
  case (Cons k ks)
  show ?case
  proof (cases "s = []")
    case True
    then show ?thesis using base64_encoding.decoder_Read_end [OF assms, of d "replicate k 0"] Cons.prems(1) by auto
  next
    case False
    obtain d' p' n where r: "decoder_Read d (replicate k 0) = Some (d', p', n, None)" "n \<le> length s" "take n p' = take n s"
      "dec_inv enc d' (drop n s)" "0 < n"
      using base64_encoding.decoder_Read_inv [OF assms Cons.prems(1) False, of "replicate k 0"] Cons.prems(2) by auto
    then show ?thesis using Cons.IH [OF r(4)] Cons.prems(2,3) by auto
  qed
qed simp

section \<open>Properties\<close>

text \<open>
  The encoding is that of RFC 4648: for every alphabet of 64 distinct ASCII characters other than '='
  and newlines, EncodeToString returns the groups of 24 bits as characters of the alphabet with the last
  group padded, EncodedLen bytes long, and Encode into a longer buffer leaves its rest alone. This holds
  for every padding character set with WithPadding.
\<close>

theorem base64_encodes:
  assumes "good_alphabet al" "EncodedLen (length src) \<le> length dst"
  shows "EncodeToString (WithPadding (NewEncoding al) c) src = Some (rfc4648 al src) \<and>
    length (rfc4648 al src) = EncodedLen (length src) \<and>
    Encode (WithPadding (NewEncoding al) c) dst src = Some (rfc4648 al src @ drop (EncodedLen (length src)) dst)"
proof -
  have e: "encode (WithPadding (NewEncoding al) c) = al" by (simp add: WithPadding_def NewEncoding_def)
  note b = NewEncoding_contract [OF assms(1), of c]
  show ?thesis using base64_encoding.EncodeToString_rfc4648 [OF b] base64_encoding.Encode_rfc4648 [OF b assms(2)]
    by (simp add: e length_rfc4648)
qed

text \<open>
  C29. DecodeString inverts EncodeToString, also when newlines have been put anywhere into the encoded
  text: it returns the encoded bytes and no error.
\<close>

theorem base64_round_trip:
  assumes "good_alphabet al" "EncodeToString (WithPadding (NewEncoding al) c) s = Some e"
    "list_all (\<lambda>b. b < 0x80) t" "filter (\<lambda>b. b \<noteq> 0x0D \<and> b \<noteq> 0x0A) t = e"
  shows "DecodeString (WithPadding (NewEncoding al) c) t = Some (s, None)"
proof -
  note b = NewEncoding_contract [OF assms(1), of c]
  have "squeeze t = filter (\<lambda>b. b \<noteq> 0x0D \<and> b \<noteq> 0x0A) t" by (induction t) auto
  then show ?thesis
    using base64_encoding.DecodeString_rfc4648 [OF b assms(3), of s] base64_encoding.EncodeToString_rfc4648 [OF b, of s] assms(2,4) by simp
qed

theorem base64_round_trip_witness:
  "DecodeString URLEncoding [0x34, 0x34, 0x0A, 0x47, 0x2D, 0x0D, 0x0A] = Some ([0xE3, 0x81, 0xBE], None)"
proof -
  have "EncodeToString URLEncoding [0xE3, 0x81, 0xBE] = Some [0x34, 0x34, 0x47, 0x2D]"
    unfolding url.EncodeToString_rfc4648
    by (simp add: digit_def URLEncoding_def NewEncoding_def encodeURL_def nth_append)
  then show ?thesis
    using base64_round_trip [OF good_alphabets(2), of 0 "[0xE3, 0x81, 0xBE]"]
    by (simp add: WithPadding_none URLEncoding_def)
qed



text \<open>
  C31. The stream encoder: writing any sequence of slices and closing gives the writer, piece by piece,
  the encoding of all the bytes; every Write accepts all it is given.
\<close>

theorem base64_stream_encodes:
  assumes "good_alphabet al"
  shows "\<exists>e e'. encoder_writes (NewEncoder (NewEncoding al) \<lparr>sent = [], fails = []\<rparr>) ps = Some (e, map length ps) \<and>
    encoder_Close e = Some (e', None) \<and> EncodeToString (NewEncoding al) (concat ps) = Some (concat (sent (e_w e')))"
proof -
  have b: "base64_encoding (NewEncoding al)" using NewEncoding_contract [OF assms(1), of 0] by (simp add: WithPadding_none)
  obtain e where "encoder_writes (NewEncoder (NewEncoding al) \<lparr>sent = [], fails = []\<rparr>) ps = Some (e, map length ps)"
    "enc_inv (NewEncoding al) e (concat ps)"
    using encoder_writes_inv [OF b enc_inv_New, of ps] by auto
  then show ?thesis using base64_encoding.encoder_Close_inv [OF b, of e "concat ps"] base64_encoding.EncodeToString_rfc4648 [OF b] by auto
qed

theorem base64_stream_encodes_witness:
  "\<exists>e e'. encoder_writes (NewEncoder StdEncoding \<lparr>sent = [], fails = []\<rparr>) [[0x4D], [], [0x61]] = Some (e, [1, 0, 1]) \<and>
    encoder_Close e = Some (e', None) \<and> EncodeToString StdEncoding [0x4D, 0x61] = Some (concat (sent (e_w e')))"
  using base64_stream_encodes [OF good_alphabets(1), of "[[0x4D], [], [0x61]]"] by (simp add: StdEncoding_def)

text \<open>
  C32. The stream decoder: a reader delivers the encoding of s, with newlines anywhere and in pieces of any
  size, and is read through the decoder with buffers of any sizes. The bytes read are s, then comes EOF.
\<close>

theorem base64_stream_decodes:
  assumes "good_alphabet al" "list_all (\<lambda>x. snd x = None) r"
    "EncodeToString (NewEncoding al) s = Some (filter (\<lambda>b. b \<noteq> 0x0D \<and> b \<noteq> 0x0A) (concat (map fst r)))"
    "list_all (\<lambda>k. 0 < k) ks" "length s < length ks"
  shows "decoder_reads (NewDecoder (NewEncoding al) r) ks = Some (s, Some (IO EOF))"
proof -
  have b: "base64_encoding (NewEncoding al)" using NewEncoding_contract [OF assms(1), of 0] by (simp add: WithPadding_none)
  have "squeeze t = filter (\<lambda>b. b \<noteq> 0x0D \<and> b \<noteq> 0x0A) t" for t by (induction t) auto
  then have "content r = rfc4648 (encode (NewEncoding al)) s"
    using assms(3) base64_encoding.EncodeToString_rfc4648 [OF b, of s] by (simp add: content_def)
  then show ?thesis using decoder_reads_inv [OF b dec_inv_New assms(4,5)] assms(2) by blast
qed

theorem base64_stream_decodes_witness:
  "decoder_reads (NewDecoder StdEncoding [([0x54, 0x0A], None), ([0x57, 0x45], None), ([0x3D, 0x0D, 0x0A], None)]) [1, 7, 1] =
     Some ([0x4D, 0x61], Some (IO EOF))"
proof -
  have "EncodeToString StdEncoding [0x4D, 0x61] = Some [0x54, 0x57, 0x45, 0x3D]"
    unfolding std.EncodeToString_rfc4648
    by (simp add: digit_def StdEncoding_def NewEncoding_def encodeStd_def nth_append)
  then show ?thesis
    using base64_stream_decodes [OF good_alphabets(1), of "[([0x54, 0x0A], None), ([0x57, 0x45], None), ([0x3D, 0x0D, 0x0A], None)]" "[0x4D, 0x61]" "[1, 7, 1]"]
    by (simp add: StdEncoding_def)
qed

text \<open>
  Where the package departs from its documentation: the raw encodings still pad; Decode ignores what
  follows the padding; the stream decoder reports the end of a text that stops inside a quantum as EOF; and
  whether it goes on after padding depends on the size of the buffers it is read with.
\<close>

theorem base64_deviations:
  "EncodeToString RawStdEncoding [0x41] = Some [0x51, 0x51, 0x3D, 0x3D] \<and>
   DecodeString StdEncoding [0x51, 0x51, 0x3D, 0x3D, 0x51, 0x51] = Some ([0x41], None) \<and>
   decoder_reads (NewDecoder StdEncoding [([0x51, 0x55, 0x4A, 0x44, 0x51, 0x51], None)]) [6, 6] = Some ([0x41, 0x42, 0x43], Some (IO EOF)) \<and>
   decoder_reads (NewDecoder StdEncoding [([0x51, 0x51, 0x3D, 0x3D, 0x51, 0x51, 0x3D, 0x3D], None)]) [3, 3, 3] = Some ([0x41, 0x41], Some (IO EOF)) \<and>
   decoder_reads (NewDecoder StdEncoding [([0x51, 0x51, 0x3D, 0x3D, 0x51, 0x51, 0x3D, 0x3D], None)]) [6, 6, 6] = Some ([], Some (CorruptInputError 2))"
  by (intro conjI; code_simp)

end
