(* ===== verification/Hex.thy ===== *)
theory Hex
  imports HexDefs Buffer Base64Reader
begin

text \<open>
  Correctness of encoding/hex: the digits, that Decode inverts Encode and reports the first character
  that is not a digit, and that Dump writes the lines of \<open>hexdump -C\<close>, whatever the pieces in which the
  dumper is given the data.
\<close>

unbundle bit_operations_syntax

section \<open>Digits\<close>

definition hex_digits :: "byte \<Rightarrow> gostring" where
  "hex_digits v = [hextable ! (unat v div 16), hextable ! (unat v mod 16)]"

definition hex_text :: "byte list \<Rightarrow> gostring" where
  "hex_text s = concat (map hex_digits s)"

lemma length_hex_text [simp]: "length (hex_text s) = 2 * length s"
  by (induction s) (auto simp: hex_text_def hex_digits_def)

lemma hex_text_simps [simp]: "hex_text [] = []" "hex_text (c # s) = hex_digits c @ hex_text s"
  "hex_text (s @ t) = hex_text s @ hex_text t"
  by (simp_all add: hex_text_def)

lemma nibbles: "unat (drop_bit 4 v) = unat v div 16" "unat (v AND 0x0F) = unat v mod 16" for v :: byte
proof -
  show "unat (drop_bit 4 v) = unat v div 16" by (simp add: unat_drop_bit)
  have "(0x0F :: byte) = mask 4" by (simp add: mask_eq_exp_minus_1)
  then show "unat (v AND 0x0F) = unat v mod 16" by (simp only: unat_and_mask) simp
qed

lemma hex_Encode_loop_text:
  "2 * length src \<le> length dst \<Longrightarrow> i \<le> length src \<Longrightarrow> take (2 * i) dst = hex_text (take i src) \<Longrightarrow>
   hex_Encode_loop dst src i = Some (hex_text src @ drop (2 * length src) dst)"
proof (induction "length src - i" arbitrary: i dst)
  case 0
  then show ?case using append_take_drop_id [of "2 * length src" dst] by (simp add: hex_Encode_loop.simps)
next
  case (Suc m)
  let ?v = "src ! i"
  let ?dst = "dst[i * 2 := hextable ! unat (drop_bit 4 ?v), i * 2 + 1 := hextable ! unat (?v AND 0x0F)]"
  have i: "i < length src" using Suc.hyps(2) by simp
  then have "take (2 * Suc i) ?dst = take (2 * i) dst @ hex_digits ?v"
    using Suc.prems(1) by (simp add: take_Suc_conv_app_nth hex_digits_def nibbles nth_list_update mult.commute)
  then have "hex_Encode_loop ?dst src (Suc i) = Some (hex_text src @ drop (2 * length src) ?dst)"
    using Suc.prems Suc.hyps(2) i by (intro Suc.hyps(1)) (auto simp: take_Suc_conv_app_nth)
  moreover have "drop (2 * length src) ?dst = drop (2 * length src) dst" using i by simp
  ultimately show ?case using i Suc.prems(1) by (subst hex_Encode_loop.simps) (simp add: Let_def)
qed

lemma hex_Encode_text:
  "2 * length src \<le> length dst \<Longrightarrow> hex_Encode dst src = Some (hex_text src @ drop (2 * length src) dst, 2 * length src)"
  using hex_Encode_loop_text [of src dst 0] by (simp add: hex_Encode_def mult.commute)

lemma hex_EncodeToString_text: "hex_EncodeToString src = Some (hex_text src)"
  by (simp add: hex_EncodeToString_def hex_Encode_text hex_EncodedLen_def)

text \<open>The digits in both cases, the value of a digit by its place, and the bytes a text of digits stands for.\<close>

definition HEXTABLE :: gostring where
  "HEXTABLE = [0x30, 0x31, 0x32, 0x33, 0x34, 0x35, 0x36, 0x37, 0x38, 0x39, 0x41, 0x42, 0x43, 0x44, 0x45, 0x46]"

definition is_hex :: "byte \<Rightarrow> bool" where "is_hex c \<longleftrightarrow> c \<in> set hextable \<or> c \<in> set HEXTABLE"

definition hex_value :: "byte \<Rightarrow> byte" where
  "hex_value c = of_nat (place c (if c \<in> set hextable then hextable else HEXTABLE))"

lemma fromHexChar_spec: "fromHexChar c = (if is_hex c then hex_value c else 0, is_hex c)"
  by (rule byte_enum) code_simp

fun hex_bytes :: "gostring \<Rightarrow> byte list" where
  "hex_bytes (a # b # s) = (push_bit 4 (hex_value a) OR hex_value b) # hex_bytes s"
| "hex_bytes _ = []"

lemma hextable_values: "k < 16 \<Longrightarrow> is_hex (hextable ! k) \<and> hex_value (hextable ! k) = of_nat k"
proof -
  have "list_all (\<lambda>k. is_hex (hextable ! k) \<and> hex_value (hextable ! k) = of_nat k) [0..<16]" by code_simp
  then show "k < 16 \<Longrightarrow> is_hex (hextable ! k) \<and> hex_value (hextable ! k) = of_nat k" by (auto simp: list_all_iff)
qed

lemma hex_bytes_text: "hex_bytes (hex_text s) = s"
proof (induction s)
  case (Cons c s)
  let ?h = "of_nat (unat c div 16) :: byte" and ?l = "of_nat (unat c mod 16) :: byte"
  have b: "unat c div 16 < 16" using byte_bound [of c] by auto
  have "unat ?h = unat c div 16" "unat ?l = unat c mod 16" using b by (simp_all add: unat_of_nat)
  then have "unat (push_bit 4 ?h OR ?l) = unat c" using unat_join8 [of ?l 4 ?h] b by simp
  then have "push_bit 4 ?h OR ?l = c" by (rule word_unat_eq_iff [THEN iffD2])
  then show ?case using Cons b by (simp add: hex_digits_def hextable_values)
qed simp

lemma hex_text_is_hex: "list_all is_hex (hex_text s)"
proof (induction s)
  case (Cons c s)
  have "unat c div 16 < 16" using byte_bound [of c] by auto
  then show ?case using Cons by (simp add: hex_digits_def hextable_values)
qed simp

lemma hex_Decode_loop_spec:
  "length xs = 2 * i \<Longrightarrow> even (length rest) \<Longrightarrow> i + length rest div 2 \<le> length dst \<Longrightarrow>
   \<exists>dst'. hex_Decode_loop dst (xs @ rest) i = Some (case find (\<lambda>c. \<not> is_hex c) rest of
       Some c \<Rightarrow> (dst', 0, Some (InvalidByteError c))
     | None \<Rightarrow> (take i dst @ hex_bytes rest @ drop (i + length rest div 2) dst, i + length rest div 2, None))"
proof (induction rest arbitrary: xs i dst rule: hex_bytes.induct)
  case (1 a b s)
  have src: "(xs @ a # b # s) ! (i * 2) = a" "(xs @ a # b # s) ! (i * 2 + 1) = b" "i < length (xs @ a # b # s) div 2" "i < length dst"
    using 1(2-4) by (simp_all add: nth_append)
  show ?case
  proof (cases "is_hex a \<and> is_hex b")
    case False
    then show ?thesis using src
      by (subst hex_Decode_loop.simps) (auto simp: fromHexChar_spec Let_def)
  next
    case True
    let ?v = "push_bit 4 (hex_value a) OR hex_value b"
    have "hex_Decode_loop dst (xs @ a # b # s) i = hex_Decode_loop (dst[i := ?v]) ((xs @ [a, b]) @ s) (Suc i)"
      using True src by (subst hex_Decode_loop.simps) (simp add: fromHexChar_spec Let_def)
    moreover have "take (Suc i) (dst[i := ?v]) = take i dst @ [?v]" using src(4) by (simp add: take_Suc_conv_app_nth)
    ultimately show ?thesis using 1(1) [of "xs @ [a, b]" "Suc i" "dst[i := ?v]"] 1(2-4) True src(4)
      by (auto split: option.splits)
  qed
next
  case "2_1"
  then show ?case by (simp add: hex_Decode_loop.simps)
qed simp

lemma hex_DecodeString_spec:
  "hex_DecodeString s = Some (if odd (length s) then ([], Some ErrLength)
     else case find (\<lambda>c. \<not> is_hex c) s of Some c \<Rightarrow> ([], Some (InvalidByteError c)) | None \<Rightarrow> (hex_bytes s, None))"
proof (cases "odd (length s)")
  case True
  then show ?thesis by (simp add: hex_DecodeString_def hex_Decode_def odd_iff_mod_2_eq_one)
next
  case False
  obtain dst' where "hex_Decode_loop (replicate (length s div 2) 0) s 0 = Some (case find (\<lambda>c. \<not> is_hex c) s of
       Some c \<Rightarrow> (dst', 0, Some (InvalidByteError c)) | None \<Rightarrow> (hex_bytes s, length s div 2, None))"
    using hex_Decode_loop_spec [of "[]" 0 s "replicate (length s div 2) 0"] False by (auto split: option.splits)
  then show ?thesis using False
    by (auto simp: hex_DecodeString_def hex_Decode_def hex_DecodedLen_def even_iff_mod_2_eq_zero split: option.splits)
qed

section \<open>The format of a dump\<close>

definition dump_offset :: "nat \<Rightarrow> gostring" where
  "dump_offset n = hex_text [of_nat (n div 2 ^ 24), of_nat (n div 2 ^ 16), of_nat (n div 2 ^ 8), of_nat n] @ [0x20, 0x20]"

definition dump_gap :: "nat \<Rightarrow> gostring" where
  "dump_gap k = 0x20 # (if k = 7 then [0x20] else if k = 15 then [0x20, 0x7C] else [])"

definition dump_cells :: "byte list \<Rightarrow> gostring" where
  "dump_cells bs = concat (map (\<lambda>k. hex_digits (bs ! k) @ dump_gap k) [0..<length bs])"

definition dump_line :: "nat \<Rightarrow> byte list \<Rightarrow> gostring" where
  "dump_line n bs = dump_offset n @ dump_cells bs @
     concat (map (\<lambda>k. [0x20, 0x20] @ dump_gap k) [length bs..<16]) @ map toChar bs @ [0x7C, 0x0A]"

fun hexdump :: "nat \<Rightarrow> byte list \<Rightarrow> gostring" where
  "hexdump n data = (if data = [] then [] else dump_line n (take 16 data) @ hexdump (n + 16) (drop 16 data))"

declare hexdump.simps [simp del]

lemma hexdump_line: "length xs = 16 * m \<Longrightarrow> length line \<le> 16 \<Longrightarrow> line \<noteq> [] \<Longrightarrow>
   hexdump n (xs @ line) = hexdump n xs @ dump_line (n + 16 * m) line"
proof (induction m arbitrary: n xs)
  case 0
  then show ?case by (simp add: hexdump.simps)
next
  case (Suc m)
  then have "hexdump (n + 16) (drop 16 xs @ line) = hexdump (n + 16) (drop 16 xs) @ dump_line (n + 16 + 16 * m) line"
    by (intro Suc.IH) auto
  moreover have "xs \<noteq> []" "take 16 (xs @ line) = take 16 xs" "drop 16 (xs @ line) = drop 16 xs @ line" "n + 16 + 16 * m = n + 16 * Suc m"
    using Suc.prems(1) by auto
  ultimately show ?case by (simp only: hexdump.simps [of n xs] hexdump.simps [of n "xs @ line"]) simp
qed

lemma dump_cells_snoc: "dump_cells (r @ [c]) = dump_cells r @ hex_digits c @ dump_gap (length r)"
  by (simp add: dump_cells_def nth_append) (auto intro!: arg_cong [where f = concat])

lemma dump_cells_Nil [simp]: "dump_cells [] = []"
  by (simp add: dump_cells_def)

lemma list4_update: "4 \<le> length b \<Longrightarrow> b[0 := w, 1 := x, 2 := y, 3 := z] = [w, x, y, z] @ drop 4 b"
  by (cases b; cases "tl b"; cases "tl (tl b)"; cases "tl (tl (tl b))"; simp add: eval_nat_numeral)

lemma offset_byte: "k \<le> 24 \<Longrightarrow> (ucast (drop_bit k (of_nat m :: 64 word)) :: byte) = of_nat (m div 2 ^ k)"
  by (rule bit_word_eqI) (auto simp: bit_simps simp flip: drop_bit_eq_div)

lemma quint_simps:
  "(h # l # x # d)[2 := p] = h # l # p # d" "(h # l # x # y # z # d)[3 := p] = h # l # x # p # z # d"
  "(h # l # x # y # z # d)[4 := p] = h # l # x # y # p # d"
  by (simp_all add: eval_nat_numeral)

lemma columns_cell:
  assumes "length b = 14" "columns u ((hex_digits c @ drop 2 b)[2 := 0x20]) = (b', l)"
  shows "take l b' = hex_digits c @ dump_gap u" "length b' = 14"
proof -
  obtain h k where hk: "hex_digits c = [h, k]" by (simp add: hex_digits_def)
  have "drop 2 b = b ! 2 # b ! 3 # b ! 4 # drop 5 b"
    using Cons_nth_drop_Suc [of 2 b] Cons_nth_drop_Suc [of 3 b] Cons_nth_drop_Suc [of 4 b] assms(1) by simp
  then show "take l b' = hex_digits c @ dump_gap u"
    using assms(2) by (auto simp: hk quint_simps columns_def dump_gap_def split: if_splits)
  show "length b' = 14" using assms by (auto simp: columns_def hk split: if_splits)
qed

lemma line_end: "length xs = 16 \<Longrightarrow> (xs @ [x, y])[16 := p, 17 := q] = xs @ [p, q]"
  by (simp add: list_update_append)

lemma right_column: "length R = 18 \<Longrightarrow> R[16 := p, 17 := q] = take 16 R @ [p, q]"
proof -
  assume "length R = 18"
  then have "R = take 16 R @ [R ! 16, R ! 17]"
    using Cons_nth_drop_Suc [of 16 R] Cons_nth_drop_Suc [of 17 R] append_take_drop_id [of 16 R] by simp
  then show ?thesis using line_end [of "take 16 R" "R ! 16" "R ! 17" p q] \<open>length R = 18\<close> by simp
qed

section \<open>The dumper\<close>

text \<open>A client: the pieces are written one after the other and the dumper is closed; the answers of every
  Write and of Close.\<close>

fun dump_pieces :: "'w write_fn \<Rightarrow> 'w dumper \<Rightarrow> byte list list \<Rightarrow>
    ('w dumper \<times> (nat \<times> io_err option) list \<times> io_err option) option" where
  "dump_pieces wr h [] = do {
     (h, err) \<leftarrow> dumper_Close wr h;
     Some (h, [], err)
   }"
| "dump_pieces wr h (p # ps) = do {
     (h, n, err) \<leftarrow> dumper_Write wr h p;
     (h, rs, e) \<leftarrow> dump_pieces wr h ps;
     Some (h, (n, err) # rs, e)
   }"

text \<open>What the dumper needs of its writer: a Write appends, and does not fail.\<close>

locale dump_writer =
  fixes wr :: "'w write_fn" and winv :: "'w \<Rightarrow> bool" and view :: "'w \<Rightarrow> byte list"
  assumes write_law: "winv w \<Longrightarrow> \<exists>w'. wr w p = Some (w', None) \<and> winv w' \<and> view w' = view w @ p"
begin

text \<open>The dumper has written whole lines for P and the columns of r.\<close>

definition dump_inv :: "'w dumper \<Rightarrow> byte list \<Rightarrow> byte list \<Rightarrow> bool" where
  "dump_inv h P r \<longleftrightarrow> winv (h_w h) \<and>
     view (h_w h) = hexdump 0 P @ (if r = [] then [] else dump_offset (length P) @ dump_cells r) \<and>
     16 dvd length P \<and> length r < 16 \<and> used h = length r \<and> h_n h = of_nat (length P + length r) \<and>
     length (rightChars h) = 18 \<and> length (h_buf h) = 14 \<and> take (length r) (rightChars h) = map toChar r"

lemma h_write_law:
  "winv (h_w h) \<Longrightarrow> \<exists>w'. h_write wr h p = Some (h\<lparr>h_w := w'\<rparr>, None) \<and> winv w' \<and> view w' = view (h_w h) @ p"
  using write_law [of "h_w h" p] by (auto simp: h_write_def)

lemma write_offset_law:
  assumes "winv (h_w h)" "length (h_buf h) = 14" "h_n h = of_nat m"
  shows "\<exists>w' b'. write_offset wr h = Some (h\<lparr>h_buf := b', h_w := w'\<rparr>) \<and> length b' = 14 \<and> winv w' \<and>
    view w' = view (h_w h) @ dump_offset m"
proof -
  define b where "b = (h_buf h)[0 := ucast (drop_bit 24 (h_n h)), 1 := ucast (drop_bit 16 (h_n h)),
      2 := ucast (drop_bit 8 (h_n h)), 3 := ucast (h_n h)]"
  define o4 where "o4 = [of_nat (m div 2 ^ 24), of_nat (m div 2 ^ 16), of_nat (m div 2 ^ 8), of_nat m :: byte]"
  have b: "b = o4 @ drop 4 (h_buf h)" "length o4 = 4"
    using assms(2) offset_byte [of 24 m] offset_byte [of 16 m] offset_byte [of 8 m] offset_byte [of 0 m]
    unfolding b_def o4_def assms(3) by (subst list4_update) simp_all
  obtain x y where xy: "drop 12 (h_buf h) = [x, y]"
    using assms(2) length_Suc_conv [of "drop 12 (h_buf h)" 1] by (auto simp: length_Suc_conv)
  have "hex_Encode (drop 4 b) (take 4 b) = Some (hex_text o4 @ [x, y], 8)"
    using hex_Encode_text [of o4 "drop 4 (h_buf h)"] assms(2) b xy by simp
  moreover have "(o4 @ hex_text o4 @ [x, y])[12 := 0x20, 13 := 0x20] = o4 @ hex_text o4 @ [0x20, 0x20]"
    by (simp add: list_update_append b(2))
  moreover obtain w' where "h_write wr (h\<lparr>h_buf := o4 @ hex_text o4 @ [0x20, 0x20]\<rparr>) (hex_text o4 @ [0x20, 0x20]) =
      Some (h\<lparr>h_buf := o4 @ hex_text o4 @ [0x20, 0x20], h_w := w'\<rparr>, None)" "winv w'" "view w' = view (h_w h) @ dump_offset m"
    using h_write_law [of "h\<lparr>h_buf := o4 @ hex_text o4 @ [0x20, 0x20]\<rparr>" "hex_text o4 @ [0x20, 0x20]"] assms(1)
    by (auto simp: dump_offset_def o4_def)
  ultimately have "write_offset wr h = Some (h\<lparr>h_buf := o4 @ hex_text o4 @ [0x20, 0x20], h_w := w'\<rparr>)"
    unfolding write_offset_def Let_def b_def [symmetric] using b by simp
  then show ?thesis using \<open>winv w'\<close> \<open>view w' = _\<close> b(2) by (intro exI [of _ w'] exI [of _ "o4 @ hex_text o4 @ [0x20, 0x20]"]) simp
qed

lemma begin_line:
  assumes "dump_inv h P r"
  shows "\<exists>b w. (if used h = 0 then write_offset wr h else Some h) = Some (h\<lparr>h_buf := b, h_w := w\<rparr>) \<and> length b = 14 \<and> winv w \<and>
    view w = hexdump 0 P @ dump_offset (length P) @ dump_cells r"
proof (cases "r = []")
  case True
  then show ?thesis using write_offset_law [of h "length P"] assms by (auto simp: dump_inv_def)
next
  case False
  then show ?thesis using assms
    by (intro exI [of _ "h_buf h"] exI [of _ "h_w h"]) (simp add: dump_inv_def)
qed

lemma dump_byte:
  assumes inv: "dump_inv h P r"
  shows "\<exists>h' P' r'. dumper_Write_loop wr h (c # data) n = dumper_Write_loop wr h' data (Suc n) \<and> dump_inv h' P' r' \<and>
    P' @ r' = P @ r @ [c]"
proof -
  have i: "16 dvd length P" "length r < 16" "used h = length r" "h_n h = of_nat (length P + length r)" "length (rightChars h) = 18"
    "take (length r) (rightChars h) = map toChar r" using inv by (auto simp: dump_inv_def)
  obtain b1 w1 where o1: "(if used h = 0 then write_offset wr h else Some h) = Some (h\<lparr>h_buf := b1, h_w := w1\<rparr>)" "length b1 = 14" "winv w1"
    "view w1 = hexdump 0 P @ dump_offset (length P) @ dump_cells r" using begin_line [OF inv] by blast
  obtain b2 l where c: "columns (length r) ((hex_digits c @ drop 2 b1)[2 := 0x20]) = (b2, l)"
    by (cases "columns (length r) ((hex_digits c @ drop 2 b1)[2 := 0x20])")
  note cell = columns_cell [OF o1(2) c]
  have e: "hex_Encode b1 [c] = Some (hex_digits c @ drop 2 b1, 2)" using hex_Encode_text [of "[c]" b1] o1(2) by simp
  define h2 where "h2 = h\<lparr>h_w := w1, h_buf := b2\<rparr>"
  obtain w2 where w2: "h_write wr h2 (take l b2) = Some (h2\<lparr>h_w := w2\<rparr>, None)" "winv w2"
    "view w2 = hexdump 0 P @ dump_offset (length P) @ dump_cells (r @ [c])"
    using h_write_law [of h2 "take l b2"] o1(3,4) cell(1) by (auto simp: h2_def dump_cells_snoc)
  define R where "R = (rightChars h)[length r := toChar c]"
  define h3 where "h3 = h2\<lparr>h_w := w2, rightChars := R, used := Suc (length r), h_n := h_n h + 1\<rparr>"
  have R: "length R = 18" "take (Suc (length r)) R = map toChar (r @ [c])"
    using i(2,5,6) by (simp_all add: R_def take_Suc_conv_app_nth)
  have step: "dumper_Write_loop wr h (c # data) n = (if Suc (length r) = 16 then do {
      (h, err) \<leftarrow> h_write wr (h3\<lparr>rightChars := R[16 := 0x7C, 17 := 0x0A]\<rparr>) (R[16 := 0x7C, 17 := 0x0A]);
      if err \<noteq> None then Some (h, Suc n, err) else dumper_Write_loop wr (h\<lparr>used := 0\<rparr>) data (Suc n) }
    else dumper_Write_loop wr h3 data (Suc n))"
    using o1(1) e c w2(1) i(2,3,5) by (simp add: h2_def h3_def R_def Let_def)
  show ?thesis
  proof (cases "Suc (length r) = 16")
    case False
    then have "dump_inv h3 P (r @ [c])"
      using i R w2(2,3) cell(2) by (auto simp: dump_inv_def h3_def h2_def)
    then show ?thesis using step False by (intro exI [of _ h3] exI [of _ P] exI [of _ "r @ [c]"]) simp
  next
    case True
    have full: "R[16 := 0x7C, 17 := 0x0A] = map toChar (r @ [c]) @ [0x7C, 0x0A]"
      using R True by (simp add: right_column)
    define h4 where "h4 = h3\<lparr>rightChars := map toChar (r @ [c]) @ [0x7C, 0x0A]\<rparr>"
    obtain w4 where w4: "h_write wr h4 (map toChar (r @ [c]) @ [0x7C, 0x0A]) = Some (h4\<lparr>h_w := w4\<rparr>, None)" "winv w4"
      "view w4 = view w2 @ map toChar (r @ [c]) @ [0x7C, 0x0A]"
      using h_write_law [of h4 "map toChar (r @ [c]) @ [0x7C, 0x0A]"] w2(2) by (auto simp: h4_def h3_def)
    have "dump_line (length P) (r @ [c]) = dump_offset (length P) @ dump_cells (r @ [c]) @ map toChar (r @ [c]) @ [0x7C, 0x0A]"
      using True by (simp add: dump_line_def)
    then have v: "view w4 = hexdump 0 (P @ r @ [c])"
      using w4(3) w2(3) hexdump_line [of P "length P div 16" "r @ [c]" 0] i(1) True by simp
    define h5 where "h5 = h4\<lparr>h_w := w4, used := 0\<rparr>"
    have "dumper_Write_loop wr h (c # data) n = dumper_Write_loop wr h5 data (Suc n)"
      unfolding step full h4_def [symmetric] h5_def using True w4(1) by simp
    moreover have "dump_inv h5 (P @ r @ [c]) []"
      using i v w4(2) True cell(2) by (auto simp: dump_inv_def h5_def h4_def h3_def h2_def)
    ultimately show ?thesis by (intro exI [of _ h5] exI [of _ "P @ r @ [c]"] exI [of _ "[]"]) simp
  qed
qed

lemma dump_bytes:
  "dump_inv h P r \<Longrightarrow> \<exists>h' P' r'. dumper_Write_loop wr h data n = Some (h', n + length data, None) \<and> dump_inv h' P' r' \<and>
    P' @ r' = P @ r @ data"
proof (induction data arbitrary: h P r n)
  case (Cons c data)
  obtain h' P' r' where "dumper_Write_loop wr h (c # data) n = dumper_Write_loop wr h' data (Suc n)" "dump_inv h' P' r'"
    "P' @ r' = P @ r @ [c]" using dump_byte [OF Cons.prems] by blast
  then show ?case using Cons.IH [of h' P' r' "Suc n"] by force
qed auto

text \<open>Closing: the missing columns and the characters of the last line.\<close>

lemma Close_loop_pads:
  "winv (h_w h) \<Longrightarrow> used h \<le> 16 \<Longrightarrow> take 5 (h_buf h) = [0x20, 0x20, 0x20, 0x20, 0x7C] \<Longrightarrow>
   \<exists>w. Close_loop wr h = Some (h\<lparr>h_w := w, used := 16\<rparr>, None) \<and> winv w \<and>
     view w = view (h_w h) @ concat (map (\<lambda>k. [0x20, 0x20] @ dump_gap k) [used h..<16])"
proof (induction "16 - used h" arbitrary: h)
  case 0
  then show ?case by (intro exI [of _ "h_w h"]) (simp add: Close_loop.simps)
next
  case (Suc m)
  define l where "l = (if used h = 7 then 4 else if used h = 15 then 5 else 3 :: nat)"
  have "take l (h_buf h) = take l (take 5 (h_buf h))" by (simp add: l_def)
  then have cell: "take l (h_buf h) = [0x20, 0x20] @ dump_gap (used h)"
    unfolding Suc.prems(3) by (auto simp: l_def dump_gap_def)
  obtain w where w: "h_write wr h (take l (h_buf h)) = Some (h\<lparr>h_w := w\<rparr>, None)" "winv w"
    "view w = view (h_w h) @ [0x20, 0x20] @ dump_gap (used h)"
    using h_write_law [OF Suc.prems(1), of "take l (h_buf h)"] cell by auto
  let ?h = "h\<lparr>h_w := w, used := used h + 1\<rparr>"
  have lt: "used h < 16" using Suc.hyps(2) by simp
  then have "Close_loop wr h = Close_loop wr ?h"
    using w(1) by (subst Close_loop.simps) (simp add: l_def [symmetric] Let_def)
  moreover have "[used h..<16] = used h # [Suc (used h)..<16]" using lt by (simp add: upt_conv_Cons)
  ultimately show ?case using Suc.hyps(1) [of ?h] Suc.hyps(2) Suc.prems w lt by auto
qed

lemma dump_closes:
  assumes inv: "dump_inv h P r"
  shows "\<exists>h'. dumper_Close wr h = Some (h', None) \<and> view (h_w h') = hexdump 0 (P @ r)"
proof (cases "r = []")
  case True
  then show ?thesis using inv by (auto simp: dump_inv_def dumper_Close_def)
next
  case False
  have i: "winv (h_w h)" "16 dvd length P" "length r < 16" "used h = length r" "length (rightChars h) = 18" "length (h_buf h) = 14"
    "take (length r) (rightChars h) = map toChar r" "view (h_w h) = hexdump 0 P @ dump_offset (length P) @ dump_cells r"
    using inv False by (auto simp: dump_inv_def)
  define h1 where "h1 = h\<lparr>h_buf := (h_buf h)[0 := 0x20, 1 := 0x20, 2 := 0x20, 3 := 0x20, 4 := 0x7C]\<rparr>"
  have "take 5 (h_buf h1) = [0x20, 0x20, 0x20, 0x20, 0x7C]"
    using i(6) list4_update [of "h_buf h"] by (cases "drop 4 (h_buf h)") (simp_all add: h1_def list_update_append)
  then obtain w where w: "Close_loop wr h1 = Some (h1\<lparr>h_w := w, used := 16\<rparr>, None)" "winv w"
    "view w = hexdump 0 P @ dump_offset (length P) @ dump_cells r @ concat (map (\<lambda>k. [0x20, 0x20] @ dump_gap k) [length r..<16])"
    using Close_loop_pads [of h1] i by (auto simp: h1_def)
  define R where "R = (rightChars h)[length r := 0x7C, length r + 1 := 0x0A]"
  have R: "take (length r + 2) R = map toChar r @ [0x7C, 0x0A]"
    using i(3,5,7) by (simp add: R_def take_Suc_conv_app_nth numeral_2_eq_2)
  define h2 where "h2 = h1\<lparr>h_w := w, used := 16, rightChars := R\<rparr>"
  obtain w2 where w2: "h_write wr h2 (take (length r + 2) R) = Some (h2\<lparr>h_w := w2\<rparr>, None)"
    "view w2 = view w @ map toChar r @ [0x7C, 0x0A]"
    using h_write_law [of h2 "take (length r + 2) R"] w(2) R by (auto simp: h2_def)
  have "dumper_Close wr h = Some (h2\<lparr>h_w := w2\<rparr>, None)"
    using False i(3,4,5) w(1) w2(1) unfolding dumper_Close_def Let_def h1_def [symmetric] by (simp add: h2_def R_def h1_def)
  moreover have "view w2 = hexdump 0 (P @ r)"
    using w2(2) w(3) hexdump_line [of P "length P div 16" r 0] i(2,3) False by (simp add: dump_line_def)
  ultimately show ?thesis by auto
qed

text \<open>A new dumper, and what a sequence of Writes followed by Close makes its writer hold.\<close>

lemma dump_inv_new: "winv w \<Longrightarrow> view w = [] \<Longrightarrow> dump_inv (Dumper w) [] []"
  by (simp add: dump_inv_def Dumper_def hexdump.simps)

lemma dump_Writes_Close:
  assumes "winv w" "view w = []"
  shows "\<exists>h. dump_pieces wr (Dumper w) ps = Some (h, map (\<lambda>p. (length p, None)) ps, None) \<and> view (h_w h) = hexdump 0 (concat ps)"
proof -
  have "\<exists>h'. dump_pieces wr h ps = Some (h', map (\<lambda>p. (length p, None)) ps, None) \<and> view (h_w h') = hexdump 0 (P @ r @ concat ps)"
    if "dump_inv h P r" for h P r
    using that
  proof (induction ps arbitrary: h P r)
    case Nil
    then show ?case using dump_closes [of h P r] by auto
  next
    case (Cons p ps)
    obtain h1 P1 r1 where h1: "dumper_Write wr h p = Some (h1, length p, None)" "dump_inv h1 P1 r1" "P1 @ r1 = P @ r @ p"
      using dump_bytes [OF Cons.prems, of p 0] by (auto simp: dumper_Write_def)
    then have eq: "P1 @ r1 @ concat ps = P @ r @ p @ concat ps" by (metis append.assoc)
    obtain h' where "dump_pieces wr h1 ps = Some (h', map (\<lambda>p. (length p, None)) ps, None)"
      "view (h_w h') = hexdump 0 (P1 @ r1 @ concat ps)" using Cons.IH [OF h1(2)] by blast
    then show ?case using h1(1) unfolding eq by simp
  qed
  then show ?thesis using dump_inv_new [OF assms] by fastforce
qed

end

text \<open>The two writers: a bytes.Buffer, and a writer that reports no error.\<close>

interpretation dump_buffer: dump_writer buffer_write buf_inv Bytes
  using Write_spec by unfold_locales (fastforce simp: buffer_write_def)

definition script_write :: "writer write_fn" where
  "script_write w p = Some (w_Write w p)"

interpretation dump_script: dump_writer script_write "\<lambda>w. fails w = []" "\<lambda>w. concat (sent w)"
  by unfold_locales (simp add: script_write_def w_Write_def)

section \<open>Properties\<close>

text \<open>EncodeToString writes two digits of \<open>0123456789abcdef\<close> for each byte, the high half first, and
  DecodeString gives the bytes back. DecodeString answers every string: an odd length is ErrLength,
  otherwise the first character that is not a digit is reported, no bytes are returned with an error, and a
  string of digits of either case is decoded pair by pair.\<close>

theorem hex_codec:
  "hex_EncodeToString src = Some (concat (map hex_digits src)) \<and>
   hex_DecodeString (concat (map hex_digits src)) = Some (src, None) \<and>
   hex_DecodeString s = Some (if odd (length s) then ([], Some ErrLength)
     else case find (\<lambda>c. \<not> is_hex c) s of
       Some c \<Rightarrow> ([], Some (InvalidByteError c))
     | None \<Rightarrow> (hex_bytes s, None))"
proof -
  have "find (\<lambda>c. \<not> is_hex c) (hex_text src) = None"
    using hex_text_is_hex [of src] by (simp add: find_None_iff list_all_iff)
  then have "hex_DecodeString (hex_text src) = Some (src, None)"
    by (simp add: hex_DecodeString_spec hex_bytes_text)
  then show ?thesis using hex_EncodeToString_text [of src] hex_DecodeString_spec [of s] by (simp add: hex_text_def)
qed

text \<open>C33. Dump returns the lines of \<open>hexdump -C\<close> for its argument. A Dumper given the same bytes in any
  pieces, the empty ones included, takes each piece whole, and after Close its writer has been given the
  same lines.\<close>

theorem hex_dump:
  "Dump (concat ps) = Some (hexdump 0 (concat ps)) \<and>
   (\<exists>h. dump_pieces script_write (Dumper \<lparr>sent = [], fails = []\<rparr>) ps =
          Some (h, map (\<lambda>p. (length p, None)) ps, None) \<and>
        concat (sent (h_w h)) = hexdump 0 (concat ps))"
proof
  have "\<exists>h. dump_pieces buffer_write (Dumper zero_Buffer) [concat ps] = Some (h, [(length (concat ps), None)], None) \<and>
      Bytes (h_w h) = hexdump 0 (concat ps)"
    using dump_buffer.dump_Writes_Close [of zero_Buffer "[concat ps]"]
    by (simp add: buf_inv_def zero_Buffer_def Bytes_def sub_def)
  then show "Dump (concat ps) = Some (hexdump 0 (concat ps))"
    by (auto simp: Dump_def split: bind_splits)
  show "\<exists>h. dump_pieces script_write (Dumper \<lparr>sent = [], fails = []\<rparr>) ps =
          Some (h, map (\<lambda>p. (length p, None)) ps, None) \<and>
        concat (sent (h_w h)) = hexdump 0 (concat ps)"
    by (rule dump_script.dump_Writes_Close) simp_all
qed

text \<open>Two faults of the dumper when its writer fails. An error of the write of the offset is overwritten by
  the next write and never returned. After an error of the write of the right column the line stays full,
  and three more bytes index \<open>rightChars\<close> beyond its end.\<close>

theorem hex_dumper_faults:
  "map_option snd (dumper_Write script_write (Dumper \<lparr>sent = [], fails = [Some e]\<rparr>) [0x41]) = Some (1, None) \<and>
   (do {
      (h, n, err) \<leftarrow> dumper_Write script_write (Dumper \<lparr>sent = [], fails = replicate 17 None @ [Some e]\<rparr>) (replicate 16 0x41);
      Some (used h, n, err, dumper_Write script_write h [0x42, 0x43, 0x44])
    }) = Some (16, 16, Some e, None)"
  by (intro conjI; code_simp)

end
