(* ===== verification/StrconvDefs.thy ===== *)
theory StrconvDefs
  imports StringDefs WordBits "HOL-Library.Monad_Syntax"
begin

text \<open>
  Package strconv: the conversions of integers (atoi.go, itoa.go) and booleans (atob.go). A base or a
  bit size is a Go int, here an integer; numbers are words of 64 bits. The build is one for 64 bits, so
  that IntSize is 64. None is a panic.
\<close>

unbundle bit_operations_syntax

definition lit :: "string \<Rightarrow> gostring" where "lit s = map of_char s"

section \<open>Parsing (atoi.go)\<close>

datatype conv_err = ErrRange | ErrSyntax | ErrBase int

record NumError =
  Func :: string
  Num :: gostring
  Err :: conv_err

definition syntaxError :: "string \<Rightarrow> gostring \<Rightarrow> NumError" where
  "syntaxError fn str = \<lparr>Func = fn, Num = str, Err = ErrSyntax\<rparr>"

definition rangeError :: "string \<Rightarrow> gostring \<Rightarrow> NumError" where
  "rangeError fn str = \<lparr>Func = fn, Num = str, Err = ErrRange\<rparr>"

definition IntSize :: int where "IntSize = 64"

text \<open>\<open>1 << uint(s)\<close> in 64 bits: a negative int is a huge uint, and a shift by 64 or more gives 0.\<close>

definition shl1 :: "int \<Rightarrow> uint64" where
  "shl1 s = (if 0 \<le> s \<and> s < 64 then push_bit (nat s) 1 else 0)"

definition cutoff64 :: "int \<Rightarrow> uint64" where
  "cutoff64 base = (if base < 2 then 0 else (- 1) div word_of_int base + 1)"

definition digit_val :: "byte \<Rightarrow> byte option" where
  "digit_val d =
     (if 0x30 \<le> d \<and> d \<le> 0x39 then Some (d - 0x30)
      else if 0x61 \<le> d \<and> d \<le> 0x7A then Some (d - 0x61 + 10)
      else if 0x41 \<le> d \<and> d \<le> 0x5A then Some (d - 0x41 + 10)
      else None)"

fun ParseUint_loop :: "gostring \<Rightarrow> int \<Rightarrow> uint64 \<Rightarrow> uint64 \<Rightarrow> uint64 \<Rightarrow> uint64 \<times> conv_err option" where
  "ParseUint_loop [] base cutoff maxVal n = (n, None)"
| "ParseUint_loop (d # s) base cutoff maxVal n =
     (case digit_val d of
        None \<Rightarrow> (0, Some ErrSyntax)
      | Some v \<Rightarrow>
          if uint v \<ge> base then (0, Some ErrSyntax)
          else if n \<ge> cutoff then (- 1, Some ErrRange)
          else
            let n = n * word_of_int base; n1 = n + ucast v
            in if n1 < n \<or> n1 > maxVal then (- 1, Some ErrRange)
               else ParseUint_loop s base cutoff maxVal n1)"

text \<open>The switch at the beginning of ParseUint: the error, or the base and the digits.\<close>

definition ParseUint_base :: "gostring \<Rightarrow> int \<Rightarrow> conv_err + (int \<times> gostring)" where
  "ParseUint_base s base =
     (if length s < 1 then Inl ErrSyntax
      else if 2 \<le> base \<and> base \<le> 36 then Inr (base, s)
      else if base = 0 then
        (if s ! 0 = 0x30 \<and> length s > 1 \<and> (s ! 1 = 0x78 \<or> s ! 1 = 0x58)
         then (let s = drop 2 s in if length s < 1 then Inl ErrSyntax else Inr (16, s))
         else if s ! 0 = 0x30 then Inr (8, s)
         else Inr (10, s))
      else Inl (ErrBase base))"

definition ParseUint :: "gostring \<Rightarrow> int \<Rightarrow> int \<Rightarrow> uint64 \<times> NumError option" where
  "ParseUint s base bitSize =
     (let bitSize = (if bitSize = 0 then IntSize else bitSize);
          (n, err) = (case ParseUint_base s base of
              Inl e \<Rightarrow> (0, Some e)
            | Inr (base, t) \<Rightarrow> ParseUint_loop t base (cutoff64 base) (shl1 bitSize - 1) 0)
      in case err of
           None \<Rightarrow> (n, None)
         | Some e \<Rightarrow> (n, Some \<lparr>Func = ''ParseUint'', Num = s, Err = e\<rparr>))"

definition pick_sign :: "gostring \<Rightarrow> bool \<times> gostring" where
  "pick_sign s =
     (if s ! 0 = 0x2B then (False, drop 1 s)
      else if s ! 0 = 0x2D then (True, drop 1 s)
      else (False, s))"

definition ParseInt :: "gostring \<Rightarrow> int \<Rightarrow> int \<Rightarrow> 64 word \<times> NumError option" where
  "ParseInt s base bitSize =
     (let bitSize = (if bitSize = 0 then IntSize else bitSize) in
      if length s = 0 then (0, Some (syntaxError ''ParseInt'' s))
      else
        let s0 = s;
            (neg, s) = pick_sign s;
            (un, err) = ParseUint s base bitSize
        in if (case err of None \<Rightarrow> False | Some e \<Rightarrow> Err e \<noteq> ErrRange)
           then (0, map_option (\<lambda>e. e\<lparr>Func := ''ParseInt'', Num := s0\<rparr>) err)
           else
             let cutoff = shl1 (bitSize - 1)
             in if \<not> neg \<and> un \<ge> cutoff then (cutoff - 1, Some (rangeError ''ParseInt'' s0))
                else if neg \<and> un > cutoff then (- cutoff, Some (rangeError ''ParseInt'' s0))
                else (if neg then - un else un, None))"

definition Atoi :: "gostring \<Rightarrow> 64 word \<times> NumError option" where
  "Atoi s = ParseInt s 10 0"

section \<open>Formatting (itoa.go)\<close>

definition digits :: gostring where
  "digits = [0x30, 0x31, 0x32, 0x33, 0x34, 0x35, 0x36, 0x37, 0x38, 0x39, 0x61, 0x62, 0x63, 0x64, 0x65, 0x66, 0x67, 0x68,
     0x69, 0x6A, 0x6B, 0x6C, 0x6D, 0x6E, 0x6F, 0x70, 0x71, 0x72, 0x73, 0x74, 0x75, 0x76, 0x77, 0x78, 0x79, 0x7A]"

definition digits01 :: gostring where
  "digits01 = concat (replicate 10 (lit ''0123456789''))"

definition digits10 :: gostring where
  "digits10 = concat (map (replicate 10) (lit ''0123456789''))"

definition shifts :: "nat list" where
  "shifts = (replicate (length digits + 1) 0)[2 := 1, 4 := 2, 8 := 3, 16 := 4, 32 := 5]"

text \<open>The array and the index of its first used byte. An index below 0 panics.\<close>

type_synonym digit_buf = "byte list \<times> nat"

definition put_digit :: "byte \<Rightarrow> digit_buf \<Rightarrow> digit_buf option" where
  "put_digit c = (\<lambda>(a, i). if i = 0 then None else Some (a[i - 1 := c], i - 1))"

function format_10 :: "digit_buf \<Rightarrow> uint64 \<Rightarrow> (digit_buf \<times> uint64) option" where
  "format_10 b u =
     (if u \<ge> 100 then
        let q = u div 100; j = unat (u - q * 100)
        in case b of (a, i) \<Rightarrow>
             if i < 2 then None
             else format_10 (a[i - 2 + 1 := digits01 ! j, i - 2 := digits10 ! j], i - 2) q
      else if u \<ge> 10 then
        let q = u div 10 in map_option (\<lambda>b. (b, q)) (put_digit (digits ! unat (u - q * 10)) b)
      else Some (b, u))"
  by pat_completeness auto
termination by (relation "measure (\<lambda>(b, u). unat u)") (auto simp: word_le_nat_alt unat_div)

declare format_10.simps [simp del]

text \<open>The other two loops; the caller has \<open>0 < s\<close> and \<open>2 \<le> b\<close>, without which they would not end.\<close>

function format_shift :: "digit_buf \<Rightarrow> uint64 \<Rightarrow> uint64 \<Rightarrow> nat \<Rightarrow> (digit_buf \<times> uint64) option" where
  "format_shift buf u b s =
     (if u \<ge> b \<and> 0 < s \<and> 2 \<le> b then
        case put_digit (digits ! unat (u AND (b - 1))) buf of
          None \<Rightarrow> None
        | Some buf \<Rightarrow> format_shift buf (drop_bit s u) b s
      else Some (buf, u))"
  by pat_completeness auto
termination
  by (relation "measure (\<lambda>(buf, u, b, s). unat u)") (auto simp: word_le_nat_alt unat_drop_bit intro!: div_less_dividend one_less_power [of "2::nat", simplified])

declare format_shift.simps [simp del]

function format_div :: "digit_buf \<Rightarrow> uint64 \<Rightarrow> uint64 \<Rightarrow> (digit_buf \<times> uint64) option" where
  "format_div buf u b =
     (if u \<ge> b \<and> 2 \<le> b then
        case put_digit (digits ! unat (u mod b)) buf of
          None \<Rightarrow> None
        | Some buf \<Rightarrow> format_div buf (u div b) b
      else Some (buf, u))"
  by pat_completeness auto
termination
  by (relation "measure (\<lambda>(buf, u, b). unat u)") (auto simp: word_le_nat_alt unat_div intro!: div_less_dividend)

declare format_div.simps [simp del]

definition formatBits :: "byte list \<Rightarrow> uint64 \<Rightarrow> int \<Rightarrow> bool \<Rightarrow> bool \<Rightarrow> (byte list \<times> gostring) option" where
  "formatBits dst u base neg app =
     (if base < 2 \<or> base > int (length digits) then None
      else do {
        let a = replicate 65 0;
        let u = (if neg then - u else u);
        let b = word_of_int base;
        let s = shifts ! nat base;
        (buf, u) \<leftarrow> (if base = 10 then format_10 (a, length a) u
                    else if s > 0 then format_shift (a, length a) u b s
                    else format_div (a, length a) u b);
        buf \<leftarrow> put_digit (digits ! unat u) buf;
        (a, i) \<leftarrow> (if neg then put_digit 0x2D buf else Some buf);
        Some (if app then (dst @ drop i a, []) else ([], drop i a))
      })"

definition FormatUint :: "uint64 \<Rightarrow> int \<Rightarrow> gostring option" where
  "FormatUint i base = map_option snd (formatBits [] i base False False)"

definition FormatInt :: "64 word \<Rightarrow> int \<Rightarrow> gostring option" where
  "FormatInt i base = map_option snd (formatBits [] i base (sint i < 0) False)"

definition Itoa :: "64 word \<Rightarrow> gostring option" where
  "Itoa i = FormatInt i 10"

definition AppendInt :: "byte list \<Rightarrow> 64 word \<Rightarrow> int \<Rightarrow> byte list option" where
  "AppendInt dst i base = map_option fst (formatBits dst i base (sint i < 0) True)"

definition AppendUint :: "byte list \<Rightarrow> uint64 \<Rightarrow> int \<Rightarrow> byte list option" where
  "AppendUint dst i base = map_option fst (formatBits dst i base False True)"

section \<open>Booleans (atob.go)\<close>

definition ParseBool :: "gostring \<Rightarrow> bool \<times> NumError option" where
  "ParseBool str =
     (if str \<in> set (map lit [''1'', ''t'', ''T'', ''true'', ''TRUE'', ''True'']) then (True, None)
      else if str \<in> set (map lit [''0'', ''f'', ''F'', ''false'', ''FALSE'', ''False'']) then (False, None)
      else (False, Some (syntaxError ''ParseBool'' str)))"

definition FormatBool :: "bool \<Rightarrow> gostring" where
  "FormatBool b = (if b then lit ''true'' else lit ''false'')"

definition AppendBool :: "byte list \<Rightarrow> bool \<Rightarrow> byte list" where
  "AppendBool dst b = (if b then dst @ lit ''true'' else dst @ lit ''false'')"

end
