(* ===== verification/Strconv.thy ===== *)
theory Strconv
  imports StrconvDefs
begin

text \<open>
  Correctness of the integer conversions of strconv: the three loops of formatBits write the digits of
  the number, ParseUint and ParseInt compute the value of a numeral or report why there is none, and
  parsing inverts formatting.
\<close>

unbundle bit_operations_syntax

section \<open>Numerals\<close>

definition DIGITS :: gostring where
  "DIGITS = [0x30, 0x31, 0x32, 0x33, 0x34, 0x35, 0x36, 0x37, 0x38, 0x39, 0x41, 0x42, 0x43, 0x44, 0x45, 0x46, 0x47, 0x48,
     0x49, 0x4A, 0x4B, 0x4C, 0x4D, 0x4E, 0x4F, 0x50, 0x51, 0x52, 0x53, 0x54, 0x55, 0x56, 0x57, 0x58, 0x59, 0x5A]"

text \<open>The value of a digit is its place in the alphabet, in lower or upper case.\<close>

definition numeral_value :: "byte \<Rightarrow> nat option" where
  "numeral_value c =
     (if c \<in> set digits then Some (place c digits)
      else if c \<in> set DIGITS then Some (place c DIGITS)
      else None)"

definition is_numeral :: "nat \<Rightarrow> byte \<Rightarrow> bool" where
  "is_numeral B c \<longleftrightarrow> (case numeral_value c of None \<Rightarrow> False | Some v \<Rightarrow> v < B)"

definition value_from :: "nat \<Rightarrow> nat \<Rightarrow> gostring \<Rightarrow> nat" where
  "value_from B n s = foldl (\<lambda>n c. n * B + the (numeral_value c)) n s"

fun text_of :: "nat \<Rightarrow> nat \<Rightarrow> gostring" where
  "text_of B n = (if n < B \<or> B < 2 then [digits ! n] else text_of B (n div B) @ [digits ! (n mod B)])"

declare text_of.simps [simp del]

lemma digits_nth: "k < 10 \<Longrightarrow> digits ! k = of_nat (48 + k)" "10 \<le> k \<Longrightarrow> k < 36 \<Longrightarrow> digits ! k = of_nat (87 + k)"
  "10 \<le> k \<Longrightarrow> k < 36 \<Longrightarrow> DIGITS ! k = of_nat (55 + k)"
proof -
  have "list_all (\<lambda>k. digits ! k = of_nat (48 + k)) [0..<10]"
    "list_all (\<lambda>k. digits ! k = of_nat (87 + k) \<and> DIGITS ! k = of_nat (55 + k)) [10..<36]" by code_simp+
  then show "k < 10 \<Longrightarrow> digits ! k = of_nat (48 + k)" "10 \<le> k \<Longrightarrow> k < 36 \<Longrightarrow> digits ! k = of_nat (87 + k)"
    "10 \<le> k \<Longrightarrow> k < 36 \<Longrightarrow> DIGITS ! k = of_nat (55 + k)"
    unfolding list_all_iff set_upt by (meson atLeastLessThan_iff le0)+
qed

lemma numeral_digits: "k < 36 \<Longrightarrow> numeral_value (digits ! k) = Some k \<and> digit_val (digits ! k) = Some (of_nat k)"
  "k < 36 \<Longrightarrow> numeral_value (DIGITS ! k) = Some k \<and> digit_val (DIGITS ! k) = Some (of_nat k)"
proof -
  have "list_all (\<lambda>k. numeral_value (digits ! k) = Some k \<and> digit_val (digits ! k) = Some (of_nat k)) [0..<36]"
    "list_all (\<lambda>k. numeral_value (DIGITS ! k) = Some k \<and> digit_val (DIGITS ! k) = Some (of_nat k)) [0..<36]" by code_simp+
  then show "k < 36 \<Longrightarrow> numeral_value (digits ! k) = Some k \<and> digit_val (digits ! k) = Some (of_nat k)"
    "k < 36 \<Longrightarrow> numeral_value (DIGITS ! k) = Some k \<and> digit_val (DIGITS ! k) = Some (of_nat k)" by (auto simp: list_all_iff)
qed

lemma length_digits: "length digits = 36" "length DIGITS = 36"
  by (simp_all add: digits_def DIGITS_def)

lemma digit_val_in: "digit_val c = Some v \<Longrightarrow> c \<in> set digits \<or> c \<in> set DIGITS"
proof -
  assume "digit_val c = Some v"
  then have "48 \<le> unat c \<and> unat c \<le> 57 \<or> 97 \<le> unat c \<and> unat c \<le> 122 \<or> 65 \<le> unat c \<and> unat c \<le> 90"
    by (auto simp: digit_val_def word_le_nat_alt split: if_splits)
  moreover have "c = digits ! (unat c - 48)" if "48 \<le> unat c" "unat c \<le> 57"
    using that by (subst digits_nth(1)) simp_all
  moreover have "c = digits ! (unat c - 87)" if "97 \<le> unat c" "unat c \<le> 122"
    using that by (subst digits_nth(2)) simp_all
  moreover have "c = DIGITS ! (unat c - 55)" if "65 \<le> unat c" "unat c \<le> 90"
    using that by (subst digits_nth(3)) simp_all
  ultimately have "c = digits ! (unat c - 48) \<and> unat c - 48 < 36 \<or> c = digits ! (unat c - 87) \<and> unat c - 87 < 36 \<or>
      c = DIGITS ! (unat c - 55) \<and> unat c - 55 < 36" by linarith
  then show ?thesis by (metis length_digits nth_mem)
qed

lemma digit_val_numeral: "digit_val c = map_option of_nat (numeral_value c) \<and> (case numeral_value c of None \<Rightarrow> True | Some v \<Rightarrow> v < 36)"
proof (cases "c \<in> set digits \<or> c \<in> set DIGITS")
  case True
  then obtain k where "k < 36" "c = digits ! k \<or> c = DIGITS ! k" by (metis in_set_conv_nth length_digits)
  then show ?thesis using numeral_digits [of k] by auto
next
  case False
  then have "digit_val c = None" using digit_val_in by (cases "digit_val c") auto
  then show ?thesis using False by (simp add: numeral_value_def)
qed

lemma value_from_simps [simp]: "value_from B n [] = n" "value_from B n (c # s) = value_from B (n * B + the (numeral_value c)) s"
  "value_from B n (s @ t) = value_from B (value_from B n s) t"
  by (simp_all add: value_from_def)

lemma value_from_ge: "0 < B \<Longrightarrow> n \<le> value_from B n s"
proof (induction s arbitrary: n)
  case (Cons c s)
  have "n \<le> n * B + the (numeral_value c)" using Cons.prems by (simp add: trans_le_add1)
  then show ?case using Cons by (auto intro: order_trans)
qed simp

lemma text_of_value: "2 \<le> B \<Longrightarrow> B \<le> 36 \<Longrightarrow> value_from B 0 (text_of B n) = n \<and> list_all (is_numeral B) (text_of B n)"
proof (induction B n rule: text_of.induct)
  case (1 B n)
  show ?case
  proof (cases "n < B")
    case True
    then show ?thesis using 1 by (simp add: text_of.simps [of B n] numeral_digits(1) is_numeral_def)
  next
    case False
    moreover have "n mod B < B" using 1 by simp
    then have "numeral_value (digits ! (n mod B)) = Some (n mod B)" using 1 by (intro numeral_digits(1) [THEN conjunct1]) linarith
    ultimately show ?thesis using 1 \<open>n mod B < B\<close> by (simp add: text_of.simps [of B n] is_numeral_def)
  qed
qed

lemma text_of_ne: "text_of B n \<noteq> []"
  by (simp add: text_of.simps)

section \<open>Parsing\<close>

lemma unat_base: "2 \<le> B \<Longrightarrow> B \<le> 36 \<Longrightarrow> unat (word_of_int (int B) :: uint64) = B"
  by (simp add: unat_of_nat)

lemma unat_minus_one64: "unat (- 1 :: uint64) = 2 ^ 64 - 1"
  by (simp add: unsigned_minus_1_eq_mask mask_eq_exp_minus_1)

lemma cutoff64_iff: 
  fixes n :: uint64
  assumes "2 \<le> B" "B \<le> 36"
  shows "n \<ge> cutoff64 (int B) \<longleftrightarrow> 2 ^ 64 \<le> unat n * B"
proof -
  have d: "unat ((- 1 :: uint64) div word_of_int (int B)) = (2 ^ 64 - 1) div B"
    using unat_base [OF assms] by (simp add: unat_div unat_minus_one64)
  have lt: "(2 ^ 64 - 1) div B + 1 < (2 ^ 64 :: nat)"
    using assms div_le_mono2 [of 2 B "2 ^ 64 - 1 :: nat"] by simp
  have "unat (cutoff64 (int B)) = (2 ^ 64 - 1) div B + 1"
    using assms d lt by (simp add: cutoff64_def unat_plus_if' )
  moreover have "(2 ^ 64 - 1) div B + 1 \<le> unat n \<longleftrightarrow> 2 ^ 64 \<le> unat n * B"
    using assms div_less_iff_less_mult [of B "2 ^ 64 - 1 :: nat" "unat n"] by auto
  ultimately show ?thesis by (simp add: word_le_nat_alt)
qed

lemma unat_shl1: "0 \<le> s \<Longrightarrow> s < 64 \<Longrightarrow> unat (shl1 s) = 2 ^ nat s"
  using unat_push_bit [of "1 :: uint64" "nat s"] power_strict_increasing [of "nat s" 64 "2::nat"] by (simp add: shl1_def)

lemma unat_maxVal: "1 \<le> bits \<Longrightarrow> bits \<le> 64 \<Longrightarrow> unat (shl1 (int bits) - 1) = 2 ^ bits - 1"
proof (cases "bits = 64")
  case True
  then show ?thesis by (simp add: shl1_def unat_minus_one64)
next
  case False
  assume "1 \<le> bits" "bits \<le> 64"
  then have "unat (shl1 (int bits)) = 2 ^ bits" using False unat_shl1 [of "int bits"] by simp
  then show ?thesis by (subst unat_minus_one) auto
qed

lemma overflow_test: "n < W \<Longrightarrow> v < W \<Longrightarrow> 0 < M \<Longrightarrow> M \<le> W \<Longrightarrow> (n + v) mod W < n \<or> M - 1 < (n + v) mod W \<longleftrightarrow> M \<le> n + v"
  for n v W M :: nat
  by (cases "n + v < W") (auto simp: mod_if)

lemma pow64: "bits \<le> 64 \<Longrightarrow> (2 :: nat) ^ bits \<le> 2 ^ 64"
  by (rule power_increasing) simp_all

lemma ParseUint_step:
  assumes "2 \<le> B" "B \<le> 36" "1 \<le> bits" "bits \<le> 64"
  shows "ParseUint_loop (d # s) (int B) (cutoff64 (int B)) (shl1 (int bits) - 1) n =
    (if \<not> is_numeral B d then (0, Some ErrSyntax)
     else let v = unat n * B + the (numeral_value d)
          in if 2 ^ bits \<le> v then (- 1, Some ErrRange)
             else ParseUint_loop s (int B) (cutoff64 (int B)) (shl1 (int bits) - 1) (of_nat v))"
proof (cases "is_numeral B d")
  case False
  have "uint (of_nat k :: byte) = int k" if "k < 36" for k using that by (simp add: uint_nat unat_of_nat)
  then show ?thesis using digit_val_numeral [of d] False
    by (cases "numeral_value d") (auto simp: is_numeral_def)
next
  case True
  then obtain v where v: "numeral_value d = Some v" "v < B" by (auto simp: is_numeral_def split: option.splits)
  have d: "digit_val d = Some (of_nat v)" "uint (of_nat v :: byte) = int v" "unat (ucast (of_nat v :: byte) :: uint64) = v"
    using digit_val_numeral [of d] v assms by (auto simp: uint_nat unat_of_nat unsigned_ucast_eq take_bit_nat_eq_self)
  let ?n = "n * word_of_int (int B)" and ?n1 = "n * word_of_int (int B) + ucast (of_nat v :: byte)"
  show ?thesis
  proof (cases "2 ^ 64 \<le> unat n * B")
    case True
    moreover note pow64 [OF assms(4)]
    ultimately have "2 ^ bits \<le> unat n * B + v" by linarith
    then show ?thesis using True \<open>is_numeral B d\<close> v d cutoff64_iff [OF assms(1,2), of n] by simp
  next
    case False
    then have n: "unat ?n = unat n * B" using unat_base [OF assms(1,2)] by (simp add: unat_word_ariths(2))
    have m: "unat ?n1 = (unat n * B + v) mod 2 ^ 64" using n d(3) by (simp add: unat_word_ariths(1))
    have "?n1 < ?n \<or> ?n1 > shl1 (int bits) - 1 \<longleftrightarrow> 2 ^ bits \<le> unat n * B + v"
      using overflow_test [of "unat n * B" "2 ^ 64" v "2 ^ bits"] False v(2) assms pow64 [OF assms(4)]
      unfolding word_less_nat_alt m n unat_maxVal [OF assms(3,4)] by simp
    moreover have "?n1 = of_nat (unat n * B + v)" using arg_cong [OF d(3), where f = "of_nat :: nat \<Rightarrow> uint64"] by simp
    ultimately show ?thesis using False \<open>is_numeral B d\<close> v d cutoff64_iff [OF assms(1,2), of n] by (simp add: Let_def)
  qed
qed

lemma ParseUint_loop_value:
  assumes "2 \<le> B" "B \<le> 36" "1 \<le> bits" "bits \<le> 64"
  shows "unat n < 2 ^ bits \<Longrightarrow> ParseUint_loop s (int B) (cutoff64 (int B)) (shl1 (int bits) - 1) n =
    (let p = takeWhile (is_numeral B) s; v = value_from B (unat n) p
     in if 2 ^ bits \<le> v then (- 1, Some ErrRange) else if p = s then (of_nat v, None) else (0, Some ErrSyntax))"
proof (induction s arbitrary: n)
  case (Cons d s)
  let ?v = "unat n * B + the (numeral_value d)"
  have "?v \<le> value_from B ?v (takeWhile (is_numeral B) s)" using assms by (intro value_from_ge) simp
  moreover have "unat (of_nat ?v :: uint64) = ?v" if "?v < 2 ^ bits"
    using that pow64 [OF assms(4)] unfolding unat_of_nat by (intro mod_less) simp
  ultimately show ?case
    using Cons.prems Cons.IH [of "of_nat ?v"] unfolding ParseUint_step [OF assms, of d s n]
    by (auto simp: Let_def simp del: takeWhile_eq_all_conv of_nat_add of_nat_mult)
qed simp

text \<open>The value of a numeral without sign, in the bases 2 to 36.\<close>

lemma ParseUint_value:
  assumes "2 \<le> B" "B \<le> 36" "1 \<le> bits" "bits \<le> 64"
  shows "ParseUint s (int B) (int bits) =
    (let p = takeWhile (is_numeral B) s; v = value_from B 0 p; err = \<lambda>e. Some \<lparr>Func = ''ParseUint'', Num = s, Err = e\<rparr>
     in if 2 ^ bits \<le> v then (- 1, err ErrRange) else if s \<noteq> [] \<and> p = s then (of_nat v, None) else (0, err ErrSyntax))"
proof (cases "s = []")
  case True
  then show ?thesis using assms by (simp add: ParseUint_def ParseUint_base_def)
next
  case False
  then show ?thesis using assms ParseUint_loop_value [OF assms, of 0 s]
    by (auto simp: ParseUint_def ParseUint_base_def Let_def simp del: takeWhile_eq_all_conv)
qed

lemma ParseUint_zero_bits: "ParseUint s base 0 = ParseUint s base 64" "ParseInt s base 0 = ParseInt s base 64"
  by (simp_all add: ParseUint_def ParseInt_def IntSize_def)

text \<open>What ParseInt answers: the number an optional sign and a numeral stand for, or the nearest number
  of the size with ErrRange, or 0 with ErrSyntax.\<close>

definition signed_value :: "nat \<Rightarrow> gostring \<Rightarrow> int" where
  "signed_value B s =
     (let (neg, t) = pick_sign s; v = int (value_from B 0 (takeWhile (is_numeral B) t)) in if neg then - v else v)"

definition well_formed :: "nat \<Rightarrow> gostring \<Rightarrow> bool" where
  "well_formed B s \<longleftrightarrow> s \<noteq> [] \<and> (let t = snd (pick_sign s) in t \<noteq> [] \<and> list_all (is_numeral B) t)"

definition clamp :: "nat \<Rightarrow> int \<Rightarrow> int" where
  "clamp bits x = max (- (2 ^ (bits - 1))) (min (2 ^ (bits - 1) - 1) x)"

lemma ParseInt_value:
  assumes "2 \<le> B" "B \<le> 36" "1 \<le> bits" "bits \<le> 64"
  shows "ParseInt s (int B) (int bits) =
    (let x = signed_value B s; err = \<lambda>e. Some \<lparr>Func = ''ParseInt'', Num = s, Err = e\<rparr>
     in if s = [] \<or> \<not> well_formed B s \<and> \<bar>x\<bar> < 2 ^ bits then (0, err ErrSyntax)
        else if clamp bits x \<noteq> x then (word_of_int (clamp bits x), err ErrRange)
        else (word_of_int x, None))"
proof (cases "s = []")
  case True
  then show ?thesis by (simp add: ParseInt_def syntaxError_def)
next
  case False
  obtain neg t where st: "pick_sign s = (neg, t)" by (cases "pick_sign s")
  define p where "p = takeWhile (is_numeral B) t"
  define v where "v = value_from B 0 p"
  define C :: nat where "C = 2 ^ (bits - 1)"
  have C: "2 ^ bits = 2 * C" "0 < C" "2 * C \<le> 2 ^ 64" "unat (shl1 (int bits - 1)) = C"
    using assms pow64 [of bits] unat_shl1 [of "int bits - 1"] by (auto simp: C_def nat_diff_distrib simp flip: power_Suc)
  have wf: "well_formed B s \<longleftrightarrow> t \<noteq> [] \<and> p = t" using False st by (auto simp: well_formed_def p_def list_all_iff takeWhile_eq_all_conv)
  have x: "signed_value B s = (if neg then - int v else int v)" using st by (simp add: signed_value_def v_def p_def)
  have cl: "clamp bits x = max (- int C) (min (int C - 1) x)" for x by (simp add: clamp_def C_def)
  have P: "ParseUint t (int B) (int bits) = (if 2 * C \<le> v then (- 1, Some \<lparr>Func = ''ParseUint'', Num = t, Err = ErrRange\<rparr>)
      else if t \<noteq> [] \<and> p = t then (of_nat v, None) else (0, Some \<lparr>Func = ''ParseUint'', Num = t, Err = ErrSyntax\<rparr>))"
    unfolding ParseUint_value [OF assms] C(1) [symmetric] by (simp add: Let_def v_def p_def)
  have w: "shl1 (int bits - 1) = word_of_int (int C)"
    using arg_cong [OF C(4), where f = "of_nat :: nat \<Rightarrow> uint64"] by simp
  have nz: "(if int bits = 0 then IntSize else int bits) = int bits" using assms(3) by simp
  have big: "C < unat (- 1 :: uint64)" using C(3) unat_minus_one64 by simp
  have small: "unat (of_nat v :: uint64) = v" if "v < 2 * C" using that C(3) unfolding unat_of_nat by (intro mod_less) simp
  have run: "ParseInt s (int B) (int bits) =
      (if v < 2 * C \<and> \<not> (t \<noteq> [] \<and> p = t) then (0, Some \<lparr>Func = ''ParseInt'', Num = s, Err = ErrSyntax\<rparr>)
       else if neg then (if C < v then (- word_of_int (int C), Some (rangeError ''ParseInt'' s)) else (- of_nat v, None))
       else (if C \<le> v then (word_of_int (int C) - 1, Some (rangeError ''ParseInt'' s)) else (of_nat v, None)))"
  proof (cases "2 * C \<le> v")
    case True
    then show ?thesis using False C big unfolding ParseInt_def nz Let_def st prod.case P w
      by (simp add: word_le_nat_alt word_less_nat_alt C(4) [unfolded w])
  next
    case False
    then show ?thesis using \<open>s \<noteq> []\<close> C small unfolding ParseInt_def nz Let_def st prod.case P w
      by (simp add: word_le_nat_alt word_less_nat_alt C(4) [unfolded w])
  qed
  have b: "(2 :: int) ^ bits = 2 * int C" using C(1) by (metis of_nat_mult of_nat_numeral of_nat_power)
  show ?thesis unfolding run wf x Let_def cl b using False C(2) by (auto simp: rangeError_def)
qed

section \<open>Formatting\<close>

text \<open>What each loop of formatBits does: it writes all but the first digit, and leaves room for that
  digit and a sign.\<close>

definition emits :: "(digit_buf \<Rightarrow> uint64 \<Rightarrow> (digit_buf \<times> uint64) option) \<Rightarrow> nat \<Rightarrow> bool" where
  "emits loop B \<longleftrightarrow> (\<forall>a i u. 2 \<le> i \<longrightarrow> i \<le> length a \<longrightarrow> unat u < 2 ^ (i - 1) \<longrightarrow>
     (\<exists>a' i' u'. loop (a, i) u = Some ((a', i'), u') \<and> 2 \<le> i' \<and> i' \<le> length a' \<and> unat u' < B \<and>
        digits ! unat u' # drop i' a' = text_of B (unat u) @ drop i a))"

lemma put_digit_drop: "0 < i \<Longrightarrow> i \<le> length a \<Longrightarrow>
  \<exists>a'. put_digit c (a, i) = Some (a', i - 1) \<and> length a' = length a \<and> drop (i - 1) a' = c # drop i a"
  using Cons_nth_drop_Suc [of "i - 1" "a[i - 1 := c]"] by (auto simp: put_digit_def)

lemma room_div: "n < 2 ^ (i - 1) \<Longrightarrow> 2 \<le> B \<Longrightarrow> B \<le> n \<Longrightarrow> 3 \<le> i \<and> n div B < 2 ^ (i - 1 - 1)" for n :: nat
proof -
  assume a: "n < 2 ^ (i - 1)" "2 \<le> B" "B \<le> n"
  then have "3 \<le> i" by (cases "i < 3") (auto simp: less_Suc_eq numeral_3_eq_3)
  moreover from this have "(2::nat) ^ (i - 1) = 2 * 2 ^ (i - 1 - 1)" by (simp flip: power_Suc add: numeral_3_eq_3)
  moreover have "n div B \<le> n div 2" using a by (intro div_le_mono2) auto
  ultimately show ?thesis using a by (simp add: less_mult_imp_div_less)
qed

lemma emits_step:
  assumes "\<And>a i u. B \<le> unat u \<Longrightarrow> loop (a, i) u = (case put_digit (digits ! (unat u mod B)) (a, i) of
      None \<Rightarrow> None | Some buf \<Rightarrow> loop buf (next_u u))"
    and "\<And>u. B \<le> unat u \<Longrightarrow> unat (next_u u) = unat u div B"
    and "\<And>a i u. unat u < B \<Longrightarrow> loop (a, i) u = Some ((a, i), u)" and "2 \<le> B"
  shows "emits loop B"
  unfolding emits_def
proof (intro allI impI)
  fix a :: "byte list" and i and u :: uint64
  assume "2 \<le> i" "i \<le> length a" "unat u < 2 ^ (i - 1)"
  then show "\<exists>a' i' u'. loop (a, i) u = Some ((a', i'), u') \<and> 2 \<le> i' \<and> i' \<le> length a' \<and> unat u' < B \<and>
        digits ! unat u' # drop i' a' = text_of B (unat u) @ drop i a"
  proof (induction "unat u" arbitrary: a i u rule: less_induct)
    case less
    show ?case
    proof (cases "unat u < B")
      case True
      then show ?thesis using assms(3) less.prems by (simp add: text_of.simps)
    next
      case False
      have r: "3 \<le> i" "unat (next_u u) < 2 ^ (i - 1 - 1)" using room_div [of "unat u" i B] less.prems assms(2,4) False by auto
      obtain a1 where a1: "put_digit (digits ! (unat u mod B)) (a, i) = Some (a1, i - 1)" "length a1 = length a"
          "drop (i - 1) a1 = digits ! (unat u mod B) # drop i a"
        using put_digit_drop [of i a] less.prems by auto
      have i1: "2 \<le> i - 1" "i - 1 \<le> length a1" using r(1) a1(2) less.prems by linarith+
      have "unat (next_u u) < unat u" using False assms(2,4) by (simp add: div_less_dividend)
      then obtain a' i' u' where "loop (a1, i - 1) (next_u u) = Some ((a', i'), u')" "2 \<le> i'" "i' \<le> length a'" "unat u' < B"
          "digits ! unat u' # drop i' a' = text_of B (unat (next_u u)) @ drop (i - 1) a1"
        using less.hyps [of "next_u u" "i - 1" a1, OF _ _ _ r(2)] i1 by blast
      then show ?thesis using False assms(1) [of u a i] assms(2) [of u] assms(4) a1 by (simp add: text_of.simps [of B "unat u"])
    qed
  qed
qed

lemma emits_div:
  assumes "2 \<le> B" "B \<le> 36"
  shows "emits (\<lambda>buf u. format_div buf u (of_nat B)) B"
proof -
  have b: "unat (of_nat B :: uint64) = B" using unat_base [OF assms] by simp
  show ?thesis using assms
    by (intro emits_step [where next_u = "\<lambda>u. u div of_nat B"])
      ((subst format_div.simps)?, simp add: word_le_nat_alt b unat_div unat_mod)+
qed

lemma emits_shift:
  assumes "1 \<le> k" "k \<le> 5"
  shows "emits (\<lambda>buf u. format_shift buf u (2 ^ k) k) (2 ^ k)"
proof -
  have b: "unat (2 ^ k :: uint64) = 2 ^ k" "(2 :: nat) \<le> 2 ^ k"
    using assms unat_push_bit [of "1 :: uint64" k] power_strict_increasing [of k 64 "2::nat"] power_increasing [of 1 k "2::nat"]
    by simp_all
  have "(2 ^ k :: uint64) - 1 = mask k" by (simp add: mask_eq_exp_minus_1)
  then show ?thesis using assms b
    by (intro emits_step [where next_u = "drop_bit k"])
      ((subst format_shift.simps)?, simp add: word_le_nat_alt b unat_drop_bit unat_and_mask)+
qed

lemma digit_pairs: "j < 100 \<Longrightarrow> digits01 ! j = digits ! (j mod 10) \<and> digits10 ! j = digits ! (j div 10)"
proof -
  have "list_all (\<lambda>j. digits01 ! j = digits ! (j mod 10) \<and> digits10 ! j = digits ! (j div 10)) [0..<100]" by code_simp
  then show "j < 100 \<Longrightarrow> digits01 ! j = digits ! (j mod 10) \<and> digits10 ! j = digits ! (j div 10)" by (auto simp: list_all_iff)
qed

lemma text_of_pair: "100 \<le> n \<Longrightarrow> text_of 10 n = text_of 10 (n div 100) @ [digits10 ! (n mod 100), digits01 ! (n mod 100)]"
proof -
  assume "100 \<le> n"
  then have "\<not> n < 10" "\<not> n div 10 < 10" "n div 10 div 10 = n div 100" by auto
  moreover have "n mod 100 div 10 = n div 10 mod 10" "n mod 100 mod 10 = n mod 10"
    using mod_mult2_eq [of n 10 10] by (auto simp: mod_mod_cancel)
  ultimately show ?thesis using digit_pairs [of "n mod 100"]
    by (simp add: text_of.simps [of 10 n] text_of.simps [of 10 "n div 10"])
qed

lemma put_pair: "2 \<le> i \<Longrightarrow> i \<le> length a \<Longrightarrow> drop (i - 2) (a[i - 2 + 1 := x, i - 2 := y]) = y # x # drop i a"
  using Cons_nth_drop_Suc [of "i - 2" "a[i - 2 + 1 := x, i - 2 := y]"] Cons_nth_drop_Suc [of "i - 2 + 1" "a[i - 2 + 1 := x, i - 2 := y]"]
  by (simp add: Suc_diff_Suc numeral_2_eq_2)

lemma emits_10: "emits format_10 10"
  unfolding emits_def
proof (intro allI impI)
  fix a :: "byte list" and i and u :: uint64
  assume "2 \<le> i" "i \<le> length a" "unat u < 2 ^ (i - 1)"
  then show "\<exists>a' i' u'. format_10 (a, i) u = Some ((a', i'), u') \<and> 2 \<le> i' \<and> i' \<le> length a' \<and> unat u' < 10 \<and>
        digits ! unat u' # drop i' a' = text_of 10 (unat u) @ drop i a"
  proof (induction "unat u" arbitrary: a i u rule: less_induct)
    case less
    have rem: "unat (u - u div b * b) = unat u mod unat b" for b
      using minus_div_mult_eq_mod [of u b] by (simp add: unat_mod)
    consider "unat u < 10" | "10 \<le> unat u" "unat u < 100" | "100 \<le> unat u" by linarith
    then show ?case
    proof cases
      case 1
      then show ?thesis using less.prems by (subst format_10.simps) (simp add: word_le_nat_alt text_of.simps)
    next
      case 2
      then have r: "3 \<le> i" using room_div [of "unat u" i 10] less.prems by auto
      obtain a1 where a1: "put_digit (digits ! (unat u mod 10)) (a, i) = Some (a1, i - 1)" "length a1 = length a"
          "drop (i - 1) a1 = digits ! (unat u mod 10) # drop i a"
        using put_digit_drop [of i a] less.prems by auto
      moreover have "format_10 (a, i) u = Some ((a1, i - 1), u div 10)"
        using 2 a1(1) rem [of 10] by (subst format_10.simps) (simp add: word_le_nat_alt)
      moreover have "text_of 10 (unat u) = [digits ! (unat u div 10), digits ! (unat u mod 10)]"
        using 2 by (simp add: text_of.simps)
      ultimately show ?thesis using 2 r less.prems by (auto simp: unat_div)
    next
      case 3
      let ?a = "a[i - 2 + 1 := digits01 ! (unat u mod 100), i - 2 := digits10 ! (unat u mod 100)]"
      have r: "4 \<le> i" "unat (u div 100) < 2 ^ (i - 2 - 1)"
      proof -
        have q: "10 \<le> unat u div 10" "unat u div 10 div 10 = unat (u div 100)" using 3 by (auto simp: unat_div)
        have "3 \<le> i - 1 \<and> unat u div 10 div 10 < 2 ^ (i - 1 - 1 - 1)"
          using room_div [of "unat u" i 10] less.prems 3 q(1) by (intro room_div) auto
        moreover have "i - 1 - 1 - 1 = i - 2 - 1" by simp
        ultimately have h: "3 \<le> i - 1 \<and> unat (u div 100) < 2 ^ (i - 2 - 1)" unfolding q(2) by (simp only:)
        show "4 \<le> i" using h by linarith
        show "unat (u div 100) < 2 ^ (i - 2 - 1)" using h by (rule conjunct2)
      qed
      have "format_10 (a, i) u = format_10 (?a, i - 2) (u div 100)"
        using 3 r(1) rem [of 100] by (subst format_10.simps) (simp add: word_le_nat_alt Let_def)
      moreover have "unat (u div 100) < unat u" using 3 by (simp add: unat_div)
      ultimately show ?thesis
        using less.hyps [of "u div 100" "i - 2" ?a, OF _ _ _ r(2)] r(1) less.prems put_pair [of i a]
          text_of_pair [OF 3] by (simp add: unat_div)
    qed
  qed
qed

lemma shifts_nth: "2 \<le> B \<Longrightarrow> B \<le> 36 \<Longrightarrow> shifts ! B = 0 \<or> 1 \<le> shifts ! B \<and> shifts ! B \<le> 5 \<and> B = 2 ^ (shifts ! B)"
proof -
  have "list_all (\<lambda>B. shifts ! B = 0 \<or> 1 \<le> shifts ! B \<and> shifts ! B \<le> 5 \<and> B = 2 ^ (shifts ! B)) [2..<37]" by code_simp
  then show "2 \<le> B \<Longrightarrow> B \<le> 36 \<Longrightarrow> shifts ! B = 0 \<or> 1 \<le> shifts ! B \<and> shifts ! B \<le> 5 \<and> B = 2 ^ (shifts ! B)"
    unfolding list_all_iff set_upt by auto
qed

lemma formatBits_text:
  assumes "2 \<le> B" "B \<le> 36"
  shows "formatBits dst u (int B) neg app =
    (let t = (if neg then [0x2D] else []) @ text_of B (unat (if neg then - u else u))
     in Some (if app then (dst @ t, []) else ([], t)))"
proof -
  define loop where "loop = (\<lambda>buf u. if B = 10 then format_10 buf u else if shifts ! B > 0 then format_shift buf u (of_nat B) (shifts ! B)
      else format_div buf u (of_nat B))"
  have "emits loop B"
  proof (cases "B = 10")
    case True
    then show ?thesis using emits_10 by (simp add: loop_def)
  next
    case False
    have "of_nat B = (2 ^ (shifts ! B) :: uint64)" if "B = 2 ^ (shifts ! B)" using that by (metis of_nat_numeral of_nat_power)
    then show ?thesis using False emits_div [OF assms] emits_shift [of "shifts ! B"] shifts_nth [OF assms]
      by (cases "shifts ! B = 0") (auto simp: loop_def)
  qed
  define u1 where "u1 = (if neg then - u else u)"
  obtain a i u' where l: "loop (replicate 65 0, 65) u1 = Some ((a, i), u')" "2 \<le> i" "i \<le> length a" "unat u' < B"
      "digits ! unat u' # drop i a = text_of B (unat u1)"
    using \<open>emits loop B\<close> [unfolded emits_def, rule_format, of 65 "replicate 65 0" u1] unsigned_less [of u1] by auto
  obtain a1 where a1: "put_digit (digits ! unat u') (a, i) = Some (a1, i - 1)" "length a1 = length a" "drop (i - 1) a1 = text_of B (unat u1)"
    using put_digit_drop [of i a] l by fastforce
  have i1: "0 < i - 1" "i - 1 \<le> length a1" using l(2,3) a1(2) by linarith+
  obtain a2 where a2: "put_digit 0x2D (a1, i - 1) = Some (a2, i - 1 - 1)" "drop (i - 1 - 1) a2 = 0x2D # text_of B (unat u1)"
    using put_digit_drop [of "i - 1" a1 "0x2D"] i1 a1(3) by auto
  have len: "length digits = 36" by (simp add: digits_def)
  have "formatBits dst u (int B) neg app = do {
      (buf, u) \<leftarrow> loop (replicate 65 0, 65) u1;
      buf \<leftarrow> put_digit (digits ! unat u) buf;
      (a, i) \<leftarrow> (if neg then put_digit 0x2D buf else Some buf);
      Some (if app then (dst @ drop i a, []) else ([], drop i a)) }"
    using assms unfolding formatBits_def loop_def len u1_def by (simp add: Let_def)
  then show ?thesis using l(1) a1 a2 unfolding u1_def [symmetric] by simp
qed

lemma formatBits_base: "base < 2 \<or> 36 < base \<Longrightarrow> formatBits dst u base neg app = None"
  by (auto simp: formatBits_def digits_def)

section \<open>Properties\<close>

text \<open>The text of a number: a minus sign if it is negative, and its digits.\<close>

definition int_text :: "nat \<Rightarrow> int \<Rightarrow> gostring" where
  "int_text B x = (if x < 0 then [0x2D] else []) @ text_of B (nat \<bar>x\<bar>)"

lemma unat_abs: "unat (if sint i < 0 then - i else i) = nat \<bar>sint i\<bar>" for i :: "64 word"
proof -
  have "(if sint i < 0 then - i else i) = word_of_int \<bar>sint i\<bar>" by simp
  moreover have "\<bar>sint i\<bar> < 2 ^ 64" using sint_lt [of i] sint_ge [of i] by auto
  ultimately show ?thesis by (simp add: unat_eq_nat_uint uint_word_of_int)
qed

lemma FormatInt_text: "2 \<le> B \<Longrightarrow> B \<le> 36 \<Longrightarrow> FormatInt i (int B) = Some (int_text B (sint i))"
  using unat_abs [of i] by (simp add: FormatInt_def formatBits_text int_text_def Let_def)

lemma int_text_parts:
  assumes "2 \<le> B" "B \<le> 36"
  shows "pick_sign (int_text B x) = (x < 0, text_of B (nat \<bar>x\<bar>))"
proof -
  obtain c t where ct: "text_of B (nat \<bar>x\<bar>) = c # t" using text_of_ne by (metis list.exhaust)
  then have "digit_val c \<noteq> None" using text_of_value [OF assms, of "nat \<bar>x\<bar>"] digit_val_numeral [of c]
    by (auto simp: is_numeral_def split: option.splits)
  then have "c \<noteq> 0x2B" "c \<noteq> 0x2D" by (auto simp: digit_val_def)
  then show ?thesis using ct by (simp add: int_text_def pick_sign_def)
qed

lemma int_text_value:
  assumes "2 \<le> B" "B \<le> 36"
  shows "well_formed B (int_text B x) \<and> signed_value B (int_text B x) = x"
  using int_text_parts [OF assms, of x] text_of_value [OF assms, of "nat \<bar>x\<bar>"] text_of_ne [of B "nat \<bar>x\<bar>"]
  by (auto simp: well_formed_def signed_value_def Let_def list_all_iff int_text_def takeWhile_eq_all_conv [THEN iffD2])

text \<open>C34. FormatInt and FormatUint write the number in every base from 2 to 36: a minus sign if it is negative, then its
  digits without leading zeros, the most significant first. The three loops of formatBits (pairs of
  decimal digits, shifts for the powers of 2, division) agree, and the buffer of 65 bytes is large
  enough, -2^63 in base 2 included. The Append variants append that text, and any other base is a panic.\<close>

theorem strconv_format:
  "(if 2 \<le> base \<and> base \<le> 36
    then FormatInt i base = Some (int_text (nat base) (sint i)) \<and>
         FormatUint u base = Some (text_of (nat base) (unat u)) \<and>
         AppendInt dst i base = Some (dst @ int_text (nat base) (sint i)) \<and>
         AppendUint dst u base = Some (dst @ text_of (nat base) (unat u))
    else FormatInt i base = None \<and> FormatUint u base = None \<and> AppendInt dst i base = None \<and> AppendUint dst u base = None) \<and>
   Itoa i = Some (int_text 10 (sint i))"
proof -
  have "FormatInt i 10 = Some (int_text 10 (sint i))" using FormatInt_text [of 10 i] by simp
  moreover have "FormatInt i base = Some (int_text (nat base) (sint i)) \<and>
         FormatUint u base = Some (text_of (nat base) (unat u)) \<and>
         AppendInt dst i base = Some (dst @ int_text (nat base) (sint i)) \<and>
         AppendUint dst u base = Some (dst @ text_of (nat base) (unat u))" if "2 \<le> base \<and> base \<le> 36"
  proof -
    define B where "B = nat base"
    have "base = int B" "2 \<le> B" "B \<le> 36" using that by (auto simp: B_def)
    then show ?thesis using FormatInt_text [of B i] unat_abs [of i]
      by (simp add: FormatUint_def AppendInt_def AppendUint_def formatBits_text int_text_def Let_def)
  qed
  ultimately show ?thesis
    by (simp add: Itoa_def FormatInt_def FormatUint_def AppendInt_def AppendUint_def formatBits_base not_le disj_commute)
qed

text \<open>The base 0: a prefix chooses the base.\<close>

lemma ParseUint_base_0:
  "ParseUint s 0 bitSize =
     (case s of
        c # d # t \<Rightarrow>
          if c = 0x30 \<and> (d = 0x78 \<or> d = 0x58) then map_prod id (map_option (Num_update (\<lambda>_. s))) (ParseUint t 16 bitSize)
          else ParseUint s (if c = 0x30 then 8 else 10) bitSize
      | [c] \<Rightarrow> ParseUint s (if c = 0x30 then 8 else 10) bitSize
      | [] \<Rightarrow> ParseUint s 10 bitSize)"
  by (cases s; cases "tl s") (auto simp: ParseUint_def ParseUint_base_def Let_def split: prod.splits option.splits)

text \<open>The base and the digits that base 0 resolves an unsigned numeral to; ParseInt resolves what follows the sign.\<close>

definition base_prefix :: "gostring \<Rightarrow> nat \<times> gostring" where
  "base_prefix s =
     (case s of
        c # d # t \<Rightarrow> if c = 0x30 \<and> (d = 0x78 \<or> d = 0x58) then (16, t) else (if c = 0x30 then 8 else 10, s)
      | [c] \<Rightarrow> (if c = 0x30 then 8 else 10, s)
      | [] \<Rightarrow> (10, s))"

abbreviation with_Num :: "gostring \<Rightarrow> 64 word \<times> NumError option \<Rightarrow> 64 word \<times> NumError option" where
  "with_Num s \<equiv> map_prod id (map_option (Num_update (\<lambda>_. s)))"

lemma ParseUint_base_prefix:
  "\<exists>n. ParseUint s 0 bitSize = with_Num n (ParseUint (snd (base_prefix s)) (int (fst (base_prefix s))) bitSize)"
proof -
  have "\<exists>n. ParseUint s b bitSize = with_Num n (ParseUint s b bitSize)" for b
    by (cases "ParseUint s b bitSize"; cases "snd (ParseUint s b bitSize)") (auto intro: exI [of _ "Num (the (snd (ParseUint s b bitSize)))"])
  then show ?thesis unfolding ParseUint_base_0 by (auto simp: base_prefix_def split: list.splits)
qed

lemma ParseInt_base_0:
  "ParseInt s 0 bitSize =
     (let (neg, u) = pick_sign s; (B, t) = base_prefix u
      in with_Num s (ParseInt ((if neg then 0x2D else 0x2B) # t) (int B) bitSize))"
proof -
  obtain neg u where u: "pick_sign s = (neg, u)" by (cases "pick_sign s")
  obtain B t where t: "base_prefix u = (B, t)" by (cases "base_prefix u")
  define bits where "bits = (if bitSize = 0 then IntSize else bitSize)"
  obtain n where n: "ParseUint u 0 bits = with_Num n (ParseUint t (int B) bits)"
    using ParseUint_base_prefix [of u bits] t by auto
  have p: "pick_sign ((if neg then 0x2D else 0x2B) # t) = (neg, t)" by (simp add: pick_sign_def)
  show ?thesis
  proof (cases "s = []")
    case True
    show ?thesis unfolding True
      by (simp add: ParseInt_def syntaxError_def pick_sign_def base_prefix_def ParseUint_def ParseUint_base_def Let_def)
  next
    case False
    obtain un err where r: "ParseUint t (int B) bits = (un, err)" by fastforce
    show ?thesis using False
      unfolding ParseInt_def bits_def [symmetric] Let_def u t p prod.case n r
      by (cases err) (auto simp: rangeError_def)
  qed
qed



lemma ParseInt_FormatInt:
  assumes "2 \<le> B" "B \<le> 36" "1 \<le> bits" "bits \<le> 64" "- (2 ^ (bits - 1)) \<le> sint i" "sint i < 2 ^ (bits - 1)"
  shows "FormatInt i (int B) = Some (int_text B (sint i)) \<and> ParseInt (int_text B (sint i)) (int B) (int bits) = (i, None)"
proof -
  have "clamp bits (sint i) = sint i" using assms by (simp add: clamp_def)
  then show ?thesis
    using FormatInt_text [of B i] ParseInt_value [OF assms(1-4), of "int_text B (sint i)"] int_text_value [of B "sint i"] assms
    by (auto simp: Let_def well_formed_def)
qed

text \<open>C36. Parsing inverts formatting: ParseInt reads what FormatInt wrote in the same base, for every size the
  number fits; Atoi reads what Itoa wrote; ParseUint and ParseBool read what FormatUint and FormatBool wrote.\<close>

theorem strconv_round_trip:
  assumes "2 \<le> B" "B \<le> 36" "1 \<le> bits" "bits \<le> 64"
    "- (2 ^ (bits - 1)) \<le> sint i" "sint i < 2 ^ (bits - 1)" "unat u < 2 ^ bits"
  shows "(\<exists>s. FormatInt i (int B) = Some s \<and> ParseInt s (int B) (int bits) = (i, None)) \<and>
    (\<exists>s. FormatUint u (int B) = Some s \<and> ParseUint s (int B) (int bits) = (u, None)) \<and>
    (\<exists>s. Itoa i = Some s \<and> Atoi s = (i, None)) \<and> ParseBool (FormatBool b) = (b, None)"
proof (intro conjI)
  show "\<exists>s. FormatInt i (int B) = Some s \<and> ParseInt s (int B) (int bits) = (i, None)"
    using ParseInt_FormatInt [OF assms(1-6)] by blast
  have "takeWhile (is_numeral B) (text_of B (unat u)) = text_of B (unat u)"
    using text_of_value [OF assms(1,2)] by (simp add: list_all_iff)
  then show "\<exists>s. FormatUint u (int B) = Some s \<and> ParseUint s (int B) (int bits) = (u, None)"
    using ParseUint_value [OF assms(1-4), of "text_of B (unat u)"] text_of_value [OF assms(1,2), of "unat u"] text_of_ne [of B "unat u"] assms
    by (simp add: FormatUint_def formatBits_text Let_def del: takeWhile_eq_all_conv)
  have "- (2 ^ (64 - 1)) \<le> sint i" "sint i < 2 ^ (64 - 1)" using sint_ge [of i] sint_lt [of i] by simp_all
  then show "\<exists>s. Itoa i = Some s \<and> Atoi s = (i, None)"
    using ParseInt_FormatInt [of 10 64 i] by (simp add: Itoa_def Atoi_def ParseUint_zero_bits)
  show "ParseBool (FormatBool b) = (b, None)"
    by (cases b) (simp_all add: ParseBool_def FormatBool_def lit_def)
qed

theorem strconv_round_trip_witness:
  "\<exists>s. FormatInt (- 128) (int 36) = Some s \<and> ParseInt s (int 36) (int 8) = (- 128, None)"
proof -
  have "sint (- 128 :: 64 word) = - 128" by code_simp
  then show ?thesis using strconv_round_trip [of 36 8 "- 128" 0 True] by simp
qed

text \<open>The text after an overflow is not read, so that it is reported as ErrRange although the input contains an
  invalid digit; and ParseUint answers an overflow of 8 bits with 2^64 - 1.\<close>

theorem strconv_deviations:
  "map_option Err (snd (ParseInt (lit ''99999999999999999999x'') 10 64)) = Some ErrRange \<and>
   map_option Err (snd (ParseInt (lit ''9x'') 10 64)) = Some ErrSyntax \<and>
   fst (ParseUint (lit ''256'') 10 8) = 0xFFFFFFFFFFFFFFFF"
  by (intro conjI; code_simp)

end
