(* ===== verification/ReaderDefs.thy ===== *)
theory ReaderDefs
  imports BufferDefs
begin

text \<open>
  The types Reader of packages strings (strings/reader.go, \<open>sr_\<close>) and bytes (bytes/reader.go, \<open>br_\<close>),
  which keep a string or slice and a position in it. A slice that is read into is passed in and returned with its new
  contents. The writer of WriteTo maps the bytes it is given to a count and an error; None is the panic
  about a count that is too large.
\<close>

record Reader =
  rd_s :: gostring
  rd_i :: nat
  prevRune :: int

datatype rd_err = IOErr io_err | InvalidOffset | AtBeginning | PreviousNotReadRune | InvalidWhence | NegativePosition | PositionOutOfRange

section \<open>strings.Reader\<close>

definition sr_Len :: "Reader \<Rightarrow> nat" where
  "sr_Len r = (if rd_i r \<ge> length (rd_s r) then 0 else length (rd_s r) - rd_i r)"

text \<open>\<open>copy(b, s)\<close>.\<close>

definition copy_out :: "byte list \<Rightarrow> gostring \<Rightarrow> byte list \<times> nat" where
  "copy_out b s = (let n = min (length b) (length s) in (take n s @ drop n b, n))"

definition sr_Read :: "Reader \<Rightarrow> byte list \<Rightarrow> Reader \<times> byte list \<times> nat \<times> rd_err option" where
  "sr_Read r b =
     (if length b = 0 then (r, b, 0, None)
      else if rd_i r \<ge> length (rd_s r) then (r, b, 0, Some (IOErr EOF))
      else let (b, n) = copy_out b (drop (rd_i r) (rd_s r))
           in (r\<lparr>rd_i := rd_i r + n, prevRune := -1\<rparr>, b, n, None))"

definition sr_ReadAt :: "Reader \<Rightarrow> byte list \<Rightarrow> 64 word \<Rightarrow> byte list \<times> nat \<times> rd_err option" where
  "sr_ReadAt r b at =
     (if sint at < 0 then (b, 0, Some InvalidOffset)
      else if sint at \<ge> int (length (rd_s r)) then (b, 0, Some (IOErr EOF))
      else let (b', n) = copy_out b (drop (nat (sint at)) (rd_s r))
           in (b', n, if n < length b then Some (IOErr EOF) else None))"

definition sr_ReadByte :: "Reader \<Rightarrow> Reader \<times> byte \<times> rd_err option" where
  "sr_ReadByte r =
     (if rd_i r \<ge> length (rd_s r) then (r, 0, Some (IOErr EOF))
      else let b = rd_s r ! rd_i r in (r\<lparr>rd_i := rd_i r + 1, prevRune := -1\<rparr>, b, None))"

definition sr_UnreadByte :: "Reader \<Rightarrow> Reader \<times> rd_err option" where
  "sr_UnreadByte r =
     (if rd_i r \<le> 0 then (r, Some AtBeginning)
      else (r\<lparr>rd_i := rd_i r - 1, prevRune := -1\<rparr>, None))"

definition sr_ReadRune :: "Reader \<Rightarrow> Reader \<times> rune \<times> nat \<times> rd_err option" where
  "sr_ReadRune r =
     (if rd_i r \<ge> length (rd_s r) then (r, 0, 0, Some (IOErr EOF))
      else
        let r = r\<lparr>prevRune := int (rd_i r)\<rparr>; c = rd_s r ! rd_i r
        in if c < RuneSelf then (r\<lparr>rd_i := rd_i r + 1\<rparr>, ucast c, 1, None)
           else let (ch, size) = DecodeRuneInString (drop (rd_i r) (rd_s r))
                in (r\<lparr>rd_i := rd_i r + size\<rparr>, ch, size, None))"

definition sr_UnreadRune :: "Reader \<Rightarrow> Reader \<times> rd_err option" where
  "sr_UnreadRune r =
     (if prevRune r < 0 then (r, Some PreviousNotReadRune)
      else (r\<lparr>rd_i := nat (prevRune r), prevRune := -1\<rparr>, None))"

definition sr_Seek :: "Reader \<Rightarrow> 64 word \<Rightarrow> int \<Rightarrow> Reader \<times> 64 word \<times> rd_err option" where
  "sr_Seek r offset whence =
     (let pos = (if whence = 0 then Some offset
                 else if whence = 1 then Some (of_nat (rd_i r) + offset)
                 else if whence = 2 then Some (of_nat (length (rd_s r)) + offset)
                 else None)
      in case pos of
           None \<Rightarrow> (r, 0, Some InvalidWhence)
         | Some pos \<Rightarrow>
             if sint pos < 0 then (r, 0, Some NegativePosition)
             else if sint pos \<ge> 2 ^ 31 then (r, 0, Some PositionOutOfRange)
             else (r\<lparr>rd_i := nat (sint pos)\<rparr>, pos, None))"

definition sr_WriteTo :: "Reader \<Rightarrow> (byte list \<Rightarrow> nat \<times> io_err option) \<Rightarrow> (Reader \<times> nat \<times> io_err option) option" where
  "sr_WriteTo r w =
     (let r = r\<lparr>prevRune := -1\<rparr> in
      if rd_i r \<ge> length (rd_s r) then Some (r, 0, None)
      else
        let s = drop (rd_i r) (rd_s r); (m, err) = w s
        in if m > length s then None
           else let r = r\<lparr>rd_i := rd_i r + m\<rparr>
                in Some (r, m, if m \<noteq> length s \<and> err = None then Some ErrShortWrite else err))"

definition sr_NewReader :: "gostring \<Rightarrow> Reader" where
  "sr_NewReader s = \<lparr>rd_s = s, rd_i = 0, prevRune = -1\<rparr>"

section \<open>bytes.Reader\<close>

definition br_Len :: "Reader \<Rightarrow> nat" where
  "br_Len r = (if rd_i r \<ge> length (rd_s r) then 0 else length (rd_s r) - rd_i r)"

definition br_Read :: "Reader \<Rightarrow> byte list \<Rightarrow> Reader \<times> byte list \<times> nat \<times> rd_err option" where
  "br_Read r b =
     (if length b = 0 then (r, b, 0, None)
      else if rd_i r \<ge> length (rd_s r) then (r, b, 0, Some (IOErr EOF))
      else let (b, n) = copy_out b (drop (rd_i r) (rd_s r))
           in (r\<lparr>rd_i := rd_i r + n, prevRune := -1\<rparr>, b, n, None))"

definition br_ReadAt :: "Reader \<Rightarrow> byte list \<Rightarrow> 64 word \<Rightarrow> byte list \<times> nat \<times> rd_err option" where
  "br_ReadAt r b at =
     (if sint at < 0 then (b, 0, Some InvalidOffset)
      else if sint at \<ge> int (length (rd_s r)) then (b, 0, Some (IOErr EOF))
      else let (b', n) = copy_out b (drop (nat (sint at)) (rd_s r))
           in (b', n, if n < length b then Some (IOErr EOF) else None))"

definition br_ReadByte :: "Reader \<Rightarrow> Reader \<times> byte \<times> rd_err option" where
  "br_ReadByte r =
     (if rd_i r \<ge> length (rd_s r) then (r, 0, Some (IOErr EOF))
      else let b = rd_s r ! rd_i r in (r\<lparr>rd_i := rd_i r + 1, prevRune := -1\<rparr>, b, None))"

definition br_UnreadByte :: "Reader \<Rightarrow> Reader \<times> rd_err option" where
  "br_UnreadByte r =
     (if rd_i r \<le> 0 then (r, Some AtBeginning)
      else (r\<lparr>rd_i := rd_i r - 1, prevRune := -1\<rparr>, None))"

definition br_ReadRune :: "Reader \<Rightarrow> Reader \<times> rune \<times> nat \<times> rd_err option" where
  "br_ReadRune r =
     (if rd_i r \<ge> length (rd_s r) then (r, 0, 0, Some (IOErr EOF))
      else
        let r = r\<lparr>prevRune := int (rd_i r)\<rparr>; c = rd_s r ! rd_i r
        in if c < RuneSelf then (r\<lparr>rd_i := rd_i r + 1\<rparr>, ucast c, 1, None)
           else let (ch, size) = DecodeRune (drop (rd_i r) (rd_s r))
                in (r\<lparr>rd_i := rd_i r + size\<rparr>, ch, size, None))"

definition br_UnreadRune :: "Reader \<Rightarrow> Reader \<times> rd_err option" where
  "br_UnreadRune r =
     (if prevRune r < 0 then (r, Some PreviousNotReadRune)
      else (r\<lparr>rd_i := nat (prevRune r), prevRune := -1\<rparr>, None))"

definition br_Seek :: "Reader \<Rightarrow> 64 word \<Rightarrow> int \<Rightarrow> Reader \<times> 64 word \<times> rd_err option" where
  "br_Seek r offset whence =
     (let pos = (if whence = 0 then Some offset
                 else if whence = 1 then Some (of_nat (rd_i r) + offset)
                 else if whence = 2 then Some (of_nat (length (rd_s r)) + offset)
                 else None)
      in case pos of
           None \<Rightarrow> (r, 0, Some InvalidWhence)
         | Some pos \<Rightarrow>
             if sint pos < 0 then (r, 0, Some NegativePosition)
             else if sint pos \<ge> 2 ^ 31 then (r, 0, Some PositionOutOfRange)
             else (r\<lparr>rd_i := nat (sint pos)\<rparr>, pos, None))"

definition br_WriteTo :: "Reader \<Rightarrow> (byte list \<Rightarrow> nat \<times> io_err option) \<Rightarrow> (Reader \<times> nat \<times> io_err option) option" where
  "br_WriteTo r w =
     (let r = r\<lparr>prevRune := -1\<rparr> in
      if rd_i r \<ge> length (rd_s r) then Some (r, 0, None)
      else
        let b = drop (rd_i r) (rd_s r); (m, err) = w b
        in if m > length b then None
           else let r = r\<lparr>rd_i := rd_i r + m\<rparr>
                in Some (r, m, if m \<noteq> length b \<and> err = None then Some ErrShortWrite else err))"

definition br_NewReader :: "byte list \<Rightarrow> Reader" where
  "br_NewReader b = \<lparr>rd_s = b, rd_i = 0, prevRune = -1\<rparr>"

end
