(* ===== verification/ReaderSpec.thy ===== *)
theory ReaderSpec
  imports ReaderDefs Buffer
begin

text \<open>
  Correctness of strings.Reader and bytes.Reader: a sequence of calls answers what the same calls answer on a
  cursor in the text, the bytes before it and the bytes after it, unless UnreadRune is called while a Seek has
  left a stale rune. The two types agree.
\<close>

section \<open>The cursor\<close>

text \<open>Seek may move past the end: \<open>past\<close> counts the positions beyond it. \<open>last_rune\<close> is the size of the rune
  UnreadRune may put back; \<open>stale\<close> says that a Seek came after the ReadRune, and no operation since that forgets the
  rune: there is nothing to put back, but the code thinks there is.\<close>

record cursor =
  before :: gostring
  after :: gostring
  past :: nat
  last_rune :: "nat option"
  stale :: bool

datatype rop =
    CLen
  | CRead "byte list"
  | CReadAt "byte list" "64 word"
  | CReadByte
  | CUnreadByte
  | CReadRune
  | CUnreadRune
  | CSeek "64 word" int
  | CWriteTo "byte list \<Rightarrow> nat \<times> io_err option"

datatype rres =
    Count nat
  | Filled "byte list" nat "rd_err option"
  | AByte byte "rd_err option"
  | ARune rune nat "rd_err option"
  | Status "rd_err option"
  | Position "64 word" "rd_err option"
  | Written nat "io_err option"

definition forget :: "cursor \<Rightarrow> cursor" where
  "forget c = c\<lparr>last_rune := None, stale := False\<rparr>"

definition advance :: "nat \<Rightarrow> cursor \<Rightarrow> cursor" where
  "advance n c = c\<lparr>before := before c @ take n (after c), after := drop n (after c)\<rparr>"

definition retreat :: "nat \<Rightarrow> cursor \<Rightarrow> cursor" where
  "retreat n c = (let k = length (before c) - n in
     forget (c\<lparr>before := take k (before c), after := drop k (before c) @ after c\<rparr>))"

definition place_at :: "nat \<Rightarrow> cursor \<Rightarrow> cursor" where
  "place_at k c = (let s = before c @ after c in
     c\<lparr>before := take k s, after := drop k s, past := k - length s, last_rune := None, stale := (stale c \<or> last_rune c \<noteq> None)\<rparr>)"

fun seek_target :: "64 word \<Rightarrow> int \<Rightarrow> cursor \<Rightarrow> 64 word option" where
  "seek_target d whence c =
     (if whence = 0 then Some d
      else if whence = 1 then Some (of_nat (length (before c) + past c) + d)
      else if whence = 2 then Some (of_nat (length (before c @ after c)) + d)
      else None)"

fun cursor_exec :: "rop \<Rightarrow> cursor \<Rightarrow> (cursor \<times> rres) option" where
  "cursor_exec CLen c = Some (c, Count (length (after c)))"
| "cursor_exec (CRead b) c =
     Some (if b = [] then (c, Filled b 0 None)
           else if after c = [] then (c, Filled b 0 (Some (IOErr EOF)))
           else let got = take (length b) (after c)
                in (advance (length b) (forget c), Filled (got @ drop (length got) b) (length got) None))"
| "cursor_exec (CReadAt b at) c =
     Some (c, let got = take (length b) (drop (nat (sint at)) (before c @ after c))
       in if sint at < 0 then Filled b 0 (Some InvalidOffset)
          else Filled (got @ drop (length got) b) (length got)
            (if length got < length b \<or> int (length (before c @ after c)) \<le> sint at then Some (IOErr EOF) else None))"
| "cursor_exec CReadByte c =
     Some (case after c of [] \<Rightarrow> (c, AByte 0 (Some (IOErr EOF))) | x # _ \<Rightarrow> (advance 1 (forget c), AByte x None))"
| "cursor_exec CUnreadByte c =
     Some (if 0 < past c then (forget (c\<lparr>past := past c - 1\<rparr>), Status None)
           else if before c = [] then (c, Status (Some AtBeginning))
           else (retreat 1 c, Status None))"
| "cursor_exec CReadRune c =
     Some (if after c = [] then (c, ARune 0 0 (Some (IOErr EOF)))
           else let (ch, n) = DecodeRune (after c) in (advance n (c\<lparr>last_rune := Some n, stale := False\<rparr>), ARune ch n None))"
| "cursor_exec CUnreadRune c =
     Some (case last_rune c of None \<Rightarrow> (c, Status (Some PreviousNotReadRune)) | Some n \<Rightarrow> (retreat n c, Status None))"
| "cursor_exec (CSeek d whence) c =
     Some (case seek_target d whence c of
         None \<Rightarrow> (c, Position 0 (Some InvalidWhence))
       | Some p \<Rightarrow>
           if sint p < 0 then (c, Position 0 (Some NegativePosition))
           else if sint p \<ge> 2 ^ 31 then (c, Position 0 (Some PositionOutOfRange))
           else (place_at (nat (sint p)) c, Position p None))"
| "cursor_exec (CWriteTo w) c =
     (if after c = [] then Some (forget c, Written 0 None)
      else let (m, err) = w (after c)
           in if m > length (after c) then None
              else Some (advance m (forget c),
                     Written m (if m < length (after c) \<and> err = None then Some ErrShortWrite else err)))"

text \<open>The same calls on a Reader.\<close>

fun sr_exec :: "rop \<Rightarrow> Reader \<Rightarrow> (Reader \<times> rres) option" where
  "sr_exec CLen r = Some (r, Count (sr_Len r))"
| "sr_exec (CRead b) r = (case sr_Read r b of (r, b, n, e) \<Rightarrow> Some (r, Filled b n e))"
| "sr_exec (CReadAt b at) r = (case sr_ReadAt r b at of (b, n, e) \<Rightarrow> Some (r, Filled b n e))"
| "sr_exec CReadByte r = (case sr_ReadByte r of (r, c, e) \<Rightarrow> Some (r, AByte c e))"
| "sr_exec CUnreadByte r = (case sr_UnreadByte r of (r, e) \<Rightarrow> Some (r, Status e))"
| "sr_exec CReadRune r = (case sr_ReadRune r of (r, c, n, e) \<Rightarrow> Some (r, ARune c n e))"
| "sr_exec CUnreadRune r = (case sr_UnreadRune r of (r, e) \<Rightarrow> Some (r, Status e))"
| "sr_exec (CSeek d whence) r = (case sr_Seek r d whence of (r, p, e) \<Rightarrow> Some (r, Position p e))"
| "sr_exec (CWriteTo w) r = (case sr_WriteTo r w of None \<Rightarrow> None | Some (r, n, e) \<Rightarrow> Some (r, Written n e))"

fun br_exec :: "rop \<Rightarrow> Reader \<Rightarrow> (Reader \<times> rres) option" where
  "br_exec CLen r = Some (r, Count (br_Len r))"
| "br_exec (CRead b) r = (case br_Read r b of (r, b, n, e) \<Rightarrow> Some (r, Filled b n e))"
| "br_exec (CReadAt b at) r = (case br_ReadAt r b at of (b, n, e) \<Rightarrow> Some (r, Filled b n e))"
| "br_exec CReadByte r = (case br_ReadByte r of (r, c, e) \<Rightarrow> Some (r, AByte c e))"
| "br_exec CUnreadByte r = (case br_UnreadByte r of (r, e) \<Rightarrow> Some (r, Status e))"
| "br_exec CReadRune r = (case br_ReadRune r of (r, c, n, e) \<Rightarrow> Some (r, ARune c n e))"
| "br_exec CUnreadRune r = (case br_UnreadRune r of (r, e) \<Rightarrow> Some (r, Status e))"
| "br_exec (CSeek d whence) r = (case br_Seek r d whence of (r, p, e) \<Rightarrow> Some (r, Position p e))"
| "br_exec (CWriteTo w) r = (case br_WriteTo r w of None \<Rightarrow> None | Some (r, n, e) \<Rightarrow> Some (r, Written n e))"

fun rd_run :: "('o \<Rightarrow> 's \<Rightarrow> ('s \<times> 'r) option) \<Rightarrow> 'o list \<Rightarrow> 's \<Rightarrow> 'r list option" where
  "rd_run exec [] s = Some []"
| "rd_run exec (x # xs) s = do {
     (s, y) \<leftarrow> exec x s;
     ys \<leftarrow> rd_run exec xs s;
     Some (y # ys)
   }"

text \<open>Every call of a run is in order in the state the specification is in then.\<close>

fun run_ok :: "('o \<Rightarrow> 'c \<Rightarrow> bool) \<Rightarrow> ('o \<Rightarrow> 'c \<Rightarrow> ('c \<times> 'r) option) \<Rightarrow> 'o list \<Rightarrow> 'c \<Rightarrow> bool" where
  "run_ok ok spec [] c = True"
| "run_ok ok spec (x # xs) c = (ok x c \<and> (case spec x c of None \<Rightarrow> True | Some (c, y) \<Rightarrow> run_ok ok spec xs c))"

lemma br_sr_exec: "br_exec x r = sr_exec x r"
  by (cases x) (simp_all add: br_Len_def sr_Len_def br_Read_def sr_Read_def br_ReadAt_def sr_ReadAt_def br_ReadByte_def sr_ReadByte_def
      br_UnreadByte_def sr_UnreadByte_def br_ReadRune_def sr_ReadRune_def br_UnreadRune_def sr_UnreadRune_def br_Seek_def sr_Seek_def
      br_WriteTo_def sr_WriteTo_def DecodeRuneInString_eq Let_def)

section \<open>Simulation\<close>

text \<open>Calls of an implementation answered like those of a specification, one by one.\<close>

locale simulation =
  fixes exec :: "'o \<Rightarrow> 's \<Rightarrow> ('s \<times> 'r) option" and spec :: "'o \<Rightarrow> 'c \<Rightarrow> ('c \<times> 'r) option"
    and rel :: "'s \<Rightarrow> 'c \<Rightarrow> bool" and ok :: "'o \<Rightarrow> 'c \<Rightarrow> bool"
  assumes sim: "rel s c \<Longrightarrow> ok x c \<Longrightarrow> rel_option (rel_prod rel (=)) (exec x s) (spec x c)"
begin

lemma run_sim: "rel s c \<Longrightarrow> run_ok ok spec xs c \<Longrightarrow> rd_run exec xs s = rd_run spec xs c"
proof (induction xs arbitrary: s c)
  case (Cons x xs)
  then have "rel_option (rel_prod rel (=)) (exec x s) (spec x c)" by (intro sim) simp_all
  then show ?case using Cons by (cases rule: option.rel_cases) (auto split: prod.splits)
qed simp

end

definition at_cursor :: "Reader \<Rightarrow> cursor \<Rightarrow> bool" where
  "at_cursor r c \<longleftrightarrow> rd_s r = before c @ after c \<and> rd_i r = length (before c) + past c \<and> (0 < past c \<longrightarrow> after c = []) \<and>
     (stale c \<or> (case last_rune c of None \<Rightarrow> prevRune r = - 1
        | Some n \<Rightarrow> past c = 0 \<and> n \<le> length (before c) \<and> prevRune r = int (rd_i r - n)))"

fun rd_allowed :: "rop \<Rightarrow> cursor \<Rightarrow> bool" where
  "rd_allowed CUnreadRune c = (\<not> stale c)" | "rd_allowed _ c = True"

lemma at_end: "at_cursor r c \<Longrightarrow> length (rd_s r) \<le> rd_i r \<longleftrightarrow> after c = []"
  by (auto simp: at_cursor_def)

lemma at_rest: "at_cursor r c \<Longrightarrow> drop (rd_i r) (rd_s r) = after c"
  by (auto simp: at_cursor_def)

lemma at_advance:
  "at_cursor r c \<Longrightarrow> n \<le> length (after c) \<Longrightarrow> after c \<noteq> [] \<Longrightarrow> at_cursor (r\<lparr>rd_i := rd_i r + n, prevRune := - 1\<rparr>) (advance n (forget c))"
  by (auto simp: at_cursor_def advance_def forget_def)

lemma take_min_length: "take (min n (length d)) d = take n d"
  by (simp add: min_def)

lemma sim_Read:
  assumes r: "at_cursor r c"
  shows "rel_option (rel_prod at_cursor (=)) (sr_exec (CRead b) r) (cursor_exec (CRead b) c)"
proof -
  let ?n = "min (length (after c)) (length b)"
  have a: "advance (length b) (forget c) = advance ?n (forget c)" by (auto simp: advance_def forget_def min_def)
  note t = take_min_length [of "length b" "after c"]
  show ?thesis
  proof (cases "b = [] \<or> after c = []")
    case True
    then show ?thesis using r at_end [OF r] by (auto simp: sr_Read_def)
  next
    case False
    then have "sr_Read r b = (r\<lparr>rd_i := rd_i r + ?n, prevRune := - 1\<rparr>, take (length b) (after c) @ drop ?n b, ?n, None)"
      using at_end [OF r] t by (simp add: sr_Read_def at_rest [OF r] copy_out_def Let_def min.commute)
    then show ?thesis using False a at_advance [OF r, of ?n] by (simp add: Let_def)
  qed
qed

lemma sim_ReadAt:
  assumes r: "at_cursor r c"
  shows "rel_option (rel_prod at_cursor (=)) (sr_exec (CReadAt b at) r) (cursor_exec (CReadAt b at) c)"
proof -
  have s: "rd_s r = before c @ after c" using r by (simp add: at_cursor_def)
  let ?d = "drop (nat (sint at)) (before c @ after c)"
  note take_min_length [of "length b" ?d]
  moreover have "?d = []" if "int (length (before c @ after c)) \<le> sint at" using that by simp
  ultimately show ?thesis using r
    by (simp add: sr_ReadAt_def copy_out_def Let_def s del: drop_append length_append)
qed

lemma sim_ReadByte:
  assumes r: "at_cursor r c"
  shows "rel_option (rel_prod at_cursor (=)) (sr_exec CReadByte r) (cursor_exec CReadByte c)"
proof -
  show ?thesis
  proof (cases "after c")
    case (Cons x t)
    then have "rd_s r ! rd_i r = x" using r by (auto simp: at_cursor_def nth_append)
    then show ?thesis using Cons at_end [OF r] at_advance [OF r, of 1] by (simp add: sr_ReadByte_def)
  qed (use r at_end [OF r] in \<open>simp add: sr_ReadByte_def\<close>)
qed

lemma sim_ReadRune:
  assumes r: "at_cursor r c"
  shows "rel_option (rel_prod at_cursor (=)) (sr_exec CReadRune r) (cursor_exec CReadRune c)"
proof -
  show ?thesis
  proof (cases "after c = []")
    case False
    obtain ch n where d: "DecodeRune (after c) = (ch, n)" by force
    then have n: "n \<le> length (after c)" using decode_size_le [of "after c"] by simp
    have c0: "rd_s r ! rd_i r = after c ! 0" using r False by (auto simp: at_cursor_def nth_append)
    have "(ucast (after c ! 0), 1) = (ch, n)" if "after c ! 0 < RuneSelf" using DecodeRune_ascii [OF False that] d by simp
    then have "sr_ReadRune r = (r\<lparr>prevRune := int (rd_i r), rd_i := rd_i r + n\<rparr>, ch, n, None)"
      using False at_end [OF r] d by (auto simp: sr_ReadRune_def Let_def c0 at_rest [OF r] DecodeRuneInString_eq)
    moreover have "at_cursor (r\<lparr>prevRune := int (rd_i r), rd_i := rd_i r + n\<rparr>) (advance n (c\<lparr>last_rune := Some n, stale := False\<rparr>))"
      using r n False by (auto simp: at_cursor_def advance_def forget_def)
    ultimately show ?thesis using False d by simp
  qed (use r at_end [OF r] in \<open>simp add: sr_ReadRune_def\<close>)
qed

lemma sim_Seek:
  assumes r: "at_cursor r c"
  shows "rel_option (rel_prod at_cursor (=)) (sr_exec (CSeek d w) r) (cursor_exec (CSeek d w) c)"
proof -
  have t: "(if w = 0 then Some d else if w = 1 then Some (of_nat (rd_i r) + d) else if w = 2 then Some (of_nat (length (rd_s r)) + d) else None) =
      seek_target d w c" using r by (simp add: at_cursor_def)
  have p: "at_cursor (r\<lparr>rd_i := k\<rparr>) (place_at k c)" for k using r by (auto simp: at_cursor_def place_at_def Let_def split: option.splits simp del: take_append drop_append)
  show ?thesis unfolding sr_exec.simps cursor_exec.simps sr_Seek_def t Let_def
    by (cases "seek_target d w c") (simp_all only: option.case prod.case if_distrib [of "case_prod _"] split: if_split, simp_all add: r p)
qed

lemma sim_WriteTo:
  assumes r: "at_cursor r c"
  shows "rel_option (rel_prod at_cursor (=)) (sr_exec (CWriteTo w) r) (cursor_exec (CWriteTo w) c)"
proof -
  have n: "at_cursor (r\<lparr>prevRune := - 1\<rparr>) (forget c)" using r by (simp add: at_cursor_def forget_def)
  obtain m e where w: "w (after c) = (m, e)" by force
  have "m \<noteq> length (after c) \<longleftrightarrow> m < length (after c)" if "\<not> m > length (after c)" using that by auto
  moreover have "at_cursor (r\<lparr>prevRune := - 1, rd_i := rd_i r + k\<rparr>) (advance k (forget c))"
    if "k \<le> length (after c)" "after c \<noteq> []" for k using that r by (auto simp: at_cursor_def advance_def forget_def)
  ultimately show ?thesis using w n at_end [OF r] at_rest [OF r]
    by (cases "after c = []") (auto simp: sr_WriteTo_def Let_def)
qed

lemma sr_exec_sim:
  assumes r: "at_cursor r c" and ok: "rd_allowed x c"
  shows "rel_option (rel_prod at_cursor (=)) (sr_exec x r) (cursor_exec x c)"
proof (cases x)
  case CLen
  then show ?thesis using r by (auto simp: sr_Len_def at_cursor_def)
next
  case (CRead b)
  then show ?thesis using sim_Read [OF r] by simp
next
  case (CReadAt b at)
  then show ?thesis using sim_ReadAt [OF r] by simp
next
  case CReadByte
  then show ?thesis using sim_ReadByte [OF r] by simp
next
  case CUnreadByte
  then show ?thesis using r by (auto simp: sr_UnreadByte_def at_cursor_def retreat_def forget_def Let_def)
next
  case CReadRune
  then show ?thesis using sim_ReadRune [OF r] by simp
next
  case CUnreadRune
  then have "\<not> stale c" using ok by simp
  then show ?thesis using CUnreadRune r
    by (auto simp: sr_UnreadRune_def at_cursor_def retreat_def forget_def Let_def split: option.splits)
next
  case (CSeek d w)
  then show ?thesis using sim_Seek [OF r] by simp
next
  case (CWriteTo w)
  then show ?thesis using sim_WriteTo [OF r] by simp
qed

interpretation sr: simulation sr_exec cursor_exec at_cursor rd_allowed
  by unfold_locales (rule sr_exec_sim)

interpretation br: simulation br_exec cursor_exec at_cursor rd_allowed
  by unfold_locales (simp add: br_sr_exec sr_exec_sim)

definition cursor_start :: "gostring \<Rightarrow> cursor" where
  "cursor_start s = \<lparr>before = [], after = s, past = 0, last_rune = None, stale = False\<rparr>"

lemma at_start: "at_cursor (sr_NewReader s) (cursor_start s)" "at_cursor (br_NewReader s) (cursor_start s)"
  by (simp_all add: at_cursor_def sr_NewReader_def br_NewReader_def cursor_start_def)

section \<open>Properties\<close>



text \<open>Seek does not forget the rune that was read before it: UnreadRune then jumps back to that rune, and
  reports no error. Nor does a Read that returns EOF.\<close>

theorem reader_deviations:
  "rd_run sr_exec [CReadRune, CSeek 3 0, CUnreadRune, CLen] (sr_NewReader [0x61, 0x62, 0x63, 0x64]) =
     Some [ARune 0x61 1 None, Position 3 None, Status None, Count 4] \<and>
   rd_run cursor_exec [CReadRune, CSeek 3 0, CUnreadRune, CLen] (cursor_start [0x61, 0x62, 0x63, 0x64]) =
     Some [ARune 0x61 1 None, Position 3 None, Status (Some PreviousNotReadRune), Count 1] \<and>
   rd_run sr_exec [CReadRune, CRead [0], CUnreadRune, CLen] (sr_NewReader [0x61]) =
     Some [ARune 0x61 1 None, Filled [0] 0 (Some (IOErr EOF)), Status None, Count 1]"
  by (intro conjI; code_simp)

end
