(* ===== verification/HashDefs.thy ===== *)
theory HashDefs
  imports Prelude WordBits
begin

text \<open>
  The checksums of package hash: adler32/adler32.go, crc32/crc32.go with crc32_generic.go, crc64/crc64.go and
  fnv/fnv.go. A digest is its value; Write returns it with the number of bytes taken. A pointer to a CRC table
  is one of the two shared tables or a table of its own, so that the comparison of Update with
  \<open>castagnoliTable\<close> is that of the pointers.
\<close>

unbundle bit_operations_syntax

section \<open>adler32\<close>

definition adler_mod :: uint32 where "adler_mod = 65521"

definition nmax :: nat where "nmax = 5552"

fun adler_block :: "byte list \<Rightarrow> uint32 \<Rightarrow> uint32 \<Rightarrow> uint32 \<times> uint32" where
  "adler_block [] s1 s2 = (s1, s2)"
| "adler_block (x # p) s1 s2 = (let s1 = s1 + ucast x; s2 = s2 + s1 in adler_block p s1 s2)"

function adler_loop :: "byte list \<Rightarrow> uint32 \<Rightarrow> uint32 \<Rightarrow> uint32 \<times> uint32" where
  "adler_loop p s1 s2 =
     (if length p > 0 then
        let (p, q) = (if length p > nmax then (take nmax p, drop nmax p) else (p, []));
            (s1, s2) = adler_block p s1 s2
        in adler_loop q (s1 mod adler_mod) (s2 mod adler_mod)
      else (s1, s2))"
  by pat_completeness auto
termination by (relation "measure (\<lambda>(p, s1, s2). length p)") (auto simp: nmax_def split: if_splits)

declare adler_loop.simps [simp del]

definition adler_update :: "uint32 \<Rightarrow> byte list \<Rightarrow> uint32" where
  "adler_update d p =
     (let s1 = d AND 0xFFFF; s2 = drop_bit 16 d;
          (s1, s2) = adler_loop p s1 s2
      in push_bit 16 s2 OR s1)"

definition adler_Reset :: "uint32 \<Rightarrow> uint32" where "adler_Reset d = 1"

text \<open>New allocates a zero digest and resets it.\<close>

definition adler_New :: uint32 where "adler_New = adler_Reset 0"

definition adler_Write :: "uint32 \<Rightarrow> byte list \<Rightarrow> uint32 \<times> nat" where
  "adler_Write d p = (adler_update d p, length p)"

text \<open>The bytes of a sum, the most significant first, as Sum of every 32-bit hash appends them.\<close>

definition sum_bytes32 :: "byte list \<Rightarrow> uint32 \<Rightarrow> byte list" where
  "sum_bytes32 inp s = inp @ [ucast (drop_bit 24 s), ucast (drop_bit 16 s), ucast (drop_bit 8 s), ucast s]"

definition adler_Sum :: "uint32 \<Rightarrow> byte list \<Rightarrow> byte list" where
  "adler_Sum d inp = sum_bytes32 inp d"

definition adler_Checksum :: "byte list \<Rightarrow> uint32" where
  "adler_Checksum data = adler_update 1 data"

section \<open>crc32\<close>

definition IEEE :: uint32 where "IEEE = 0xEDB88320"

definition Castagnoli :: uint32 where "Castagnoli = 0x82F63B78"

definition Koopman :: uint32 where "Koopman = 0xEB31D82E"

text \<open>One turn and the eight turns of the inner loop of makeTable.\<close>

definition crc_bit :: "'a::len word \<Rightarrow> 'a word \<Rightarrow> 'a word" where
  "crc_bit poly crc = (if crc AND 1 = 1 then drop_bit 1 crc XOR poly else drop_bit 1 crc)"

fun crc_bits :: "nat \<Rightarrow> 'a::len word \<Rightarrow> 'a word \<Rightarrow> 'a word" where
  "crc_bits 0 poly crc = crc"
| "crc_bits (Suc j) poly crc = crc_bits j poly (crc_bit poly crc)"

definition makeTable :: "uint32 \<Rightarrow> uint32 list" where
  "makeTable poly = map (\<lambda>i. crc_bits 8 poly (of_nat i)) [0..<256]"

datatype Table = IEEETable | castagnoliTable | Own "uint32 list"

fun tab_words :: "Table \<Rightarrow> uint32 list" where
  "tab_words IEEETable = makeTable IEEE"
| "tab_words castagnoliTable = makeTable Castagnoli"
| "tab_words (Own t) = t"

definition MakeTable :: "uint32 \<Rightarrow> Table" where
  "MakeTable poly = (if poly = IEEE then IEEETable else if poly = Castagnoli then castagnoliTable else Own (makeTable poly))"

fun crc_update_loop :: "'a::len word list \<Rightarrow> byte list \<Rightarrow> 'a word \<Rightarrow> 'a word" where
  "crc_update_loop tab [] crc = crc"
| "crc_update_loop tab (v # p) crc = crc_update_loop tab p (tab ! unat (ucast crc XOR v) XOR drop_bit 8 crc)"

definition crc32_update :: "uint32 \<Rightarrow> uint32 list \<Rightarrow> byte list \<Rightarrow> uint32" where
  "crc32_update crc tab p = NOT (crc_update_loop tab p (NOT crc))"

definition updateCastagnoli :: "uint32 \<Rightarrow> byte list \<Rightarrow> uint32" where
  "updateCastagnoli crc p = crc32_update crc (tab_words castagnoliTable) p"

definition Update :: "uint32 \<Rightarrow> Table \<Rightarrow> byte list \<Rightarrow> uint32" where
  "Update crc tab p = (if tab = castagnoliTable then updateCastagnoli crc p else crc32_update crc (tab_words tab) p)"

record digest =
  d_crc :: uint32
  d_tab :: Table

definition crc32_New :: "Table \<Rightarrow> digest" where "crc32_New t = \<lparr>d_crc = 0, d_tab = t\<rparr>"

definition NewIEEE :: digest where "NewIEEE = crc32_New IEEETable"

definition crc32_Reset :: "digest \<Rightarrow> digest" where "crc32_Reset d = d\<lparr>d_crc := 0\<rparr>"

definition crc32_Write :: "digest \<Rightarrow> byte list \<Rightarrow> digest \<times> nat" where
  "crc32_Write d p = (d\<lparr>d_crc := Update (d_crc d) (d_tab d) p\<rparr>, length p)"

definition crc32_Sum :: "digest \<Rightarrow> byte list \<Rightarrow> byte list" where
  "crc32_Sum d inp = sum_bytes32 inp (d_crc d)"

definition crc32_Checksum :: "byte list \<Rightarrow> Table \<Rightarrow> uint32" where
  "crc32_Checksum data t = Update 0 t data"

definition ChecksumIEEE :: "byte list \<Rightarrow> uint32" where
  "ChecksumIEEE data = crc32_update 0 (tab_words IEEETable) data"

section \<open>crc64\<close>

definition ISO :: uint64 where "ISO = 0xD800000000000000"

definition ECMA :: uint64 where "ECMA = 0xC96C5795D7870F42"

definition crc64_MakeTable :: "uint64 \<Rightarrow> uint64 list" where
  "crc64_MakeTable poly = map (\<lambda>i. crc_bits 8 poly (of_nat i)) [0..<256]"

definition crc64_update :: "uint64 \<Rightarrow> uint64 list \<Rightarrow> byte list \<Rightarrow> uint64" where
  "crc64_update crc tab p = NOT (crc_update_loop tab p (NOT crc))"

definition sum_bytes64 :: "byte list \<Rightarrow> uint64 \<Rightarrow> byte list" where
  "sum_bytes64 inp s = inp @ [ucast (drop_bit 56 s), ucast (drop_bit 48 s), ucast (drop_bit 40 s), ucast (drop_bit 32 s),
     ucast (drop_bit 24 s), ucast (drop_bit 16 s), ucast (drop_bit 8 s), ucast s]"

definition crc64_Update :: "uint64 \<Rightarrow> uint64 list \<Rightarrow> byte list \<Rightarrow> uint64" where
  "crc64_Update crc tab p = crc64_update crc tab p"

record digest64 =
  d_crc64 :: uint64
  d_tab64 :: "uint64 list"

definition crc64_New :: "uint64 list \<Rightarrow> digest64" where "crc64_New t = \<lparr>d_crc64 = 0, d_tab64 = t\<rparr>"

definition crc64_Reset :: "digest64 \<Rightarrow> digest64" where "crc64_Reset d = d\<lparr>d_crc64 := 0\<rparr>"

definition crc64_Write :: "digest64 \<Rightarrow> byte list \<Rightarrow> digest64 \<times> nat" where
  "crc64_Write d p = (d\<lparr>d_crc64 := crc64_update (d_crc64 d) (d_tab64 d) p\<rparr>, length p)"

definition crc64_Sum :: "digest64 \<Rightarrow> byte list \<Rightarrow> byte list" where
  "crc64_Sum d inp = sum_bytes64 inp (d_crc64 d)"

definition crc64_Checksum :: "byte list \<Rightarrow> uint64 list \<Rightarrow> uint64" where
  "crc64_Checksum data tab = crc64_update 0 tab data"

section \<open>fnv\<close>

definition offset32 :: uint32 where "offset32 = 2166136261"

definition offset64 :: uint64 where "offset64 = 14695981039346656037"

definition prime32 :: uint32 where "prime32 = 16777619"

definition prime64 :: uint64 where "prime64 = 1099511628211"

text \<open>The loops of the four Write methods.\<close>

fun sum32_loop :: "uint32 \<Rightarrow> byte list \<Rightarrow> uint32" where
  "sum32_loop h [] = h"
| "sum32_loop h (c # data) = (let h = h * prime32; h = h XOR ucast c in sum32_loop h data)"

fun sum32a_loop :: "uint32 \<Rightarrow> byte list \<Rightarrow> uint32" where
  "sum32a_loop h [] = h"
| "sum32a_loop h (c # data) = (let h = h XOR ucast c; h = h * prime32 in sum32a_loop h data)"

fun sum64_loop :: "uint64 \<Rightarrow> byte list \<Rightarrow> uint64" where
  "sum64_loop h [] = h"
| "sum64_loop h (c # data) = (let h = h * prime64; h = h XOR ucast c in sum64_loop h data)"

fun sum64a_loop :: "uint64 \<Rightarrow> byte list \<Rightarrow> uint64" where
  "sum64a_loop h [] = h"
| "sum64a_loop h (c # data) = (let h = h XOR ucast c; h = h * prime64 in sum64a_loop h data)"

text \<open>The four kinds of hash: their initial and reset value, Write, and Sum.\<close>

definition sum32_New :: uint32 where "sum32_New = offset32"

definition sum32_Reset :: "uint32 \<Rightarrow> uint32" where "sum32_Reset s = offset32"

definition sum32_Write :: "uint32 \<Rightarrow> byte list \<Rightarrow> uint32 \<times> nat" where
  "sum32_Write s data = (sum32_loop s data, length data)"

definition sum32_Sum :: "uint32 \<Rightarrow> byte list \<Rightarrow> byte list" where
  "sum32_Sum s inp = sum_bytes32 inp s"

definition sum32a_New :: uint32 where "sum32a_New = offset32"

definition sum32a_Reset :: "uint32 \<Rightarrow> uint32" where "sum32a_Reset s = offset32"

definition sum32a_Write :: "uint32 \<Rightarrow> byte list \<Rightarrow> uint32 \<times> nat" where
  "sum32a_Write s data = (sum32a_loop s data, length data)"

definition sum32a_Sum :: "uint32 \<Rightarrow> byte list \<Rightarrow> byte list" where
  "sum32a_Sum s inp = sum_bytes32 inp s"

definition sum64_New :: uint64 where "sum64_New = offset64"

definition sum64_Reset :: "uint64 \<Rightarrow> uint64" where "sum64_Reset s = offset64"

definition sum64_Write :: "uint64 \<Rightarrow> byte list \<Rightarrow> uint64 \<times> nat" where
  "sum64_Write s data = (sum64_loop s data, length data)"

definition sum64_Sum :: "uint64 \<Rightarrow> byte list \<Rightarrow> byte list" where
  "sum64_Sum s inp = sum_bytes64 inp s"

definition sum64a_New :: uint64 where "sum64a_New = offset64"

definition sum64a_Reset :: "uint64 \<Rightarrow> uint64" where "sum64a_Reset s = offset64"

definition sum64a_Write :: "uint64 \<Rightarrow> byte list \<Rightarrow> uint64 \<times> nat" where
  "sum64a_Write s data = (sum64a_loop s data, length data)"

definition sum64a_Sum :: "uint64 \<Rightarrow> byte list \<Rightarrow> byte list" where
  "sum64a_Sum s inp = sum_bytes64 inp s"

end
