(* ===== verification/Adler.thy ===== *)
theory Adler
  imports HashDefs
begin

text \<open>
  Adler-32 reduces its sums once per block of nmax bytes. Here: no block overflows 32 bits, so that the digest
  holds the two sums of RFC 1950 modulo 65521; what it takes for the digest to be a
  streaming hash.
\<close>

unbundle bit_operations_syntax

text \<open>The two sums of RFC 1950 without any reduction: the bytes, and the bytes weighted by their distance from the end.\<close>

definition plain_sum :: "byte list \<Rightarrow> nat" where "plain_sum p = sum_list (map unat p)"

fun weighted_sum :: "byte list \<Rightarrow> nat" where
  "weighted_sum [] = 0"
| "weighted_sum (x # p) = (length p + 1) * unat x + weighted_sum p"

lemma plain_sum_simps [simp]: "plain_sum [] = 0" "plain_sum (x # p) = unat x + plain_sum p"
  "plain_sum (p @ q) = plain_sum p + plain_sum q"
  by (simp_all add: plain_sum_def)

lemma weighted_sum_append: "weighted_sum (p @ q) = weighted_sum p + length q * plain_sum p + weighted_sum q"
  by (induction p) (simp_all add: algebra_simps)

lemma unat_byte: "unat x \<le> 255" for x :: byte
  using unsigned_less [of x, where ?'a = nat] by simp

lemma plain_sum_le: "plain_sum p \<le> 255 * length p"
proof (induction p)
  case (Cons x p)
  then show ?case using unat_byte [of x] by simp
qed simp

lemma weighted_sum_le: "2 * weighted_sum p \<le> 255 * (length p * (length p + 1))"
proof (induction p)
  case (Cons x p)
  have "(length p + 1) * unat x \<le> (length p + 1) * 255" using unat_byte [of x] by (rule mult_le_mono2)
  then show ?case using Cons.IH by (simp add: algebra_simps)
qed simp

text \<open>A block that does not overflow.\<close>

lemma adler_block_sums:
  assumes "unat s1 + plain_sum p < 2 ^ 32" "unat s2 + length p * unat s1 + weighted_sum p < 2 ^ 32"
    "adler_block p s1 s2 = (t1, t2)"
  shows "unat t1 = unat s1 + plain_sum p \<and> unat t2 = unat s2 + length p * unat s1 + weighted_sum p"
  using assms
proof (induction p arbitrary: s1 s2)
  case (Cons x p)
  have x: "unat (ucast x :: uint32) = unat x" using unat_byte [of x] by (simp add: unsigned_ucast_eq take_bit_nat_eq_self)
  have 1: "unat (s1 + ucast x) = unat s1 + unat x"
    using Cons.prems(1) x by (simp add: unat_word_ariths)
  have 2: "unat (s2 + (s1 + ucast x)) = unat s2 + unat s1 + unat x"
    using Cons.prems(2) unat_word_ariths(1) [of s2 "s1 + ucast x"] unfolding 1 by simp
  show ?case using Cons.IH [of "s1 + ucast x" "s2 + (s1 + ucast x)"] Cons.prems
    unfolding 1 2 by (simp add: Let_def algebra_simps)
qed simp

text \<open>The comment on nmax: the longest block for which the sums fit 32 bits.\<close>

lemma nmax_fits: "255 * (nmax * (nmax + 1)) div 2 + (nmax + 1) * 65520 < 2 ^ 32"
  "\<not> 255 * ((nmax + 1) * (nmax + 2)) div 2 + (nmax + 2) * 65520 < (2 :: nat) ^ 32"
  by (simp_all add: nmax_def)

lemma block_fits:
  assumes "length p \<le> nmax" "a < 65521" "b < 65521"
  shows "a + plain_sum p < 2 ^ 32" "b + length p * a + weighted_sum p < 2 ^ 32"
proof -
  show "a + plain_sum p < 2 ^ 32" using plain_sum_le [of p] assms by (simp add: nmax_def)
  have "length p * (length p + 1) \<le> nmax * (nmax + 1)" "length p * a \<le> nmax * 65520"
    using assms by (intro mult_le_mono; simp)+
  then show "b + length p * a + weighted_sum p < 2 ^ 32"
    using weighted_sum_le [of p] assms(3) by (simp add: nmax_def)
qed

lemma unat_mod_adler: "unat (s mod adler_mod) = unat s mod 65521"
  by (simp add: adler_mod_def unat_mod)

lemma mod_absorb: "(y mod m + n * (x mod m) + w) mod m = (y + n * x + w) mod m" for m :: nat
  by (intro mod_add_cong) (simp_all add: mod_mult_right_eq)

lemma adler_loop_sums:
  assumes "unat s1 < 65521" "unat s2 < 65521" "adler_loop p s1 s2 = (t1, t2)"
  shows "unat t1 = (unat s1 + plain_sum p) mod 65521 \<and>
    unat t2 = (unat s2 + length p * unat s1 + weighted_sum p) mod 65521"
  using assms
proof (induction p arbitrary: s1 s2 rule: length_induct)
  case (1 p)
  define q r where qr: "q = take nmax p" "r = drop nmax p"
  obtain u1 u2 where u: "adler_block q s1 s2 = (u1, u2)" by force
  have eq: "p \<noteq> [] \<Longrightarrow> adler_loop p s1 s2 = adler_loop r (u1 mod adler_mod) (u2 mod adler_mod)"
    using u by (subst adler_loop.simps) (auto simp: qr)
  have blk: "unat u1 = unat s1 + plain_sum q \<and> unat u2 = unat s2 + length q * unat s1 + weighted_sum q"
    using block_fits [of q "unat s1" "unat s2"] "1.prems"(1,2) u by (intro adler_block_sums) (auto simp: qr)
  show ?case
  proof (cases "p = []")
    case True
    then show ?thesis using "1.prems" by (simp add: adler_loop.simps)
  next
    case False
    have IH: "unat t1 = (unat (u1 mod adler_mod) + plain_sum r) mod 65521 \<and>
      unat t2 = (unat (u2 mod adler_mod) + length r * unat (u1 mod adler_mod) + weighted_sum r) mod 65521"
      using "1.prems"(3) eq False by (intro "1.IH" [rule_format]) (simp_all add: qr nmax_def unat_mod_adler)
    have p: "p = q @ r" by (simp add: qr)
    show ?thesis unfolding p using IH blk
      by (simp add: unat_mod_adler weighted_sum_append mod_absorb mod_simps, simp add: algebra_simps)
  qed
qed

text \<open>A digest of which both halves are reduced.\<close>

definition adler_ok :: "uint32 \<Rightarrow> bool" where
  "adler_ok d \<longleftrightarrow> unat d mod 65536 < 65521 \<and> unat d div 65536 < 65521"

lemma adler_update_sums:
  assumes "adler_ok d"
  shows "unat (adler_update d p) =
    (unat d div 65536 + length p * (unat d mod 65536) + weighted_sum p) mod 65521 * 65536 +
    (unat d mod 65536 + plain_sum p) mod 65521"
proof -
  obtain t1 t2 where t: "adler_loop p (d AND 0xFFFF) (drop_bit 16 d) = (t1, t2)" by force
  have "(0xFFFF :: uint32) = mask 16" by (simp add: mask_eq_exp_minus_1)
  then have s: "unat (d AND 0xFFFF) = unat d mod 65536" "unat (drop_bit 16 d) = unat d div 65536"
    using unat_and_mask [of d 16] by (simp_all add: unat_drop_bit)
  have u: "unat t1 = (unat d mod 65536 + plain_sum p) mod 65521"
    "unat t2 = (unat d div 65536 + length p * (unat d mod 65536) + weighted_sum p) mod 65521"
    using adler_loop_sums [OF _ _ t] assms by (simp_all add: s adler_ok_def)
  have "unat t1 < 65521" "unat t2 < 65521" by (simp_all add: u)
  then have "unat (push_bit 16 t2) = unat t2 * 65536" using unat_push_bit [of t2 16] by simp
  moreover have "unat (push_bit 16 t2 OR t1) = unat (push_bit 16 t2) + unat t1"
    using \<open>unat t1 < 65521\<close> \<open>unat t2 < 65521\<close> calculation
    by (intro unat_join [of 16]) (simp_all add: take_bit_push_bit_zero)
  ultimately show ?thesis by (simp add: adler_update_def t u)
qed

lemma adler_update_halves:
  assumes "adler_ok d"
  shows "unat (adler_update d p) mod 65536 = (unat d mod 65536 + plain_sum p) mod 65521"
    "unat (adler_update d p) div 65536 =
      (unat d div 65536 + length p * (unat d mod 65536) + weighted_sum p) mod 65521"
proof -
  have "k mod 65521 < (65536 :: nat)" for k by (rule less_trans [of _ 65521]) simp_all
  then show "unat (adler_update d p) mod 65536 = (unat d mod 65536 + plain_sum p) mod 65521"
    "unat (adler_update d p) div 65536 =
      (unat d div 65536 + length p * (unat d mod 65536) + weighted_sum p) mod 65521"
    by (simp_all add: adler_update_sums [OF assms])
qed

lemma adler_update_ok: "adler_ok d \<Longrightarrow> adler_ok (adler_update d p)"
  by (simp add: adler_ok_def [of "adler_update d p"] adler_update_halves)

lemma digest_eqI: "unat d mod 65536 = unat e mod 65536 \<Longrightarrow> unat d div 65536 = unat e div 65536 \<Longrightarrow> d = e" for d e :: uint32
  by (metis div_mult_mod_eq word_unat_eq_iff)

lemma adler_update_Cons:
  assumes "adler_ok d"
  shows "adler_update d (c # p) = adler_update (adler_update d [c]) p"
  by (rule digest_eqI) (simp_all add: adler_update_halves adler_update_ok assms mod_absorb mod_simps, simp_all add: algebra_simps)

lemma adler_update_Nil: "adler_ok d \<Longrightarrow> adler_update d [] = d"
  by (rule digest_eqI) (simp_all add: adler_update_halves, simp_all add: adler_ok_def)

lemma adler_update_foldl: "adler_ok d \<Longrightarrow> adler_update d p = foldl (\<lambda>d c. adler_update d [c]) d p"
proof (induction p arbitrary: d)
  case (Cons c p)
  show ?case unfolding adler_update_Cons [OF Cons.prems, of c p] foldl.simps
    by (rule Cons.IH [OF adler_update_ok [OF Cons.prems]])
qed (simp add: adler_update_Nil)

lemma mod_cancel: "(a + c) mod m = (b + c) mod m \<Longrightarrow> a < m \<Longrightarrow> b < m \<Longrightarrow> a = b" for a b c m :: nat
proof (induction a b rule: linorder_wlog)
  case (le a b)
  then have "m dvd (b + c) - (a + c)" by (metis add_le_mono1 mod_eq_dvd_iff_nat)
  then show ?case using le by (auto dest: dvd_imp_le)
qed simp

lemma adler_step_state:
  assumes "adler_ok d" "adler_ok e" "adler_update d [c] = adler_update e [c]"
  shows "d = e"
proof (rule digest_eqI)
  show lo: "unat d mod 65536 = unat e mod 65536"
  proof (rule mod_cancel)
    show "(unat d mod 65536 + unat c) mod 65521 = (unat e mod 65536 + unat c) mod 65521"
      using adler_update_halves(1) [OF assms(1), of "[c]"] adler_update_halves(1) [OF assms(2), of "[c]"] assms(3) by simp
  qed (use assms in \<open>simp_all add: adler_ok_def\<close>)
  show "unat d div 65536 = unat e div 65536"
  proof (rule mod_cancel)
    show "(unat d div 65536 + (unat d mod 65536 + unat c)) mod 65521 = (unat e div 65536 + (unat d mod 65536 + unat c)) mod 65521"
      using adler_update_halves(2) [OF assms(1), of "[c]"] adler_update_halves(2) [OF assms(2), of "[c]"] assms(3) lo
      by (simp add: add.assoc)
  qed (use assms in \<open>simp_all add: adler_ok_def\<close>)
qed

lemma adler_step_byte:
  assumes "adler_ok d" "adler_update d [c] = adler_update d [c']"
  shows "c = c'"
proof -
  have "unat c = unat c'"
  proof (rule mod_cancel)
    show "(unat c + unat d mod 65536) mod 65521 = (unat c' + unat d mod 65536) mod 65521"
      using adler_update_halves(1) [OF assms(1), of "[c]"] adler_update_halves(1) [OF assms(1), of "[c']"] assms(2)
      by (simp add: add.commute)
  qed (use unat_byte [of c] unat_byte [of c'] in simp_all)
  then show ?thesis by (simp add: word_unat_eq_iff)
qed

end
