(* ===== verification/Hashes.thy ===== *)
theory Hashes
  imports Adler BinaryCorrect
begin

text \<open>
  Correctness of the checksums: Adler-32 is the pair of sums modulo 65521 although it reduces only once per
  block; the table-driven CRC is the division bit by bit; all of them can be computed piece by
  piece, and tell two texts apart that differ in one byte only.
\<close>

unbundle bit_operations_syntax

section \<open>Streaming hashes\<close>

text \<open>A hash that takes its bytes one after the other, with a step that is injective in the state and in the byte.\<close>

locale streaming_hash =
  fixes step :: "'s \<Rightarrow> byte \<Rightarrow> 's" and absorb :: "'s \<Rightarrow> byte list \<Rightarrow> 's" and ok :: "'s \<Rightarrow> bool"
  assumes absorb_foldl: "ok s \<Longrightarrow> absorb s p = foldl step s p"
    and step_ok: "ok s \<Longrightarrow> ok (step s c)"
    and step_state: "ok s \<Longrightarrow> ok s' \<Longrightarrow> step s c = step s' c \<Longrightarrow> s = s'"
    and step_byte: "ok s \<Longrightarrow> step s c = step s c' \<Longrightarrow> c = c'"
begin

lemma foldl_ok: "ok s \<Longrightarrow> ok (foldl step s p)"
  by (induction p arbitrary: s) (simp_all add: step_ok)

lemma absorb_ok: "ok s \<Longrightarrow> ok (absorb s p)"
  by (simp add: absorb_foldl foldl_ok)

lemma absorb_append: "ok s \<Longrightarrow> absorb s (p @ q) = absorb (absorb s p) q"
  by (simp add: absorb_foldl foldl_ok)

lemma foldl_state: "ok s \<Longrightarrow> ok s' \<Longrightarrow> foldl step s p = foldl step s' p \<Longrightarrow> s = s'"
proof (induction p arbitrary: s s')
  case (Cons c p)
  have "step s c = step s' c" using Cons.prems by (intro Cons.IH [of "step s c" "step s' c"] step_ok) simp_all
  then show ?case by (rule step_state [OF Cons.prems(1,2)])
qed simp

lemma detects:
  assumes "ok s" "c \<noteq> c'"
  shows "absorb s (p @ c # q) \<noteq> absorb s (p @ c' # q)"
proof
  assume "absorb s (p @ c # q) = absorb s (p @ c' # q)"
  then have "foldl step (step (foldl step s p) c) q = foldl step (step (foldl step s p) c') q"
    using assms(1) by (simp add: absorb_foldl)
  then have "step (foldl step s p) c = step (foldl step s p) c'"
    by (rule foldl_state [rotated 2]) (simp_all add: step_ok foldl_ok assms(1))
  then show False using step_byte [OF foldl_ok [OF assms(1)]] assms(2) by blast
qed

end

section \<open>CRC\<close>

lemma xor_zero_iff: "a XOR b = 0 \<longleftrightarrow> a = b" for a b :: "'a::len word"
  by (metis xor.assoc xor.left_neutral xor.right_neutral xor_self_eq)

lemma xor_cancel: "a XOR c = b XOR c \<longleftrightarrow> a = b" "c XOR a = c XOR b \<longleftrightarrow> a = b" for a b c :: "'a::len word"
  by (auto simp: bit_eq_iff bit_xor_iff)

lemma crc_bit_odd: "crc_bit poly x = (if odd x then drop_bit 1 x XOR poly else drop_bit 1 x)"
  by (simp add: crc_bit_def and_one_eq odd_iff_mod_2_eq_one)

lemma crc_bit_xor: "crc_bit poly (a XOR b) = crc_bit poly a XOR crc_bit poly b" for poly :: "'a::len word"
  by (cases "odd a"; cases "odd b")
     (simp_all add: crc_bit_odd even_xor_iff drop_bit_xor ac_simps)

lemma crc_bits_xor: "crc_bits n poly (a XOR b) = crc_bits n poly a XOR crc_bits n poly b"
  by (induction n arbitrary: a b) (simp_all add: crc_bit_xor)

lemma crc_bits_high: "take_bit n x = 0 \<Longrightarrow> crc_bits n poly x = drop_bit n x"
proof (induction n arbitrary: x)
  case (Suc n)
  have "\<not> bit x 0" using Suc.prems by (metis bit_0_eq bit_take_bit_iff bot_apply bot_bool_def zero_less_Suc)
  then have "crc_bit poly x = drop_bit 1 x" by (simp add: crc_bit_odd bit_0)
  moreover have "take_bit n (drop_bit 1 x) = 0" using Suc.prems by (simp add: take_bit_drop_bit)
  ultimately show ?case using Suc.IH by (simp add: drop_bit_drop_bit)
qed simp

text \<open>What the table holds for a byte gives eight turns at once.\<close>

lemma table_step:
  fixes crc :: "'a::len word" and v :: byte
  assumes "8 \<le> LENGTH('a)" and tab: "\<And>i. i < 256 \<Longrightarrow> tab ! i = crc_bits 8 poly (of_nat i)"
  shows "tab ! unat (ucast crc XOR v) XOR drop_bit 8 crc = crc_bits 8 poly (crc XOR ucast v)"
proof -
  let ?w = "ucast crc XOR v" and ?h = "push_bit 8 (drop_bit 8 crc)"
  have "unat ?w < 256" using unsigned_less [of ?w] by simp
  then have "tab ! unat ?w = crc_bits 8 poly (ucast ?w)" by (simp add: tab)
  moreover have "crc_bits 8 poly ?h = drop_bit 8 crc"
    by (subst crc_bits_high) (simp add: take_bit_push_bit_zero, rule bit_word_eqI, auto simp: bit_simps dest: bit_imp_le_length)
  moreover have "crc XOR ucast v = ucast ?w XOR ?h"
    using assms(1) by (intro bit_word_eqI) (auto simp: bit_simps)
  ultimately show ?thesis by (simp add: crc_bits_xor)
qed

lemma crc_bit_inj:
  fixes poly :: "'a::len word"
  assumes "bit poly (LENGTH('a) - 1)" "crc_bit poly a = crc_bit poly b"
  shows "a = b"
proof -
  have "crc_bit poly (a XOR b) = 0" using assms(2) by (simp add: crc_bit_xor)
  moreover have "x = 0" if "crc_bit poly x = 0" for x
  proof (cases "odd x")
    case True
    then have "drop_bit 1 x = poly" using that by (simp add: crc_bit_odd xor_zero_iff)
    moreover have "\<not> bit (drop_bit 1 x) (LENGTH('a) - 1)" by (simp add: bit_simps)
    ultimately show ?thesis using assms(1) by simp
  next
    case False
    then have "drop_bit 1 x = 0" using that by (simp add: crc_bit_odd)
    then show ?thesis using False bits_ident [of 1 x] by (simp add: take_bit_Suc even_iff_mod_2_eq_zero)
  qed
  ultimately show ?thesis by (metis xor_zero_iff)
qed

lemma crc_bits_inj:
  fixes poly :: "'a::len word"
  assumes "bit poly (LENGTH('a) - 1)"
  shows "crc_bits n poly a = crc_bits n poly b \<Longrightarrow> a = b"
proof (induction n arbitrary: a b)
  case (Suc n)
  have "crc_bit poly a = crc_bit poly b" by (rule Suc.IH) (use Suc.prems in simp)
  then show ?case by (rule crc_bit_inj [OF assms])
qed simp

text \<open>The register after one byte, and the two tables.\<close>

definition crc_byte :: "'a::len word \<Rightarrow> 'a word \<Rightarrow> byte \<Rightarrow> 'a word" where
  "crc_byte poly crc v = NOT (crc_bits 8 poly (NOT crc XOR ucast v))"

lemma crc_update_foldl:
  fixes crc :: "'a::len word"
  assumes "8 \<le> LENGTH('a)" and tab: "\<And>i. i < 256 \<Longrightarrow> tab ! i = crc_bits 8 poly (of_nat i)"
  shows "NOT (crc_update_loop tab p (NOT crc)) = foldl (crc_byte poly) crc p"
proof (induction p arbitrary: crc)
  case (Cons v p)
  show ?case using Cons.IH [of "crc_byte poly crc v"] table_step [OF assms, of "NOT crc" v]
    by (simp add: crc_byte_def)
qed simp

lemma nth_makeTable: "i < 256 \<Longrightarrow> makeTable poly ! i = crc_bits 8 poly (of_nat i)"
  by (simp add: makeTable_def)

lemma nth_crc64_MakeTable: "i < 256 \<Longrightarrow> crc64_MakeTable poly ! i = crc_bits 8 poly (of_nat i)"
  by (simp add: crc64_MakeTable_def)

lemma Update_foldl: "Update crc (MakeTable poly) p = foldl (crc_byte poly) crc p"
  using crc_update_foldl [OF _ nth_makeTable, of poly p crc]
  by (auto simp: Update_def MakeTable_def updateCastagnoli_def crc32_update_def)

lemma ChecksumIEEE_eq: "ChecksumIEEE p = crc32_Checksum p (MakeTable IEEE)"
  by (simp add: ChecksumIEEE_def crc32_Checksum_def Update_def MakeTable_def)

lemma crc64_update_foldl: "crc64_update crc (crc64_MakeTable poly) p = foldl (crc_byte poly) crc p"
  using crc_update_foldl [OF _ nth_crc64_MakeTable, of poly p crc] by (simp add: crc64_update_def)

lemma crc_byte_state:
  fixes poly :: "'a::len word"
  assumes "bit poly (LENGTH('a) - 1)" "crc_byte poly s c = crc_byte poly s' c"
  shows "s = s'"
proof -
  have "NOT s XOR ucast c = NOT s' XOR ucast c"
    by (rule crc_bits_inj [OF assms(1), of 8]) (use assms(2) in \<open>simp add: crc_byte_def\<close>)
  then show ?thesis by (simp add: xor_cancel bit.compl_eq_compl_iff)
qed

lemma ucast_byte_inj: "8 \<le> LENGTH('a) \<Longrightarrow> (ucast c :: 'a::len word) = ucast c' \<Longrightarrow> c = c'" for c c' :: byte
proof (rule bit_word_eqI)
  fix n assume "8 \<le> LENGTH('a)" "(ucast c :: 'a word) = ucast c'" and n: "n < LENGTH(8)"
  then have "bit (ucast c :: 'a word) n = bit (ucast c' :: 'a word) n" by simp
  then show "bit c n = bit c' n" using \<open>8 \<le> LENGTH('a)\<close> n by (simp add: bit_simps)
qed

lemma crc_byte_byte:
  fixes poly :: "'a::len word"
  assumes "bit poly (LENGTH('a) - 1)" "8 \<le> LENGTH('a)" "crc_byte poly s c = crc_byte poly s c'"
  shows "c = c'"
proof -
  have "NOT s XOR ucast c = NOT s XOR ucast c'"
    by (rule crc_bits_inj [OF assms(1), of 8]) (use assms(3) in \<open>simp add: crc_byte_def\<close>)
  then have "(ucast c :: 'a word) = ucast c'" by (simp only: xor_cancel)
  then show ?thesis by (rule ucast_byte_inj [OF assms(2)])
qed

text \<open>The register fed one bit at a time, the least significant bit of a byte first.\<close>

fun crc_serial :: "'a::len word \<Rightarrow> 'a word \<Rightarrow> bool list \<Rightarrow> 'a word" where
  "crc_serial poly crc [] = crc"
| "crc_serial poly crc (b # bs) = crc_serial poly (crc_bit poly (crc XOR of_bool b)) bs"

definition byte_bits :: "byte \<Rightarrow> bool list" where
  "byte_bits v = map (bit v) [0..<8]"

lemma crc_serial_append: "crc_serial poly crc (bs @ cs) = crc_serial poly (crc_serial poly crc bs) cs"
  by (induction bs arbitrary: crc) simp_all

lemma crc_bit_low: "crc_bit poly (crc XOR x) = crc_bit poly (crc XOR of_bool (bit x 0)) XOR drop_bit 1 x"
proof -
  have x: "x = take_bit k x XOR push_bit k (drop_bit k x)" "drop_bit k (push_bit k (drop_bit k x)) = drop_bit k x" for k
    by (rule bit_word_eqI; auto simp: bit_simps dest: bit_imp_le_length)+
  have "crc_bit poly (crc XOR x) = crc_bit poly (crc XOR take_bit 1 x) XOR crc_bit poly (push_bit 1 (drop_bit 1 x))"
    using x(1) [of 1] by (metis crc_bit_xor xor.assoc)
  moreover have "crc_bit poly (push_bit 1 (drop_bit 1 x)) = drop_bit 1 x"
    unfolding crc_bit_odd x(2) [of 1] by (simp add: even_push_bit_iff)
  moreover have "take_bit 1 x = of_bool (bit x 0)" by (simp add: take_bit_Suc bit_0 odd_iff_mod_2_eq_one mod2_eq_if)
  ultimately show ?thesis by simp
qed

lemma crc_bits_serial:
  "take_bit n x = x \<Longrightarrow> crc_bits n poly (crc XOR x) = crc_serial poly crc (map (bit x) [0..<n])"
proof (induction n arbitrary: crc x)
  case (Suc n)
  have "take_bit n (drop_bit 1 x) = drop_bit 1 x"
    using Suc.prems by (metis drop_bit_take_bit take_bit_drop_bit add.commute plus_1_eq_Suc)
  then have "crc_bits n poly (crc_bit poly (crc XOR of_bool (bit x 0)) XOR drop_bit 1 x) =
      crc_serial poly (crc_bit poly (crc XOR of_bool (bit x 0))) (map (bit (drop_bit 1 x)) [0..<n])"
    by (rule Suc.IH)
  moreover have "map (bit x) [0..<Suc n] = bit x 0 # map (bit (drop_bit 1 x)) [0..<n]"
    by (simp add: upt_conv_Cons map_Suc_upt [symmetric] bit_drop_bit_eq o_def del: upt_Suc)
  ultimately show ?case unfolding crc_bits.simps crc_bit_low [of poly crc x] by simp
qed simp

lemma crc_byte_serial:
  fixes poly :: "'a::len word"
  assumes "8 \<le> LENGTH('a)"
  shows "crc_byte poly crc v = NOT (crc_serial poly (NOT crc) (byte_bits v))"
proof -
  have "take_bit 8 (ucast v :: 'a word) = ucast v" using assms by (intro bit_word_eqI) (auto simp: bit_simps dest: bit_imp_le_length)
  moreover have "map (bit (ucast v :: 'a word)) [0..<8] = byte_bits v"
    using assms by (simp add: byte_bits_def bit_simps)
  ultimately show ?thesis using crc_bits_serial [of 8 "ucast v" poly "NOT crc"] by (simp add: crc_byte_def)
qed

lemma foldl_crc_serial:
  fixes poly :: "'a::len word"
  assumes "8 \<le> LENGTH('a)"
  shows "foldl (crc_byte poly) crc p = NOT (crc_serial poly (NOT crc) (concat (map byte_bits p)))"
  by (induction p arbitrary: crc) (simp_all add: crc_byte_serial assms crc_serial_append)

section \<open>FNV\<close>

lemma prime32_inverse: "prime32 * 0x359c449b = 1" by (simp add: prime32_def)

lemma prime64_inverse: "prime64 * 0xce965057aff6957b = 1" by (simp add: prime64_def)

lemma odd_mult_cancel: "(q :: 'a::len word) * r = 1 \<Longrightarrow> a * q = b * q \<longleftrightarrow> a = b"
  by (metis mult.assoc mult.right_neutral)

lemmas fnv_cancel = odd_mult_cancel [OF prime32_inverse] odd_mult_cancel [OF prime64_inverse] xor_cancel

lemma fnv_foldl:
  "sum32_loop h p = foldl (\<lambda>h c. h * prime32 XOR ucast c) h p"
  "sum32a_loop h p = foldl (\<lambda>h c. (h XOR ucast c) * prime32) h p"
  "sum64_loop g p = foldl (\<lambda>h c. h * prime64 XOR ucast c) g p"
  "sum64a_loop g p = foldl (\<lambda>h c. (h XOR ucast c) * prime64) g p"
  by (induction p arbitrary: h g) (simp_all add: Let_def)

section \<open>Interpretations\<close>

interpretation adler: streaming_hash "\<lambda>d c. adler_update d [c]" adler_update adler_ok
proof unfold_locales
  fix s s' c c'
  show "adler_ok s \<Longrightarrow> adler_ok s' \<Longrightarrow> adler_update s [c] = adler_update s' [c] \<Longrightarrow> s = s'" by (rule adler_step_state)
  show "adler_ok s \<Longrightarrow> adler_update s [c] = adler_update s [c'] \<Longrightarrow> c = c'" by (rule adler_step_byte)
qed (simp_all add: adler_update_ok adler_update_foldl [symmetric])

text \<open>Every predefined polynomial has a constant term, which the reversed notation keeps in the highest bit.\<close>

lemma top_bits:
  "bit IEEE 31" "bit Castagnoli 31" "bit Koopman 31" "bit ISO 63" "bit ECMA 63"
  by (simp_all add: IEEE_def Castagnoli_def Koopman_def ISO_def ECMA_def)

lemma crc32_streaming:
  "bit poly 31 \<Longrightarrow> streaming_hash (crc_byte poly) (\<lambda>crc p. Update crc (MakeTable poly) p) (\<lambda>_. True)"
  using crc_byte_state [of poly] crc_byte_byte [of poly] by unfold_locales (simp_all add: Update_foldl)

lemma crc64_streaming:
  "bit poly 63 \<Longrightarrow> streaming_hash (crc_byte poly) (\<lambda>crc p. crc64_update crc (crc64_MakeTable poly) p) (\<lambda>_. True)"
  using crc_byte_state [of poly] crc_byte_byte [of poly] by unfold_locales (simp_all add: crc64_update_foldl)

interpretation ieee: streaming_hash "crc_byte IEEE" "\<lambda>crc p. Update crc (MakeTable IEEE) p" "\<lambda>_. True"
  by (rule crc32_streaming [OF top_bits(1)])

interpretation castagnoli: streaming_hash "crc_byte Castagnoli" "\<lambda>crc p. Update crc (MakeTable Castagnoli) p" "\<lambda>_. True"
  by (rule crc32_streaming [OF top_bits(2)])

interpretation koopman: streaming_hash "crc_byte Koopman" "\<lambda>crc p. Update crc (MakeTable Koopman) p" "\<lambda>_. True"
  by (rule crc32_streaming [OF top_bits(3)])

interpretation iso: streaming_hash "crc_byte ISO" "\<lambda>crc p. crc64_update crc (crc64_MakeTable ISO) p" "\<lambda>_. True"
  by (rule crc64_streaming [OF top_bits(4)])

interpretation ecma: streaming_hash "crc_byte ECMA" "\<lambda>crc p. crc64_update crc (crc64_MakeTable ECMA) p" "\<lambda>_. True"
  by (rule crc64_streaming [OF top_bits(5)])

interpretation fnv32: streaming_hash "\<lambda>h c. h * prime32 XOR ucast c" sum32_loop "\<lambda>_. True"
  by unfold_locales (auto simp: fnv_foldl fnv_cancel dest: ucast_byte_inj [rotated])

interpretation fnv32a: streaming_hash "\<lambda>h c. (h XOR ucast c) * prime32" sum32a_loop "\<lambda>_. True"
  by unfold_locales (auto simp: fnv_foldl fnv_cancel dest: ucast_byte_inj [rotated])

interpretation fnv64: streaming_hash "\<lambda>h c. h * prime64 XOR ucast c" sum64_loop "\<lambda>_. True"
  by unfold_locales (auto simp: fnv_foldl fnv_cancel dest: ucast_byte_inj [rotated])

interpretation fnv64a: streaming_hash "\<lambda>h c. (h XOR ucast c) * prime64" sum64a_loop "\<lambda>_. True"
  by unfold_locales (auto simp: fnv_foldl fnv_cancel dest: ucast_byte_inj [rotated])

section \<open>Writing in pieces\<close>

text \<open>The digest after a sequence of calls of Write.\<close>

definition written :: "('d \<Rightarrow> byte list \<Rightarrow> 'd \<times> nat) \<Rightarrow> 'd \<Rightarrow> byte list list \<Rightarrow> 'd" where
  "written wr d ps = foldl (\<lambda>d p. fst (wr d p)) d ps"

lemma written_simps [simp]: "written wr d [] = d" "written wr d (p # ps) = written wr (fst (wr d p)) ps"
  by (simp_all add: written_def)

lemma crc_update_loop_append:
  "crc_update_loop tab (p @ q) crc = crc_update_loop tab q (crc_update_loop tab p crc)"
  by (induction p arbitrary: crc) simp_all

lemma Update_append: "Update crc t (p @ q) = Update (Update crc t p) t q"
  by (simp add: Update_def updateCastagnoli_def crc32_update_def crc_update_loop_append)

lemma crc64_update_append: "crc64_update crc t (p @ q) = crc64_update (crc64_update crc t p) t q"
  by (simp add: crc64_update_def crc_update_loop_append)

lemma update_Nil: "Update crc t [] = crc" "crc64_update crc64 tab [] = crc64"
  by (simp_all add: Update_def updateCastagnoli_def crc32_update_def crc64_update_def)

lemma crc32_written: "written crc32_Write d ps = d\<lparr>d_crc := Update (d_crc d) (d_tab d) (concat ps)\<rparr>"
  by (induction ps arbitrary: d) (simp_all add: crc32_Write_def update_Nil Update_append)

lemma crc64_written: "written crc64_Write d ps = d\<lparr>d_crc64 := crc64_update (d_crc64 d) (d_tab64 d) (concat ps)\<rparr>"
  by (induction ps arbitrary: d) (simp_all add: crc64_Write_def update_Nil crc64_update_append)

lemma adler_written: "adler_ok d \<Longrightarrow> written adler_Write d ps = adler_update d (concat ps)"
  by (induction ps arbitrary: d)
    (simp_all add: adler_Write_def adler_update_Nil adler_update_ok adler.absorb_append)

lemma fnv_written:
  "written sum32_Write h ps = sum32_loop h (concat ps)" "written sum32a_Write h ps = sum32a_loop h (concat ps)"
  "written sum64_Write g ps = sum64_loop g (concat ps)" "written sum64a_Write g ps = sum64a_loop g (concat ps)"
  by (induction ps arbitrary: h g)
    (simp_all add: sum32_Write_def sum32a_Write_def sum64_Write_def sum64a_Write_def
      fnv32.absorb_append fnv32a.absorb_append fnv64.absorb_append fnv64a.absorb_append)

lemma adler_ok_New: "adler_ok adler_New" "adler_ok 1"
  by (simp_all add: adler_ok_def adler_New_def adler_Reset_def)

lemma sum_bytes_big: "sum_bytes32 inp s = inp @ rev (le32 s)" "sum_bytes64 inp t = inp @ rev (le64 t)"
  by (simp_all add: sum_bytes32_def sum_bytes64_def le32_def le64_def)

text \<open>What Sum appends, read as a big-endian number.\<close>

definition big_sum32 :: "byte list \<Rightarrow> byte list \<Rightarrow> uint32 option" where
  "big_sum32 inp out = (if take (length inp) out = inp then Uint32 BigEndian (drop (length inp) out) else None)"

definition big_sum64 :: "byte list \<Rightarrow> byte list \<Rightarrow> uint64 option" where
  "big_sum64 inp out = (if take (length inp) out = inp then Uint64 BigEndian (drop (length inp) out) else None)"

lemma big_sum: "big_sum32 inp (sum_bytes32 inp s) = Some s" "big_sum64 inp (sum_bytes64 inp t) = Some t"
  using big.get32 [of s "[]"] big.get64 [of t "[]"] by (simp_all add: big_sum32_def big_sum64_def sum_bytes_big)

section \<open>Results\<close>

text \<open>
  C37. Adler-32 is the checksum of RFC 1950: the low half is one plus the sum of the bytes, the high half the
  sum of the successive values of the low half, both modulo 65521, for data of any length. Sums of
  5552 bytes and one reduction per block do not overflow the 32 bits of s1 and s2.
\<close>
theorem adler_rfc1950:
  "unat (adler_Checksum p) = (length p + weighted_sum p) mod 65521 * 65536 + (1 + plain_sum p) mod 65521"
  using adler_update_sums [OF adler_ok_New(2), of p] by (simp add: adler_Checksum_def)

text \<open>
  C38. The table-driven CRC is the bit-serial one: for every polynomial, shared table or not, Update of crc32 and
  of crc64 leave in the register what shifting the data through it bit by bit leaves, the least
  significant bit of each byte first, with the register complemented before and after.
\<close>
theorem crc_bitwise:
  "Update crc (MakeTable poly) p = NOT (crc_serial poly (NOT crc) (concat (map byte_bits p))) \<and>
   ChecksumIEEE p = crc32_Checksum p (MakeTable IEEE) \<and>
   crc64_Update crc64 (crc64_MakeTable poly64) p = NOT (crc_serial poly64 (NOT crc64) (concat (map byte_bits p)))"
  by (simp add: ChecksumIEEE_eq Update_foldl crc64_Update_def crc64_update_foldl foldl_crc_serial)

text \<open>
  C39. A hash does not depend on how its data is cut into calls of Write: after New and any sequence of writes,
  Sum appends to its argument the bytes that encoding/binary reads back as the checksum of
  all the data, for Adler-32, for the CRCs with any table, and for the FNV hashes.
\<close>
theorem hash_stream:
  "big_sum32 inp (adler_Sum (written adler_Write adler_New ps) inp) = Some (adler_Checksum (concat ps)) \<and>
   big_sum32 inp (crc32_Sum (written crc32_Write (crc32_New t) ps) inp) = Some (crc32_Checksum (concat ps) t) \<and>
   big_sum64 inp (crc64_Sum (written crc64_Write (crc64_New tab) ps) inp) = Some (crc64_Checksum (concat ps) tab) \<and>
   big_sum32 inp (sum32_Sum (written sum32_Write sum32_New ps) inp) = Some (fst (sum32_Write sum32_New (concat ps))) \<and>
   big_sum32 inp (sum32a_Sum (written sum32a_Write sum32a_New ps) inp) = Some (fst (sum32a_Write sum32a_New (concat ps))) \<and>
   big_sum64 inp (sum64_Sum (written sum64_Write sum64_New ps) inp) = Some (fst (sum64_Write sum64_New (concat ps))) \<and>
   big_sum64 inp (sum64a_Sum (written sum64a_Write sum64a_New ps) inp) = Some (fst (sum64a_Write sum64a_New (concat ps)))"
  by (simp_all add: adler_Sum_def crc32_Sum_def crc64_Sum_def sum32_Sum_def sum32a_Sum_def sum64_Sum_def sum64a_Sum_def
      big_sum adler_written adler_ok_New adler_Checksum_def adler_New_def adler_Reset_def crc32_written crc32_New_def
      crc32_Checksum_def crc64_written crc64_New_def crc64_Checksum_def fnv_written sum32_Write_def sum32a_Write_def
      sum64_Write_def sum64a_Write_def)

text \<open>
  C40. A change of a single byte changes the checksum, wherever it is and whatever surrounds it: for Adler-32,
  for the CRCs of all the predefined polynomials, and for the four FNV hashes.
\<close>
theorem hash_detects:
  assumes "c \<noteq> c'"
  shows "adler_Checksum (p @ c # q) \<noteq> adler_Checksum (p @ c' # q) \<and>
    (\<forall>poly \<in> {IEEE, Castagnoli, Koopman}.
       crc32_Checksum (p @ c # q) (MakeTable poly) \<noteq> crc32_Checksum (p @ c' # q) (MakeTable poly)) \<and>
    (\<forall>poly \<in> {ISO, ECMA}.
       crc64_Checksum (p @ c # q) (crc64_MakeTable poly) \<noteq> crc64_Checksum (p @ c' # q) (crc64_MakeTable poly)) \<and>
    sum32_Write h (p @ c # q) \<noteq> sum32_Write h (p @ c' # q) \<and>
    sum32a_Write h (p @ c # q) \<noteq> sum32a_Write h (p @ c' # q) \<and>
    sum64_Write g (p @ c # q) \<noteq> sum64_Write g (p @ c' # q) \<and>
    sum64a_Write g (p @ c # q) \<noteq> sum64a_Write g (p @ c' # q)"
proof (intro conjI)
  show "adler_Checksum (p @ c # q) \<noteq> adler_Checksum (p @ c' # q)"
    unfolding adler_Checksum_def by (rule adler.detects [OF adler_ok_New(2) assms])
  show "\<forall>poly \<in> {IEEE, Castagnoli, Koopman}.
      crc32_Checksum (p @ c # q) (MakeTable poly) \<noteq> crc32_Checksum (p @ c' # q) (MakeTable poly)"
    unfolding crc32_Checksum_def using assms by (simp add: ieee.detects castagnoli.detects koopman.detects)
  show "\<forall>poly \<in> {ISO, ECMA}.
      crc64_Checksum (p @ c # q) (crc64_MakeTable poly) \<noteq> crc64_Checksum (p @ c' # q) (crc64_MakeTable poly)"
    unfolding crc64_Checksum_def using assms by (simp add: iso.detects ecma.detects)
qed (use assms in \<open>simp_all add: sum32_Write_def sum32a_Write_def sum64_Write_def sum64a_Write_def
      fnv32.detects fnv32a.detects fnv64.detects fnv64a.detects\<close>)

theorem hash_detects_witness:
  "(7 :: byte) \<noteq> 9 \<and> adler_Checksum ([1, 2] @ 7 # [3]) \<noteq> adler_Checksum ([1, 2] @ 9 # [3]) \<and>
   crc32_Checksum ([1, 2] @ 7 # [3]) (MakeTable Castagnoli) \<noteq> crc32_Checksum ([1, 2] @ 9 # [3]) (MakeTable Castagnoli)"
proof -
  have ne: "(7 :: byte) \<noteq> 9" by simp
  show ?thesis using hash_detects [OF ne, of "[1, 2]" "[3]" 0 0] ne by blast
qed

text \<open>The published check values of the text 123456789.\<close>

lemma check_values:
  "adler_Checksum [49, 50, 51, 52, 53, 54, 55, 56, 57] = 0x091E01DE"
  "crc32_Checksum [49, 50, 51, 52, 53, 54, 55, 56, 57] (MakeTable IEEE) = 0xCBF43926"
  "crc32_Checksum [49, 50, 51, 52, 53, 54, 55, 56, 57] (MakeTable Castagnoli) = 0xE3069283"
  unfolding crc32_Checksum_def Update_foldl by code_simp+

end
