(* ===== verification/RingPkg.thy ===== *)
theory RingPkg
  imports Prelude "HOL-Library.Monad_Syntax"
begin

text \<open>
  Package container/ring (\<open>src/src/pkg/container/ring/ring.go\<close>): circular lists in an explicit store. A
  pointer is an address or nil, which is None; using nil as an element panics. The loops of Len and Do follow
  the next pointers until they are back, which they never are when the pointers do not form
  a ring: the result None of an operation is a panic or a loop that does not end.
\<close>

type_synonym rptr = "nat option"

record 'v Ring =
  rnext :: rptr
  rprev :: rptr
  rValue :: "'v option"

record 'v rings =
  ring_cells :: "nat \<Rightarrow> 'v Ring"
  ring_alloc :: nat

definition zero_Ring :: "'v Ring" where
  "zero_Ring = \<lparr>rnext = None, rprev = None, rValue = None\<rparr>"

definition no_rings :: "'v rings" where
  "no_rings = \<lparr>ring_cells = (\<lambda>_. zero_Ring), ring_alloc = 0\<rparr>"

definition put_next :: "nat \<Rightarrow> rptr \<Rightarrow> 'v rings \<Rightarrow> 'v rings" where
  "put_next a p h = h\<lparr>ring_cells := (ring_cells h)(a := (ring_cells h a)\<lparr>rnext := p\<rparr>)\<rparr>"

definition put_prev :: "nat \<Rightarrow> rptr \<Rightarrow> 'v rings \<Rightarrow> 'v rings" where
  "put_prev a p h = h\<lparr>ring_cells := (ring_cells h)(a := (ring_cells h a)\<lparr>rprev := p\<rparr>)\<rparr>"

text \<open>\<open>new(Ring)\<close>, and a composite literal with the given fields.\<close>

definition new_Ring :: "'v Ring \<Rightarrow> 'v rings \<Rightarrow> nat \<times> 'v rings" where
  "new_Ring c h = (ring_alloc h, h\<lparr>ring_cells := (ring_cells h)(ring_alloc h := c), ring_alloc := ring_alloc h + 1\<rparr>)"

definition ring_init :: "nat \<Rightarrow> 'v rings \<Rightarrow> nat \<times> 'v rings" where
  "ring_init r h = (r, put_prev r (Some r) (put_next r (Some r) h))"

text \<open>Next and Prev of an element; of a ring that has not been used yet they initialise it.\<close>

definition ring_Next :: "rptr \<Rightarrow> 'v rings \<Rightarrow> (rptr \<times> 'v rings) option" where
  "ring_Next p h = do {
     r \<leftarrow> p;
     Some (case rnext (ring_cells h r) of
       None \<Rightarrow> let (r', h') = ring_init r h in (Some r', h')
     | Some n \<Rightarrow> (Some n, h)) }"

definition ring_Prev :: "rptr \<Rightarrow> 'v rings \<Rightarrow> (rptr \<times> 'v rings) option" where
  "ring_Prev p h = do {
     r \<leftarrow> p;
     Some (case rnext (ring_cells h r) of
       None \<Rightarrow> let (r', h') = ring_init r h in (Some r', h')
     | Some n \<Rightarrow> (rprev (ring_cells h r), h)) }"

text \<open>The two loops of Move: n steps along a field, which panic at nil.\<close>

fun ring_steps :: "(nat \<Rightarrow> rptr) \<Rightarrow> nat \<Rightarrow> rptr \<Rightarrow> rptr option" where
  "ring_steps f 0 p = Some p"
| "ring_steps f (Suc n) p = do { a \<leftarrow> p; ring_steps f n (f a) }"

definition ring_Move :: "rptr \<Rightarrow> int \<Rightarrow> 'v rings \<Rightarrow> (rptr \<times> 'v rings) option" where
  "ring_Move p n h = do {
     r \<leftarrow> p;
     if rnext (ring_cells h r) = None then let (r', h') = ring_init r h in Some (Some r', h')
     else do {
       q \<leftarrow> (if n < 0 then ring_steps (\<lambda>a. rprev (ring_cells h a)) (nat (- n)) p
             else if n > 0 then ring_steps (\<lambda>a. rnext (ring_cells h a)) (nat n) p
             else Some p);
       Some (q, h) } }"

text \<open>The loop of New, from \<open>i\<close> with \<open>n - i\<close> turns left.\<close>

fun ring_New_loop :: "nat \<Rightarrow> nat \<Rightarrow> 'v rings \<Rightarrow> nat \<times> 'v rings" where
  "ring_New_loop 0 p h = (p, h)"
| "ring_New_loop (Suc k) p h =
     (let (q, h) = new_Ring (zero_Ring\<lparr>rprev := Some p\<rparr>) h;
          h = put_next p (Some q) h
      in ring_New_loop k q h)"

definition ring_New :: "int \<Rightarrow> 'v rings \<Rightarrow> rptr \<times> 'v rings" where
  "ring_New n h =
     (if n \<le> 0 then (None, h)
      else let (r, h) = new_Ring zero_Ring h;
               (p, h) = ring_New_loop (nat (n - 1)) r h
           in (Some r, put_prev r (Some p) (put_next p (Some r) h)))"

definition ring_Link :: "rptr \<Rightarrow> rptr \<Rightarrow> 'v rings \<Rightarrow> (rptr \<times> 'v rings) option" where
  "ring_Link p s h = do {
     r \<leftarrow> p;
     (n, h) \<leftarrow> ring_Next p h;
     case s of
       None \<Rightarrow> Some (n, h)
     | Some a \<Rightarrow> do {
         (q, h) \<leftarrow> ring_Prev s h;
         let h = put_prev a (Some r) (put_next r (Some a) h);
         nn \<leftarrow> n;
         let h = put_prev nn q h;
         qq \<leftarrow> q;
         Some (n, put_next qq n h) } }"

text \<open>\<open>n + 1\<close> of a 64-bit int.\<close>

definition ring_Unlink :: "rptr \<Rightarrow> int \<Rightarrow> 'v rings \<Rightarrow> (rptr \<times> 'v rings) option" where
  "ring_Unlink p n h =
     (if n \<le> 0 then Some (None, h)
      else do {
        (s, h) \<leftarrow> ring_Move p (sint (word_of_int (n + 1) :: 64 word)) h;
        ring_Link p s h })"

partial_function (option) ring_Len_loop :: "'v rings \<Rightarrow> nat \<Rightarrow> rptr \<Rightarrow> nat \<Rightarrow> nat option" where
  "ring_Len_loop h r p n = (if p \<noteq> Some r then do { a \<leftarrow> p; ring_Len_loop h r (rnext (ring_cells h a)) (n + 1) } else Some n)"

definition ring_Len :: "rptr \<Rightarrow> 'v rings \<Rightarrow> (nat \<times> 'v rings) option" where
  "ring_Len p h = (case p of
     None \<Rightarrow> Some (0, h)
   | Some r \<Rightarrow> do { (q, h) \<leftarrow> ring_Next p h; n \<leftarrow> ring_Len_loop h r q 1; Some (n, h) })"

text \<open>Do with a function on a state of its own that leaves the ring alone.\<close>

partial_function (option) ring_Do_loop :: "('v option \<Rightarrow> 's \<Rightarrow> 's) \<Rightarrow> 'v rings \<Rightarrow> nat \<Rightarrow> rptr \<Rightarrow> 's \<Rightarrow> 's option" where
  "ring_Do_loop f h r p s =
     (if p \<noteq> Some r then do { a \<leftarrow> p; ring_Do_loop f h r (rnext (ring_cells h a)) (f (rValue (ring_cells h a)) s) } else Some s)"

definition ring_Do :: "('v option \<Rightarrow> 's \<Rightarrow> 's) \<Rightarrow> rptr \<Rightarrow> 'v rings \<Rightarrow> 's \<Rightarrow> ('s \<times> 'v rings) option" where
  "ring_Do f p h s = (case p of
     None \<Rightarrow> Some (s, h)
   | Some r \<Rightarrow> do {
       let s = f (rValue (ring_cells h r)) s;
       (q, h) \<leftarrow> ring_Next p h;
       s \<leftarrow> ring_Do_loop f h r q s;
       Some (s, h) })"

end
