(* ===== verification/RingCorrect.thy ===== *)
theory RingCorrect
  imports RingPkg Chains
begin

text \<open>
  The rings of a store as cyclic sequences of elements. A ring is a cycle of pointers, or an element that has not
  been used yet, whose pointers are nil. The operations cut and join the sequences, and every store that they
  make consists of rings, so that the loops of Len and Do end.
\<close>

abbreviation nx :: "'v rings \<Rightarrow> nat \<Rightarrow> rptr" where "nx h a \<equiv> rnext (ring_cells h a)"

abbreviation pv :: "'v rings \<Rightarrow> nat \<Rightarrow> rptr" where "pv h a \<equiv> rprev (ring_cells h a)"

abbreviation val :: "'v rings \<Rightarrow> nat \<Rightarrow> 'v option" where "val h a \<equiv> rValue (ring_cells h a)"

definition is_ring :: "'v rings \<Rightarrow> nat list \<Rightarrow> bool" where
  "is_ring h xs \<longleftrightarrow> cycle (nx h) (pv h) xs \<or> (\<exists>a. xs = [a] \<and> nx h a = None)"

lemma put_fields [simp]:
  "nx (put_next a p h) b = ((nx h)(a := p)) b" "pv (put_next a p h) b = pv h b" "val (put_next a p h) b = val h b"
  "nx (put_prev a p h) b = nx h b" "pv (put_prev a p h) b = ((pv h)(a := p)) b" "val (put_prev a p h) b = val h b"
  "ring_alloc (put_next a p h) = ring_alloc h" "ring_alloc (put_prev a p h) = ring_alloc h"
  by (auto simp: put_next_def put_prev_def)

text \<open>What a store keeps when an operation works on the elements \<open>A\<close>.\<close>

definition only_at :: "nat set \<Rightarrow> 'v rings \<Rightarrow> 'v rings \<Rightarrow> bool" where
  "only_at A h h' \<longleftrightarrow> (\<forall>a. a \<notin> A \<longrightarrow> nx h' a = nx h a \<and> pv h' a = pv h a) \<and> val h' = val h \<and> ring_alloc h' = ring_alloc h"

lemma is_ring_cong:
  "is_ring h zs \<Longrightarrow> (\<And>a. a \<in> set zs \<Longrightarrow> nx h' a = nx h a \<and> pv h' a = pv h a) \<Longrightarrow> is_ring h' zs"
  unfolding is_ring_def using cycle_cong [of "nx h" "pv h" zs "nx h'" "pv h'"] by auto

lemma only_at_ring: "only_at A h h' \<Longrightarrow> is_ring h zs \<Longrightarrow> set zs \<inter> A = {} \<Longrightarrow> is_ring h' zs"
  by (erule is_ring_cong) (auto simp: only_at_def)

lemma is_ring_from: "is_ring h xs \<Longrightarrow> a \<in> set xs \<Longrightarrow> \<exists>ys. is_ring h (a # ys) \<and> set (a # ys) = set xs"
  unfolding is_ring_def using cycle_from by fastforce

lemma is_ring_disjoint:
  assumes "is_ring h xs" "is_ring h ys" "set xs \<inter> set ys \<noteq> {}"
  shows "set xs = set ys"
proof -
  have "nx h a \<noteq> None" if "cycle (nx h) (pv h) zs" "a \<in> set zs" for a zs
    using that cycle_nth by (metis in_set_conv_nth option.distinct(1))
  then show ?thesis using assms cycle_disjoint [of "nx h" "pv h" xs ys] unfolding is_ring_def by fastforce
qed

lemma is_ring_distinct: "is_ring h xs \<Longrightarrow> distinct xs \<and> xs \<noteq> []"
  by (auto simp: is_ring_def cycle_def)

section \<open>Next, Prev and Move\<close>

definition awake :: "nat \<Rightarrow> 'v rings \<Rightarrow> 'v rings" where
  "awake r h = (if nx h r = None then snd (ring_init r h) else h)"

lemma only_at_awake: "only_at {r} h (awake r h)"
  by (simp add: only_at_def awake_def ring_init_def)

lemma cycle_awake: "is_ring h (r # xs) \<Longrightarrow> cycle (nx (awake r h)) (pv (awake r h)) (r # xs)"
  by (auto simp: is_ring_def awake_def ring_init_def cycle_def links_cons)

lemma is_ring_awake: "is_ring h zs \<Longrightarrow> is_ring (awake r h) zs"
proof (cases "r \<in> set zs \<and> nx h r = None")
  case True
  moreover assume "is_ring h zs"
  ultimately have "zs = [r]" using is_ring_disjoint [of h zs "[r]"] is_ring_distinct [of h zs]
    by (cases zs) (auto simp: is_ring_def distinct_singleton subset_singleton_iff)
  then show ?thesis using cycle_awake [of h r "[]"] True by (simp add: is_ring_def)
next
  case False
  moreover assume "is_ring h zs"
  ultimately show ?thesis using only_at_ring [OF only_at_awake, of h zs r] by (auto simp: awake_def)
qed

lemma Next_awake: "ring_Next (Some r) h = Some (nx (awake r h) r, awake r h)"
  by (auto simp: ring_Next_def awake_def ring_init_def split: option.splits)

lemma Prev_awake: "ring_Prev (Some r) h = Some (pv (awake r h) r, awake r h)"
  by (auto simp: ring_Prev_def awake_def ring_init_def split: option.splits)

lemma steps_next:
  assumes "cycle f g xs" "i < length xs"
  shows "ring_steps f k (Some (xs ! i)) = Some (Some (xs ! ((i + k) mod length xs)))"
  using assms(2)
proof (induction k arbitrary: i)
  case (Suc k)
  have "Suc i mod length xs < length xs" using Suc.prems by (intro mod_less_divisor) auto
  then show ?case using Suc.IH [of "Suc i mod length xs"] cycle_nth [OF assms(1) Suc.prems] by (simp add: mod_simps)
qed simp

lemma steps_prev:
  assumes "cycle f g xs"
  shows "ring_steps g k (Some (xs ! ((i + k) mod length xs))) = Some (Some (xs ! (i mod length xs)))"
proof (induction k)
  case (Suc k)
  have "(i + k) mod length xs < length xs" using assms by (simp add: cycle_def)
  then show ?case using Suc.IH cycle_nth [OF assms, of "(i + k) mod length xs"] by (simp add: mod_simps)
qed simp

lemma Move_ring:
  assumes "is_ring h (r # xs)"
  shows "ring_Move (Some r) n h = Some (Some ((r # xs) ! nat (n mod int (length (r # xs)))), awake r h)"
proof (cases "nx h r")
  case None
  then have "xs = []" using assms cycle_ends [of "nx h" "pv h" r xs] by (auto simp: is_ring_def)
  then show ?thesis using None by (simp add: ring_Move_def awake_def ring_init_def)
next
  case (Some q)
  then have a: "awake r h = h" by (simp add: awake_def)
  then have c: "cycle (nx h) (pv h) (r # xs)" using cycle_awake [OF assms] by simp
  let ?L = "int (length (r # xs))" and ?i = "nat (n mod int (length (r # xs)))"
  have fwd: "0 \<le> n \<Longrightarrow> (0 + nat n) mod length (r # xs) = ?i" by (metis add_0 nat_int nat_mod_distrib of_nat_0_le_iff)
  have bwd: "(?i + nat (- n)) mod length (r # xs) = 0" if "n < 0"
  proof -
    have "int (?i + nat (- n)) = n mod ?L + - n" using that by simp
    then have "int ((?i + nat (- n)) mod length (r # xs)) = (n mod ?L + - n) mod ?L" by (metis of_nat_mod)
    also have "\<dots> = 0" by (metis add.right_inverse mod_0 mod_add_left_eq)
    finally show ?thesis by simp
  qed
  have "?i mod length (r # xs) = ?i" by (simp add: nat_less_iff)
  then show ?thesis using steps_next [OF c, of 0 "nat n"] steps_prev [OF c, of "nat (- n)" ?i] fwd bwd Some a
    by (auto simp: ring_Move_def simp del: length_Cons)
qed

section \<open>Link and Unlink\<close>

text \<open>The four pointers Link redirects.\<close>

definition relink :: "nat \<Rightarrow> nat \<Rightarrow> nat \<Rightarrow> nat \<Rightarrow> 'v rings \<Rightarrow> 'v rings" where
  "relink r s n p h = put_next p (Some n) (put_prev n (Some p) (put_prev s (Some r) (put_next r (Some s) h)))"

lemma relink_fields:
  "nx (relink r s n p h) = (nx h)(r := Some s, p := Some n)" "pv (relink r s n p h) = (pv h)(s := Some r, n := Some p)"
  "val (relink r s n p h) = val h" "ring_alloc (relink r s n p h) = ring_alloc h"
  by (auto simp: relink_def)

lemma only_at_relink: "{r, s, n, p} \<subseteq> A \<Longrightarrow> only_at A h (relink r s n p h)"
  unfolding only_at_def using relink_fields [of r s n p h] by (auto simp: fun_eq_iff)

lemma only_at_trans: "only_at A h h' \<Longrightarrow> only_at B h' h'' \<Longrightarrow> A \<subseteq> C \<Longrightarrow> B \<subseteq> C \<Longrightarrow> only_at C h h''"
  unfolding only_at_def by (metis subsetD)

lemma cycle_kept: "cycle (nx h) (pv h) zs \<Longrightarrow> cycle (nx (awake s h)) (pv (awake s h)) zs"
proof (cases "nx h s")
  case None
  moreover assume c: "cycle (nx h) (pv h) zs"
  ultimately have "s \<notin> set zs" using cycle_nth [OF c] by (auto simp: in_set_conv_nth)
  then show ?thesis using c only_at_awake [of s h] by (auto simp: only_at_def elim!: cycle_cong)
qed (simp add: awake_def)

lemma Link_relink:
  fixes h :: "'v rings"
  assumes r: "is_ring h (r # xs)" and s: "is_ring h (s # ys)"
  defines "h2 \<equiv> awake s (awake r h)"
  shows "ring_Link (Some r) (Some s) h = Some (Some (hd (xs @ [r])), relink r s (hd (xs @ [r])) (last (s # ys)) h2)"
    and "cycle (nx h2) (pv h2) (r # xs)" and "cycle (nx h2) (pv h2) (s # ys)"
    and "{hd (xs @ [r]), last (s # ys)} \<subseteq> A \<Longrightarrow> {r, s} \<subseteq> A \<Longrightarrow>
      only_at A h (relink r s (hd (xs @ [r])) (last (s # ys)) h2)"
proof -
  have n: "nx (awake r h) r = Some (hd (xs @ [r]))" using cycle_ends [OF cycle_awake [OF r]] by blast
  show cr: "cycle (nx h2) (pv h2) (r # xs)" unfolding h2_def by (rule cycle_kept [OF cycle_awake [OF r]])
  show cs: "cycle (nx h2) (pv h2) (s # ys)" unfolding h2_def by (rule cycle_awake [OF is_ring_awake [OF s]])
  have "pv h2 s = Some (last (s # ys))" using cycle_ends [OF cs] by blast
  then show "ring_Link (Some r) (Some s) h = Some (Some (hd (xs @ [r])), relink r s (hd (xs @ [r])) (last (s # ys)) h2)"
    using n by (simp add: ring_Link_def Next_awake Prev_awake relink_def h2_def [symmetric])
  assume A: "{hd (xs @ [r]), last (s # ys)} \<subseteq> A" "{r, s} \<subseteq> A"
  have "only_at A h h2" unfolding h2_def by (rule only_at_trans [OF only_at_awake only_at_awake]) (use A in auto)
  then show "only_at A h (relink r s (hd (xs @ [r])) (last (s # ys)) h2)"
    by (rule only_at_trans [OF _ only_at_relink order_refl order_refl]) (use A in auto)
qed

text \<open>Linking an element of the same ring cuts out what is between; linking one of another ring joins the two.\<close>

lemma Link_same:
  assumes c: "is_ring h (r # xs @ ts)" and s: "s = hd (ts @ [r])"
  obtains h' where "ring_Link (Some r) (Some s) h = Some (Some (hd (xs @ [s])), h')"
    "is_ring h' (r # ts)" "xs \<noteq> [] \<Longrightarrow> is_ring h' xs" "only_at (set (r # xs @ ts)) h h'"
proof -
  let ?n = "hd (xs @ [s])" and ?p = "last (r # xs)"
  have n: "hd ((xs @ ts) @ [r]) = ?n" using s by (cases xs) auto
  obtain ys where ys: "is_ring h (s # ys)" "set (s # ys) = set (r # xs @ ts)"
    using is_ring_from [OF c, of s] s by (cases ts) auto
  note L = Link_relink [OF c ys(1), unfolded n]
  have "pv (awake s (awake r h)) s = Some ?p"
    using L(2) cycle_ends [OF L(2)] links_join [of "r # xs" "ts @ [r]"] s unfolding cycle_def by (cases ts) auto
  then have p: "last (s # ys) = ?p" using cycle_ends [OF L(3)] by simp
  have in_A: "{?n, ?p} \<subseteq> set (r # xs @ ts)" "{r, s} \<subseteq> set (r # xs @ ts)"
    using s last_in_set [of "r # xs"] by (auto simp: hd_append)
  show thesis
  proof (rule that)
    show "ring_Link (Some r) (Some s) h = Some (Some ?n, relink r s ?n ?p (awake s (awake r h)))" using L(1) p by simp
    show "is_ring (relink r s ?n ?p (awake s (awake r h))) (r # ts)"
      unfolding is_ring_def relink_fields using cycle_cut(1) [OF L(2) s refl refl] by simp
    show "xs \<noteq> [] \<Longrightarrow> is_ring (relink r s ?n ?p (awake s (awake r h))) xs"
      unfolding is_ring_def relink_fields using cycle_cut(2) [OF L(2) s refl refl] by simp
    show "only_at (set (r # xs @ ts)) h (relink r s ?n ?p (awake s (awake r h)))" using L(4) in_A p by simp
  qed
qed

lemma Link_other:
  assumes r: "is_ring h (r # xs)" and s: "is_ring h (s # ys)" and d: "set (r # xs) \<inter> set (s # ys) = {}"
  obtains h' where "ring_Link (Some r) (Some s) h = Some (Some (hd (xs @ [r])), h')"
    "is_ring h' (r # s # ys @ xs)" "only_at (set (r # xs) \<union> set (s # ys)) h h'"
proof (rule that)
  note L = Link_relink [OF r s]
  show "ring_Link (Some r) (Some s) h =
    Some (Some (hd (xs @ [r])), relink r s (hd (xs @ [r])) (last (s # ys)) (awake s (awake r h)))" by (rule L(1))
  show "is_ring (relink r s (hd (xs @ [r])) (last (s # ys)) (awake s (awake r h))) (r # s # ys @ xs)"
    unfolding is_ring_def relink_fields using cycle_merge [OF L(2,3) d refl refl] by simp
  show "only_at (set (r # xs) \<union> set (s # ys)) h (relink r s (hd (xs @ [r])) (last (s # ys)) (awake s (awake r h)))"
    by (rule L(4)) (use last_in_set [of "s # ys"] in \<open>auto simp: hd_append\<close>)
qed

lemma sint_of_int64: "- (2 ^ 63) \<le> x \<Longrightarrow> x < 2 ^ 63 \<Longrightarrow> sint (of_int x :: 64 word) = x"
  by (simp add: signed_of_int signed_take_bit_int_eq_self)

lemma Unlink_ring:
  assumes c: "is_ring h (r # xs)" and n: "0 < n" "n < 2 ^ 63 - 1"
  defines "k \<equiv> nat (n mod int (length (r # xs)))"
  obtains h' where "ring_Unlink (Some r) n h = Some (Some (hd (xs @ [r])), h')"
    "is_ring h' (r # drop k xs)" "0 < k \<Longrightarrow> is_ring h' (take k xs)" "only_at (set (r # xs)) h h'"
proof -
  let ?L = "length (r # xs)" and ?s = "hd (drop k xs @ [r])"
  have "k < ?L" unfolding k_def by (simp add: nat_less_iff)
  then have k: "k \<le> length xs" by simp
  have "int k = n mod int ?L" by (simp add: k_def)
  then have "(n + 1) mod int ?L = int (Suc k mod ?L)" by (simp add: mod_simps zmod_int ac_simps)
  then have "nat ((n + 1) mod int ?L) = Suc k mod ?L" by (simp only: nat_int)
  then have "(r # xs) ! nat ((n + 1) mod int ?L) = ?s"
    using k by (cases "k = length xs") (auto simp: hd_drop_conv_nth hd_append)
  then have mv: "ring_Move (Some r) (sint (word_of_int (n + 1) :: 64 word)) h = Some (Some ?s, awake r h)"
    using Move_ring [OF c, of "n + 1"] sint_of_int64 [of "n + 1"] n by (simp del: of_int_add)
  have "is_ring (awake r h) (r # take k xs @ drop k xs)" using is_ring_awake [OF c] by simp
  from Link_same [OF this refl] obtain h' where L:
    "ring_Link (Some r) (Some ?s) (awake r h) = Some (Some (hd (take k xs @ [?s])), h')"
    "is_ring h' (r # drop k xs)" "take k xs \<noteq> [] \<Longrightarrow> is_ring h' (take k xs)" "only_at (set (r # take k xs @ drop k xs)) (awake r h) h'"
    by blast
  have "hd (take k xs @ [?s]) = hd (xs @ [r])" by (cases xs; cases k) auto
  then have "ring_Unlink (Some r) n h = Some (Some (hd (xs @ [r])), h')" using n mv L(1) by (simp add: ring_Unlink_def)
  moreover have "0 < k \<Longrightarrow> is_ring h' (take k xs)" using L(3) k by (cases xs) auto
  moreover have "only_at (set (r # xs)) h h'"
    by (rule only_at_trans [OF only_at_awake L(4)]) auto
  ultimately show thesis using L(2) that by blast
qed

section \<open>New\<close>

lemma ring_New_loop_chain:
  assumes "p < ring_alloc h" "ring_New_loop k p h = (q, h')"
  defines "ps \<equiv> [ring_alloc h..<ring_alloc h + k]"
  shows "q = last (p # ps) \<and> links (nx h') (pv h') (p # ps) \<and> ring_alloc h' = ring_alloc h + k \<and> pv h' p = pv h p \<and>
    (\<forall>a. a \<noteq> p \<and> a \<notin> set ps \<longrightarrow> ring_cells h' a = ring_cells h a) \<and> (\<forall>a \<in> set ps. val h' a = None) \<and> val h' p = val h p"
  using assms(1,2) unfolding ps_def
proof (induction k arbitrary: p h)
  case (Suc k)
  let ?a = "ring_alloc h"
  define g where "g = put_next p (Some ?a) (snd (new_Ring (zero_Ring\<lparr>rprev := Some p\<rparr>) h))"
  have g: "ring_alloc g = Suc ?a" "nx g p = Some ?a" "pv g ?a = Some p" "val g ?a = None" "pv g p = pv h p" "val g p = val h p"
    "\<And>b. b \<noteq> p \<Longrightarrow> b \<noteq> ?a \<Longrightarrow> ring_cells g b = ring_cells h b"
    using Suc.prems(1) by (auto simp: g_def new_Ring_def zero_Ring_def put_next_def)
  have eq: "ring_New_loop k ?a g = (q, h')" using Suc.prems(2) by (simp add: g_def new_Ring_def Let_def)
  have up: "[?a..<?a + Suc k] = ?a # [Suc ?a..<Suc ?a + k]" by (simp add: upt_conv_Cons)
  have p: "p \<notin> set (?a # [Suc ?a..<Suc ?a + k])" using Suc.prems(1) by auto
  have IH: "q = last (?a # [Suc ?a..<Suc ?a + k])" "links (nx h') (pv h') (?a # [Suc ?a..<Suc ?a + k])"
    "ring_alloc h' = Suc ?a + k" "pv h' ?a = pv g ?a"
    "\<forall>b. b \<noteq> ?a \<and> b \<notin> set [Suc ?a..<Suc ?a + k] \<longrightarrow> ring_cells h' b = ring_cells g b"
    "\<forall>b \<in> set [Suc ?a..<Suc ?a + k]. val h' b = None" "val h' ?a = val g ?a"
    using Suc.IH [OF _ eq] g(1) by auto
  have "ring_cells h' p = ring_cells g p" using IH(5) p by auto
  then show ?case unfolding up using IH g p by auto
qed simp

lemma New_ring:
  fixes h :: "'v rings"
  assumes "0 < n"
  defines "xs \<equiv> [ring_alloc h..<ring_alloc h + nat n]"
  obtains h' where "ring_New n h = (Some (hd xs), h')" "is_ring h' xs" "ring_alloc h' = ring_alloc h + nat n"
    "\<And>a. a \<in> set xs \<Longrightarrow> val h' a = None" "\<And>a. a \<notin> set xs \<Longrightarrow> ring_cells h' a = ring_cells h a"
proof -
  let ?r = "ring_alloc h" and ?k = "nat (n - 1)"
  define g where "g = snd (new_Ring zero_Ring h)"
  obtain q h' where q: "ring_New_loop ?k ?r g = (q, h')" by force
  have g: "ring_alloc g = Suc ?r" "val g ?r = None" "\<And>b. b \<noteq> ?r \<Longrightarrow> ring_cells g b = ring_cells h b"
    by (simp_all add: g_def new_Ring_def zero_Ring_def)
  have "?r + nat n = Suc ?r + ?k" using assms(1) by linarith
  then have xs: "xs = ?r # [Suc ?r..<Suc ?r + ?k]" by (simp add: xs_def upt_conv_Cons del: upt_Suc)
  note C = ring_New_loop_chain [of ?r g ?k q h', unfolded g(1), OF lessI q]
  let ?h = "put_prev ?r (Some q) (put_next q (Some ?r) h')"
  have q_in: "q \<in> set xs" and q_last: "q = last xs" using C last_in_set [of xs] by (auto simp: xs)
  have ends: "xs \<noteq> []" "distinct xs" "hd xs = ?r" using assms(1) by (simp_all add: xs_def)
  have "links (nx ?h) (pv ?h) xs"
  proof (rule links_cong)
    show "links (nx h') (pv h') xs" using C by (simp add: xs)
    show "nx ?h a = nx h' a" if "a \<in> set (butlast xs)" for a
      using that last_butlast [of xs] ends q_last by auto
    show "pv ?h a = pv h' a" if "a \<in> set (tl xs)" for a using that by (auto simp: xs)
  qed
  then have "is_ring ?h xs" using ends q_last by (simp add: is_ring_def cycle_def links_snoc)
  moreover have "ring_New n h = (Some (hd xs), ?h)" using assms(1) q by (simp add: ring_New_def g_def new_Ring_def xs)
  moreover have "ring_alloc ?h = ?r + nat n" using C assms(1) by simp
  moreover have "val ?h a = None" if "a \<in> set xs" for a using that C g(2) by (auto simp: xs)
  moreover have "ring_cells ?h a = ring_cells h a" if "a \<notin> set xs" for a
    using that q_in C g(3) [of a] by (auto simp: xs put_prev_def put_next_def)
  ultimately show thesis using that by blast
qed

section \<open>Len and Do\<close>

lemma ring_Len_loop_chain:
  "links (nx h) (pv h) (zs @ [r]) \<Longrightarrow> r \<notin> set zs \<Longrightarrow> ring_Len_loop h r (Some (hd (zs @ [r]))) n = Some (n + length zs)"
proof (induction zs arbitrary: n)
  case (Cons a zs)
  then show ?case by (subst ring_Len_loop.simps) (auto simp: links_cons)
qed (subst ring_Len_loop.simps, simp)

lemma ring_Do_loop_chain:
  "links (nx h) (pv h) (zs @ [r]) \<Longrightarrow> r \<notin> set zs \<Longrightarrow>
   ring_Do_loop f h r (Some (hd (zs @ [r]))) s = Some (fold f (map (val h) zs) s)"
proof (induction zs arbitrary: s)
  case (Cons a zs)
  then show ?case by (subst ring_Do_loop.simps) (auto simp: links_cons)
qed (subst ring_Do_loop.simps, simp)

lemma Len_Do_ring:
  assumes "is_ring h (r # xs)"
  shows "ring_Len (Some r) h = Some (length (r # xs), awake r h)"
    "ring_Do f (Some r) h s = Some (fold f (map (val h) (r # xs)) s, awake r h)"
proof -
  have c: "cycle (nx (awake r h)) (pv (awake r h)) (r # xs)" by (rule cycle_awake [OF assms])
  then have l: "links (nx (awake r h)) (pv (awake r h)) (xs @ [r])" "r \<notin> set xs" by (auto simp: cycle_def links_cons)
  have n: "nx (awake r h) r = Some (hd (xs @ [r]))" using cycle_ends [OF c] by blast
  have v: "val (awake r h) = val h" using only_at_awake [of r h] by (simp add: only_at_def)
  show "ring_Len (Some r) h = Some (length (r # xs), awake r h)"
    using ring_Len_loop_chain [OF l, of 1] n by (simp add: ring_Len_def Next_awake)
  show "ring_Do f (Some r) h s = Some (fold f (map (val h) (r # xs)) s, awake r h)"
    using ring_Do_loop_chain [OF l, of f "f (val h r) s"] n v by (simp add: ring_Do_def Next_awake)
qed

end
