(* ===== verification/RingSpec.thy ===== *)
theory RingSpec
  imports RingCorrect
begin

text \<open>
  Sequences of calls on rings. Whatever a client does with the package, the elements it has allocated stay divided
  into rings; this is what makes the loops of Len and Do end, and keeps the other operations
  away from nil pointers.
\<close>

definition rings_ok :: "'v rings \<Rightarrow> bool" where
  "rings_ok h \<longleftrightarrow> (\<forall>a < ring_alloc h. \<exists>xs. is_ring h (a # xs) \<and> set xs \<subseteq> {..<ring_alloc h})"

lemma rings_okE:
  assumes "rings_ok h" "a < ring_alloc h"
  obtains xs where "is_ring h (a # xs)" "set (a # xs) \<subseteq> {..<ring_alloc h}"
  using assms unfolding rings_ok_def by fastforce

lemma rings_ok_change:
  assumes ok: "rings_ok h" and at: "only_at A h h'"
    and new: "\<And>a. a \<in> A \<Longrightarrow> \<exists>xs. is_ring h' xs \<and> a \<in> set xs \<and> set xs \<subseteq> {..<ring_alloc h}"
    and old: "\<And>zs. is_ring h zs \<Longrightarrow> set zs \<inter> A = {} \<or> set zs \<subseteq> A"
  shows "rings_ok h'"
  unfolding rings_ok_def
proof (intro allI impI)
  fix a assume "a < ring_alloc h'"
  then have a: "a < ring_alloc h" and al: "ring_alloc h' = ring_alloc h" using at by (auto simp: only_at_def)
  show "\<exists>xs. is_ring h' (a # xs) \<and> set xs \<subseteq> {..<ring_alloc h'}"
  proof (cases "a \<in> A")
    case True
    then show ?thesis using new [of a] is_ring_from [of h' _ a] al by fastforce
  next
    case False
    obtain xs where xs: "is_ring h (a # xs)" "set (a # xs) \<subseteq> {..<ring_alloc h}" using ok a by (rule rings_okE)
    then have "is_ring h' (a # xs)" using old [OF xs(1)] False by (intro only_at_ring [OF at]) auto
    then show ?thesis using xs(2) al by auto
  qed
qed

lemma rings_ok_awake: "rings_ok h \<Longrightarrow> rings_ok (awake r h)"
  using only_at_awake [of r h] is_ring_awake unfolding rings_ok_def only_at_def by metis

lemma split_before: "s \<in> set (r # xs) \<Longrightarrow> \<exists>us ts. xs = us @ ts \<and> s = hd (ts @ [r])"
proof (cases "s = r")
  case True
  then show ?thesis by (intro exI [of _ xs] exI [of _ "[]"]) simp
next
  case False
  moreover assume "s \<in> set (r # xs)"
  ultimately obtain us vs where "xs = us @ s # vs" by (auto dest: split_list)
  then show ?thesis by (intro exI [of _ us] exI [of _ "s # vs"]) simp
qed

lemma rings_ok_Link:
  assumes ok: "rings_ok h" and r: "r < ring_alloc h" and s: "s < ring_alloc h"
  shows "\<exists>n h'. ring_Link (Some r) (Some s) h = Some (n, h') \<and> rings_ok h'"
proof -
  obtain xs where xs: "is_ring h (r # xs)" "set (r # xs) \<subseteq> {..<ring_alloc h}" using ok r by (rule rings_okE)
  obtain ys where ys: "is_ring h (s # ys)" "set (s # ys) \<subseteq> {..<ring_alloc h}" using ok s by (rule rings_okE)
  show ?thesis
  proof (cases "s \<in> set (r # xs)")
    case True
    then obtain us ts where us: "xs = us @ ts" "s = hd (ts @ [r])" using split_before by metis
    from Link_same [OF xs(1) [unfolded us(1)] us(2)] obtain h' where L:
      "ring_Link (Some r) (Some s) h = Some (Some (hd (us @ [s])), h')" "is_ring h' (r # ts)" "us \<noteq> [] \<Longrightarrow> is_ring h' us"
      "only_at (set (r # us @ ts)) h h'" by blast
    have "rings_ok h'"
    proof (rule rings_ok_change [OF ok L(4)])
      fix a assume "a \<in> set (r # us @ ts)"
      then show "\<exists>xs. is_ring h' xs \<and> a \<in> set xs \<and> set xs \<subseteq> {..<ring_alloc h}"
        using L(2,3) xs(2) us(1) by (cases "a \<in> set us") (fastforce simp: neq_Nil_conv)+
    next
      fix zs assume "is_ring h zs"
      then show "set zs \<inter> set (r # us @ ts) = {} \<or> set zs \<subseteq> set (r # us @ ts)"
        using is_ring_disjoint [OF _ xs(1)] us(1) by blast
    qed
    then show ?thesis using L(1) by blast
  next
    case False
    then have d: "set (r # xs) \<inter> set (s # ys) = {}" using is_ring_disjoint [OF xs(1) ys(1)] by (metis list.set_intros(1))
    from Link_other [OF xs(1) ys(1) d] obtain h' where L:
      "ring_Link (Some r) (Some s) h = Some (Some (hd (xs @ [r])), h')" "is_ring h' (r # s # ys @ xs)"
      "only_at (set (r # xs) \<union> set (s # ys)) h h'" by blast
    have "rings_ok h'"
    proof (rule rings_ok_change [OF ok L(3)])
      fix a assume "a \<in> set (r # xs) \<union> set (s # ys)"
      then show "\<exists>xs. is_ring h' xs \<and> a \<in> set xs \<and> set xs \<subseteq> {..<ring_alloc h}"
        using L(2) xs(2) ys(2) by (intro exI [of _ "r # s # ys @ xs"]) auto
    next
      fix zs assume "is_ring h zs"
      then show "set zs \<inter> (set (r # xs) \<union> set (s # ys)) = {} \<or> set zs \<subseteq> set (r # xs) \<union> set (s # ys)"
        using is_ring_disjoint [OF _ xs(1)] is_ring_disjoint [OF _ ys(1)] by blast
    qed
    then show ?thesis using L(1) by blast
  qed
qed

lemma rings_ok_Move:
  assumes ok: "rings_ok h" and r: "r < ring_alloc h"
  shows "\<exists>s. s < ring_alloc h \<and> ring_Move (Some r) n h = Some (Some s, awake r h)"
proof -
  obtain xs where xs: "is_ring h (r # xs)" "set (r # xs) \<subseteq> {..<ring_alloc h}" using ok r by (rule rings_okE)
  have "nat (n mod int (length (r # xs))) < length (r # xs)" by (simp add: nat_less_iff)
  from nth_mem [OF this] xs(2) have "(r # xs) ! nat (n mod int (length (r # xs))) < ring_alloc h" by blast
  then show ?thesis using Move_ring [OF xs(1), of n] by blast
qed

text \<open>New elements, with rings of their own, beside those there were.\<close>

lemma rings_ok_extend:
  assumes ok: "rings_ok h" and al: "ring_alloc h \<le> ring_alloc h'"
    and old: "\<And>a. a < ring_alloc h \<Longrightarrow> nx h' a = nx h a \<and> pv h' a = pv h a"
    and new: "\<And>a. ring_alloc h \<le> a \<Longrightarrow> a < ring_alloc h' \<Longrightarrow>
      \<exists>xs. is_ring h' xs \<and> a \<in> set xs \<and> set xs \<subseteq> {..<ring_alloc h'}"
  shows "rings_ok h'"
  unfolding rings_ok_def
proof (intro allI impI)
  fix a assume a: "a < ring_alloc h'"
  show "\<exists>xs. is_ring h' (a # xs) \<and> set xs \<subseteq> {..<ring_alloc h'}"
  proof (cases "a < ring_alloc h")
    case True
    with ok obtain xs where xs: "is_ring h (a # xs)" "set (a # xs) \<subseteq> {..<ring_alloc h}" by (rule rings_okE)
    have "is_ring h' (a # xs)" by (rule is_ring_cong [OF xs(1) old]) (use xs(2) in blast)
    then show ?thesis using xs(2) al by fastforce
  next
    case False
    then obtain xs where xs: "is_ring h' xs" "a \<in> set xs" "set xs \<subseteq> {..<ring_alloc h'}" using new [of a] a by auto
    from is_ring_from [OF xs(1,2)] xs(3) show ?thesis by fastforce
  qed
qed

lemma rings_ok_New: "rings_ok h \<Longrightarrow> rings_ok (snd (ring_New n h))"
proof (cases "0 < n")
  case True
  assume ok: "rings_ok h"
  let ?xs = "[ring_alloc h..<ring_alloc h + nat n]"
  obtain h' where N: "ring_New n h = (Some (hd ?xs), h')" "is_ring h' ?xs" "ring_alloc h' = ring_alloc h + nat n"
    "\<And>a. a \<notin> set ?xs \<Longrightarrow> ring_cells h' a = ring_cells h a" using New_ring [OF True] by blast
  have "rings_ok h'"
  proof (rule rings_ok_extend [OF ok])
    show "\<exists>xs. is_ring h' xs \<and> a \<in> set xs \<and> set xs \<subseteq> {..<ring_alloc h'}" if "ring_alloc h \<le> a" "a < ring_alloc h'" for a
      using N(2,3) that by (intro exI [of _ ?xs]) auto
  qed (use N(3,4) in auto)
  then show ?thesis using N(1) by simp
qed (simp add: ring_New_def)

lemma rings_ok_literal: "rings_ok h \<Longrightarrow> rings_ok (snd (new_Ring (zero_Ring\<lparr>rValue := v\<rparr>) h))"
  by (erule rings_ok_extend)
    (auto simp: new_Ring_def zero_Ring_def is_ring_def less_Suc_eq intro!: exI [of _ "[ring_alloc h]"])

lemma rings_ok_assign: "rings_ok h \<Longrightarrow> rings_ok (h\<lparr>ring_cells := (ring_cells h)(a := (ring_cells h a)\<lparr>rValue := v\<rparr>)\<rparr>)"
  by (erule rings_ok_extend) auto

section \<open>Clients\<close>

text \<open>The methods, by their receiver and arguments, and the store after a call.\<close>

datatype ring_call = CNext rptr | CPrev rptr | CMove rptr int | CLink rptr rptr | CUnlink rptr int | CLen rptr | CDo rptr

fun call_ring :: "ring_call \<Rightarrow> 'v rings \<Rightarrow> 'v rings option" where
  "call_ring (CNext p) h = map_option snd (ring_Next p h)"
| "call_ring (CPrev p) h = map_option snd (ring_Prev p h)"
| "call_ring (CMove p n) h = map_option snd (ring_Move p n h)"
| "call_ring (CLink p s) h = map_option snd (ring_Link p s h)"
| "call_ring (CUnlink p n) h = map_option snd (ring_Unlink p n h)"
| "call_ring (CLen p) h = map_option snd (ring_Len p h)"
| "call_ring (CDo p) h = map_option snd (ring_Do (\<lambda>_ _. ()) p h ())"

fun receiver :: "ring_call \<Rightarrow> rptr" where
  "receiver (CNext p) = p" | "receiver (CPrev p) = p" | "receiver (CMove p n) = p" | "receiver (CLink p s) = p"
| "receiver (CUnlink p n) = p" | "receiver (CLen p) = p" | "receiver (CDo p) = p"

text \<open>The pointers of a call are nil or have been allocated.\<close>

fun known :: "nat \<Rightarrow> ring_call \<Rightarrow> bool" where
  "known k (CLink p s) \<longleftrightarrow> (\<forall>a. p = Some a \<or> s = Some a \<longrightarrow> a < k)"
| "known k c \<longleftrightarrow> (\<forall>a. receiver c = Some a \<longrightarrow> a < k)"

text \<open>The stores a client can make: with New, with elements of its own, and with the methods.\<close>

inductive ring_reach :: "'v rings \<Rightarrow> bool" where
  start: "ring_reach no_rings"
| make: "ring_reach h \<Longrightarrow> ring_reach (snd (ring_New n h))"
| literal: "ring_reach h \<Longrightarrow> ring_reach (snd (new_Ring (zero_Ring\<lparr>rValue := v\<rparr>) h))"
| assign: "ring_reach h \<Longrightarrow> ring_reach (h\<lparr>ring_cells := (ring_cells h)(a := (ring_cells h a)\<lparr>rValue := v\<rparr>)\<rparr>)"
| call: "ring_reach h \<Longrightarrow> known (ring_alloc h) c \<Longrightarrow> call_ring c h = Some h' \<Longrightarrow> ring_reach h'"

text \<open>A call on an element of a good store returns and leaves a good store.\<close>

lemma rings_ok_call:
  assumes ok: "rings_ok h" and k: "known (ring_alloc h) c" and r: "receiver c = Some r"
  shows "\<exists>h'. call_ring c h = Some h' \<and> rings_ok h'"
proof -
  have a: "r < ring_alloc h" using k r by (cases c) auto
  obtain xs where xs: "is_ring h (r # xs)" using ok a by (rule rings_okE)
  have al: "ring_alloc (awake r h) = ring_alloc h" using only_at_awake [of r h] by (simp add: only_at_def)
  show ?thesis
  proof (cases c)
    case (CLink p s)
    show ?thesis
    proof (cases s)
      case None
      then show ?thesis using CLink r rings_ok_awake [OF ok, of r] by (simp add: ring_Link_def Next_awake)
    next
      case (Some b)
      then have "b < ring_alloc h" using CLink k by simp
      then show ?thesis using rings_ok_Link [OF ok a, of b] CLink r Some by auto
    qed
  next
    case (CUnlink p n)
    obtain s where "s < ring_alloc h" "ring_Move (Some r) (sint (word_of_int (n + 1) :: 64 word)) h = Some (Some s, awake r h)"
      using rings_ok_Move [OF ok a] by blast
    then show ?thesis using r CUnlink rings_ok_Link [OF rings_ok_awake [OF ok, of r], of r s] a al ok
      by (auto simp: ring_Unlink_def)
  next
    case (CMove p n)
    then show ?thesis using r rings_ok_Move [OF ok a, of n] rings_ok_awake [OF ok, of r] by auto
  qed (use r rings_ok_awake [OF ok, of r] Len_Do_ring(1) [OF xs] Len_Do_ring(2) [OF xs, of "\<lambda>_ _. ()" "()"] in \<open>auto simp: Next_awake Prev_awake\<close>)
qed

lemma nil_call: "receiver c = None \<Longrightarrow> call_ring c h = Some h' \<Longrightarrow> h' = h"
  by (cases c) (auto simp: ring_Next_def ring_Prev_def ring_Move_def ring_Link_def ring_Unlink_def ring_Len_def ring_Do_def
      split: if_splits)

lemma reach_ok: "ring_reach h \<Longrightarrow> rings_ok h"
proof (induction rule: ring_reach.induct)
  case start
  then show ?case by (simp add: rings_ok_def no_rings_def)
next
  case (call h c h')
  show ?case
  proof (cases "receiver c")
    case None
    then show ?thesis using nil_call call by metis
  next
    case (Some r)
    from rings_ok_call [OF call.IH call.hyps(2) this] call.hyps(3) show ?thesis by auto
  qed
qed (simp_all add: rings_ok_New rings_ok_literal rings_ok_assign)

lemma ring_of_three: "is_ring (snd (ring_New 3 (no_rings :: int rings))) [0, 1, 2]"
proof -
  have "(0 :: int) < 3" by simp
  from New_ring [OF this, of "no_rings :: int rings"] obtain h' :: "int rings" where
    "snd (ring_New 3 no_rings) = h'" "is_ring h' [ring_alloc (no_rings :: int rings)..<ring_alloc (no_rings :: int rings) + nat 3]"
    by (metis snd_conv)
  moreover have "[ring_alloc (no_rings :: int rings)..<ring_alloc (no_rings :: int rings) + nat 3] = [0, 1, 2]"
    by (simp add: no_rings_def upt_rec)
  ultimately show ?thesis by metis
qed

section \<open>Results\<close>

text \<open>
  C11. The loops of package ring end: in every store that calls of the package can make, an element is in a ring, any
  call on it returns without a panic, Len returns the number of elements of the ring, and Do calls
  the function on their values, once each, in the order of the ring from that element on.
\<close>
theorem ring_returns:
  assumes "ring_reach h" "r < ring_alloc h"
  shows "\<exists>xs h'. is_ring h (r # xs) \<and> ring_Len (Some r) h = Some (length (r # xs), h') \<and>
      ring_Do f (Some r) h s = Some (fold f (map (val h) (r # xs)) s, h') \<and>
      (\<forall>c. known (ring_alloc h) c \<and> receiver c = Some r \<longrightarrow> (\<exists>h''. call_ring c h = Some h'' \<and> ring_reach h''))"
proof -
  have ok: "rings_ok h" using assms(1) by (rule reach_ok)
  obtain xs where xs: "is_ring h (r # xs)" using ok assms(2) by (rule rings_okE)
  have "\<forall>c. known (ring_alloc h) c \<and> receiver c = Some r \<longrightarrow> (\<exists>h''. call_ring c h = Some h'' \<and> ring_reach h'')"
    using rings_ok_call [OF ok] ring_reach.call [OF assms(1)] by blast
  then show ?thesis using xs Len_Do_ring(1) [OF xs] Len_Do_ring(2) [OF xs, of f s] by blast
qed

theorem ring_returns_witness:
  "ring_reach (snd (ring_New 3 (no_rings :: int rings))) \<and> 1 < ring_alloc (snd (ring_New 3 (no_rings :: int rings))) \<and>
   (\<exists>h'. ring_Len (Some 1) (snd (ring_New 3 (no_rings :: int rings))) = Some (3, h'))"
proof -
  let ?h = "snd (ring_New 3 (no_rings :: int rings))"
  have h: "ring_reach ?h" "1 < ring_alloc ?h" by (intro ring_reach.intros) code_simp
  obtain xs h' where R: "is_ring ?h (1 # xs)" "ring_Len (Some 1) ?h = Some (length (1 # xs), h')"
    using ring_returns [OF h, of "\<lambda>_ _. ()" "()"] by blast
  have "set (1 # xs) = {0, 1, 2}" using is_ring_disjoint [OF R(1) ring_of_three] by simp
  then have "length (1 # xs) = 3" using is_ring_distinct [OF R(1)] distinct_card [of "1 # xs"] by simp
  then show ?thesis using h R(2) by metis
qed

text \<open>
  C10. Link and Unlink do to rings what they say. Linking to an element of another ring inserts that ring after the
  receiver; linking to an element of the same ring cuts out the elements between, which form a ring of
  their own; Unlink cuts out \<open>n\<close> elements, modulo the length, after the receiver, and Move goes \<open>n\<close> elements
  forward or backward, modulo the length. All other rings and all values stay as they are.
\<close>
theorem ring_operations:
  assumes "is_ring h (r # xs)"
  shows "(\<forall>s ys. is_ring h (s # ys) \<and> set (r # xs) \<inter> set (s # ys) = {} \<longrightarrow>
      (\<exists>h'. ring_Link (Some r) (Some s) h = Some (Some (hd (xs @ [r])), h') \<and> is_ring h' (r # s # ys @ xs) \<and>
        only_at (set (r # xs) \<union> set (s # ys)) h h')) \<and>
    (\<forall>us ts. xs = us @ ts \<longrightarrow>
      (\<exists>h'. ring_Link (Some r) (Some (hd (ts @ [r]))) h = Some (Some (hd (xs @ [r])), h') \<and> is_ring h' (r # ts) \<and>
        (us \<noteq> [] \<longrightarrow> is_ring h' us) \<and> only_at (set (r # xs)) h h')) \<and>
    (\<forall>n k. 0 < n \<and> n < 2 ^ 63 - 1 \<and> k = nat (n mod int (length (r # xs))) \<longrightarrow>
      (\<exists>h'. ring_Unlink (Some r) n h = Some (Some (hd (xs @ [r])), h') \<and> is_ring h' (r # drop k xs) \<and>
        (0 < k \<longrightarrow> is_ring h' (take k xs)) \<and> only_at (set (r # xs)) h h')) \<and>
    (\<forall>n. \<exists>h'. ring_Move (Some r) n h = Some (Some ((r # xs) ! nat (n mod int (length (r # xs)))), h') \<and>
      is_ring h' (r # xs) \<and> only_at {r} h h')"
proof (intro conjI allI impI)
  fix s ys assume "is_ring h (s # ys) \<and> set (r # xs) \<inter> set (s # ys) = {}"
  then show "\<exists>h'. ring_Link (Some r) (Some s) h = Some (Some (hd (xs @ [r])), h') \<and> is_ring h' (r # s # ys @ xs) \<and>
      only_at (set (r # xs) \<union> set (s # ys)) h h'" using Link_other [OF assms, of s ys] by metis
next
  fix us ts assume x: "xs = us @ ts"
  then have "hd (us @ [hd (ts @ [r])]) = hd (xs @ [r])" by (cases us) auto
  then show "\<exists>h'. ring_Link (Some r) (Some (hd (ts @ [r]))) h = Some (Some (hd (xs @ [r])), h') \<and> is_ring h' (r # ts) \<and>
      (us \<noteq> [] \<longrightarrow> is_ring h' us) \<and> only_at (set (r # xs)) h h'"
    using Link_same [of h r us ts, OF _ refl] assms unfolding x by metis
next
  fix n k assume "0 < n \<and> n < 2 ^ 63 - 1 \<and> k = nat (n mod int (length (r # xs)))"
  then show "\<exists>h'. ring_Unlink (Some r) n h = Some (Some (hd (xs @ [r])), h') \<and> is_ring h' (r # drop k xs) \<and>
      (0 < k \<longrightarrow> is_ring h' (take k xs)) \<and> only_at (set (r # xs)) h h'" using Unlink_ring [OF assms, of n] by metis
next
  fix n
  show "\<exists>h'. ring_Move (Some r) n h = Some (Some ((r # xs) ! nat (n mod int (length (r # xs)))), h') \<and>
      is_ring h' (r # xs) \<and> only_at {r} h h'"
    using Move_ring [OF assms, of n] is_ring_awake [OF assms] only_at_awake by blast
qed

theorem ring_operations_witness:
  "\<exists>h'. ring_Unlink (Some 0) 4 (snd (ring_New 3 (no_rings :: int rings))) = Some (Some 1, h') \<and>
     is_ring h' [0, 2] \<and> is_ring h' [1]"
  using ring_operations [OF ring_of_three] by (elim conjE allE [of _ "4 :: int"] allE [of _ "1 :: nat"]) (simp, metis)

text \<open>
  The largest int: \<open>n + 1\<close> wraps around, Move goes backward, and Unlink of \<open>2 ^ 63 - 1\<close> elements removes
  none from a ring of three, although \<open>n % r.Len()\<close> is one.
\<close>

theorem ring_Unlink_wraps:
  "(2 ^ 63 - 1) mod (3 :: int) = 1"
  "\<exists>h'. ring_Unlink (Some 0) (2 ^ 63 - 1) (snd (ring_New 3 (no_rings :: int rings))) = Some (Some 1, h') \<and> is_ring h' [0, 1, 2]"
proof -
  let ?h = "snd (ring_New 3 (no_rings :: int rings))"
  have "sint (word_of_int (2 ^ 63 - 1 + 1) :: 64 word) = - (2 ^ 63)" by simp
  moreover have "ring_Move (Some 0) (- (2 ^ 63)) ?h = Some (Some 1, awake 0 ?h)"
    using Move_ring [OF ring_of_three, of "- (2 ^ 63)"] by simp
  moreover have "is_ring (awake 0 ?h) (0 # [] @ [1, 2])" using is_ring_awake [OF ring_of_three, of 0] by simp
  from Link_same [OF this, of 1] obtain h' where "ring_Link (Some 0) (Some 1) (awake 0 ?h) = Some (Some 1, h')" "is_ring h' [0, 1, 2]"
    by auto
  ultimately show "\<exists>h'. ring_Unlink (Some 0) (2 ^ 63 - 1) ?h = Some (Some 1, h') \<and> is_ring h' [0, 1, 2]"
    by (simp add: ring_Unlink_def)
qed simp

end
