(* ===== verification/Spec2Isabelle.thy ===== *)
theory Spec2Isabelle
  imports Sorting PriorityQueue Utf16 ListSpec BinaryCorrect RWMutexProps Once WaitGroupProps Buffer BytesEquiv Hex Strconv ReaderSpec Hashes RingSpec
begin

text \<open>
  Verification of core packages of the Go 1.2 standard library, with the additions this repository has
  taken over from later releases (the files named \<open>*_compatible.go\<close>).

  \<^bold>\<open>The program.\<close> The repository is a Go distribution: the runtime and the compilers in C and assembly, the
  commands, and under src/src/pkg the standard library in Go. The development is about the part of that
  library the rest of it stands on: sorting and the containers, the Unicode encodings, strings and byte
  slices, the binary encodings, the checksums, and the locks of package sync. These packages call each other: container/heap
  is a client of sort's interface; strings and bytes decode runes with unicode/utf8; bytes.Buffer calls
  utf8 and the byte search; encoding/base64 calls strings.Map, bytes.Map and io.ReadAtLeast; hex.Dump
  writes to a bytes.Buffer; RWMutex and
  Once contain a Mutex. The theories import each other along these calls.

  \<^bold>\<open>Conventions.\<close> A byte, rune, uint16, uint32 or uint64 is a word of its width, and a Go int is 64 bits
  wide where its overflow matters (heap, Repeat) and a natural number or integer where the code keeps it
  small. A slice or string is a list; an array the code fills keeps its length. A function that can panic
  returns an option, None being the panic; an error result is an option or a sum. Loops are recursive
  functions with their termination proved, so that every operation is total and no fuel is used, but for the
  loops of ring.Len and ring.Do, partial functions that are shown to return on every ring; the one
  fixed extra exit is that of \<open>down\<close> (HeapPkg) for an index no int can hold. Readers and writers passed
  in are the lists of results of their calls. Every operation is executable.

  \<^bold>\<open>Theories.\<close>

  \<^item> Prelude holds the type synonyms, permutations and sortedness of a range of a list; WordBits reads
    bit fields as arithmetic.

  \<^item> sort (sort.go, zfuncversion_compatible.go, sort_compatible.go, search.go): SortDefs and SortFunc are the
    code. A sort.Interface is a record of methods over a state. The locales of SortContract are what the
    package relies on (the methods act on a list; the comparison is a strict weak order); HeapSort,
    QuickSort and StableSort prove heapSort, quickSort and the SymMerge-based Stable inside them; SortFunc shows
    that the generated func variants compute the same; Sorting has the theorems and the interpretations
    for the slice types, and Search.

  \<^item> container/heap (heap.go): HeapPkg is the code over a record that extends sort's interface, with the
    contract \<open>heap_data\<close>; PriorityQueue shows that it refines a priority queue on multisets.

  \<^item> unicode/utf8 (utf8.go): Utf8 is the code, Utf8Codec relates it to the encoding on numbers, Utf8Text is about
    whole texts. unicode/utf16 (utf16.go): Utf16.

  \<^item> container/list (list.go): ListPkg is the code on a store of elements and list headers, with the
    pointers as the code has them; ListCorrect has the ring invariant and what each pointer
    operation does to it; ListSpec the refinement of sequences, for any number of lists at once.
    container/ring (ring.go): RingPkg is the code; RingCorrect shows that the operations cut and join cycles
    of pointers, RingSpec that every store the package makes consists of rings. Chains has the
    doubly linked chains and cycles both packages are about.

  \<^item> encoding/binary (binary.go, varint.go): BinaryDefs has the byte orders, BinaryData the
    values and types, Read, Write and Size with their fast paths; Varint and BinaryCorrect the theorems.

  \<^item> sync (mutex.go, rwmutex.go, once.go, waitgroup.go): the steps between atomic operations of any number of
    goroutines, each with a program counter. Tally counts the goroutines at a place, with the semaphores
    and compare-and-swap; Mutex packs the state word and has the invariant; MutexProps shows mutual
    exclusion, that no wakeup is lost, and the refinement of an abstract lock, which RWMutex and Once rely
    on through the locale \<open>mutex_client\<close>; RWMutexProps and Once have their theorems. WaitGroup is the
    code of the type of that name, its semaphores allocated by Wait, and WaitGroupProps shows that it waits
    and loses no wakeup, and a run in which it is used again too early.

  \<^item> strings (strings.go): StringDefs and StringRunes are the code; StringSearch shows the Rabin-Karp
    searches right; StringSplit is about Split, Join, Replace and Repeat; StringRunes about the functions
    that work rune by rune.

  \<^item> bytes: BufferDefs and Buffer are bytes.Buffer (buffer.go) and its refinement of a queue of bytes;
    BytesDefs is bytes.go, and BytesEquiv shows that it computes what strings computes. ReaderDefs has the
    Reader of strings and that of bytes (reader.go), and ReaderSpec that both refine a cursor in a text,
    through the locale \<open>simulation\<close>.

  \<^item> encoding/base64 (base64.go, base64_compatible.go): Base64Defs is the code; Base64 the encoding of
    RFC 4648, which Encode is shown to compute, and the locale \<open>base64_encoding\<close>, what encoder and decoder
    need of an Encoding, interpreted on the four encodings of the package; Base64Decode is about decoding;
    Base64Stream and Base64Reader are the stream encoder and decoder and the theorems.

  \<^item> encoding/hex (hex.go): HexDefs is the code, the dumper over any writer; Hex has the theorems, and the
    locale \<open>dump_writer\<close>, what the dumper needs of its writer, interpreted on bytes.Buffer and on a writer
    that reports no error.

  \<^item> strconv (atoi.go, itoa.go, atob.go): StrconvDefs is the code; Strconv has the numerals and their values,
    that the three loops of formatBits write them, what the parsers answer, and the round trips.

  \<^item> hash (adler32.go, crc32.go, crc32_generic.go, crc64.go, fnv.go): HashDefs is the code; Adler shows that the
    sums of Adler-32 do not overflow; Hashes has the bit-serial CRC the tables compute, and the locale
    \<open>streaming_hash\<close>, a hash whose step is injective in the state and in the byte, interpreted on Adler-32,
    the five CRC polynomials and the four FNV hashes. What Sum writes is read by encoding/binary.

  \<^bold>\<open>What the theorems show.\<close> Sort, Stable and their variants sort and permute, stably where they say so, for every
  collection that keeps the contract; the heap operations keep the heap and return least elements; the
  UTF-8 and UTF-16 codecs invert each other and accept exactly the valid texts; list operations refine
  operations on sequences, and ring operations cut and join rings; integers are written in every base and read back; the binary encodings, base64 and hex decode what they encode, report what is
  malformed, and do the same on a stream in any pieces; the searches of strings and bytes find first,
  last and non-overlapping matches, and splitting and joining invert each other; Buffer is a queue of
  bytes and a Reader a cursor in a text; the checksums are those of their specifications, however the data is
  cut, and detect a changed byte; Mutex, RWMutex and Once exclude, do not lose wakeups and run the function
  once, and a WaitGroup waits.
  Theorems named \<open>_deviations\<close>, \<open>_faults\<close>, \<open>_misuse\<close>, \<open>_wraps\<close> and \<open>_Read_value\<close> are about inputs on which the code departs from
  its documentation.

  \<^bold>\<open>Not modelled.\<close> The runtime, the compilers and the linkers are not Go. Packages over the
  operating system or the network (os, syscall, net, net/http, database/sql, the commands) are input and
  output; reflection and what is built on it (fmt, encoding/json, xml, gob, text/template) needs the
  layout of the runtime's types; unicode's tables, html/entity.go and the HTTP/2 bundle are generated or
  third-party. Of the packages modelled, these are left out: the case mappings and EqualFold of strings
  and bytes, which need unicode's tables; Float64Slice, whose order is that of floating point; the texts of
  error values; the race detector's hooks. Memory is taken to suffice and slices not to alias except
  where the code relies on it (the array behind a Buffer, the store of a list).

  \<^bold>\<open>Plan.\<close> Cond of package sync; encoding/base32; bufio.
\<close>

end
